(* ===== verification/NG_Prelude.thy ===== *)
theory NG_Prelude
  imports Main "HOL-Library.Word" "HOL-Library.List_Lexorder"
begin

text \<open>
  Shared vocabulary of the development: byte strings and their order, results with errors,
  panics and divergence, the parts of Rust's standard library that several components call
  (vector insertion and removal, binary search, little- and big-endian integers), and the
  collections of rewrite rules the component proofs use.
\<close>

named_theorems rust_simps \<open>unfolding of the standard-library operations\<close>

section \<open>Types\<close>

text \<open>
  \<open>Vec<u8>\<close> and \<open>&[u8]\<close> are byte lists. Rust compares them lexicographically, which is the
  order of \<open>HOL-Library.List_Lexorder\<close> on \<open>8 word list\<close>. Lengths and indices (\<open>usize\<close>) are
  natural numbers: they are bounded by the memory that holds the vector.
\<close>

type_synonym u8 = "8 word"
type_synonym u16 = "16 word"
type_synonym u32 = "32 word"
type_synonym u64 = "64 word"
type_synonym u128 = "128 word"
type_synonym bytes = "u8 list"
type_synonym entry_list = "(bytes \<times> bytes) list"

text \<open>
  A call returns a value, returns an error of the crate, panics, or does not return. The last
  case arises only for loops that follow pointers; it is the value of a loop whose fuel ran out.
\<close>

datatype 'e fault = Raised 'e | Panicked | Diverged

type_synonym ('e, 'a) res = "'e fault + 'a"

abbreviation Ok :: "'a \<Rightarrow> ('e, 'a) res" where "Ok \<equiv> Inr"
abbreviation Err :: "'e \<Rightarrow> ('e, 'a) res" where "Err e \<equiv> Inl (Raised e)"

text \<open>
  The \<open>?\<close> operator on a call that also changes the state: the changes made before an error stay.
\<close>

definition and_then ::
  "'s \<times> ('e, 'a) res \<Rightarrow> ('s \<Rightarrow> 'a \<Rightarrow> 's \<times> ('e, 'b) res) \<Rightarrow> 's \<times> ('e, 'b) res" where
  "and_then r k = (case r of (s, Inl f) \<Rightarrow> (s, Inl f) | (s, Inr a) \<Rightarrow> k s a)"

lemma and_then_simps [simp]:
  "and_then (s, Inl f) k = (s, Inl f)" "and_then (s, Ok a) k = k s a"
  by (simp_all add: and_then_def)

text \<open>Decimal rendering of an identifier in an error message.\<close>

fun nat_to_string :: "nat \<Rightarrow> string" where
  "nat_to_string n =
     (if n < 10 then [char_of (48 + n)] else nat_to_string (n div 10) @ [char_of (48 + n mod 10)])"

declare nat_to_string.simps [simp del]

section \<open>Vectors\<close>

definition vec_insert :: "nat \<Rightarrow> 'a \<Rightarrow> 'a list \<Rightarrow> 'a list" where
  "vec_insert i x xs = take i xs @ x # drop i xs"

definition vec_remove :: "nat \<Rightarrow> 'a list \<Rightarrow> 'a list" where
  "vec_remove i xs = take i xs @ drop (Suc i) xs"

text \<open>\<open>iter().position(|&y| y == x)\<close>\<close>

primrec position :: "'a \<Rightarrow> 'a list \<Rightarrow> nat option" where
  "position x [] = None"
| "position x (y # ys) = (if x = y then Some 0 else map_option Suc (position x ys))"

lemma vec_insert_append [rust_simps]:
  "i = length xs \<Longrightarrow> vec_insert i x (xs @ ys) = xs @ x # ys"
  by (simp add: vec_insert_def)

lemma vec_remove_append [rust_simps]:
  "i = length xs \<Longrightarrow> vec_remove i (xs @ x # ys) = xs @ ys"
  by (simp add: vec_remove_def)

lemma length_vec_insert [simp]: "i \<le> length xs \<Longrightarrow> length (vec_insert i x xs) = Suc (length xs)"
  by (simp add: vec_insert_def)

lemma position_append [rust_simps]:
  "x \<notin> set xs \<Longrightarrow> position x (xs @ x # ys) = Some (length xs)"
  by (induction xs) auto

lemma position_None: "position x xs = None \<longleftrightarrow> x \<notin> set xs"
  by (induction xs) auto

lemma position_Some: "position x xs = Some i \<Longrightarrow> i < length xs \<and> xs ! i = x"
  by (induction xs arbitrary: i) (auto split: if_splits)

section \<open>Binary search\<close>

text \<open>
  \<open>slice::binary_search_by\<close>: the loop halves a window \<open>[base, base + sz)\<close> and compares once
  more at the end. \<open>Inr i\<close> is \<open>Ok(i)\<close> and \<open>Inl i\<close> is \<open>Err(i)\<close>.
\<close>

datatype ordering = Less | Equal | Greater

definition cmp :: "'a::linorder \<Rightarrow> 'a \<Rightarrow> ordering" where
  "cmp a b = (if a < b then Less else if a = b then Equal else Greater)"

lemma cmp_simps [simp]:
  "cmp a b = Less \<longleftrightarrow> a < b" "cmp a b = Equal \<longleftrightarrow> a = b" "cmp a b = Greater \<longleftrightarrow> b < a"
  by (auto simp: cmp_def)

function bsearch_base :: "('a \<Rightarrow> ordering) \<Rightarrow> 'a list \<Rightarrow> nat \<Rightarrow> nat \<Rightarrow> nat" where
  "bsearch_base f xs base sz =
     (if sz \<le> 1 then base
      else let half = sz div 2; mid = base + half
           in bsearch_base f xs (if f (xs ! mid) = Greater then base else mid) (sz - half))"
  by pat_completeness auto
termination
  by (relation "measure (\<lambda>(f, xs, base, sz). sz)") auto

declare bsearch_base.simps [simp del]

lemma bsearch_base_one: "bsearch_base f xs base (Suc 0) = base"
  by (subst bsearch_base.simps) simp

definition binary_search_by :: "('a \<Rightarrow> ordering) \<Rightarrow> 'a list \<Rightarrow> nat + nat" where
  "binary_search_by f xs =
     (if xs = [] then Inl 0
      else let base = bsearch_base f xs 0 (length xs)
           in if f (xs ! base) = Equal then Inr base
              else Inl (base + (if f (xs ! base) = Less then 1 else 0)))"

text \<open>The reference definition: the first position whose key is not below the sought one.\<close>

definition lower_bound :: "('a \<Rightarrow> 'k::linorder) \<Rightarrow> 'k \<Rightarrow> 'a list \<Rightarrow> nat" where
  "lower_bound key k xs = length (takeWhile (\<lambda>x. key x < k) xs)"

lemma lower_bound_le: "lower_bound key k xs \<le> length xs"
  by (simp add: lower_bound_def length_takeWhile_le)

lemma bsearch_base_window:
  assumes "sorted_wrt (\<lambda>x y. key x < key y) xs" "0 < sz" "base + sz \<le> length xs"
    and "\<forall>i < base. key (xs ! i) < (k::'k::linorder)"
    and "\<forall>i. base + sz \<le> i \<and> i < length xs \<longrightarrow> k < key (xs ! i)"
  shows "let b = bsearch_base (\<lambda>x. cmp (key x) k) xs base sz
         in b < length xs \<and> (\<forall>i < b. key (xs ! i) < k)
            \<and> (\<forall>i. b < i \<and> i < length xs \<longrightarrow> k < key (xs ! i))"
  using assms
proof (induction "\<lambda>x. cmp (key x) k" xs base sz rule: bsearch_base.induct)
  case (1 xs base sz)
  have mono: "i < j \<Longrightarrow> j < length xs \<Longrightarrow> key (xs ! i) < key (xs ! j)" for i j
    using sorted_wrt_nth_less [OF "1.prems"(1), of i j] by simp
  show ?case
  proof (cases "sz \<le> 1")
    case True
    with "1.prems" have "sz = 1" by simp
    with "1.prems" show ?thesis by (auto simp: Let_def bsearch_base_one)
  next
    case False
    define mid where "mid = base + sz div 2"
    have mid: "mid < length xs" "base < mid" "mid < base + sz"
      using False "1.prems"(3) by (auto simp: mid_def)
    show ?thesis
    proof (cases "k < key (xs ! mid)")
      case True
      have above: "k < key (xs ! i)" if "base + (sz - sz div 2) \<le> i" "i < length xs" for i
      proof -
        have "mid \<le> i" using that(1) by (simp add: mid_def)
        with True mono [of mid i] that(2) show ?thesis by (cases "mid = i") auto
      qed
      have "let b = bsearch_base (\<lambda>x. cmp (key x) k) xs base (sz - sz div 2)
         in b < length xs \<and> (\<forall>i < b. key (xs ! i) < k)
            \<and> (\<forall>i. b < i \<and> i < length xs \<longrightarrow> k < key (xs ! i))"
        using "1.hyps" [OF False refl mid_def] True "1.prems" above False by simp
      with False True show ?thesis
        by (simp add: bsearch_base.simps [of _ xs base sz] Let_def flip: mid_def)
    next
      case ge: False
      have below: "key (xs ! i) < k" if "i < mid" for i
        using mono [OF that mid(1)] ge by simp
      have eq: "mid + (sz - sz div 2) = base + sz"
        by (simp add: mid_def)
      have "let b = bsearch_base (\<lambda>x. cmp (key x) k) xs mid (sz - sz div 2)
         in b < length xs \<and> (\<forall>i < b. key (xs ! i) < k)
            \<and> (\<forall>i. b < i \<and> i < length xs \<longrightarrow> k < key (xs ! i))"
        using "1.hyps" [OF False refl mid_def] ge "1.prems" below False eq by simp
      with False ge show ?thesis
        by (simp add: bsearch_base.simps [of _ xs base sz] Let_def flip: mid_def)
    qed
  qed
qed


lemma lower_bound_unique:
  assumes "b \<le> length xs" "\<forall>i < b. key (xs ! i) < k" "b < length xs \<Longrightarrow> \<not> key (xs ! b) < k"
  shows "lower_bound key k xs = b"
proof -
  have "takeWhile (\<lambda>x. key x < k) xs = take b xs"
  proof (rule takeWhile_eq_take_P_nth)
    fix i assume "i < b" "i < length xs"
    with assms(2) show "key (xs ! i) < k" by simp
  next
    assume "b < length xs"
    with assms(3) show "\<not> key (xs ! b) < k" .
  qed
  with assms(1) show ?thesis by (simp add: lower_bound_def)
qed

theorem binary_search_by_lower_bound:
  assumes "sorted_wrt (\<lambda>x y. key x < key y) xs"
  shows "binary_search_by (\<lambda>x. cmp (key x) k) xs =
    (let i = lower_bound key k xs
     in if i < length xs \<and> key (xs ! i) = k then Inr i else Inl i)"
proof (cases "xs = []")
  case True
  then show ?thesis by (simp add: binary_search_by_def lower_bound_def)
next
  case False
  define b where "b = bsearch_base (\<lambda>x. cmp (key x) k) xs 0 (length xs)"
  have all_beyond: "\<forall>i. 0 + length xs \<le> i \<and> i < length xs \<longrightarrow> k < key (xs ! i)" by auto
  have b: "b < length xs" "\<forall>i < b. key (xs ! i) < k" "\<forall>i. b < i \<and> i < length xs \<longrightarrow> k < key (xs ! i)"
    using bsearch_base_window [OF assms _ _ _ all_beyond] False
    by (simp_all add: b_def Let_def)
  show ?thesis
  proof (cases "key (xs ! b) < k")
    case True
    have "lower_bound key k xs = Suc b"
    proof (rule lower_bound_unique)
      show "\<forall>i < Suc b. key (xs ! i) < k" using b(2) True by (simp add: less_Suc_eq)
      show "\<not> key (xs ! Suc b) < k" if "Suc b < length xs" using b(3) that by (simp add: less_imp_not_less)
    qed (use b(1) in simp)
    moreover have "Suc b < length xs \<Longrightarrow> key (xs ! Suc b) \<noteq> k" using b(3) by auto
    ultimately show ?thesis
      using False True by (auto simp: binary_search_by_def Let_def simp flip: b_def)
  next
    case ge: False
    have "lower_bound key k xs = b"
      using b ge by (intro lower_bound_unique) auto
    with False ge b(1) show ?thesis
      by (auto simp: binary_search_by_def Let_def simp flip: b_def)
  qed
qed

lemma lower_bound_append:
  "\<forall>x \<in> set xs. key x < k \<Longrightarrow> (case ys of [] \<Rightarrow> True | y # _ \<Rightarrow> \<not> key y < k) \<Longrightarrow>
   lower_bound key k (xs @ ys) = length xs"
  by (cases ys) (auto simp: lower_bound_def takeWhile_append2 takeWhile_eq_all_conv [THEN iffD2])

section \<open>Sorted association lists\<close>

text \<open>
  The specification of every ordered map of the program: a list of pairs with strictly
  increasing keys, \<open>al_put\<close> replacing or inserting a pair, \<open>al_del\<close> removing one. Both are
  written with filters, so that they distribute over the concatenation of ordered pieces.
\<close>

abbreviation ksorted :: "('k::linorder \<times> 'v) list \<Rightarrow> bool" where
  "ksorted es \<equiv> sorted_wrt (<) (map fst es)"

definition al_put :: "'k::linorder \<Rightarrow> 'v \<Rightarrow> ('k \<times> 'v) list \<Rightarrow> ('k \<times> 'v) list" where
  "al_put k v es = filter (\<lambda>e. fst e < k) es @ (k, v) # filter (\<lambda>e. k < fst e) es"

definition al_del :: "'k \<Rightarrow> ('k \<times> 'v) list \<Rightarrow> ('k \<times> 'v) list" where
  "al_del k es = filter (\<lambda>e. fst e \<noteq> k) es"

lemma map_of_filter_key:
  "map_of (filter (\<lambda>e. P (fst e)) es) x = (if P x then map_of es x else None)"
  by (induction es) auto

lemma map_of_al_put [simp]: "map_of (al_put k v es) = (map_of es)(k \<mapsto> v)"
proof
  fix x
  show "map_of (al_put k v es) x = ((map_of es)(k \<mapsto> v)) x"
    using map_of_filter_key [of "\<lambda>x. x < k" es x] map_of_filter_key [of "\<lambda>x. k < x" es x]
    by (cases x k rule: linorder_cases) (auto simp: al_put_def map_add_def split: option.splits)
qed

lemma map_of_al_del [simp]: "map_of (al_del k es) = (map_of es)(k := None)"
  using map_of_filter_key [of "\<lambda>x. x \<noteq> k" es] by (auto simp: al_del_def)

lemma ksorted_filter: "ksorted es \<Longrightarrow> ksorted (filter P es)"
  by (induction es) auto

lemma ksorted_al_put: "ksorted es \<Longrightarrow> ksorted (al_put k v es)"
  by (auto simp: al_put_def sorted_wrt_append ksorted_filter)

lemma ksorted_al_del: "ksorted es \<Longrightarrow> ksorted (al_del k es)"
  by (simp add: al_del_def ksorted_filter)

lemma set_al_put_keys: "fst ` set (al_put k v es) = insert k (fst ` set es)"
  by (force simp: al_put_def)

lemma length_al_put:
  "length (al_put k v es) = (if k \<in> fst ` set es then length es else Suc (length es))"
  if "ksorted es"
  using that
proof (induction es)
  case (Cons e es)
  then have "k \<le> fst e \<Longrightarrow> filter (\<lambda>e. fst e < k) es = []" and "k \<le> fst e \<Longrightarrow> filter (\<lambda>e. k < fst e) es = es"
    by (force simp: filter_empty_conv intro: filter_True)+
  with Cons show ?case by (cases "fst e" k rule: linorder_cases) (auto simp: al_put_def)
qed (simp add: al_put_def)

lemma al_put_append_left:
  "\<forall>e \<in> set ys. k < fst e \<Longrightarrow> al_put k v (xs @ ys) = al_put k v xs @ ys"
  by (force simp: al_put_def filter_empty_conv intro: filter_True)

lemma al_put_append_right:
  "\<forall>e \<in> set xs. fst e < k \<Longrightarrow> al_put k v (xs @ ys) = xs @ al_put k v ys"
  by (force simp: al_put_def filter_empty_conv intro: filter_True)

lemma al_del_append [simp]: "al_del k (xs @ ys) = al_del k xs @ al_del k ys"
  by (simp add: al_del_def)

lemma al_del_absent: "k \<notin> fst ` set es \<Longrightarrow> al_del k es = es"
  by (force simp: al_del_def intro: filter_True)

lemma map_of_None_iff: "map_of es k = None \<longleftrightarrow> k \<notin> fst ` set es"
  by (simp add: map_of_eq_None_iff)

text \<open>What the binary-search operations compute on such lists.\<close>

lemma ksorted_wrt: "ksorted es \<longleftrightarrow> sorted_wrt (\<lambda>x y. fst x < fst y) es"
  by (simp add: sorted_wrt_map)

lemma ksorted_present:
  assumes "ksorted es" "k \<in> fst ` set es"
  obtains v where "es = filter (\<lambda>e. fst e < k) es @ (k, v) # filter (\<lambda>e. k < fst e) es"
  using assms
proof (induction es arbitrary: thesis)
  case (Cons e es)
  show ?case
  proof (cases "fst e = k")
    case True
    with Cons.prems(2) have "filter (\<lambda>e. fst e < k) (e # es) = []"
      and "filter (\<lambda>e. k < fst e) (e # es) = es"
      by (auto simp: filter_empty_conv intro: filter_True)
    with True Cons.prems(1) [of "snd e"] show ?thesis by (cases e) simp
  next
    case False
    with Cons.prems have "fst e < k" "k \<in> fst ` set es" "ksorted es" by auto
    then obtain v where "es = filter (\<lambda>e. fst e < k) es @ (k, v) # filter (\<lambda>e. k < fst e) es"
      using Cons.IH by metis
    with \<open>fst e < k\<close> Cons.prems(1) [of v] show ?thesis by simp
  qed
qed simp

lemma ksorted_absent:
  "ksorted es \<Longrightarrow> k \<notin> fst ` set es \<Longrightarrow>
   es = filter (\<lambda>e. fst e < k) es @ filter (\<lambda>e. k < fst e) es"
proof (induction es)
  case (Cons e es)
  then have es: "es = filter (\<lambda>e. fst e < k) es @ filter (\<lambda>e. k < fst e) es" by simp
  show ?case
  proof (cases "fst e < k")
    case True
    with es show ?thesis by simp
  next
    case False
    with Cons.prems have "k < fst e" by auto
    with Cons.prems have "filter (\<lambda>e. fst e < k) (e # es) = []"
      and "filter (\<lambda>e. k < fst e) (e # es) = e # es"
      by (force simp: filter_empty_conv intro: filter_True)+
    then show ?thesis by simp
  qed
qed simp

text \<open>A binary search over entries finds a key at the end of the entries below it.\<close>

lemma binary_search_entries:
  assumes "ksorted es"
  obtains (Found) xs v ys where "binary_search_by (\<lambda>e. cmp (fst e) k) es = Inr (length xs)"
      "es = xs @ (k, v) # ys" "xs = filter (\<lambda>e. fst e < k) es" "ys = filter (\<lambda>e. k < fst e) es"
      "es ! length xs = (k, v)" "map_of es k = Some v"
  | (Missing) xs ys where "binary_search_by (\<lambda>e. cmp (fst e) k) es = Inl (length xs)"
      "k \<notin> fst ` set es" "es = xs @ ys"
      "xs = filter (\<lambda>e. fst e < k) es" "ys = filter (\<lambda>e. k < fst e) es" "map_of es k = None"
proof -
  have sorted: "sorted_wrt (\<lambda>x y. fst x < fst y) es" using assms by (simp add: ksorted_wrt)
  note search = binary_search_by_lower_bound [OF sorted, of k]
  define xs ys where "xs = filter (\<lambda>e. fst e < k) es" and "ys = filter (\<lambda>e. k < fst e) es"
  show thesis
  proof (cases "k \<in> fst ` set es")
    case True
    then obtain v where es: "es = xs @ (k, v) # ys"
      using ksorted_present [OF assms] xs_def ys_def by metis
    have "lower_bound fst k (xs @ (k, v) # ys) = length xs"
      by (rule lower_bound_append) (auto simp: xs_def)
    with search es have found: "binary_search_by (\<lambda>e. cmp (fst e) k) es = Inr (length xs)" by simp
    have "map_of xs k = None" by (auto simp: map_of_eq_None_iff xs_def)
    then have "map_of es k = Some v" by (simp add: es map_add_def)
    moreover have "es ! length xs = (k, v)" by (simp add: es)
    ultimately show ?thesis using Found [OF found es xs_def ys_def] by blast
  next
    case False
    then have es: "es = xs @ ys"
      using ksorted_absent [OF assms] xs_def ys_def by blast
    have "lower_bound fst k (xs @ ys) = length xs"
      by (rule lower_bound_append) (auto simp: xs_def ys_def split: list.splits dest!: filter_eq_ConsD)
    moreover have "length xs < length es \<Longrightarrow> fst (es ! length xs) \<noteq> k"
      using False by (metis image_eqI nth_mem)
    ultimately have "binary_search_by (\<lambda>e. cmp (fst e) k) es = Inl (length xs)"
      using search es by (auto simp: Let_def)
    with Missing False es xs_def ys_def show ?thesis by (metis map_of_None_iff)
  qed
qed

text \<open>The same as rules for the operations: replace, insert and remove at the found position.\<close>

lemma entry_search:
  assumes "ksorted es"
  obtains (Found) idx v where "binary_search_by (\<lambda>e. cmp (fst e) k) es = Inr idx" "es ! idx = (k, v)"
      "map_of es k = Some v" "\<And>w. es[idx := (k, w)] = al_put k w es" "vec_remove idx es = al_del k es"
  | (Missing) idx where "binary_search_by (\<lambda>e. cmp (fst e) k) es = Inl idx" "map_of es k = None"
      "\<And>w. vec_insert idx (k, w) es = al_put k w es" "al_del k es = es"
proof (cases rule: binary_search_entries [OF assms, where k = k])
  case 1: (1 xs v ys)
  have "es[length xs := (k, w)] = al_put k w es" for w
    by (subst 1(2)) (simp add: al_put_def flip: 1(3,4))
  moreover have "vec_remove (length xs) es = al_del k es"
  proof -
    have "al_del k xs = xs" "al_del k ys = ys" by (auto simp: 1(3,4) intro!: al_del_absent)
    then have "al_del k es = xs @ ys" by (subst 1(2)) (simp add: al_del_def)
    moreover have "vec_remove (length xs) es = xs @ ys" by (subst 1(2)) (simp add: vec_remove_append)
    ultimately show ?thesis by simp
  qed
  ultimately show thesis using Found [OF 1(1,5,6)] by blast
next
  case 2: (2 xs ys)
  have "vec_insert (length xs) (k, w) es = al_put k w es" for w
    by (subst 2(3)) (simp add: vec_insert_append al_put_def flip: 2(4,5))
  with Missing [OF 2(1,6)] al_del_absent [OF 2(2)] show thesis by blast
qed

lemma al_put_same:
  assumes "ksorted es" "map_of es k = Some v"
  shows "al_put k v es = es"
proof (rule entry_search [OF assms(1), where k = k])
  fix idx w assume *: "es ! idx = (k, w)" "map_of es k = Some w" "\<And>u. es[idx := (k, u)] = al_put k u es"
  with assms(2) show ?thesis by (metis list_update_id option.inject)
qed (use assms(2) in simp)

lemma al_put_put [simp]: "al_put k v (al_put k w es) = al_put k v es"
proof -
  have "filter (\<lambda>e. fst e < k \<and> k < fst e) es = []" "filter (\<lambda>e. k < fst e \<and> fst e < k) es = []"
    by (auto simp: filter_empty_conv)
  then show ?thesis by (simp add: al_put_def conj_commute)
qed

lemma set_al_put: "set (al_put k v es) \<subseteq> insert (k, v) (set es)"
  by (auto simp: al_put_def)

lemma set_al_del: "set (al_del k es) \<subseteq> set es"
  by (auto simp: al_del_def)

lemma al_del_put:
  assumes "ksorted es" "map_of es k = None"
  shows "al_del k (al_put k v es) = es"
proof -
  have "al_del k (al_put k v es) = filter (\<lambda>e. fst e < k) es @ filter (\<lambda>e. k < fst e) es"
    by (auto simp: al_del_def al_put_def intro!: filter_cong arg_cong2 [of _ _ _ _ "(@)"])
  also have "\<dots> = es" using ksorted_absent [OF assms(1), of k] assms(2) by (simp add: map_of_eq_None_iff)
  finally show ?thesis .
qed

section \<open>Hash maps\<close>

text \<open>
  A \<open>HashMap\<close> is an association list with distinct keys. Its iteration order is unspecified; the model
  iterates in the order of the list.
\<close>

primrec hm_insert :: "'k \<Rightarrow> 'v \<Rightarrow> ('k \<times> 'v) list \<Rightarrow> ('k \<times> 'v) list" where
  "hm_insert k v [] = [(k, v)]"
| "hm_insert k v (e # es) = (if fst e = k then (k, v) # es else e # hm_insert k v es)"

lemma hm_insert_map_of [simp]: "map_of (hm_insert k v es) = (map_of es)(k \<mapsto> v)"
  by (induction es) auto

lemma hm_insert_keys: "fst ` set (hm_insert k v es) = insert k (fst ` set es)"
  by (induction es) auto

lemma hm_insert_twice [simp]: "hm_insert k v (hm_insert k w es) = hm_insert k v es"
  by (induction es) auto

lemma set_hm_insert: "set (hm_insert k v es) \<subseteq> insert (k, v) (set es)"
  by (induction es) auto

lemma hm_insert_distinct: "distinct (map fst es) \<Longrightarrow> distinct (map fst (hm_insert k v es))"
proof (induction es)
  case (Cons e es)
  then show ?case using hm_insert_keys [of k v es] by (auto simp flip: set_map)
qed simp

section \<open>Integers as bytes\<close>

text \<open>
  \<open>to_le_bytes\<close>, \<open>from_le_bytes\<close> and the big-endian variants, on the value of the integer; the
  width is the number of bytes.
\<close>

primrec le_bytes :: "nat \<Rightarrow> nat \<Rightarrow> bytes" where
  "le_bytes 0 x = []"
| "le_bytes (Suc n) x = word_of_nat (x mod 256) # le_bytes n (x div 256)"

primrec le_value :: "bytes \<Rightarrow> nat" where
  "le_value [] = 0"
| "le_value (b # bs) = unat b + 256 * le_value bs"

definition be_bytes :: "nat \<Rightarrow> nat \<Rightarrow> bytes" where
  "be_bytes n x = rev (le_bytes n x)"

definition be_value :: "bytes \<Rightarrow> nat" where
  "be_value bs = le_value (rev bs)"

lemma length_le_bytes [simp]: "length (le_bytes n x) = n"
  by (induction n arbitrary: x) auto

lemma length_be_bytes [simp]: "length (be_bytes n x) = n"
  by (simp add: be_bytes_def)

lemma le_value_bytes [simp]: "le_value (le_bytes n x) = x mod 256 ^ n"
proof (induction n arbitrary: x)
  case 0
  then show ?case by simp
next
  case (Suc n)
  have "unat (word_of_nat (x mod 256) :: u8) = x mod 256"
    by (simp add: unat_of_nat)
  then show ?case using Suc.IH [of "x div 256"]
    by (simp add: mod_mult2_eq)
qed

lemma be_value_bytes [simp]: "be_value (be_bytes n x) = x mod 256 ^ n"
  by (simp add: be_value_def be_bytes_def)

lemma le_value_less: "le_value bs < 256 ^ length bs"
proof (induction bs)
  case (Cons b bs)
  have "unat b < 256" using unsigned_less [of b, where ?'a = nat] by simp
  with Cons show ?case by simp
qed simp

lemma be_value_less: "be_value bs < 256 ^ length bs"
  using le_value_less [of "rev bs"] by (simp add: be_value_def)

lemma le_bytes_value [simp]: "length bs = n \<Longrightarrow> le_bytes n (le_value bs) = bs"
proof (induction bs arbitrary: n)
  case (Cons b bs)
  have "unat b < 256" using unsigned_less [of b, where ?'a = nat] by simp
  with Cons show ?case by auto
qed simp

lemma be_bytes_value [simp]: "length bs = n \<Longrightarrow> be_bytes n (be_value bs) = bs"
  by (simp add: be_bytes_def be_value_def)

lemma le_value_append: "le_value (xs @ ys) = le_value xs + 256 ^ length xs * le_value ys"
  by (induction xs) (simp_all add: algebra_simps)

lemma be_value_append: "be_value (xs @ ys) = be_value xs * 256 ^ length ys + be_value ys"
  by (simp add: be_value_def le_value_append)

lemma unat_less_u16 [simp]: "unat (w :: u16) < 65536"
  using unsigned_less [of w, where ?'a = nat] by simp

lemma unat_less_u32 [simp]: "unat (w :: u32) < 4294967296"
  using unsigned_less [of w, where ?'a = nat] by simp

lemma unat_less_u64 [simp]: "unat (w :: u64) < 18446744073709551616"
  using unsigned_less [of w, where ?'a = nat] by simp

lemma unat_less_u128 [simp]: "unat (w :: u128) < 340282366920938463463374607431768211456"
  using unsigned_less [of w, where ?'a = nat] by simp

end
