(* ===== verification/BTree_Node.thy ===== *)
theory BTree_Node
  imports NG_Prelude
begin

text \<open>
  The node layer of the B+ tree, \<open>nanograph-btree/src/node.rs\<close>: leaf and internal nodes as
  records, the node enum, and every operation on a single node. Slices that the code indexes
  without a check panic when they are too short; the two \<open>split\<close> operations return \<open>None\<close> there.
  The lemmas relate the binary-search operations to plain list surgery: they are the rules by
  which the tree layer is verified.
\<close>

type_synonym node_id = nat

section \<open>Data\<close>

record InternalNode =
  in_id :: node_id
  in_keys :: "bytes list"
  in_children :: "node_id list"
  in_parent :: "node_id option"

record LeafNode =
  lf_id :: node_id
  lf_entries :: entry_list
  lf_next :: "node_id option"
  lf_prev :: "node_id option"
  lf_parent :: "node_id option"

datatype BPlusTreeNode = Internal InternalNode | Leaf LeafNode

section \<open>Internal nodes\<close>

definition InternalNode_new :: "node_id \<Rightarrow> InternalNode" where
  "InternalNode_new i = \<lparr>in_id = i, in_keys = [], in_children = [], in_parent = None\<rparr>"

definition find_child_index :: "InternalNode \<Rightarrow> bytes \<Rightarrow> nat" where
  "find_child_index n key =
     (case binary_search_by (\<lambda>k. cmp k key) (in_keys n) of
        Inr idx \<Rightarrow> idx + 1
      | Inl idx \<Rightarrow> idx)"

text \<open>\<open>children.insert(idx + 1, child)\<close> panics when the node has fewer than \<open>idx + 1\<close> children.\<close>

definition insert_key_child :: "InternalNode \<Rightarrow> bytes \<Rightarrow> node_id \<Rightarrow> InternalNode option" where
  "insert_key_child n key child =
     (let idx = (case binary_search_by (\<lambda>k. cmp k key) (in_keys n) of Inr i \<Rightarrow> i | Inl i \<Rightarrow> i)
      in if idx + 1 \<le> length (in_children n)
         then Some (n\<lparr>in_keys := vec_insert idx key (in_keys n),
                      in_children := vec_insert (idx + 1) child (in_children n)\<rparr>)
         else None)"

text \<open>\<open>keys[mid]\<close> panics on a node without keys, \<open>split_off\<close> when it is past the end.\<close>

definition InternalNode_split :: "InternalNode \<Rightarrow> (bytes \<times> InternalNode \<times> InternalNode) option" where
  "InternalNode_split n =
     (let mid = length (in_keys n) div 2
      in if in_keys n = [] \<or> length (in_children n) < mid + 1 then None
         else Some (in_keys n ! mid,
           n\<lparr>in_keys := butlast (take (mid + 1) (in_keys n)),
             in_children := take (mid + 1) (in_children n)\<rparr>,
           n\<lparr>in_keys := drop (mid + 1) (in_keys n),
             in_children := drop (mid + 1) (in_children n)\<rparr>))"

definition remove_key :: "InternalNode \<Rightarrow> nat \<Rightarrow> InternalNode" where
  "remove_key n idx =
     (if idx < length (in_keys n) then n\<lparr>in_keys := vec_remove idx (in_keys n)\<rparr> else n)"

definition remove_child :: "InternalNode \<Rightarrow> nat \<Rightarrow> InternalNode" where
  "remove_child n idx =
     (if idx < length (in_children n) then n\<lparr>in_children := vec_remove idx (in_children n)\<rparr> else n)"

definition replace_key :: "InternalNode \<Rightarrow> nat \<Rightarrow> bytes \<Rightarrow> InternalNode" where
  "replace_key n idx key =
     (if idx < length (in_keys n) then n\<lparr>in_keys := (in_keys n)[idx := key]\<rparr> else n)"

section \<open>Leaf nodes\<close>

definition LeafNode_new :: "node_id \<Rightarrow> LeafNode" where
  "LeafNode_new i =
     \<lparr>lf_id = i, lf_entries = [], lf_next = None, lf_prev = None, lf_parent = None\<rparr>"

definition find_key_index :: "LeafNode \<Rightarrow> bytes \<Rightarrow> nat + nat" where
  "find_key_index n key = binary_search_by (\<lambda>e. cmp (fst e) key) (lf_entries n)"

definition LeafNode_insert :: "LeafNode \<Rightarrow> bytes \<Rightarrow> bytes \<Rightarrow> bytes option \<times> LeafNode" where
  "LeafNode_insert n key val =
     (case find_key_index n key of
        Inr idx \<Rightarrow>
          (Some (snd (lf_entries n ! idx)),
           n\<lparr>lf_entries := (lf_entries n)[idx := (fst (lf_entries n ! idx), val)]\<rparr>)
      | Inl idx \<Rightarrow> (None, n\<lparr>lf_entries := vec_insert idx (key, val) (lf_entries n)\<rparr>))"

definition LeafNode_remove :: "LeafNode \<Rightarrow> bytes \<Rightarrow> bytes option \<times> LeafNode" where
  "LeafNode_remove n key =
     (case find_key_index n key of
        Inr idx \<Rightarrow>
          (Some (snd (lf_entries n ! idx)), n\<lparr>lf_entries := vec_remove idx (lf_entries n)\<rparr>)
      | Inl _ \<Rightarrow> (None, n))"

definition LeafNode_get :: "LeafNode \<Rightarrow> bytes \<Rightarrow> bytes option" where
  "LeafNode_get n key =
     (case find_key_index n key of
        Inr idx \<Rightarrow> Some (snd (lf_entries n ! idx))
      | Inl _ \<Rightarrow> None)"

text \<open>\<open>right_entries[0]\<close> panics on an empty leaf.\<close>

definition LeafNode_split :: "LeafNode \<Rightarrow> (bytes \<times> LeafNode \<times> LeafNode) option" where
  "LeafNode_split n =
     (let mid = length (lf_entries n) div 2; right = drop mid (lf_entries n)
      in case right of
           [] \<Rightarrow> None
         | e # _ \<Rightarrow> Some (fst e,
             n\<lparr>lf_entries := take mid (lf_entries n)\<rparr>,
             n\<lparr>lf_entries := right, lf_prev := None\<rparr>))"

definition is_underfull :: "LeafNode \<Rightarrow> nat \<Rightarrow> bool" where
  "is_underfull n min_entries \<longleftrightarrow> length (lf_entries n) < min_entries"

definition LeafNode_merge :: "LeafNode \<Rightarrow> LeafNode \<Rightarrow> LeafNode \<times> LeafNode" where
  "LeafNode_merge n other =
     (n\<lparr>lf_entries := lf_entries n @ lf_entries other, lf_next := lf_next other\<rparr>,
      other\<lparr>lf_entries := []\<rparr>)"

definition LeafNode_borrow_from_right :: "LeafNode \<Rightarrow> LeafNode \<Rightarrow> bytes \<times> LeafNode \<times> LeafNode" where
  "LeafNode_borrow_from_right n right =
     (case lf_entries right of
        [] \<Rightarrow> ([], n, right)
      | e # es \<Rightarrow> (fst e, n\<lparr>lf_entries := lf_entries n @ [e]\<rparr>, right\<lparr>lf_entries := es\<rparr>))"

definition LeafNode_borrow_from_left :: "LeafNode \<Rightarrow> LeafNode \<Rightarrow> bytes \<times> LeafNode \<times> LeafNode" where
  "LeafNode_borrow_from_left n left =
     (if lf_entries left = [] then ([], n, left)
      else let e = last (lf_entries left)
           in (fst e, n\<lparr>lf_entries := e # lf_entries n\<rparr>,
               left\<lparr>lf_entries := butlast (lf_entries left)\<rparr>))"

section \<open>The node enum\<close>

definition new_leaf :: "node_id \<Rightarrow> BPlusTreeNode" where
  "new_leaf i = Leaf (LeafNode_new i)"

definition new_internal :: "node_id \<Rightarrow> BPlusTreeNode" where
  "new_internal i = Internal (InternalNode_new i)"

fun node_id_of :: "BPlusTreeNode \<Rightarrow> node_id" where
  "node_id_of (Internal n) = in_id n"
| "node_id_of (Leaf n) = lf_id n"

fun parent :: "BPlusTreeNode \<Rightarrow> node_id option" where
  "parent (Internal n) = in_parent n"
| "parent (Leaf n) = lf_parent n"

fun set_parent :: "node_id option \<Rightarrow> BPlusTreeNode \<Rightarrow> BPlusTreeNode" where
  "set_parent p (Internal n) = Internal (n\<lparr>in_parent := p\<rparr>)"
| "set_parent p (Leaf n) = Leaf (n\<lparr>lf_parent := p\<rparr>)"

fun is_leaf :: "BPlusTreeNode \<Rightarrow> bool" where
  "is_leaf (Leaf _) = True"
| "is_leaf (Internal _) = False"

fun key_count :: "BPlusTreeNode \<Rightarrow> nat" where
  "key_count (Internal n) = length (in_keys n)"
| "key_count (Leaf n) = length (lf_entries n)"

definition is_full :: "nat \<Rightarrow> BPlusTreeNode \<Rightarrow> bool" where
  "is_full order n \<longleftrightarrow> order \<le> key_count n"

fun node_get :: "BPlusTreeNode \<Rightarrow> bytes \<Rightarrow> bytes option" where
  "node_get (Leaf n) key = LeafNode_get n key"
| "node_get (Internal _) key = None"

fun insert_entry :: "BPlusTreeNode \<Rightarrow> bytes \<Rightarrow> bytes \<Rightarrow> bytes option \<times> BPlusTreeNode" where
  "insert_entry (Leaf n) key val = (let (old, n') = LeafNode_insert n key val in (old, Leaf n'))"
| "insert_entry (Internal n) key val = (None, Internal n)"

fun delete_entry :: "BPlusTreeNode \<Rightarrow> bytes \<Rightarrow> bytes option \<times> BPlusTreeNode" where
  "delete_entry (Leaf n) key = (let (old, n') = LeafNode_remove n key in (old, Leaf n'))"
| "delete_entry (Internal n) key = (None, Internal n)"

fun get_child_for_key :: "BPlusTreeNode \<Rightarrow> bytes \<Rightarrow> node_id option" where
  "get_child_for_key (Internal n) key =
     (let idx = find_child_index n key
      in if idx < length (in_children n) then Some (in_children n ! idx) else None)"
| "get_child_for_key (Leaf _) key = None"

fun insert_internal_entry :: "BPlusTreeNode \<Rightarrow> bytes \<Rightarrow> node_id \<Rightarrow> BPlusTreeNode option" where
  "insert_internal_entry (Internal n) key child = map_option Internal (insert_key_child n key child)"
| "insert_internal_entry (Leaf n) key child = Some (Leaf n)"

fun get_all_children :: "BPlusTreeNode \<Rightarrow> node_id list" where
  "get_all_children (Internal n) = in_children n"
| "get_all_children (Leaf _) = []"

text \<open>
  The two node-level splits return the separator, the shrunken node and the new node; splitting
  a node of the other kind is the error string of the source, an empty node panics.
\<close>

fun node_split_leaf ::
  "BPlusTreeNode \<Rightarrow> node_id \<Rightarrow> (string, bytes \<times> BPlusTreeNode \<times> BPlusTreeNode) res" where
  "node_split_leaf (Leaf n) new_id =
     (case LeafNode_split n of
        None \<Rightarrow> Inl Panicked
      | Some (sep, l, r) \<Rightarrow>
          Ok (sep, Leaf (l\<lparr>lf_next := Some new_id\<rparr>),
              Leaf \<lparr>lf_id = new_id, lf_entries = lf_entries r, lf_next = lf_next r,
                    lf_prev = Some (lf_id l), lf_parent = lf_parent l\<rparr>))"
| "node_split_leaf (Internal n) new_id = Err ''Cannot split non-leaf node as leaf''"

fun node_split_internal ::
  "BPlusTreeNode \<Rightarrow> node_id \<Rightarrow> (string, bytes \<times> BPlusTreeNode \<times> BPlusTreeNode) res" where
  "node_split_internal (Internal n) new_id =
     (case InternalNode_split n of
        None \<Rightarrow> Inl Panicked
      | Some (sep, l, r) \<Rightarrow>
          Ok (sep, Internal l,
              Internal \<lparr>in_id = new_id, in_keys = in_keys r, in_children = in_children r,
                        in_parent = in_parent l\<rparr>))"
| "node_split_internal (Leaf n) new_id = Err ''Cannot split non-internal node as internal''"


section \<open>Leaf operations on sorted entries\<close>

named_theorems leaf_simps \<open>leaf operations as operations on sorted association lists\<close>

lemma LeafNode_get_map [leaf_simps]:
  assumes "ksorted (lf_entries n)"
  shows "LeafNode_get n k = map_of (lf_entries n) k"
  using assms
  by (cases rule: entry_search [where k = k]) (simp_all add: LeafNode_get_def find_key_index_def)

lemma LeafNode_insert_al_put [leaf_simps]:
  assumes "ksorted (lf_entries n)"
  shows "LeafNode_insert n k v =
    (map_of (lf_entries n) k, n\<lparr>lf_entries := al_put k v (lf_entries n)\<rparr>)"
  using assms
  by (cases rule: entry_search [where k = k]) (simp_all add: LeafNode_insert_def find_key_index_def)

lemma LeafNode_remove_al_del [leaf_simps]:
  assumes "ksorted (lf_entries n)"
  shows "LeafNode_remove n k =
    (map_of (lf_entries n) k, n\<lparr>lf_entries := al_del k (lf_entries n)\<rparr>)"
  using assms
  by (cases rule: entry_search [where k = k]) (simp_all add: LeafNode_remove_def find_key_index_def)

section \<open>Routing in internal nodes\<close>

text \<open>
  With increasing keys, a key is routed to the child after the last separator that is not above
  it, and a new separator strictly between two neighbours goes between them.
\<close>

lemma find_child_index_split:
  assumes "sorted_wrt (<) (ks1 @ ks2)" "\<forall>k \<in> set ks1. k \<le> key" "\<forall>k \<in> set ks2. key < k"
    and "in_keys n = ks1 @ ks2"
  shows "find_child_index n key = length ks1"
proof -
  note search = binary_search_by_lower_bound [where key = "\<lambda>x. x", OF assms(1), of key]
  show ?thesis
  proof (cases "key \<in> set ks1")
    case True
    then obtain xs ys where ks1: "ks1 = xs @ key # ys" by (meson split_list)
    with assms(1,2) have "ys = []" by (cases ys) (auto simp: sorted_wrt_append)
    have "lower_bound (\<lambda>x. x) key (xs @ key # ks2) = length xs"
      by (rule lower_bound_append) (use assms(1) ks1 in \<open>auto simp: sorted_wrt_append\<close>)
    with search have "binary_search_by (\<lambda>k. cmp k key) (in_keys n) = Inr (length xs)"
      by (simp add: assms(4) ks1 \<open>ys = []\<close>)
    then show ?thesis by (simp add: find_child_index_def ks1 \<open>ys = []\<close>)
  next
    case False
    then have lb: "lower_bound (\<lambda>x. x) key (ks1 @ ks2) = length ks1"
      by (intro lower_bound_append) (use assms(2,3) in \<open>auto simp: order.order_iff_strict split: list.splits\<close>)
    have "ks2 \<noteq> [] \<Longrightarrow> (ks1 @ ks2) ! length ks1 \<noteq> key"
      using assms(3) by (cases ks2) auto
    with search lb have "binary_search_by (\<lambda>k. cmp k key) (in_keys n) = Inl (length ks1)"
      by (auto simp: assms(4) Let_def)
    then show ?thesis by (simp add: find_child_index_def)
  qed
qed

lemma insert_key_child_split:
  assumes "sorted_wrt (<) (ks1 @ ks2)" "\<forall>k \<in> set ks1. k < key" "\<forall>k \<in> set ks2. key < k"
    and "in_keys n = ks1 @ ks2" "in_children n = cs1 @ cs2" "length cs1 = Suc (length ks1)"
  shows "insert_key_child n key c =
    Some (n\<lparr>in_keys := ks1 @ key # ks2, in_children := cs1 @ c # cs2\<rparr>)"
proof -
  note search = binary_search_by_lower_bound [where key = "\<lambda>x. x", OF assms(1), of key]
  have lb: "lower_bound (\<lambda>x. x) key (ks1 @ ks2) = length ks1"
    by (rule lower_bound_append) (use assms(2,3) in \<open>auto split: list.splits\<close>)
  have "ks2 \<noteq> [] \<Longrightarrow> (ks1 @ ks2) ! length ks1 \<noteq> key"
    using assms(3) by (cases ks2) auto
  with search lb have "binary_search_by (\<lambda>k. cmp k key) (in_keys n) = Inl (length ks1)"
    by (auto simp: assms(4) Let_def)
  then show ?thesis
    using assms(6) by (simp add: insert_key_child_def assms(4,5) vec_insert_append)
qed

end
