(* ===== verification/BTree_Tree.thy ===== *)
theory BTree_Tree
  imports BTree_Node
begin

text \<open>
  The tree layer, \<open>nanograph-btree/src/tree.rs\<close>: the tree is a heap of nodes (the \<open>nodes\<close> hash
  map) with child, parent, next and prev pointers. Operations pass the tree state explicitly and
  return it together with the result, so that the changes made before an error are kept. The
  mutual recursion up the parent pointers is split into one recursive function with fuel and
  steps that take the recursive call as an argument. Trees with a persistence layer are not
  modelled: the constructor is \<open>BPlusTree::new\<close>.
\<close>

section \<open>State and errors\<close>

record BPlusTreeConfig =
  max_keys :: nat
  min_keys :: nat

definition default_config :: BPlusTreeConfig where
  "default_config = \<lparr>max_keys = 128, min_keys = 64\<rparr>"

record BPlusTree =
  config :: BPlusTreeConfig
  root_id :: node_id
  nodes :: "node_id \<rightharpoonup> BPlusTreeNode"
  next_node_id :: nat
  leftmost_leaf :: "node_id option"

datatype BTreeError =
    KeyNotFound
  | NodeNotFound
  | NodeOverflow
  | NodeUnderflow
  | InvalidNode
  | InvalidOperation string
  | Io string
  | Serialization string
  | Vfs string
  | Wal string
  | WriteConflict
  | InternalError string

type_synonym 'a tree_result = "BPlusTree \<times> (BTreeError, 'a) res"

text \<open>The conversion \<open>From<String> for BTreeError\<close> applied by \<open>?\<close> to a failed node split.\<close>

fun from_string_fault :: "string fault \<Rightarrow> BTreeError fault" where
  "from_string_fault (Raised m) = Raised (InvalidOperation m)"
| "from_string_fault Panicked = Panicked"
| "from_string_fault Diverged = Diverged"

definition BPlusTree_new :: "BPlusTreeConfig \<Rightarrow> BPlusTree" where
  "BPlusTree_new cfg =
     \<lparr>config = cfg, root_id = 0, nodes = [0 \<mapsto> new_leaf 0], next_node_id = 1,
      leftmost_leaf = Some 0\<rparr>"

definition BPlusTree_clear :: "BPlusTree \<Rightarrow> unit tree_result" where
  "BPlusTree_clear s =
     (s\<lparr>nodes := [0 \<mapsto> new_leaf 0], root_id := 0, next_node_id := 1, leftmost_leaf := Some 0\<rparr>, Ok ())"

definition allocate_node_id :: "BPlusTree \<Rightarrow> node_id \<times> BPlusTree" where
  "allocate_node_id s = (next_node_id s, s\<lparr>next_node_id := next_node_id s + 1\<rparr>)"

definition get_node :: "BPlusTree \<Rightarrow> node_id \<Rightarrow> (BTreeError, BPlusTreeNode) res" where
  "get_node s i =
     (case nodes s i of
        Some n \<Rightarrow> Ok n
      | None \<Rightarrow> Err (InternalError (''Node BTreeNodeId('' @ nat_to_string i @ '') not found'')))"

definition update_node :: "BPlusTree \<Rightarrow> BPlusTreeNode \<Rightarrow> BPlusTree" where
  "update_node s n = s\<lparr>nodes := (nodes s)(node_id_of n \<mapsto> n)\<rparr>"

definition remove_node :: "BPlusTree \<Rightarrow> node_id \<Rightarrow> BPlusTree" where
  "remove_node s i = s\<lparr>nodes := (nodes s)(i := None)\<rparr>"

section \<open>Search\<close>

text \<open>
  The descent follows child pointers until it meets a leaf. Identifiers are handed out once and
  stay below \<open>next_node_id\<close>, so a descent of more steps has met a node twice and goes on forever.
\<close>

primrec find_leaf_loop :: "nat \<Rightarrow> BPlusTree \<Rightarrow> node_id \<Rightarrow> bytes \<Rightarrow> (BTreeError, node_id) res" where
  "find_leaf_loop 0 s i key = Inl Diverged"
| "find_leaf_loop (Suc fuel) s i key =
     (case get_node s i of
        Inl f \<Rightarrow> Inl f
      | Inr n \<Rightarrow>
          if is_leaf n then Ok i
          else case get_child_for_key n key of
                 None \<Rightarrow> Err NodeNotFound
               | Some c \<Rightarrow> find_leaf_loop fuel s c key)"

definition find_leaf :: "BPlusTree \<Rightarrow> node_id \<Rightarrow> bytes \<Rightarrow> (BTreeError, node_id) res" where
  "find_leaf s i key = find_leaf_loop (next_node_id s + 1) s i key"

definition BPlusTree_get :: "BPlusTree \<Rightarrow> bytes \<Rightarrow> (BTreeError, bytes option) res" where
  "BPlusTree_get s key =
     (case find_leaf s (root_id s) key of
        Inl f \<Rightarrow> Inl f
      | Inr leaf_id \<Rightarrow>
          (case get_node s leaf_id of
             Inl f \<Rightarrow> Inl f
           | Inr leaf \<Rightarrow> Ok (node_get leaf key)))"

section \<open>Insertion\<close>

definition create_new_root :: "BPlusTree \<Rightarrow> node_id \<Rightarrow> bytes \<Rightarrow> node_id \<Rightarrow> unit tree_result" where
  "create_new_root s left_child key right_child =
     (let (new_root_id, s1) = allocate_node_id s
      in case insert_key_child ((InternalNode_new new_root_id)\<lparr>in_children := [left_child]\<rparr>)
                key right_child of
           None \<Rightarrow> (s1, Inl Panicked)
         | Some new_root \<Rightarrow>
             (case get_node s1 left_child of
                Inl f \<Rightarrow> (s1, Inl f)
              | Inr left \<Rightarrow>
                  let s2 = update_node s1 (set_parent (Some new_root_id) left)
                  in case get_node s2 right_child of
                       Inl f \<Rightarrow> (s2, Inl f)
                     | Inr right \<Rightarrow>
                         let s3 = update_node s2 (set_parent (Some new_root_id) right);
                             s4 = update_node s3 (Internal new_root)
                         in (s4\<lparr>root_id := new_root_id\<rparr>, Ok ())))"

text \<open>The loop that points the children of a node to it.\<close>

primrec set_parents :: "BPlusTree \<Rightarrow> node_id list \<Rightarrow> node_id \<Rightarrow> unit tree_result" where
  "set_parents s [] p = (s, Ok ())"
| "set_parents s (c # cs) p =
     (case get_node s c of
        Inl f \<Rightarrow> (s, Inl f)
      | Inr child \<Rightarrow> set_parents (update_node s (set_parent (Some p) child)) cs p)"

definition split_internal ::
  "(BPlusTree \<Rightarrow> node_id \<Rightarrow> bytes \<Rightarrow> node_id \<Rightarrow> unit tree_result) \<Rightarrow>
   BPlusTree \<Rightarrow> BPlusTreeNode \<Rightarrow> unit tree_result" where
  "split_internal into_parent s internal =
     (let (new_id, s1) = allocate_node_id s
      in case node_split_internal internal new_id of
           Inl f \<Rightarrow> (s1, Inl (from_string_fault f))
         | Inr (sep, left, right) \<Rightarrow>
             and_then (set_parents s1 (get_all_children right) (node_id_of right)) (\<lambda>s2 _.
               let s3 = update_node s2 left; s4 = update_node s3 right
               in case parent left of
                    Some p \<Rightarrow> into_parent s4 p sep (node_id_of right)
                  | None \<Rightarrow> create_new_root s4 (node_id_of left) sep (node_id_of right)))"

primrec insert_into_parent ::
  "nat \<Rightarrow> BPlusTree \<Rightarrow> node_id \<Rightarrow> bytes \<Rightarrow> node_id \<Rightarrow> unit tree_result" where
  "insert_into_parent 0 s parent_id key right_child = (s, Inl Diverged)"
| "insert_into_parent (Suc fuel) s parent_id key right_child =
     (case get_node s parent_id of
        Inl f \<Rightarrow> (s, Inl f)
      | Inr par \<Rightarrow>
          (case insert_internal_entry par key right_child of
             None \<Rightarrow> (s, Inl Panicked)
           | Some par' \<Rightarrow>
               if is_full (max_keys (config s)) par'
               then split_internal (insert_into_parent fuel) s par'
               else (update_node s par', Ok ())))"

definition split_leaf :: "BPlusTree \<Rightarrow> BPlusTreeNode \<Rightarrow> unit tree_result" where
  "split_leaf s leaf =
     (let (new_id, s1) = allocate_node_id s
      in case node_split_leaf leaf new_id of
           Inl f \<Rightarrow> (s1, Inl (from_string_fault f))
         | Inr (sep, left, right) \<Rightarrow>
             let s2 = update_node s1 left; s3 = update_node s2 right
             in case parent left of
                  Some p \<Rightarrow> insert_into_parent (next_node_id s + 1) s3 p sep (node_id_of right)
                | None \<Rightarrow> create_new_root s3 (node_id_of left) sep (node_id_of right))"

definition BPlusTree_insert :: "BPlusTree \<Rightarrow> bytes \<Rightarrow> bytes \<Rightarrow> unit tree_result" where
  "BPlusTree_insert s key val =
     (case find_leaf s (root_id s) key of
        Inl f \<Rightarrow> (s, Inl f)
      | Inr leaf_id \<Rightarrow>
          (case get_node s leaf_id of
             Inl f \<Rightarrow> (s, Inl f)
           | Inr leaf \<Rightarrow>
               let leaf' = snd (insert_entry leaf key val)
               in if is_full (max_keys (config s)) leaf' then split_leaf s leaf'
                  else (update_node s leaf', Ok ())))"

section \<open>Deletion\<close>

fun get_left_sibling :: "BPlusTreeNode \<Rightarrow> BPlusTreeNode \<Rightarrow> node_id option" where
  "get_left_sibling n (Internal p) =
     (case position (node_id_of n) (in_children p) of
        Some pos \<Rightarrow> if 0 < pos then Some (in_children p ! (pos - 1)) else None
      | None \<Rightarrow> None)"
| "get_left_sibling n (Leaf _) = None"

fun get_right_sibling :: "BPlusTreeNode \<Rightarrow> BPlusTreeNode \<Rightarrow> node_id option" where
  "get_right_sibling n (Internal p) =
     (case position (node_id_of n) (in_children p) of
        Some pos \<Rightarrow> if pos + 1 < length (in_children p) then Some (in_children p ! (pos + 1)) else None
      | None \<Rightarrow> None)"
| "get_right_sibling n (Leaf _) = None"

fun first_key :: "BPlusTreeNode \<Rightarrow> bytes option" where
  "first_key (Leaf n) = (case lf_entries n of [] \<Rightarrow> None | e # _ \<Rightarrow> Some (fst e))"
| "first_key (Internal n) = (case in_keys n of [] \<Rightarrow> None | k # _ \<Rightarrow> Some k)"

definition update_separator_key :: "BPlusTree \<Rightarrow> node_id \<Rightarrow> node_id \<Rightarrow> unit tree_result" where
  "update_separator_key s parent_id child_id =
     (case get_node s parent_id of
        Inl f \<Rightarrow> (s, Inl f)
      | Inr par \<Rightarrow>
          (case get_node s child_id of
             Inl f \<Rightarrow> (s, Inl f)
           | Inr child \<Rightarrow>
               (case par of
                  Leaf _ \<Rightarrow> (s, Ok ())
                | Internal p \<Rightarrow>
                    (case position child_id (in_children p) of
                       None \<Rightarrow> (s, Ok ())
                     | Some pos \<Rightarrow>
                         if 0 < pos \<and> pos \<le> length (in_keys p)
                         then (case first_key child of
                                 None \<Rightarrow> (s, Ok ())
                               | Some k \<Rightarrow>
                                   (update_node s (Internal (p\<lparr>in_keys := (in_keys p)[pos - 1 := k]\<rparr>)), Ok ()))
                         else (s, Ok ())))))"

text \<open>
  Borrowing moves one entry (leaves) or rotates one child through the parent (internal nodes).
  \<open>borrow_left_nodes\<close> and \<open>borrow_right_nodes\<close> are the \<open>match\<close> on the two nodes: they return the
  changed node and sibling, the state holding what was already written back.
\<close>

fun borrow_left_nodes ::
  "BPlusTree \<Rightarrow> node_id \<Rightarrow> BPlusTreeNode \<Rightarrow> BPlusTreeNode \<Rightarrow> (BPlusTreeNode \<times> BPlusTreeNode) tree_result" where
  "borrow_left_nodes s parent_id (Leaf leaf) (Leaf left) =
     (if lf_entries left = [] then (s, Ok (Leaf leaf, Leaf left))
      else (s, Ok (Leaf (leaf\<lparr>lf_entries := last (lf_entries left) # lf_entries leaf\<rparr>),
                   Leaf (left\<lparr>lf_entries := butlast (lf_entries left)\<rparr>))))"
| "borrow_left_nodes s parent_id (Internal n) (Internal left) =
     (case get_node s parent_id of
        Inl f \<Rightarrow> (s, Inl f)
      | Inr (Leaf _) \<Rightarrow> (s, Ok (Internal n, Internal left))
      | Inr (Internal p) \<Rightarrow>
          (case position (in_id n) (in_children p) of
             None \<Rightarrow> (s, Ok (Internal n, Internal left))
           | Some pos \<Rightarrow>
               if 0 < pos \<and> pos \<le> length (in_keys p)
               then let n1 = n\<lparr>in_keys := in_keys p ! (pos - 1) # in_keys n\<rparr>;
                        p1 = (if in_keys left = [] then p
                              else p\<lparr>in_keys := (in_keys p)[pos - 1 := last (in_keys left)]\<rparr>);
                        left1 = left\<lparr>in_keys := butlast (in_keys left)\<rparr>
                    in if in_children left = [] then
                         (update_node s (Internal p1), Ok (Internal n1, Internal left1))
                       else let child = last (in_children left)
                            in case get_node s child of
                                 Inl f \<Rightarrow> (s, Inl f)
                               | Inr child_node \<Rightarrow>
                                   (update_node (update_node s (set_parent (Some (in_id n)) child_node))
                                      (Internal p1),
                                    Ok (Internal (n1\<lparr>in_children := child # in_children n\<rparr>),
                                        Internal (left1\<lparr>in_children := butlast (in_children left)\<rparr>)))
               else (s, Ok (Internal n, Internal left))))"
| "borrow_left_nodes s parent_id _ _ = (s, Err (InternalError ''Node type mismatch''))"

definition borrow_from_left :: "BPlusTree \<Rightarrow> BPlusTreeNode \<Rightarrow> node_id \<Rightarrow> unit tree_result" where
  "borrow_from_left s n left_id =
     (case get_node s left_id of
        Inl f \<Rightarrow> (s, Inl f)
      | Inr left \<Rightarrow>
          (case parent n of
             None \<Rightarrow> (s, Err (InternalError ''Node has no parent''))
           | Some parent_id \<Rightarrow>
               and_then (borrow_left_nodes s parent_id n left) (\<lambda>s1 (n', left').
                 let s2 = update_node (update_node s1 left') n'
                 in if is_leaf n' then update_separator_key s2 parent_id (node_id_of n)
                    else (s2, Ok ()))))"

fun borrow_right_nodes ::
  "BPlusTree \<Rightarrow> node_id \<Rightarrow> BPlusTreeNode \<Rightarrow> BPlusTreeNode \<Rightarrow> (BPlusTreeNode \<times> BPlusTreeNode) tree_result" where
  "borrow_right_nodes s parent_id (Leaf leaf) (Leaf right) =
     (case lf_entries right of
        [] \<Rightarrow> (s, Ok (Leaf leaf, Leaf right))
      | e # es \<Rightarrow> (s, Ok (Leaf (leaf\<lparr>lf_entries := lf_entries leaf @ [e]\<rparr>), Leaf (right\<lparr>lf_entries := es\<rparr>))))"
| "borrow_right_nodes s parent_id (Internal n) (Internal right) =
     (case get_node s parent_id of
        Inl f \<Rightarrow> (s, Inl f)
      | Inr (Leaf _) \<Rightarrow> (s, Ok (Internal n, Internal right))
      | Inr (Internal p) \<Rightarrow>
          (case position (in_id n) (in_children p) of
             None \<Rightarrow> (s, Ok (Internal n, Internal right))
           | Some pos \<Rightarrow>
               if pos < length (in_keys p)
               then let n1 = n\<lparr>in_keys := in_keys n @ [in_keys p ! pos]\<rparr>;
                        p1 = (case in_keys right of [] \<Rightarrow> p
                              | k # _ \<Rightarrow> p\<lparr>in_keys := (in_keys p)[pos := k]\<rparr>);
                        right1 = right\<lparr>in_keys := tl (in_keys right)\<rparr>
                    in case in_children right of
                         [] \<Rightarrow> (update_node s (Internal p1), Ok (Internal n1, Internal right1))
                       | child # rest \<Rightarrow>
                           (case get_node s child of
                              Inl f \<Rightarrow> (s, Inl f)
                            | Inr child_node \<Rightarrow>
                                (update_node (update_node s (set_parent (Some (in_id n)) child_node))
                                   (Internal p1),
                                 Ok (Internal (n1\<lparr>in_children := in_children n @ [child]\<rparr>),
                                     Internal (right1\<lparr>in_children := rest\<rparr>))))
               else (s, Ok (Internal n, Internal right))))"
| "borrow_right_nodes s parent_id _ _ = (s, Err (InternalError ''Node type mismatch''))"

definition borrow_from_right :: "BPlusTree \<Rightarrow> BPlusTreeNode \<Rightarrow> node_id \<Rightarrow> unit tree_result" where
  "borrow_from_right s n right_id =
     (case get_node s right_id of
        Inl f \<Rightarrow> (s, Inl f)
      | Inr right \<Rightarrow>
          (case parent n of
             None \<Rightarrow> (s, Err (InternalError ''Node has no parent''))
           | Some parent_id \<Rightarrow>
               and_then (borrow_right_nodes s parent_id n right) (\<lambda>s1 (n', right').
                 let s2 = update_node (update_node s1 right') n'
                 in if is_leaf right' then update_separator_key s2 parent_id right_id
                    else (s2, Ok ()))))"

text \<open>The leaf after the merged pair is told its new predecessor.\<close>

definition relink_prev :: "BPlusTree \<Rightarrow> node_id option \<Rightarrow> node_id \<Rightarrow> unit tree_result" where
  "relink_prev s nxt new_prev =
     (case nxt of
        None \<Rightarrow> (s, Ok ())
      | Some next_id \<Rightarrow>
          (case get_node s next_id of
             Inl f \<Rightarrow> (s, Inl f)
           | Inr (Leaf nl) \<Rightarrow> (update_node s (Leaf (nl\<lparr>lf_prev := Some new_prev\<rparr>)), Ok ())
           | Inr (Internal ni) \<Rightarrow> (update_node s (Internal ni), Ok ())))"

fun merge_left_nodes ::
  "BPlusTree \<Rightarrow> node_id \<Rightarrow> node_id \<Rightarrow> BPlusTreeNode \<Rightarrow> BPlusTreeNode \<Rightarrow> BPlusTreeNode tree_result" where
  "merge_left_nodes s parent_id left_id (Leaf leaf) (Leaf left) =
     and_then (relink_prev s (lf_next leaf) left_id) (\<lambda>s1 _.
       (s1, Ok (Leaf (left\<lparr>lf_entries := lf_entries left @ lf_entries leaf, lf_next := lf_next leaf\<rparr>))))"
| "merge_left_nodes s parent_id left_id (Internal n) (Internal left) =
     (case get_node s parent_id of
        Inl f \<Rightarrow> (s, Inl f)
      | Inr par \<Rightarrow>
          let sep = (case par of
                       Leaf _ \<Rightarrow> []
                     | Internal p \<Rightarrow>
                         (case position (in_id n) (in_children p) of
                            None \<Rightarrow> []
                          | Some pos \<Rightarrow> if 0 < pos \<and> pos \<le> length (in_keys p) then [in_keys p ! (pos - 1)] else []));
              left1 = left\<lparr>in_keys := in_keys left @ sep @ in_keys n,
                           in_children := in_children left @ in_children n\<rparr>
          in and_then (set_parents s (in_children left1) left_id) (\<lambda>s1 _. (s1, Ok (Internal left1))))"
| "merge_left_nodes s parent_id left_id _ _ = (s, Err (InternalError ''Node type mismatch''))"

definition merge_with_left ::
  "(BPlusTree \<Rightarrow> node_id \<Rightarrow> node_id \<Rightarrow> unit tree_result) \<Rightarrow>
   BPlusTree \<Rightarrow> BPlusTreeNode \<Rightarrow> node_id \<Rightarrow> unit tree_result" where
  "merge_with_left from_parent s n left_id =
     (case get_node s left_id of
        Inl f \<Rightarrow> (s, Inl f)
      | Inr left \<Rightarrow>
          (case parent n of
             None \<Rightarrow> (s, Err (InternalError ''Node has no parent''))
           | Some parent_id \<Rightarrow>
               and_then (merge_left_nodes s parent_id left_id n left) (\<lambda>s1 left'.
                 from_parent (remove_node (update_node s1 left') (node_id_of n)) parent_id (node_id_of n))))"

fun merge_right_nodes ::
  "BPlusTree \<Rightarrow> node_id \<Rightarrow> BPlusTreeNode \<Rightarrow> BPlusTreeNode \<Rightarrow> BPlusTreeNode tree_result" where
  "merge_right_nodes s parent_id (Leaf leaf) (Leaf right) =
     and_then (relink_prev s (lf_next right) (lf_id leaf)) (\<lambda>s1 _.
       (s1, Ok (Leaf (leaf\<lparr>lf_entries := lf_entries leaf @ lf_entries right, lf_next := lf_next right\<rparr>))))"
| "merge_right_nodes s parent_id (Internal n) (Internal right) =
     (case get_node s parent_id of
        Inl f \<Rightarrow> (s, Inl f)
      | Inr par \<Rightarrow>
          let sep = (case par of
                       Leaf _ \<Rightarrow> []
                     | Internal p \<Rightarrow>
                         (case position (in_id n) (in_children p) of
                            None \<Rightarrow> []
                          | Some pos \<Rightarrow> if pos < length (in_keys p) then [in_keys p ! pos] else []));
              n1 = n\<lparr>in_keys := in_keys n @ sep @ in_keys right,
                     in_children := in_children n @ in_children right\<rparr>
          in and_then (set_parents s (in_children n1) (in_id n)) (\<lambda>s1 _. (s1, Ok (Internal n1))))"
| "merge_right_nodes s parent_id _ _ = (s, Err (InternalError ''Node type mismatch''))"

definition merge_with_right ::
  "(BPlusTree \<Rightarrow> node_id \<Rightarrow> node_id \<Rightarrow> unit tree_result) \<Rightarrow>
   BPlusTree \<Rightarrow> BPlusTreeNode \<Rightarrow> node_id \<Rightarrow> unit tree_result" where
  "merge_with_right from_parent s n right_id =
     (case get_node s right_id of
        Inl f \<Rightarrow> (s, Inl f)
      | Inr right \<Rightarrow>
          (case parent n of
             None \<Rightarrow> (s, Err (InternalError ''Node has no parent''))
           | Some parent_id \<Rightarrow>
               and_then (merge_right_nodes s parent_id n right) (\<lambda>s1 n'.
                 from_parent (remove_node (update_node s1 n') right_id) parent_id right_id)))"

text \<open>\<open>drop_child\<close> is the first half of \<open>remove_from_parent\<close>: the child and its separator go.\<close>

fun drop_child :: "node_id \<Rightarrow> BPlusTreeNode \<Rightarrow> BPlusTreeNode" where
  "drop_child child_id (Internal p) =
     (case position child_id (in_children p) of
        None \<Rightarrow> Internal p
      | Some pos \<Rightarrow>
          Internal (p\<lparr>in_children := vec_remove pos (in_children p),
                      in_keys := (if 0 < pos \<and> pos \<le> length (in_keys p) then vec_remove (pos - 1) (in_keys p)
                                  else if pos = 0 \<and> in_keys p \<noteq> [] then vec_remove 0 (in_keys p)
                                  else in_keys p)\<rparr>))"
| "drop_child child_id (Leaf l) = Leaf l"

fun only_child :: "BPlusTreeNode \<Rightarrow> node_id option" where
  "only_child (Internal p) = (case in_children p of [c] \<Rightarrow> Some c | _ \<Rightarrow> None)"
| "only_child (Leaf _) = None"

definition remove_from_parent ::
  "(BPlusTree \<Rightarrow> BPlusTreeNode \<Rightarrow> unit tree_result) \<Rightarrow>
   BPlusTree \<Rightarrow> node_id \<Rightarrow> node_id \<Rightarrow> unit tree_result" where
  "remove_from_parent underflow s parent_id child_id =
     (case get_node s parent_id of
        Inl f \<Rightarrow> (s, Inl f)
      | Inr par0 \<Rightarrow>
          let par = drop_child child_id par0
          in case (if parent par = None then only_child par else None) of
               Some new_root_id \<Rightarrow>
                 (case get_node s new_root_id of
                    Inl f \<Rightarrow> (s, Inl f)
                  | Inr new_root \<Rightarrow>
                      (remove_node ((update_node s (set_parent None new_root))\<lparr>root_id := new_root_id\<rparr>)
                         parent_id, Ok ()))
             | None \<Rightarrow>
                 if key_count par < min_keys (config s) \<and> parent par \<noteq> None then underflow s par
                 else (update_node s par, Ok ()))"

text \<open>
  The four attempts of \<open>handle_underflow\<close> in the source's order: borrow left, borrow right,
  merge left, merge right. A sibling found by id but missing from the heap is an error.
\<close>

primrec handle_underflow :: "nat \<Rightarrow> BPlusTree \<Rightarrow> BPlusTreeNode \<Rightarrow> unit tree_result" where
  "handle_underflow 0 s n = (s, Inl Diverged)"
| "handle_underflow (Suc fuel) s n =
     (case parent n of
        None \<Rightarrow> (s, Err (InternalError ''Node has no parent''))
      | Some parent_id \<Rightarrow>
          (case get_node s parent_id of
             Inl f \<Rightarrow> (s, Inl f)
           | Inr par \<Rightarrow>
               let lid = get_left_sibling n par; rid = get_right_sibling n par;
                   spare = (\<lambda>i. case i of
                                   None \<Rightarrow> Ok False
                                 | Some i \<Rightarrow>
                                     (case get_node s i of
                                        Inl f \<Rightarrow> Inl f
                                      | Inr sib \<Rightarrow> Ok (min_keys (config s) < key_count sib)))
               in case spare lid of
                    Inl f \<Rightarrow> (s, Inl f)
                  | Inr True \<Rightarrow> borrow_from_left s n (the lid)
                  | Inr False \<Rightarrow>
                      (case spare rid of
                         Inl f \<Rightarrow> (s, Inl f)
                       | Inr True \<Rightarrow> borrow_from_right s n (the rid)
                       | Inr False \<Rightarrow>
                           (case lid of
                              Some i \<Rightarrow> merge_with_left (remove_from_parent (handle_underflow fuel)) s n i
                            | None \<Rightarrow>
                                (case rid of
                                   Some i \<Rightarrow> merge_with_right (remove_from_parent (handle_underflow fuel)) s n i
                                 | None \<Rightarrow> (update_node s n, Ok ()))))))"

definition BPlusTree_delete :: "BPlusTree \<Rightarrow> bytes \<Rightarrow> bool tree_result" where
  "BPlusTree_delete s key =
     (case find_leaf s (root_id s) key of
        Inl f \<Rightarrow> (s, Inl f)
      | Inr leaf_id \<Rightarrow>
          (case get_node s leaf_id of
             Inl f \<Rightarrow> (s, Inl f)
           | Inr leaf \<Rightarrow>
               (case delete_entry leaf key of
                  (None, _) \<Rightarrow> (s, Ok False)
                | (Some _, leaf') \<Rightarrow>
                    if key_count leaf' < min_keys (config s) \<and> parent leaf' \<noteq> None
                    then and_then (handle_underflow (next_node_id s + 1) s leaf') (\<lambda>s' _. (s', Ok True))
                    else (update_node s leaf', Ok True))))"

section \<open>Leaf access\<close>

definition get_leftmost_leaf :: "BPlusTree \<Rightarrow> (BTreeError, node_id) res" where
  "get_leftmost_leaf s =
     (case leftmost_leaf s of Some i \<Rightarrow> Ok i | None \<Rightarrow> Err (InternalError ''No leftmost leaf''))"

definition get_leaf_entries :: "BPlusTree \<Rightarrow> node_id \<Rightarrow> (BTreeError, entry_list) res" where
  "get_leaf_entries s i =
     (case get_node s i of
        Inl f \<Rightarrow> Inl f
      | Inr (Leaf n) \<Rightarrow> Ok (lf_entries n)
      | Inr (Internal _) \<Rightarrow> Err (InternalError ''Not a leaf node''))"

definition get_next_leaf :: "BPlusTree \<Rightarrow> node_id \<Rightarrow> (BTreeError, node_id option) res" where
  "get_next_leaf s i =
     (case get_node s i of
        Inl f \<Rightarrow> Inl f
      | Inr (Leaf n) \<Rightarrow> Ok (lf_next n)
      | Inr (Internal _) \<Rightarrow> Err (InternalError ''Not a leaf node''))"

definition get_prev_leaf :: "BPlusTree \<Rightarrow> node_id \<Rightarrow> (BTreeError, node_id option) res" where
  "get_prev_leaf s i =
     (case get_node s i of
        Inl f \<Rightarrow> Inl f
      | Inr (Leaf n) \<Rightarrow> Ok (lf_prev n)
      | Inr (Internal _) \<Rightarrow> Err (InternalError ''Not a leaf node''))"

end
