(* ===== verification/BTree_Inv.thy ===== *)
theory BTree_Inv
  imports BTree_Tree "HOL-Library.Multiset"
begin

text \<open>
  The invariant of the B+ tree heap. A tree value \<open>bt\<close> describes the shape a heap represents; the
  relation \<open>rep\<close> ties the two together. Order is stated once, on the left-to-right list of
  separators and entries (\<open>inord\<close>): splits, merges and rotations only cut or join that list.
  Operations work at the end of a path, so a tree is also viewed as a subtree plugged into a
  context of frames, innermost first.
\<close>

section \<open>Tree values\<close>

datatype bt = BL node_id entry_list | BN node_id "bytes list" "bt list"

fun tid :: "bt \<Rightarrow> node_id" where
  "tid (BL i _) = i"
| "tid (BN i _ _) = i"

fun ids :: "bt \<Rightarrow> node_id list" where
  "ids (BL i _) = [i]"
| "ids (BN i _ ts) = i # concat (map ids ts)"

fun leaves :: "bt \<Rightarrow> node_id list" where
  "leaves (BL i _) = [i]"
| "leaves (BN _ _ ts) = concat (map leaves ts)"

text \<open>An item is a separator \<open>(k, None)\<close> or an entry \<open>(k, Some v)\<close>.\<close>

type_synonym item = "bytes \<times> bytes option"

definition ent_item :: "bytes \<times> bytes \<Rightarrow> item" where
  "ent_item e = (fst e, Some (snd e))"

fun weave :: "bytes list \<Rightarrow> item list list \<Rightarrow> item list" where
  "weave (k # ks) (xs # xss) = xs @ (k, None) # weave ks xss"
| "weave [] xss = concat xss"
| "weave (k # ks) [] = []"

fun inord :: "bt \<Rightarrow> item list" where
  "inord (BL _ es) = map ent_item es"
| "inord (BN _ ks ts) = weave ks (map inord ts)"

fun ents :: "item list \<Rightarrow> entry_list" where
  "ents [] = []"
| "ents ((k, None) # xs) = ents xs"
| "ents ((k, Some v) # xs) = (k, v) # ents xs"

definition item_less :: "item \<Rightarrow> item \<Rightarrow> bool" where
  "item_less x y \<longleftrightarrow> fst x < fst y \<or> fst x = fst y \<and> snd x = None \<and> snd y \<noteq> None"

abbreviation items_sorted :: "item list \<Rightarrow> bool" where
  "items_sorted \<equiv> sorted_wrt item_less"

lemma ents_append [simp]: "ents (xs @ ys) = ents xs @ ents ys"
  by (induction xs rule: ents.induct) auto

lemma ents_ent_item [simp]: "ents (map ent_item es) = es"
  by (induction es) (auto simp: ent_item_def)

lemma set_ents: "(k, v) \<in> set (ents xs) \<longleftrightarrow> (k, Some v) \<in> set xs"
  by (induction xs rule: ents.induct) auto

lemma items_sorted_ents: "items_sorted xs \<Longrightarrow> ksorted (ents xs)"
  by (induction xs rule: ents.induct) (fastforce simp: item_less_def set_ents)+

lemma items_sorted_leaf: "items_sorted (map ent_item es) \<longleftrightarrow> ksorted es"
  by (simp add: sorted_wrt_map item_less_def ent_item_def)

lemma weave_append:
  "length ks1 = length xs1 \<Longrightarrow>
   weave (ks1 @ ks2) (xs1 @ xs2) = weave ks1 (xs1 @ [[]]) @ weave ks2 xs2"
  by (induction ks1 xs1 rule: list_induct2) auto

lemma weave_Cons: "NO_MATCH [] xs \<Longrightarrow> length ks = length xss \<Longrightarrow> weave ks (xs # xss) = xs @ weave ks ([] # xss)"
  by (cases ks) auto

lemma weave_snoc:
  "NO_MATCH [] xs \<Longrightarrow> length ks = length xss \<Longrightarrow> weave ks (xss @ [xs]) = weave ks (xss @ [[]]) @ xs"
  by (rotate_tac, induction ks xss rule: list_induct2) auto

lemma weave_split:
  "length ks1 = length xs1 \<Longrightarrow>
   weave (ks1 @ k # ks2) (xs1 @ x # xs2) = weave ks1 (xs1 @ [x]) @ (k, None) # weave ks2 xs2"
  by (induction ks1 xs1 rule: list_induct2) auto

lemma set_weave_keys: "length ks < length xss \<Longrightarrow> k \<in> set ks \<Longrightarrow> (k, None) \<in> set (weave ks xss)"
  by (induction ks xss rule: weave.induct) auto

lemma weave_keys_sorted:
  "items_sorted (weave ks xss) \<Longrightarrow> length ks < length xss \<Longrightarrow> sorted_wrt (<) ks"
  by (induction ks xss rule: weave.induct)
     (auto simp: sorted_wrt_append item_less_def dest!: set_weave_keys)

section \<open>Contexts\<close>

datatype frame =
  Frame (fr_id: node_id) (fr_kl: "bytes list") (fr_cl: "bt list") (fr_kr: "bytes list") (fr_cr: "bt list")

type_synonym ctx = "frame list"

fun plug :: "bt \<Rightarrow> ctx \<Rightarrow> bt" where
  "plug t [] = t"
| "plug t (Frame i kl cl kr cr # fs) = plug (BN i (kl @ kr) (cl @ t # cr)) fs"

fun hole_parent :: "ctx \<Rightarrow> node_id option" where
  "hole_parent [] = None"
| "hole_parent (f # _) = Some (fr_id f)"

fun ctx_ids :: "ctx \<Rightarrow> node_id list" where
  "ctx_ids [] = []"
| "ctx_ids (Frame i kl cl kr cr # fs) = i # concat (map ids (cl @ cr)) @ ctx_ids fs"

fun root_of :: "node_id \<Rightarrow> ctx \<Rightarrow> node_id" where
  "root_of i [] = i"
| "root_of i (f # fs) = root_of (fr_id f) fs"

fun items_left :: "ctx \<Rightarrow> item list" where
  "items_left [] = []"
| "items_left (Frame i kl cl kr cr # fs) = items_left fs @ weave kl (map inord cl @ [[]])"

fun items_right :: "ctx \<Rightarrow> item list" where
  "items_right [] = []"
| "items_right (Frame i kl cl kr cr # fs) = weave kr ([] # map inord cr) @ items_right fs"

fun leaves_left :: "ctx \<Rightarrow> node_id list" where
  "leaves_left [] = []"
| "leaves_left (Frame i kl cl kr cr # fs) = leaves_left fs @ concat (map leaves cl)"

fun leaves_right :: "ctx \<Rightarrow> node_id list" where
  "leaves_right [] = []"
| "leaves_right (Frame i kl cl kr cr # fs) = concat (map leaves cr) @ leaves_right fs"

section \<open>Shape and occupancy\<close>

text \<open>
  All leaves at height 0; a node has one child more than keys. Below the root every node holds at
  least \<open>lo\<close> keys; \<open>b\<close> is the bound at the top of the tree in question. Leaves stay under \<open>m\<close>
  entries, internal nodes may reach \<open>m\<close> keys by a merge.
\<close>

fun node_ok :: "nat \<Rightarrow> nat \<Rightarrow> nat \<Rightarrow> nat \<Rightarrow> bt \<Rightarrow> bool" where
  "node_ok b lo m 0 (BL i es) \<longleftrightarrow> b \<le> length es \<and> length es < m"
| "node_ok b lo m (Suc h) (BN i ks ts) \<longleftrightarrow>
     b \<le> length ks \<and> length ks \<le> m \<and> length ts = Suc (length ks) \<and> (\<forall>t \<in> set ts. node_ok lo lo m h t)"
| "node_ok b lo m _ _ \<longleftrightarrow> False"

definition root_min :: "nat \<Rightarrow> nat" where
  "root_min h = (if h = 0 then 0 else 1)"

definition tree_ok :: "nat \<Rightarrow> nat \<Rightarrow> nat \<Rightarrow> bt \<Rightarrow> bool" where
  "tree_ok lo m h t \<longleftrightarrow> node_ok (root_min h) lo m h t"

definition hole_min :: "nat \<Rightarrow> nat \<Rightarrow> ctx \<Rightarrow> nat" where
  "hole_min lo h fs = (if fs = [] then root_min h else lo)"

fun ctx_ok :: "nat \<Rightarrow> nat \<Rightarrow> nat \<Rightarrow> ctx \<Rightarrow> bool" where
  "ctx_ok lo m h [] \<longleftrightarrow> True"
| "ctx_ok lo m h (Frame i kl cl kr cr # fs) \<longleftrightarrow>
     length cl = length kl \<and> length cr = length kr \<and>
     hole_min lo (Suc h) fs \<le> length kl + length kr \<and> length kl + length kr \<le> m \<and>
     (\<forall>t \<in> set cl \<union> set cr. node_ok lo lo m h t) \<and> ctx_ok lo m (Suc h) fs"

lemma node_ok_mono: "node_ok b lo m h t \<Longrightarrow> b' \<le> b \<Longrightarrow> node_ok b' lo m h t"
  by (cases "(b, lo, m, h, t)" rule: node_ok.cases) auto

lemma tree_ok_plug:
  "node_ok (hole_min lo h fs) lo m h t \<Longrightarrow> ctx_ok lo m h fs \<Longrightarrow> tree_ok lo m (h + length fs) (plug t fs)"
proof (induction fs arbitrary: h t)
  case Nil
  then show ?case by (simp add: tree_ok_def hole_min_def)
next
  case (Cons f fs)
  obtain i kl cl kr cr where f: "f = Frame i kl cl kr cr" by (cases f)
  have "node_ok (hole_min lo (Suc h) fs) lo m (Suc h) (BN i (kl @ kr) (cl @ t # cr))"
    using Cons.prems by (auto simp: f hole_min_def)
  with Cons.IH [of "Suc h"] Cons.prems(2) show ?case by (simp add: f)
qed

section \<open>The heap\<close>

text \<open>\<open>node_rep p t n\<close>: the node value \<open>n\<close> is the top node of \<open>t\<close>, with parent pointer \<open>p\<close>.\<close>

fun node_rep :: "node_id option \<Rightarrow> bt \<Rightarrow> BPlusTreeNode \<Rightarrow> bool" where
  "node_rep p (BL i es) (Leaf l) \<longleftrightarrow> lf_id l = i \<and> lf_entries l = es \<and> lf_parent l = p"
| "node_rep p (BN i ks ts) (Internal n) \<longleftrightarrow>
     in_id n = i \<and> in_keys n = ks \<and> in_children n = map tid ts \<and> in_parent n = p"
| "node_rep p _ _ \<longleftrightarrow> False"

fun rep :: "(node_id \<rightharpoonup> BPlusTreeNode) \<Rightarrow> node_id option \<Rightarrow> bt \<Rightarrow> bool" where
  "rep ns p (BL i es) \<longleftrightarrow> (\<exists>n. ns i = Some n \<and> node_rep p (BL i es) n)"
| "rep ns p (BN i ks ts) \<longleftrightarrow>
     (\<exists>n. ns i = Some n \<and> node_rep p (BN i ks ts) n) \<and> (\<forall>t \<in> set ts. rep ns (Some i) t)"

fun rep_ctx :: "(node_id \<rightharpoonup> BPlusTreeNode) \<Rightarrow> node_id \<Rightarrow> ctx \<Rightarrow> bool" where
  "rep_ctx ns c [] \<longleftrightarrow> True"
| "rep_ctx ns c (Frame i kl cl kr cr # fs) \<longleftrightarrow>
     (\<exists>n. ns i = Some (Internal n) \<and> in_id n = i \<and> in_keys n = kl @ kr \<and>
          in_children n = map tid cl @ c # map tid cr \<and> in_parent n = hole_parent fs) \<and>
     (\<forall>t \<in> set cl \<union> set cr. rep ns (Some i) t) \<and> rep_ctx ns i fs"

text \<open>The leaf chain: each leaf's \<open>next\<close> is the following leaf, the last one's is \<open>e\<close>.\<close>

fun node_next :: "BPlusTreeNode \<Rightarrow> node_id option" where
  "node_next (Leaf l) = lf_next l"
| "node_next (Internal _) = None"

definition next_of :: "(node_id \<rightharpoonup> BPlusTreeNode) \<Rightarrow> node_id \<Rightarrow> node_id option" where
  "next_of ns i = Option.bind (ns i) node_next"

primrec chain :: "(node_id \<rightharpoonup> BPlusTreeNode) \<Rightarrow> node_id option \<Rightarrow> node_id list \<Rightarrow> bool" where
  "chain ns e [] \<longleftrightarrow> True"
| "chain ns e (x # xs) \<longleftrightarrow>
     next_of ns x = (case xs of [] \<Rightarrow> e | y # _ \<Rightarrow> Some y) \<and> chain ns e xs"

lemma node_next_set_parent [simp]: "node_next (set_parent p n) = node_next n"
  by (cases n) auto

lemma node_id_of_set_parent [simp]: "node_id_of (set_parent p n) = node_id_of n"
  by (cases n) auto

lemma next_of_upd: "next_of (ns(i \<mapsto> n)) = (next_of ns)(i := node_next n)"
  by (auto simp: next_of_def)

lemma next_of_upd_same: "next_of ns i = node_next n \<Longrightarrow> next_of (ns(i \<mapsto> n)) = next_of ns"
  by (auto simp: next_of_def)

lemma chain_append [simp]:
  "chain ns e (xs @ y # ys) \<longleftrightarrow> chain ns (Some y) xs \<and> chain ns e (y # ys)"
  by (induction xs) (auto split: list.splits)

lemma chain_cong: "\<forall>i \<in> set xs. next_of ns' i = next_of ns i \<Longrightarrow> chain ns' e xs = chain ns e xs"
  by (induction xs) auto

lemma tid_in_ids [simp]: "tid t \<in> set (ids t)"
  by (cases t) auto

lemma leaves_subset: "set (leaves t) \<subseteq> set (ids t)"
  by (induction t) auto

lemma leaves_nonempty: "node_ok b lo m h t \<Longrightarrow> leaves t \<noteq> []"
proof (induction b lo m h t rule: node_ok.induct)
  case (2 b lo m h i ks ts)
  then obtain t ts' where "ts = t # ts'" by (cases ts) auto
  with 2 show ?case by auto
qed auto

lemma rep_top: "rep ns p t \<Longrightarrow> \<exists>n. ns (tid t) = Some n \<and> node_rep p t n"
  by (cases t) auto

lemma node_rep_BN:
  "node_rep p (BN i ks ts) n \<longleftrightarrow>
   (\<exists>m. n = Internal m \<and> in_id m = i \<and> in_keys m = ks \<and> in_children m = map tid ts \<and> in_parent m = p)"
  by (cases n) auto

lemma node_rep_BL:
  "node_rep p (BL i es) n \<longleftrightarrow>
   (\<exists>l. n = Leaf l \<and> lf_id l = i \<and> lf_entries l = es \<and> lf_parent l = p)"
  by (cases n) auto

lemma node_rep_id: "node_rep p t n \<Longrightarrow> node_id_of n = tid t"
  by (cases "(p, t, n)" rule: node_rep.cases) auto

lemma node_rep_parent: "node_rep p t n \<Longrightarrow> parent n = p"
  by (cases "(p, t, n)" rule: node_rep.cases) auto

lemma node_rep_set_parent: "node_rep p t n \<Longrightarrow> node_rep q t (set_parent q n)"
  by (cases "(p, t, n)" rule: node_rep.cases) auto

lemma rep_cong:
  assumes "rep ns p t" "\<forall>i \<in> set (ids t). ns' i = ns i"
  shows "rep ns' p t"
  using assms by (induction ns p t rule: rep.induct) auto

lemma rep_ctx_cong:
  assumes "rep_ctx ns c fs" "\<forall>i \<in> set (ctx_ids fs). ns' i = ns i"
  shows "rep_ctx ns' c fs"
  using assms
proof (induction ns c fs rule: rep_ctx.induct)
  case (2 ns c i kl cl kr cr fs)
  have "rep ns' (Some i) t" if "t \<in> set cl \<union> set cr" for t
    using that 2(2,3) by (intro rep_cong [of ns "Some i" t ns']) auto
  with 2 show ?case by auto
qed simp

text \<open>Changing only the top node of a tree.\<close>

lemma rep_update_top:
  assumes "rep ns p t" "distinct (ids t)" "node_rep q t n"
  shows "rep (ns(tid t \<mapsto> n)) q t"
proof (cases t)
  case (BL i es)
  with assms(3) show ?thesis by simp
next
  case (BN i ks ts)
  have "i \<notin> set (ids t')" if "t' \<in> set ts" for t'
    using assms(2) that by (auto simp: BN)
  then have "rep (ns(i \<mapsto> n)) (Some i) t'" if "t' \<in> set ts" for t'
    using assms(1) that rep_cong [of ns "Some i" t' "ns(i \<mapsto> n)"] by (force simp: BN)
  with assms(3) show ?thesis by (simp add: BN)
qed

lemma rep_plug: "rep ns None (plug t fs) \<longleftrightarrow> rep ns (hole_parent fs) t \<and> rep_ctx ns (tid t) fs"
proof (induction fs arbitrary: t)
  case (Cons f fs)
  obtain i kl cl kr cr where f: "f = Frame i kl cl kr cr" by (cases f)
  have *: "(\<exists>n. ns i = Some n \<and> node_rep p (BN i (kl @ kr) (cl @ t # cr)) n) \<longleftrightarrow>
     (\<exists>n. ns i = Some (Internal n) \<and> in_id n = i \<and> in_keys n = kl @ kr \<and>
          in_children n = map tid cl @ tid t # map tid cr \<and> in_parent n = p)" for p
    by (auto simp: node_rep_BN)
  show ?case by (auto simp: f Cons.IH *)
qed simp

lemma mset_ids_plug: "mset (ids (plug t fs)) = mset (ids t) + mset (ctx_ids fs)"
proof (induction fs arbitrary: t)
  case (Cons f fs)
  obtain i kl cl kr cr where "f = Frame i kl cl kr cr" by (cases f)
  with Cons show ?case by (simp add: ac_simps)
qed simp

lemma set_ids_plug: "set (ids (plug t fs)) = set (ids t) \<union> set (ctx_ids fs)"
  using mset_ids_plug [of t fs] by (metis set_mset_mset set_mset_union)

lemma distinct_ids_plug: "distinct (ids (plug t fs)) \<longleftrightarrow> distinct (ids t @ ctx_ids fs)"
  using mset_ids_plug [of t fs] by (metis mset_append mset_eq_imp_distinct_iff)

lemma leaves_plug: "leaves (plug t fs) = leaves_left fs @ leaves t @ leaves_right fs"
  by (induction t fs rule: plug.induct) auto

lemma tid_plug: "tid (plug t fs) = root_of (tid t) fs"
  by (induction t fs rule: plug.induct) auto

lemma inord_plug: "ctx_ok lo m h fs \<Longrightarrow> inord (plug t fs) = items_left fs @ inord t @ items_right fs"
  by (induction t fs arbitrary: h rule: plug.induct) (auto simp: weave_append weave_Cons)

lemma leaves_ctx_subset: "set (leaves_left fs) \<union> set (leaves_right fs) \<subseteq> set (ctx_ids fs)"
proof (induction fs rule: ctx_ids.induct)
  case (2 i kl cl kr cr fs)
  then show ?case by (auto dest: leaves_subset [THEN subsetD])
qed simp

section \<open>The invariant\<close>

text \<open>
  \<open>config_ok\<close> is what the algorithms need of the two limits: two nodes at the lower limit fit
  into one, and a split leaves both halves non-empty. The lower bound that holds of every node
  below the root is \<open>lo_keys\<close>: splitting a full internal node may leave one key less than
  \<open>min_keys\<close> on the right.
\<close>

definition config_ok :: "BPlusTreeConfig \<Rightarrow> bool" where
  "config_ok c \<longleftrightarrow> 1 \<le> min_keys c \<and> 2 * min_keys c \<le> max_keys c \<and> 3 \<le> max_keys c"

definition lo_keys :: "BPlusTreeConfig \<Rightarrow> nat" where
  "lo_keys c = min (min_keys c) ((max_keys c - 1) div 2)"

definition owns :: "BPlusTree \<Rightarrow> node_id list \<Rightarrow> bool" where
  "owns s xs \<longleftrightarrow> distinct xs \<and> dom (nodes s) = set xs \<and> (\<forall>i \<in> set xs. i < next_node_id s)"

definition struct_ok :: "BPlusTree \<Rightarrow> bt \<Rightarrow> bool" where
  "struct_ok s t \<longleftrightarrow> rep (nodes s) None t \<and> owns s (ids t) \<and> root_id s = tid t"

definition heap_ok :: "BPlusTree \<Rightarrow> bt \<Rightarrow> bool" where
  "heap_ok s t \<longleftrightarrow>
     struct_ok s t \<and> chain (nodes s) None (leaves t) \<and> leftmost_leaf s = Some (hd (leaves t))"

lemmas heap_ok_unfold = heap_ok_def struct_ok_def owns_def

definition tree_inv :: "BPlusTree \<Rightarrow> nat \<Rightarrow> bt \<Rightarrow> bool" where
  "tree_inv s h t \<longleftrightarrow>
     config_ok (config s) \<and> heap_ok s t \<and>
     tree_ok (lo_keys (config s)) (max_keys (config s)) h t \<and> items_sorted (inord t)"

definition btree_inv :: "BPlusTree \<Rightarrow> bool" where
  "btree_inv s \<longleftrightarrow> (\<exists>h t. tree_inv s h t)"

text \<open>The content of a tree, read off the heap without the leaf chain.\<close>

primrec collect :: "nat \<Rightarrow> BPlusTree \<Rightarrow> node_id \<Rightarrow> entry_list" where
  "collect 0 s i = []"
| "collect (Suc fuel) s i =
     (case nodes s i of
        None \<Rightarrow> []
      | Some (Leaf l) \<Rightarrow> lf_entries l
      | Some (Internal n) \<Rightarrow> concat (map (collect fuel s) (in_children n)))"

definition tree_entries :: "BPlusTree \<Rightarrow> entry_list" where
  "tree_entries s = collect (next_node_id s + 1) s (root_id s)"

lemma ents_weave: "length xss = Suc (length ks) \<Longrightarrow> ents (weave ks xss) = concat (map ents xss)"
  by (induction ks xss rule: weave.induct) (auto simp: ents_append length_Suc_conv)

lemma node_ok_cases:
  assumes "node_ok b lo m h t"
  obtains (leaf) i es where "h = 0" "t = BL i es" "b \<le> length es" "length es < m"
  | (inner) h' i ks ts where "h = Suc h'" "t = BN i ks ts" "b \<le> length ks" "length ks \<le> m"
      "length ts = Suc (length ks)" "\<forall>t \<in> set ts. node_ok lo lo m h' t"
  using assms by (cases "(b, lo, m, h, t)" rule: node_ok.cases) auto

lemma collect_rep:
  "rep (nodes s) p t \<Longrightarrow> node_ok b lo m h t \<Longrightarrow> h < fuel \<Longrightarrow> collect fuel s (tid t) = ents (inord t)"
proof (induction h arbitrary: fuel p t b)
  case 0
  then obtain i es f where "t = BL i es" "fuel = Suc f"
    by (cases fuel) (auto elim: node_ok_cases)
  with 0 show ?case by (auto simp: node_rep_BL)
next
  case (Suc h)
  obtain f where f: "fuel = Suc f" using Suc.prems(3) by (cases fuel) auto
  from Suc.prems(2) show ?case
  proof (cases rule: node_ok_cases)
    case (inner h' i ks ts)
    have "collect f s (tid t') = ents (inord t')" if "t' \<in> set ts" for t'
      by (rule Suc.IH [of "Some i" _ lo]) (use Suc.prems inner f that in auto)
    with Suc.prems(1) inner show ?thesis
      by (auto simp: f node_rep_BN ents_weave comp_def cong: map_cong)
  qed simp
qed

lemma height_less_ids: "node_ok b lo m h t \<Longrightarrow> h < length (ids t)"
proof (induction b lo m h t rule: node_ok.induct)
  case (2 b lo m h i ks ts)
  then obtain t ts' where "ts = t # ts'" by (cases ts) auto
  with 2 have "h < length (ids t)" by simp
  with \<open>ts = t # ts'\<close> show ?case by simp
qed auto

lemma heap_ok_ids_length: "heap_ok s t \<Longrightarrow> length (ids t) \<le> next_node_id s"
proof -
  assume *: "heap_ok s t"
  then have "set (ids t) \<subseteq> {..<next_node_id s}" by (auto simp: heap_ok_unfold)
  with * show ?thesis
    using card_mono [of "{..<next_node_id s}" "set (ids t)"] by (simp add: heap_ok_unfold distinct_card)
qed

lemma tree_inv_height: "tree_inv s h t \<Longrightarrow> h < next_node_id s"
  using heap_ok_ids_length height_less_ids by (force simp: tree_inv_def tree_ok_def)

lemma tree_entries_eq:
  assumes "tree_inv s h t"
  shows "tree_entries s = ents (inord t)"
proof -
  have "rep (nodes s) None t" "root_id s = tid t" and ok: "node_ok (root_min h) (lo_keys (config s)) (max_keys (config s)) h t"
    using assms by (auto simp: tree_inv_def heap_ok_unfold tree_ok_def)
  with collect_rep [OF _ ok] tree_inv_height [OF assms] show ?thesis
    by (simp add: tree_entries_def del: collect.simps)
qed

lemma tree_entries_sorted: "btree_inv s \<Longrightarrow> ksorted (tree_entries s)"
  by (auto simp: btree_inv_def tree_entries_eq tree_inv_def intro: items_sorted_ents)

lemma tree_inv_new: "config_ok cfg \<Longrightarrow> tree_inv (BPlusTree_new cfg) 0 (BL 0 [])"
  by (auto simp: tree_inv_def heap_ok_unfold BPlusTree_new_def new_leaf_def LeafNode_new_def
      tree_ok_def root_min_def config_ok_def next_of_def)

end
