(* ===== verification/BTree_Search.thy ===== *)
theory BTree_Search
  imports BTree_Inv
begin

text \<open>
  The descent from the root: under the invariant it returns the leaf whose interval contains the
  key, and lookups agree with the content of the tree.
\<close>

section \<open>The path of a key\<close>

text \<open>\<open>located k fs\<close>: everything left of the hole is below \<open>k\<close>, everything right of it above.\<close>

definition located :: "bytes \<Rightarrow> ctx \<Rightarrow> bool" where
  "located k fs \<longleftrightarrow>
     (\<forall>x \<in> set (items_left fs). item_less x (k, Some [])) \<and>
     (\<forall>x \<in> set (items_right fs). item_less (k, Some []) x)"

lemma weave_below:
  assumes "items_sorted (weave ks (xss @ [[]]))" "length ks = length xss" "\<forall>k \<in> set ks. k \<le> key"
  shows "\<forall>x \<in> set (weave ks (xss @ [[]])). item_less x (key, Some [])"
proof (cases ks rule: rev_cases)
  case Nil
  with assms(2) show ?thesis by simp
next
  case (snoc ks' k)
  with assms(2) obtain xss' xs where xss: "xss = xss' @ [xs]" "length ks' = length xss'"
    by (cases xss rule: rev_cases) auto
  have "weave ks (xss @ [[]]) = (weave ks' (xss' @ [[]]) @ xs) @ [(k, None)]"
    using xss weave_append [of ks' xss' "[k]" "[xs, []]"] by (simp add: snoc)
  with assms(1,3) show ?thesis
    by (auto simp: snoc sorted_wrt_append item_less_def)
qed

lemma weave_above:
  assumes "items_sorted (weave ks ([] # xss))" "length ks = length xss" "\<forall>k \<in> set ks. key < k"
  shows "\<forall>x \<in> set (weave ks ([] # xss)). item_less (key, Some []) x"
  using assms by (cases ks) (auto simp: item_less_def)

lemma split_at_key:
  assumes "sorted_wrt (<) ks" "length ts = Suc (length ks)"
  obtains kl kr cl t cr where "ks = kl @ kr" "ts = cl @ t # cr" "length cl = length kl" "length cr = length kr"
    "\<forall>k \<in> set kl. k \<le> (key :: bytes)" "\<forall>k \<in> set kr. key < k"
proof -
  define kl kr where "kl = takeWhile (\<lambda>k. k \<le> key) ks" and "kr = dropWhile (\<lambda>k. k \<le> key) ks"
  have ks: "ks = kl @ kr" by (simp add: kl_def kr_def)
  have "kr \<noteq> [] \<Longrightarrow> key < hd kr" using hd_dropWhile [of "\<lambda>k. k \<le> key" ks] by (simp add: kr_def)
  with assms(1) have "\<forall>k \<in> set kr. key < k"
    by (cases kr) (auto simp: ks sorted_wrt_append)
  moreover have "\<forall>k \<in> set kl. k \<le> key" by (auto simp: kl_def dest: set_takeWhileD)
  moreover have "length kl < length ts" using assms(2) ks by simp
  note id_take_nth_drop [OF this]
  ultimately show thesis
    using assms(2) ks that [of kl kr "take (length kl) ts" "ts ! length kl" "drop (Suc (length kl)) ts"] by simp
qed

lemma descend:
  assumes "items_sorted (inord (plug (BN i ks ts) fs))" "ctx_ok lo m (Suc h) fs" "located key fs"
    and "node_ok (hole_min lo (Suc h) fs) lo m (Suc h) (BN i ks ts)"
  obtains kl kr cl t cr where "ks = kl @ kr" "ts = cl @ t # cr" "length cl = length kl"
    "\<And>n. in_keys n = ks \<Longrightarrow> find_child_index n key = length kl"
    "located key (Frame i kl cl kr cr # fs)" "ctx_ok lo m h (Frame i kl cl kr cr # fs)"
    "node_ok lo lo m h t"
proof -
  have sorted: "items_sorted (items_left fs @ weave ks (map inord ts) @ items_right fs)"
    using assms(1,2) inord_plug [of lo m "Suc h" fs] by simp
  have len: "length ts = Suc (length ks)" using assms(4) by simp
  with sorted have ks: "sorted_wrt (<) ks"
    by (auto simp: sorted_wrt_append intro: weave_keys_sorted [of ks "map inord ts"])
  obtain kl kr cl t cr where split: "ks = kl @ kr" "ts = cl @ t # cr" "length cl = length kl" "length cr = length kr"
    "\<forall>k \<in> set kl. k \<le> key" "\<forall>k \<in> set kr. key < k"
    using split_at_key [OF ks len] by metis
  let ?l = "weave kl (map inord cl @ [[]])" and ?r = "weave kr ([] # map inord cr)"
  have "weave ks (map inord ts) = ?l @ inord t @ ?r"
    using split(3,4) by (simp add: split(1,2) weave_append weave_Cons)
  with sorted have "items_sorted ?l" "items_sorted ?r" by (auto simp: sorted_wrt_append)
  then have "located key (Frame i kl cl kr cr # fs)"
    using weave_below [of kl "map inord cl" key] weave_above [of kr "map inord cr" key] split(3-6) assms(3)
    by (auto simp: located_def)
  moreover have "find_child_index n key = length kl" if "in_keys n = ks" for n
    using find_child_index_split [OF _ split(5,6)] ks split(1) that by simp
  moreover have "ctx_ok lo m h (Frame i kl cl kr cr # fs)" "node_ok lo lo m h t"
    using assms(2,4) split(1-4) by auto
  ultimately show thesis using that split(1-3) by blast
qed

lemma find_leaf_loop_path:
  assumes "rep (nodes s) None (plug t fs)" "items_sorted (inord (plug t fs))" "located key fs"
    and "node_ok (hole_min lo h fs) lo m h t" "ctx_ok lo m h fs" "h < fuel"
  shows "\<exists>i es fs'. find_leaf_loop fuel s (tid t) key = Ok i \<and> plug t fs = plug (BL i es) fs' \<and>
    located key fs' \<and> node_ok (hole_min lo 0 fs') lo m 0 (BL i es) \<and> ctx_ok lo m 0 fs' \<and>
    length fs' = h + length fs"
  using assms
proof (induction h arbitrary: t fs fuel)
  case 0
  then obtain i es f where "t = BL i es" "fuel = Suc f"
    by (cases fuel) (auto elim: node_ok_cases)
  with 0 show ?case
    by (auto simp: rep_plug node_rep_BL get_node_def intro!: exI [of _ fs])
next
  case (Suc h)
  obtain f where f: "fuel = Suc f" using Suc.prems(6) by (cases fuel) auto
  obtain i ks ts where t: "t = BN i ks ts" using Suc.prems(4) by (auto elim: node_ok_cases)
  obtain kl kr cl c cr where d: "ks = kl @ kr" "ts = cl @ c # cr" "length cl = length kl"
    "\<And>n. in_keys n = ks \<Longrightarrow> find_child_index n key = length kl"
    "located key (Frame i kl cl kr cr # fs)" "ctx_ok lo m h (Frame i kl cl kr cr # fs)"
    "node_ok lo lo m h c"
    by (rule descend [of i ks ts fs lo m h key]) (use Suc.prems t in auto)
  have step: "find_leaf_loop fuel s (tid t) key = find_leaf_loop f s (tid c) key"
    using Suc.prems(1) d(1-4) by (auto simp: f t rep_plug node_rep_BN get_node_def nth_append)
  have plug: "plug t fs = plug c (Frame i kl cl kr cr # fs)" by (simp add: t d(1,2))
  have "rep (nodes s) None (plug c (Frame i kl cl kr cr # fs))"
    "items_sorted (inord (plug c (Frame i kl cl kr cr # fs)))"
    "node_ok (hole_min lo h (Frame i kl cl kr cr # fs)) lo m h c" "h < f"
    using Suc.prems d(7) by (simp_all add: f t d(1,2) hole_min_def)
  from Suc.IH [OF this(1,2) d(5) this(3) d(6) this(4)] show ?case
    unfolding step plug by simp
qed

lemma find_leaf_path:
  assumes "tree_inv s h t"
  obtains i es fs where "find_leaf s (root_id s) key = Ok i" "t = plug (BL i es) fs" "located key fs"
    "node_ok (hole_min (lo_keys (config s)) 0 fs) (lo_keys (config s)) (max_keys (config s)) 0 (BL i es)"
    "ctx_ok (lo_keys (config s)) (max_keys (config s)) 0 fs" "h = length fs"
proof -
  let ?lo = "lo_keys (config s)" and ?m = "max_keys (config s)"
  have *: "rep (nodes s) None t" "items_sorted (inord t)" "node_ok (root_min h) ?lo ?m h t" "root_id s = tid t"
    using assms by (auto simp: tree_inv_def heap_ok_unfold tree_ok_def)
  then show thesis
    using find_leaf_loop_path [of s t "[]" key ?lo h ?m "next_node_id s + 1"] tree_inv_height [OF assms] that
    by (auto simp: located_def hole_min_def find_leaf_def simp del: find_leaf_loop.simps)
qed

section \<open>Lookups\<close>

lemma located_ents:
  assumes "located key fs"
  shows "\<forall>e \<in> set (ents (items_left fs)). fst e < key" "\<forall>e \<in> set (ents (items_right fs)). key < fst e"
  using assms by (fastforce simp: located_def set_ents item_less_def)+

lemma located_lookup:
  assumes "located key fs"
  shows "map_of (ents (items_left fs) @ es @ ents (items_right fs)) key = map_of es key"
proof -
  have "map_of (ents (items_left fs)) key = None" "map_of (ents (items_right fs)) key = None"
    using located_ents [OF assms] by (auto simp: map_of_eq_None_iff)
  then show ?thesis by (simp add: map_add_def split: option.splits)
qed

lemma leaf_at_hole:
  assumes "rep (nodes s) None (plug (BL i es) fs)"
  obtains l where "get_node s i = Ok (Leaf l)" "lf_id l = i" "lf_entries l = es" "lf_parent l = hole_parent fs"
  using assms by (auto simp: rep_plug node_rep_BL get_node_def)

lemma leaf_sorted: "items_sorted (inord (plug (BL i es) fs)) \<Longrightarrow> ctx_ok lo m h fs \<Longrightarrow> ksorted es"
  by (auto simp: inord_plug sorted_wrt_append items_sorted_leaf)

lemma BPlusTree_get_correct:
  assumes "btree_inv s"
  shows "BPlusTree_get s key = Ok (map_of (tree_entries s) key)"
proof -
  obtain h t where t: "tree_inv s h t" using assms by (auto simp: btree_inv_def)
  obtain i es fs where p: "find_leaf s (root_id s) key = Ok i" "t = plug (BL i es) fs" "located key fs"
    "ctx_ok (lo_keys (config s)) (max_keys (config s)) 0 fs"
    using find_leaf_path [OF t] by metis
  have *: "rep (nodes s) None (plug (BL i es) fs)" "items_sorted (inord (plug (BL i es) fs))"
    using t p(2) by (auto simp: tree_inv_def heap_ok_unfold)
  obtain l where l: "get_node s i = Ok (Leaf l)" "lf_entries l = es" using leaf_at_hole [OF *(1)] by metis
  have "tree_entries s = ents (items_left fs) @ es @ ents (items_right fs)"
    using tree_entries_eq [OF t] p(2,4) by (simp add: inord_plug)
  with l p(1,3) leaf_sorted [OF *(2) p(4)] show ?thesis
    by (simp add: BPlusTree_get_def leaf_simps located_lookup del: map_of_append)
qed

end
