(* ===== verification/BTree_Insert.thy ===== *)
theory BTree_Insert
  imports BTree_Search
begin

text \<open>
  Insertion with splits. A split leaves the heap with a pair of trees at a hole whose parent has
  not been told yet (\<open>pending\<close>), and a parent that has absorbed them is a node value not yet
  written back (\<open>flight\<close>). Each step of the code turns one situation into the other until the
  tree is whole again, and none of them touches the leaf chain.
\<close>

section \<open>Intermediate heaps\<close>

definition pending :: "BPlusTree \<Rightarrow> bt \<Rightarrow> bt \<Rightarrow> ctx \<Rightarrow> bool" where
  "pending s l r fs \<longleftrightarrow>
     rep (nodes s) (hole_parent fs) l \<and> rep (nodes s) (hole_parent fs) r \<and> rep_ctx (nodes s) (tid l) fs \<and>
     owns s (ids l @ ids r @ ctx_ids fs) \<and> root_id s = root_of (tid l) fs"

definition flight :: "BPlusTree \<Rightarrow> BPlusTreeNode \<Rightarrow> bt \<Rightarrow> ctx \<Rightarrow> bool" where
  "flight s n t fs \<longleftrightarrow>
     node_rep (hole_parent fs) t n \<and> struct_ok (update_node s n) (plug t fs) \<and>
     tid t \<in> dom (nodes s) \<and> next_of (nodes s) (tid t) = node_next n"

definition same_leaves :: "BPlusTree \<Rightarrow> BPlusTree \<Rightarrow> bool" where
  "same_leaves s s' \<longleftrightarrow>
     next_of (nodes s') = next_of (nodes s) \<and> leftmost_leaf s' = leftmost_leaf s \<and> config s' = config s"

lemma same_leaves_refl [simp]: "same_leaves s s"
  by (simp add: same_leaves_def)

lemma same_leaves_trans: "same_leaves s1 s2 \<Longrightarrow> same_leaves s2 s3 \<Longrightarrow> same_leaves s1 s3"
  by (simp add: same_leaves_def)

lemma same_leaves_update: "next_of (nodes s) (node_id_of n) = node_next n \<Longrightarrow> same_leaves s (update_node s n)"
  by (simp add: same_leaves_def update_node_def next_of_upd_same)

lemma owns_perm: "mset xs = mset ys \<Longrightarrow> owns s xs \<longleftrightarrow> owns s ys"
  unfolding owns_def by (metis mset_eq_imp_distinct_iff mset_eq_setD)

lemma owns_fresh:
  "owns s xs \<Longrightarrow> dom (nodes s') = insert (next_node_id s) (dom (nodes s)) \<Longrightarrow>
   next_node_id s' = Suc (next_node_id s) \<Longrightarrow> owns s' (next_node_id s # xs)"
  by (auto simp: owns_def intro: less_SucI)

lemma owns_next_None: "owns s xs \<Longrightarrow> nodes s (next_node_id s) = None"
  unfolding owns_def by (metis domIff less_irrefl)

lemma owns_plug: "owns s (ids (plug t fs)) \<longleftrightarrow> owns s (ids t @ ctx_ids fs)"
  by (rule owns_perm) (simp add: mset_ids_plug)

lemma struct_ok_plug:
  "struct_ok s (plug t fs) \<longleftrightarrow>
   rep (nodes s) (hole_parent fs) t \<and> rep_ctx (nodes s) (tid t) fs \<and> owns s (ids t @ ctx_ids fs) \<and>
   root_id s = root_of (tid t) fs"
  by (auto simp: struct_ok_def rep_plug owns_plug tid_plug)

lemma get_node_Some: "nodes s i = Some n \<Longrightarrow> get_node s i = Ok n"
  by (simp add: get_node_def)

lemma nodes_update_node [simp]: "nodes (update_node s n) = (nodes s)(node_id_of n \<mapsto> n)"
  by (simp add: update_node_def)

lemma update_node_frame [simp]:
  "config (update_node s n) = config s" "root_id (update_node s n) = root_id s"
  "next_node_id (update_node s n) = next_node_id s" "leftmost_leaf (update_node s n) = leftmost_leaf s"
  by (simp_all add: update_node_def)

lemma owns_update [simp]: "node_id_of n \<in> dom (nodes s) \<Longrightarrow> owns (update_node s n) xs = owns s xs"
  by (simp add: owns_def insert_absorb)

section \<open>Parent pointers\<close>

lemma set_parents_ok:
  assumes "\<forall>t \<in> set ts. \<exists>p. rep (nodes s) p t" "distinct (concat (map ids ts))"
  shows "\<exists>ns. set_parents s (map tid ts) q = (s\<lparr>nodes := ns\<rparr>, Ok ()) \<and>
    (\<forall>t \<in> set ts. rep ns (Some q) t) \<and> (\<forall>i. i \<notin> set (concat (map ids ts)) \<longrightarrow> ns i = nodes s i) \<and>
    dom ns = dom (nodes s) \<and> next_of ns = next_of (nodes s)"
  using assms
proof (induction ts arbitrary: s)
  case Nil
  show ?case by (intro exI [of _ "nodes s"]) simp
next
  case (Cons t ts)
  obtain p where p: "rep (nodes s) p t" using Cons.prems(1) by auto
  then obtain n where n: "nodes s (tid t) = Some n" "node_rep p t n" using rep_top by blast
  define s1 where "s1 = update_node s (set_parent (Some q) n)"
  have id: "node_id_of n = tid t" using n(2) by (rule node_rep_id)
  have disj: "set (ids t) \<inter> set (concat (map ids ts)) = {}" "distinct (ids t)" "distinct (concat (map ids ts))"
    using Cons.prems(2) by auto
  have top: "rep (nodes s1) (Some q) t"
    using rep_update_top [OF p disj(2) node_rep_set_parent [OF n(2)], of "Some q"] by (simp add: s1_def id)
  have keep: "nodes s1 i = nodes s i" if "i \<notin> set (ids t)" for i
    using that tid_in_ids [of t] by (auto simp: s1_def id)
  have "\<exists>p. rep (nodes s1) p t'" if t': "t' \<in> set ts" for t'
  proof -
    obtain p' where "rep (nodes s) p' t'" using Cons.prems(1) t' by auto
    then have "rep (nodes s1) p' t'" by (rule rep_cong) (use disj(1) keep t' in force)
    then show ?thesis ..
  qed
  then obtain ns where ns: "set_parents s1 (map tid ts) q = (s1\<lparr>nodes := ns\<rparr>, Ok ())"
    "\<forall>t \<in> set ts. rep ns (Some q) t" "\<forall>i. i \<notin> set (concat (map ids ts)) \<longrightarrow> ns i = nodes s1 i"
    "dom ns = dom (nodes s1)" "next_of ns = next_of (nodes s1)"
    using Cons.IH [of s1] disj(3) by blast
  have "rep ns (Some q) t" by (rule rep_cong [OF top]) (use disj(1) ns(3) in blast)
  moreover have "next_of (nodes s1) = next_of (nodes s)"
    using n(1) by (simp add: s1_def id next_of_upd_same next_of_def)
  moreover have "dom (nodes s1) = dom (nodes s)" using n(1) by (auto simp: s1_def id)
  moreover have "s1\<lparr>nodes := ns\<rparr> = s\<lparr>nodes := ns\<rparr>" by (simp add: s1_def update_node_def)
  ultimately show ?case
    using n(1) ns keep by (intro exI [of _ ns]) (auto simp: get_node_Some simp flip: s1_def)
qed

section \<open>A new root\<close>

lemma create_new_root_ok:
  assumes "pending s l r []"
  shows "\<exists>s'. create_new_root s (tid l) k (tid r) = (s', Ok ()) \<and>
    struct_ok s' (BN (next_node_id s) [k] [l, r]) \<and> same_leaves s s'"
proof -
  let ?new = "next_node_id s"
  have *: "rep (nodes s) None l" "rep (nodes s) None r" "owns s (ids l @ ids r)"
    using assms by (auto simp: pending_def)
  obtain nl nr where n: "nodes s (tid l) = Some nl" "node_rep None l nl" "nodes s (tid r) = Some nr" "node_rep None r nr"
    using rep_top *(1,2) by metis
  note id = node_rep_id [OF n(2)] node_rep_id [OF n(4)]
  have disj: "distinct (ids l)" "distinct (ids r)" "set (ids l) \<inter> set (ids r) = {}"
    "?new \<notin> set (ids l)" "?new \<notin> set (ids r)" "dom (nodes s) = set (ids l) \<union> set (ids r)"
    using *(3) by (auto simp: owns_def)
  have "tid l \<noteq> tid r" "tid l \<noteq> ?new" "tid r \<noteq> ?new" "tid r \<notin> set (ids l)" "tid l \<notin> set (ids r)"
    using disj tid_in_ids [of l] tid_in_ids [of r] by (auto simp del: tid_in_ids)
  note ne = this
  let ?root = "\<lparr>in_id = ?new, in_keys = [k], in_children = [tid l, tid r], in_parent = None\<rparr>"
  let ?ns = "(nodes s)(tid l \<mapsto> set_parent (Some ?new) nl, tid r \<mapsto> set_parent (Some ?new) nr, ?new \<mapsto> Internal ?root)"
  let ?s' = "s\<lparr>next_node_id := ?new + 1, nodes := ?ns, root_id := ?new\<rparr>"
  have ins: "insert_key_child \<lparr>in_id = ?new, in_keys = [], in_children = [tid l], in_parent = None\<rparr> k (tid r) = Some ?root"
    by (simp add: insert_key_child_def binary_search_by_def vec_insert_def)
  have "create_new_root s (tid l) k (tid r) = (?s', Ok ())"
    using n(1,3) ne id by (simp add: create_new_root_def allocate_node_id_def ins get_node_def update_node_def Let_def InternalNode_new_def)
  moreover have "rep ?ns (Some ?new) l"
    by (rule rep_cong [OF rep_update_top [OF *(1) disj(1) node_rep_set_parent [OF n(2)]]])
      (use ne disj in auto)
  moreover have "rep ?ns (Some ?new) r"
    by (rule rep_cong [OF rep_update_top [OF *(2) disj(2) node_rep_set_parent [OF n(4)]]])
      (use ne disj in auto)
  moreover have "owns ?s' (?new # ids l @ ids r)"
    by (rule owns_fresh [OF *(3)]) (use n(1,3) in auto)
  moreover have "next_of ?ns = next_of (nodes s)"
  proof -
    have "nodes s ?new = None" using disj(4-6) by (auto simp: domIff)
    with n(1,3) ne show ?thesis by (auto simp: next_of_upd next_of_def)
  qed
  ultimately show ?thesis
    by (intro exI [of _ ?s']) (auto simp: struct_ok_def same_leaves_def InternalNode_new_def)
qed

section \<open>Absorbing a pair\<close>

lemma pending_parent:
  assumes "pending s l r (Frame i kl cl kr cr # fs)"
  obtains n where "nodes s i = Some (Internal n)" "in_id n = i" "in_keys n = kl @ kr"
    "in_children n = map tid cl @ tid l # map tid cr" "in_parent n = hole_parent fs"
  using assms by (auto simp: pending_def)

lemma pending_flight:
  assumes "pending s l r (Frame i kl cl kr cr # fs)" "in_id n = i" "in_parent n = hole_parent fs"
    and "in_keys n = kl @ k # kr" "in_children n = map tid (cl @ l # r # cr)"
  shows "flight s (Internal n) (BN i (kl @ k # kr) (cl @ l # r # cr)) fs"
proof -
  obtain n' where n': "nodes s i = Some (Internal n')" using pending_parent [OF assms(1)] .
  have *: "rep (nodes s) (Some i) l" "rep (nodes s) (Some i) r" "\<forall>t \<in> set cl \<union> set cr. rep (nodes s) (Some i) t"
    "rep_ctx (nodes s) i fs" "root_id s = root_of i fs"
    "owns s (ids l @ ids r @ i # concat (map ids (cl @ cr)) @ ctx_ids fs)"
    using assms(1) by (auto simp: pending_def)
  let ?ts = "cl @ l # r # cr"
  have owns: "owns s (i # concat (map ids ?ts) @ ctx_ids fs)"
    using *(6) by (subst owns_perm) (auto simp: ac_simps)
  then have fresh: "i \<notin> set (concat (map ids ?ts))" "i \<notin> set (ctx_ids fs)" "i \<in> dom (nodes s)"
    by (auto simp: owns_def)
  have "rep ((nodes s)(i \<mapsto> Internal n)) (Some i) t" if "t \<in> set ?ts" for t
    by (rule rep_cong [of "nodes s"]) (use *(1-3) fresh(1) that in auto)
  moreover have "rep_ctx ((nodes s)(i \<mapsto> Internal n)) i fs"
    by (rule rep_ctx_cong [OF *(4)]) (use fresh(2) in auto)
  moreover have "owns (update_node s (Internal n)) (i # concat (map ids ?ts) @ ctx_ids fs)"
    using owns fresh(3) assms(2) by (simp add: domIff)
  ultimately show ?thesis
    using assms(2-5) *(5) fresh(3) n' by (auto simp: flight_def struct_ok_plug next_of_def)
qed

lemma flight_children:
  assumes "flight s n (BN i ks ts) fs"
  shows "\<forall>t \<in> set ts. rep (nodes s) (Some i) t" "rep_ctx (nodes s) i fs"
    "owns s (i # concat (map ids ts) @ ctx_ids fs)" "root_id s = root_of i fs"
    "next_of (nodes s) i = None"
proof -
  have id: "node_id_of n = i" using assms by (auto simp: flight_def dest: node_rep_id)
  have *: "rep ((nodes s)(i \<mapsto> n)) (hole_parent fs) (BN i ks ts)" "rep_ctx ((nodes s)(i \<mapsto> n)) i fs"
    "owns (update_node s n) (i # concat (map ids ts) @ ctx_ids fs)" "i \<in> dom (nodes s)"
    using assms id by (auto simp: flight_def struct_ok_plug)
  then show owns: "owns s (i # concat (map ids ts) @ ctx_ids fs)"
    using id by simp
  then have fresh: "i \<notin> set (concat (map ids ts))" "i \<notin> set (ctx_ids fs)" by (auto simp: owns_def)
  show "\<forall>t \<in> set ts. rep (nodes s) (Some i) t"
  proof
    fix t assume t: "t \<in> set ts"
    show "rep (nodes s) (Some i) t"
      by (rule rep_cong [of "(nodes s)(i \<mapsto> n)"]) (use *(1) fresh(1) t in auto)
  qed
  show "rep_ctx (nodes s) i fs"
    by (rule rep_ctx_cong [OF *(2)]) (use fresh(2) in auto)
  show "root_id s = root_of i fs" using assms by (simp add: flight_def struct_ok_plug)
  show "next_of (nodes s) i = None" using assms by (auto simp: flight_def node_rep_BN)
qed

section \<open>Splitting an internal node\<close>

lemma split_at_nth:
  assumes "length ts = Suc (length ks)" "mid < length ks"
  obtains ks1 k ks2 ts1 ts2 where "ks = ks1 @ k # ks2" "ts = ts1 @ ts2" "length ks1 = mid"
    "length ts1 = Suc mid" "length ts2 = Suc (length ks2)" "ks ! mid = k"
    "butlast (take (Suc mid) ks) = ks1" "drop (Suc mid) ks = ks2" "take (Suc mid) ts = ts1" "drop (Suc mid) ts = ts2"
  by (rule that [of "take mid ks" "ks ! mid" "drop (Suc mid) ks" "take (Suc mid) ts" "drop (Suc mid) ts"])
    (use assms in \<open>auto simp: id_take_nth_drop take_Suc_conv_app_nth butlast_append\<close>)

lemma inord_split:
  assumes "length ts1 = Suc (length ks1)"
  shows "inord (BN i (ks1 @ k # ks2) (ts1 @ ts2)) = inord (BN j ks1 ts1) @ (k, None) # inord (BN j' ks2 ts2)"
proof -
  obtain ts0 t where "ts1 = ts0 @ [t]" using assms by (cases ts1 rule: rev_cases) auto
  with assms show ?thesis by (simp add: weave_split)
qed

lemma split_internal_ok:
  assumes "flight s (Internal n) (BN i ks ts) fs" "length ts = Suc (length ks)" "ks \<noteq> []"
  shows "\<exists>s' ks1 k ks2 ts1 ts2.
    split_internal into s (Internal n) =
      (case hole_parent fs of
         Some p \<Rightarrow> into s' p k (next_node_id s)
       | None \<Rightarrow> create_new_root s' i k (next_node_id s)) \<and>
    ks = ks1 @ k # ks2 \<and> ts = ts1 @ ts2 \<and> length ks1 = length ks div 2 \<and> length ts1 = Suc (length ks1) \<and>
    length ts2 = Suc (length ks2) \<and>
    pending s' (BN i ks1 ts1) (BN (next_node_id s) ks2 ts2) fs \<and> same_leaves s s'"
proof -
  let ?mid = "length ks div 2" and ?new = "next_node_id s"
  have "?mid < length ks" using assms(3) by (cases ks) auto
  then obtain ks1 k ks2 ts1 ts2 where split: "ks = ks1 @ k # ks2" "ts = ts1 @ ts2" "length ks1 = ?mid"
    "length ts1 = Suc ?mid" "length ts2 = Suc (length ks2)" and parts: "ks ! ?mid = k"
    "butlast (take (Suc ?mid) ks) = ks1" "drop (Suc ?mid) ks = ks2" "take (Suc ?mid) ts = ts1" "drop (Suc ?mid) ts = ts2"
    using split_at_nth [OF assms(2)] by metis
  note fl = flight_children [OF assms(1)]
  have n: "in_id n = i" "in_keys n = ks" "in_children n = map tid ts" "in_parent n = hole_parent fs"
    using assms(1) by (auto simp: flight_def)
  define n1 n2 where "n1 = n\<lparr>in_keys := ks1, in_children := map tid ts1\<rparr>"
    and "n2 = \<lparr>in_id = ?new, in_keys = ks2, in_children = map tid ts2, in_parent = hole_parent fs\<rparr>"
  have res: "node_split_internal (Internal n) ?new = Ok (k, Internal n1, Internal n2)"
    using assms(2,3) parts by (simp add: InternalNode_split_def n n1_def n2_def Let_def take_map drop_map)
  let ?s1 = "s\<lparr>next_node_id := Suc ?new\<rparr>"
  have own: "distinct (concat (map ids ts1) @ concat (map ids ts2) @ i # ctx_ids fs)"
    "?new \<notin> set (concat (map ids ts1)) \<union> set (concat (map ids ts2)) \<union> insert i (set (ctx_ids fs))"
    using fl(3) split(2) by (auto simp: owns_def)
  then obtain ns where ns: "set_parents ?s1 (map tid ts2) ?new = (?s1\<lparr>nodes := ns\<rparr>, Ok ())"
    "\<forall>t \<in> set ts2. rep ns (Some ?new) t" "\<forall>i. i \<notin> set (concat (map ids ts2)) \<longrightarrow> ns i = nodes s i"
    "dom ns = dom (nodes s)" "next_of ns = next_of (nodes s)"
    using set_parents_ok [of ts2 ?s1 ?new] fl(1) split(2) by force
  let ?ns = "ns(i \<mapsto> Internal n1, ?new \<mapsto> Internal n2)"
  let ?s' = "?s1\<lparr>nodes := ?ns\<rparr>"
  have call: "split_internal into s (Internal n) =
      (case hole_parent fs of
         Some p \<Rightarrow> into ?s' p k ?new
       | None \<Rightarrow> create_new_root ?s' i k ?new)"
    using ns(1) res n
    by (simp add: split_internal_def allocate_node_id_def n1_def n2_def update_node_def Let_def
        del: node_split_internal.simps split: option.split)
  have sep1: "j \<noteq> i" "j \<noteq> ?new" "j \<notin> set (concat (map ids ts2))" if "t \<in> set ts1" "j \<in> set (ids t)" for j t
    using own that by auto
  have sep2: "j \<noteq> i" "j \<noteq> ?new" if "t \<in> set ts2" "j \<in> set (ids t)" for j t
    using own that by auto
  have sep3: "j \<noteq> i" "j \<noteq> ?new" "j \<notin> set (concat (map ids ts2))" if "j \<in> set (ctx_ids fs)" for j
    using own that by auto
  have "rep ?ns (Some i) t" if t: "t \<in> set ts1" for t
  proof (rule rep_cong)
    show "rep (nodes s) (Some i) t" using fl(1) split(2) t by simp
    show "\<forall>j \<in> set (ids t). ?ns j = nodes s j" using sep1 [OF t] ns(3) by simp
  qed
  moreover have "rep ?ns (Some ?new) t" if t: "t \<in> set ts2" for t
  proof (rule rep_cong)
    show "rep ns (Some ?new) t" using ns(2) t by simp
    show "\<forall>j \<in> set (ids t). ?ns j = ns j" using sep2 [OF t] by auto
  qed
  moreover have "rep_ctx ?ns i fs"
    by (rule rep_ctx_cong [OF fl(2)]) (use sep3 ns(3) in simp)
  moreover have "owns ?s' ((i # concat (map ids ts1)) @ (?new # concat (map ids ts2)) @ ctx_ids fs)"
  proof -
    have "owns ?s' (?new # i # concat (map ids ts) @ ctx_ids fs)"
      by (rule owns_fresh [OF fl(3)]) (use fl(3) ns(4) in \<open>auto simp: owns_def\<close>)
    then show ?thesis by (subst owns_perm) (auto simp: split(2))
  qed
  moreover have "next_of ?ns = next_of (nodes s)"
  proof -
    have "nodes s ?new = None" using fl(3) by (rule owns_next_None)
    with fl(5) show ?thesis using own(2) by (auto simp: next_of_upd ns(5) next_of_def)
  qed
  ultimately have "pending ?s' (BN i ks1 ts1) (BN ?new ks2 ts2) fs" "same_leaves s ?s'"
    using fl(4) n own(2) by (simp_all add: pending_def same_leaves_def n1_def n2_def)
  with call split(1,2,4,5) show ?thesis
    unfolding split(3) [symmetric] by blast
qed

section \<open>Propagating a split\<close>

text \<open>\<open>grown lo m s s' xs ls\<close>: \<open>s'\<close> holds a whole tree with items \<open>xs\<close> and leaves \<open>ls\<close>.\<close>

definition grown :: "nat \<Rightarrow> nat \<Rightarrow> BPlusTree \<Rightarrow> BPlusTree \<Rightarrow> item list \<Rightarrow> node_id list \<Rightarrow> bool" where
  "grown lo m s s' xs ls \<longleftrightarrow>
     same_leaves s s' \<and> (\<exists>h t. struct_ok s' t \<and> tree_ok lo m h t \<and> inord t = xs \<and> leaves t = ls)"

lemma grown_trans: "same_leaves s1 s2 \<Longrightarrow> grown lo m s2 s3 xs ls \<Longrightarrow> grown lo m s1 s3 xs ls"
  by (auto simp: grown_def intro: same_leaves_trans)

lemma items_absorb:
  assumes "ctx_ok lo m h (Frame i kl cl kr cr # fs)"
  shows "items_left (Frame i kl cl kr cr # fs) @ inord l @ (k, None) # inord r @ items_right (Frame i kl cl kr cr # fs) =
    items_left fs @ inord (BN i (kl @ k # kr) (cl @ l # r # cr)) @ items_right fs"
  using assms by (simp add: weave_append weave_Cons)

lemma absorb_parent:
  assumes "pending s l r (Frame i kl cl kr cr # fs)" "ctx_ok lo m h (Frame i kl cl kr cr # fs)"
    and "items_sorted (inord (BN i (kl @ k # kr) (cl @ l # r # cr)))"
  obtains n n' where "get_node s i = Ok (Internal n)" "insert_internal_entry (Internal n) k (tid r) = Some (Internal n')"
    "flight s (Internal n') (BN i (kl @ k # kr) (cl @ l # r # cr)) fs" "in_keys n' = kl @ k # kr"
proof -
  obtain n where n: "nodes s i = Some (Internal n)" "in_id n = i" "in_keys n = kl @ kr"
    "in_children n = map tid cl @ tid l # map tid cr" "in_parent n = hole_parent fs"
    using pending_parent [OF assms(1)] .
  have len: "length cl = length kl" "length cr = length kr" using assms(2) by auto
  have "sorted_wrt (<) (kl @ k # kr)"
    using weave_keys_sorted [of "kl @ k # kr" "map inord (cl @ l # r # cr)"] assms(3) len by simp
  then have keys: "sorted_wrt (<) (kl @ kr)" "\<forall>x \<in> set kl. x < k" "\<forall>x \<in> set kr. k < x"
    by (auto simp: sorted_wrt_append)
  let ?n' = "n\<lparr>in_keys := kl @ k # kr, in_children := (map tid cl @ [tid l]) @ tid r # map tid cr\<rparr>"
  have "insert_key_child n k (tid r) = Some ?n'"
    by (rule insert_key_child_split [OF keys n(3)]) (simp_all add: n len)
  moreover have "flight s (Internal ?n') (BN i (kl @ k # kr) (cl @ l # r # cr)) fs"
    by (rule pending_flight [OF assms(1)]) (simp_all add: n)
  ultimately show thesis
    using that [of n ?n'] n(1) by (simp add: get_node_Some)
qed

lemma propagate_ok:
  assumes "pending s l r fs" "ctx_ok lo m h fs" "node_ok lo lo m h l" "node_ok lo lo m h r"
    and "items_sorted (items_left fs @ inord l @ (k, None) # inord r @ items_right fs)"
    and "length fs \<le> fuel" "m = max_keys (config s)" "lo \<le> (m - 1) div 2" "3 \<le> m"
  shows "\<exists>s'. (case hole_parent fs of
        Some p \<Rightarrow> insert_into_parent fuel s p k (tid r)
      | None \<Rightarrow> create_new_root s (tid l) k (tid r)) = (s', Ok ()) \<and>
    grown lo m s s' (items_left fs @ inord l @ (k, None) # inord r @ items_right fs)
      (leaves_left fs @ leaves l @ leaves r @ leaves_right fs)"
  using assms
proof (induction fs arbitrary: s l r k h fuel)
  case Nil
  let ?t = "BN (next_node_id s) [k] [l, r]"
  obtain s' where "create_new_root s (tid l) k (tid r) = (s', Ok ())" "struct_ok s' ?t" "same_leaves s s'"
    using create_new_root_ok [OF Nil.prems(1)] by metis
  moreover have "tree_ok lo m (Suc h) ?t"
    using Nil.prems by (simp add: tree_ok_def root_min_def)
  ultimately show ?case
    by (auto simp: grown_def intro!: exI [of _ "Suc h"] exI [of _ ?t])
next
  case (Cons f fs)
  obtain i kl cl kr cr where f: "f = Frame i kl cl kr cr" by (cases f)
  obtain fuel' where fuel: "fuel = Suc fuel'" "length fs \<le> fuel'" using Cons.prems(6) by (cases fuel) auto
  let ?ks = "kl @ k # kr" and ?ts = "cl @ l # r # cr"
  let ?t = "BN i ?ks ?ts" and ?m = "max_keys (config s)"
  have items: "items_left (f # fs) @ inord l @ (k, None) # inord r @ items_right (f # fs) =
      items_left fs @ inord ?t @ items_right fs"
    using items_absorb Cons.prems(2) unfolding f .
  have leaves: "leaves_left (f # fs) @ leaves l @ leaves r @ leaves_right (f # fs) =
      leaves_left fs @ leaves ?t @ leaves_right fs"
    by (simp add: f)
  have sorted: "items_sorted (items_left fs @ inord ?t @ items_right fs)" using Cons.prems(5) unfolding items .
  obtain n n' where n: "get_node s i = Ok (Internal n)" "insert_internal_entry (Internal n) k (tid r) = Some (Internal n')"
    "flight s (Internal n') ?t fs" "in_keys n' = ?ks"
    by (rule absorb_parent [of s l r i kl cl kr cr fs lo m h k]) (use Cons.prems(1,2) sorted f in \<open>auto simp: sorted_wrt_append\<close>)
  have ok: "ctx_ok lo m (Suc h) fs" "length ?ts = Suc (length ?ks)" "\<forall>t \<in> set ?ts. node_ok lo lo m h t"
    "hole_min lo (Suc h) fs \<le> length kl + length kr" "length kl + length kr \<le> m"
    using Cons.prems(2-4) by (auto simp: f)
  have step: "(case hole_parent (f # fs) of
        Some p \<Rightarrow> insert_into_parent fuel s p k (tid r)
      | None \<Rightarrow> create_new_root s (tid l) k (tid r)) =
      (if m \<le> length ?ks then split_internal (insert_into_parent fuel') s (Internal n')
       else (update_node s (Internal n'), Ok ()))"
    using n(1,2,4) by (simp add: f fuel(1) is_full_def Cons.prems(7) del: insert_internal_entry.simps)
  show ?case
  proof (cases "m \<le> length ?ks")
    case False
    have "tree_ok lo m (Suc h + length fs) (plug ?t fs)"
      by (rule tree_ok_plug) (use False ok in auto)
    moreover have "struct_ok (update_node s (Internal n')) (plug ?t fs)" "same_leaves s (update_node s (Internal n'))"
      using n(3) by (auto simp: flight_def intro!: same_leaves_update)
    ultimately have "grown lo m s (update_node s (Internal n')) (items_left fs @ inord ?t @ items_right fs)
        (leaves_left fs @ leaves ?t @ leaves_right fs)"
      unfolding grown_def using inord_plug [OF ok(1)] leaves_plug by metis
    with False show ?thesis unfolding step items leaves by simp
  next
    case True
    obtain s1 ks1 k1 ks2 ts1 ts2 where sp: "split_internal (insert_into_parent fuel') s (Internal n') =
      (case hole_parent fs of
         Some p \<Rightarrow> insert_into_parent fuel' s1 p k1 (next_node_id s)
       | None \<Rightarrow> create_new_root s1 i k1 (next_node_id s))"
      "?ks = ks1 @ k1 # ks2" "?ts = ts1 @ ts2" "length ks1 = length ?ks div 2" "length ts1 = Suc (length ks1)"
      "length ts2 = Suc (length ks2)"
      "pending s1 (BN i ks1 ts1) (BN (next_node_id s) ks2 ts2) fs" "same_leaves s s1"
      using split_internal_ok [OF n(3) ok(2), of "insert_into_parent fuel'"] by blast
    let ?l = "BN i ks1 ts1" and ?r = "BN (next_node_id s) ks2 ts2"
    have len: "length ?ks = Suc (length ks1 + length ks2)" using sp(2) by (metis add_Suc_right length_Cons length_append)
    have split: "inord ?t = inord ?l @ (k1, None) # inord ?r" "leaves ?t = leaves ?l @ leaves ?r"
      using inord_split [OF sp(5)] unfolding sp(2,3) by auto
    have half: "lo \<le> length ks1" "lo \<le> length ks2" "length ks1 \<le> m" "length ks2 \<le> m"
      using len sp(4) True ok(5) Cons.prems(8,9) by auto
    have "node_ok lo lo m (Suc h) ?l" "node_ok lo lo m (Suc h) ?r"
      using half sp(5,6) ok(3) unfolding sp(3) by auto
    moreover have "items_sorted (items_left fs @ inord ?l @ (k1, None) # inord ?r @ items_right fs)"
      using sorted unfolding split by simp
    moreover have "m = max_keys (config s1)" using sp(8) Cons.prems(7) by (simp add: same_leaves_def)
    ultimately obtain s' where "(case hole_parent fs of
        Some p \<Rightarrow> insert_into_parent fuel' s1 p k1 (next_node_id s)
      | None \<Rightarrow> create_new_root s1 i k1 (next_node_id s)) = (s', Ok ())"
      "grown lo m s1 s' (items_left fs @ inord ?l @ (k1, None) # inord ?r @ items_right fs)
        (leaves_left fs @ leaves ?l @ leaves ?r @ leaves_right fs)"
      using Cons.IH [OF sp(7) ok(1), unfolded tid.simps] fuel(2) Cons.prems(8,9) by metis
    with True sp(1,8) show ?thesis
      unfolding step items leaves split by (auto intro: grown_trans)
  qed
qed

section \<open>Insertion\<close>

lemma items_sorted_put:
  assumes "items_sorted (items_left fs @ map ent_item es @ items_right fs)" "located k fs"
  shows "items_sorted (items_left fs @ map ent_item (al_put k v es) @ items_right fs)"
proof -
  have es: "ksorted es" using assms(1) by (auto simp: sorted_wrt_append items_sorted_leaf)
  have mem: "e \<in> set es \<or> e = (k, v)" if "e \<in> set (al_put k v es)" for e
    using that by (auto simp: al_put_def)
  have "item_less x (ent_item e)" if "x \<in> set (items_left fs)" "e \<in> set (al_put k v es)" for x e
    using mem [OF that(2)]
  proof
    assume "e \<in> set es"
    with that(1) assms(1) show ?thesis by (auto simp: sorted_wrt_append)
  next
    assume "e = (k, v)"
    with that(1) assms(2) show ?thesis by (auto simp: located_def item_less_def ent_item_def)
  qed
  moreover have "item_less (ent_item e) x" if "x \<in> set (items_right fs)" "e \<in> set (al_put k v es)" for x e
    using mem [OF that(2)]
  proof
    assume "e \<in> set es"
    with that(1) assms(1) show ?thesis by (auto simp: sorted_wrt_append)
  next
    assume "e = (k, v)"
    with that(1) assms(2) show ?thesis by (auto simp: located_def item_less_def ent_item_def)
  qed
  ultimately show ?thesis
    using assms(1) ksorted_al_put [OF es] by (auto simp: sorted_wrt_append items_sorted_leaf)
qed

lemma items_sorted_separator:
  assumes "items_sorted (xs @ map ent_item (es1 @ e # es2) @ ys)" "es1 \<noteq> []"
  shows "items_sorted (xs @ map ent_item es1 @ (fst e, None) # map ent_item (e # es2) @ ys)"
proof -
  obtain es0 e0 where es1: "es1 = es0 @ [e0]" using assms(2) by (cases es1 rule: rev_cases) auto
  from assms(1) show ?thesis
    by (auto simp: es1 sorted_wrt_append item_less_def ent_item_def)
qed

lemma chain_split:
  assumes "chain ns e (xs @ i # ys)" "distinct (xs @ i # ys)" "j \<notin> set (xs @ i # ys)"
    and "\<forall>x \<in> set (xs @ ys). next_of ns' x = next_of ns x"
    and "next_of ns' i = Some j" "next_of ns' j = next_of ns i"
  shows "chain ns' e (xs @ i # j # ys)"
proof -
  have "chain ns' (Some i) xs" "chain ns' e ys"
    using assms(1,4) chain_cong [of xs ns' ns] chain_cong [of ys ns' ns] by auto
  with assms show ?thesis by auto
qed

lemma hd_append_leaf: "hd (xs @ i # ys) = hd (xs @ i # zs)"
  by (cases xs) auto

lemma grown_tree_inv:
  assumes "grown (lo_keys (config s)) (max_keys (config s)) s s' xs ls" "items_sorted xs" "config_ok (config s)"
    and "chain (nodes s) None ls" "leftmost_leaf s = Some (hd ls)"
  shows "\<exists>h t. tree_inv s' h t \<and> inord t = xs"
  using assms chain_cong [of ls "nodes s'" "nodes s"]
  by (auto simp: grown_def tree_inv_def heap_ok_def same_leaves_def)

lemma flight_leaf:
  assumes "flight s (Leaf l) (BL i es) fs"
  shows "lf_id l = i" "lf_entries l = es" "lf_parent l = hole_parent fs" "rep_ctx (nodes s) i fs"
    "owns s (i # ctx_ids fs)" "root_id s = root_of i fs" "next_of (nodes s) i = lf_next l"
proof -
  show id: "lf_id l = i" and "lf_entries l = es" and "lf_parent l = hole_parent fs"
    and "next_of (nodes s) i = lf_next l" and "root_id s = root_of i fs"
    using assms by (auto simp: flight_def struct_ok_plug)
  have "owns (update_node s (Leaf l)) (i # ctx_ids fs)" "i \<in> dom (nodes s)"
    using assms by (auto simp: flight_def struct_ok_plug)
  then show own: "owns s (i # ctx_ids fs)" using id by simp
  have "rep_ctx ((nodes s)(i \<mapsto> Leaf l)) i fs" using assms id by (auto simp: flight_def struct_ok_plug)
  then show "rep_ctx (nodes s) i fs"
    by (rule rep_ctx_cong) (use own in \<open>auto simp: owns_def\<close>)
qed

lemma split_leaf_ok:
  assumes "flight s (Leaf l) (BL i es) fs" "2 \<le> length es"
  shows "\<exists>s' es1 e es2.
    split_leaf s (Leaf l) =
      (case hole_parent fs of
         Some p \<Rightarrow> insert_into_parent (next_node_id s + 1) s' p (fst e) (next_node_id s)
       | None \<Rightarrow> create_new_root s' i (fst e) (next_node_id s)) \<and>
    es = es1 @ e # es2 \<and> length es1 = length es div 2 \<and>
    pending s' (BL i es1) (BL (next_node_id s) (e # es2)) fs \<and>
    config s' = config s \<and> leftmost_leaf s' = leftmost_leaf s \<and>
    next_of (nodes s') = (next_of (nodes s))(i := Some (next_node_id s), next_node_id s := next_of (nodes s) i)"
proof -
  let ?mid = "length es div 2" and ?new = "next_node_id s"
  obtain e es2 where es: "drop ?mid es = e # es2" using assms(2) by (cases "drop ?mid es") auto
  note fl = flight_leaf [OF assms(1)]
  define l1 l2 where "l1 = l\<lparr>lf_entries := take ?mid es, lf_next := Some ?new\<rparr>"
    and "l2 = \<lparr>lf_id = ?new, lf_entries = e # es2, lf_next = lf_next l, lf_prev = Some i, lf_parent = hole_parent fs\<rparr>"
  let ?ns = "(nodes s)(i \<mapsto> Leaf l1, ?new \<mapsto> Leaf l2)"
  let ?s' = "s\<lparr>next_node_id := Suc ?new, nodes := ?ns\<rparr>"
  have fresh: "i \<noteq> ?new" "i \<notin> set (ctx_ids fs)" "?new \<notin> set (ctx_ids fs)"
    using fl(5) by (auto simp: owns_def)
  have "node_split_leaf (Leaf l) ?new = Ok (fst e, Leaf l1, Leaf l2)"
    using es by (simp add: LeafNode_split_def fl(1-3) l1_def l2_def Let_def)
  then have call: "split_leaf s (Leaf l) =
      (case hole_parent fs of
         Some p \<Rightarrow> insert_into_parent (?new + 1) ?s' p (fst e) ?new
       | None \<Rightarrow> create_new_root ?s' i (fst e) ?new)"
    by (simp add: split_leaf_def allocate_node_id_def update_node_def fl(1-3) l1_def l2_def Let_def
        del: node_split_leaf.simps split: option.split)
  have "rep_ctx ?ns i fs"
    by (rule rep_ctx_cong [OF fl(4)]) (use fresh in auto)
  moreover have "owns ?s' ([i] @ [?new] @ ctx_ids fs)"
  proof -
    have "owns ?s' (?new # i # ctx_ids fs)"
      by (rule owns_fresh [OF fl(5)]) (use fl(5) in \<open>auto simp: owns_def\<close>)
    then show ?thesis by (subst owns_perm) auto
  qed
  ultimately have "pending ?s' (BL i (take ?mid es)) (BL ?new (e # es2)) fs"
    using fl fresh by (simp add: pending_def l1_def l2_def)
  moreover have "next_of ?ns = (next_of (nodes s))(i := Some ?new, ?new := next_of (nodes s) i)"
    using fl(7) by (simp add: next_of_upd l1_def l2_def)
  moreover have "es = take ?mid es @ e # es2" "length (take ?mid es) = ?mid"
    using append_take_drop_id [of ?mid es] by (simp_all add: es)
  ultimately show ?thesis using call
    by (intro exI [of _ ?s'] exI [of _ "take ?mid es"] exI [of _ e] exI [of _ es2]) simp
qed

lemma flight_leaf_update:
  assumes "struct_ok s (plug (BL i es) fs)" "nodes s i = Some (Leaf l)" "lf_id l = i" "lf_parent l = hole_parent fs"
  shows "flight s (Leaf (l\<lparr>lf_entries := es'\<rparr>)) (BL i es') fs"
proof -
  have *: "rep_ctx (nodes s) i fs" "owns s (i # ctx_ids fs)" "root_id s = root_of i fs"
    using assms(1) by (auto simp: struct_ok_plug)
  have "rep_ctx ((nodes s)(i \<mapsto> Leaf (l\<lparr>lf_entries := es'\<rparr>))) i fs"
    by (rule rep_ctx_cong [OF *(1)]) (use *(2) in \<open>auto simp: owns_def\<close>)
  with * assms(2-4) show ?thesis
    by (simp add: flight_def struct_ok_plug next_of_def domI)
qed

lemma flight_land:
  assumes "flight s n t fs" "config_ok (config s)" "node_ok (hole_min (lo_keys (config s)) h fs) (lo_keys (config s)) (max_keys (config s)) h t"
    and "ctx_ok (lo_keys (config s)) (max_keys (config s)) h fs" "items_sorted (items_left fs @ inord t @ items_right fs)"
    and "chain (nodes s) None (leaves_left fs @ leaves t @ leaves_right fs)"
    and "leftmost_leaf s = Some (hd (leaves_left fs @ leaves t @ leaves_right fs))"
  shows "tree_inv (update_node s n) (h + length fs) (plug t fs)"
proof -
  have "next_of (nodes (update_node s n)) = next_of (nodes s)"
    using assms(1) node_rep_id by (fastforce simp: flight_def next_of_upd_same)
  then have "chain (nodes (update_node s n)) None (leaves (plug t fs))"
    using assms(6) chain_cong [of "leaves (plug t fs)" "nodes (update_node s n)" "nodes s"] by (simp add: leaves_plug)
  with assms tree_ok_plug [OF assms(3,4)] inord_plug [OF assms(4)] show ?thesis
    by (simp add: tree_inv_def heap_ok_def flight_def leaves_plug)
qed

lemma owns_length: "owns s xs \<Longrightarrow> length xs \<le> next_node_id s"
  using card_mono [of "{..<next_node_id s}" "set xs"] by (auto simp: owns_def distinct_card)

lemma length_ctx_ids: "length fs \<le> length (ctx_ids fs)"
  by (induction fs rule: ctx_ids.induct) auto

lemma mset_leaves: "mset (leaves t) \<subseteq># mset (ids t)"
proof (induction t)
  case (BN i ks ts)
  from BN have "mset (concat (map leaves ts)) \<subseteq># mset (concat (map ids ts))"
    by (induction ts) (auto intro: subset_mset.add_mono)
  also have "\<dots> \<subseteq># mset (ids (BN i ks ts))" by simp
  finally show ?case by simp
qed simp

lemma distinct_mset_subset:
  assumes "mset xs \<subseteq># mset ys" "distinct ys"
  shows "distinct xs"
  unfolding distinct_count_atmost_1
proof
  fix a
  have "count (mset ys) a \<le> 1" using assms(2) by (simp add: distinct_count_atmost_1)
  with mset_subset_eq_count [OF assms(1), of a] have "count (mset xs) a \<le> 1" by simp
  then show "count (mset xs) a = (if a \<in> set xs then 1 else 0)"
    by (metis One_nat_def count_eq_zero_iff le_Suc_eq le_zero_eq set_mset_mset)
qed

lemma owns_leaves:
  assumes "owns s (ids t)"
  shows "distinct (leaves t)" "next_node_id s \<notin> set (leaves t)"
  using assms leaves_subset [of t] distinct_mset_subset [OF mset_leaves] by (auto simp: owns_def)

lemma put_full_leaf:
  assumes fl: "flight s (Leaf l) (BL i es) fs" and ok: "config_ok (config s)" "ctx_ok (lo_keys (config s)) (max_keys (config s)) 0 fs"
    and len: "length es = max_keys (config s)" and sorted: "items_sorted (items_left fs @ map ent_item es @ items_right fs)"
    and ch: "chain (nodes s) None (leaves_left fs @ i # leaves_right fs)"
    and lm: "leftmost_leaf s = Some (hd (leaves_left fs @ i # leaves_right fs))"
  shows "\<exists>s' h' t'. split_leaf s (Leaf l) = (s', Ok ()) \<and> tree_inv s' h' t' \<and>
    ents (inord t') = ents (items_left fs @ map ent_item es @ items_right fs) \<and> config s' = config s"
proof -
  let ?lo = "lo_keys (config s)" and ?m = "max_keys (config s)" and ?new = "next_node_id s"
  have cfg: "?lo \<le> (?m - 1) div 2" "3 \<le> ?m" using ok(1) by (auto simp: config_ok_def lo_keys_def)
  obtain s1 es1 e es2 where sp: "split_leaf s (Leaf l) =
      (case hole_parent fs of
         Some p \<Rightarrow> insert_into_parent (?new + 1) s1 p (fst e) ?new
       | None \<Rightarrow> create_new_root s1 i (fst e) ?new)"
    "es = es1 @ e # es2" "length es1 = length es div 2" "pending s1 (BL i es1) (BL ?new (e # es2)) fs"
    "config s1 = config s" "leftmost_leaf s1 = leftmost_leaf s"
    "next_of (nodes s1) = (next_of (nodes s))(i := Some ?new, ?new := next_of (nodes s) i)"
    using split_leaf_ok [OF fl] len cfg(2) by auto
  let ?xs = "items_left fs @ inord (BL i es1) @ (fst e, None) # inord (BL ?new (e # es2)) @ items_right fs"
  let ?ls = "leaves_left fs @ leaves (BL i es1) @ leaves (BL ?new (e # es2)) @ leaves_right fs"
  have "es1 \<noteq> []" using sp(3) len cfg(2) by auto
  then have xs: "items_sorted ?xs"
    using items_sorted_separator [of "items_left fs" es1 e es2] sorted unfolding sp(2) by simp
  have "length es = Suc (length es1 + length es2)" using sp(2) by simp
  then have half: "node_ok ?lo ?lo ?m 0 (BL i es1)" "node_ok ?lo ?lo ?m 0 (BL ?new (e # es2))"
    using sp(3) len cfg by auto
  have own: "owns s (ids (plug (BL i es) fs))"
    using flight_leaf(5) [OF fl] by (simp add: owns_plug)
  then have depth: "length fs \<le> ?new + 1"
    using owns_length [of s "ids (plug (BL i es) fs)"] length_ctx_ids [of fs]
    by (simp add: mset_ids_plug flip: size_mset)
  obtain s' where s': "split_leaf s (Leaf l) = (s', Ok ())" "grown ?lo ?m s1 s' ?xs ?ls"
    using propagate_ok [OF sp(4) ok(2) half xs depth _ cfg, unfolded tid.simps] unfolding sp(1,5) by blast
  have ls: "distinct (leaves_left fs @ i # leaves_right fs)" "?new \<notin> set (leaves_left fs @ i # leaves_right fs)"
    using owns_leaves [OF own] by (auto simp: leaves_plug)
  have "chain (nodes s1) None (leaves_left fs @ i # ?new # leaves_right fs)"
    by (rule chain_split [OF ch ls]) (use ls in \<open>auto simp: sp(7)\<close>)
  then have "chain (nodes s1) None ?ls" by simp
  moreover have "leftmost_leaf s1 = Some (hd ?ls)"
    using lm hd_append_leaf [of "leaves_left fs" i "leaves_right fs"] by (simp add: sp(6))
  ultimately obtain h' t' where t': "tree_inv s' h' t'" "inord t' = ?xs"
    using grown_tree_inv [of s1 s' ?xs ?ls] s'(2) xs ok(1) sp(5) by auto
  moreover have "config s' = config s" using s'(2) sp(5) by (simp add: grown_def same_leaves_def)
  moreover have "ents (inord t') = ents (items_left fs @ map ent_item es @ items_right fs)"
    by (simp add: t'(2) sp(2))
  ultimately show ?thesis using s'(1) by blast
qed

lemma BPlusTree_insert_refines:
  assumes "tree_inv s h t"
  shows "\<exists>s' h' t'. BPlusTree_insert s k v = (s', Ok ()) \<and> tree_inv s' h' t' \<and>
    ents (inord t') = al_put k v (ents (inord t)) \<and> config s' = config s"
proof -
  let ?lo = "lo_keys (config s)" and ?m = "max_keys (config s)" and ?es = "\<lambda>es. al_put k v es"
  obtain i es fs where p: "find_leaf s (root_id s) k = Ok i" "t = plug (BL i es) fs" "located k fs"
    "node_ok (hole_min ?lo 0 fs) ?lo ?m 0 (BL i es)" "ctx_ok ?lo ?m 0 fs"
    using find_leaf_path [OF assms] by metis
  have inv: "struct_ok s (plug (BL i es) fs)" "items_sorted (inord (plug (BL i es) fs))" "config_ok (config s)"
    "chain (nodes s) None (leaves_left fs @ i # leaves_right fs)"
    "leftmost_leaf s = Some (hd (leaves_left fs @ i # leaves_right fs))"
    using assms p(2) by (auto simp: tree_inv_def heap_ok_def leaves_plug)
  obtain l where l: "nodes s i = Some (Leaf l)" "lf_id l = i" "lf_entries l = es" "lf_parent l = hole_parent fs"
    using inv(1) by (auto simp: struct_ok_plug node_rep_BL)
  let ?l = "l\<lparr>lf_entries := al_put k v es\<rparr>"
  have fl: "flight s (Leaf ?l) (BL i (al_put k v es)) fs" by (rule flight_leaf_update [OF inv(1) l(1,2,4)])
  have es: "ksorted es" using leaf_sorted [OF inv(2) p(5)] .
  have call: "BPlusTree_insert s k v =
      (if ?m \<le> length (al_put k v es) then split_leaf s (Leaf ?l) else (update_node s (Leaf ?l), Ok ()))"
    using p(1) l(1,3) es by (simp add: BPlusTree_insert_def get_node_Some leaf_simps is_full_def Let_def)
  have len: "length es \<le> length (al_put k v es)" "length (al_put k v es) \<le> Suc (length es)"
    using length_al_put [OF es, of k v] by auto
  have sorted: "items_sorted (items_left fs @ map ent_item (al_put k v es) @ items_right fs)"
    using items_sorted_put [of fs es k v] inv(2) p(3) inord_plug [OF p(5)] by simp
  have put: "al_put k v (ents (inord t)) = ents (items_left fs @ map ent_item (al_put k v es) @ items_right fs)"
    using located_ents [OF p(3)] p(2) by (simp add: inord_plug [OF p(5)] al_put_append_left al_put_append_right)
  show ?thesis
  proof (cases "?m \<le> length (al_put k v es)")
    case True
    then have full: "length (al_put k v es) = ?m" using len(2) p(4) by simp
    show ?thesis
      using put_full_leaf [OF fl inv(3) p(5) full sorted inv(4,5)] True unfolding call put by simp
  next
    case False
    have "tree_inv (update_node s (Leaf ?l)) (0 + length fs) (plug (BL i (al_put k v es)) fs)"
      by (rule flight_land [OF fl inv(3) _ p(5)]) (use False p(4) len sorted inv(4,5) in auto)
    then show ?thesis
      using False unfolding call put
      by (intro exI [of _ "update_node s (Leaf ?l)"] exI [of _ "length fs"] exI [of _ "plug (BL i (al_put k v es)) fs"])
        (simp add: inord_plug [OF p(5)])
  qed
qed

theorem BPlusTree_insert_correct:
  assumes "btree_inv s"
  shows "\<exists>s'. BPlusTree_insert s k v = (s', Ok ()) \<and> btree_inv s' \<and>
    tree_entries s' = al_put k v (tree_entries s) \<and> config s' = config s"
proof -
  obtain h t where t: "tree_inv s h t" using assms by (auto simp: btree_inv_def)
  obtain s' h' t' where "BPlusTree_insert s k v = (s', Ok ())" "tree_inv s' h' t'"
    "ents (inord t') = al_put k v (ents (inord t))" "config s' = config s"
    using BPlusTree_insert_refines [OF t] by metis
  with t show ?thesis by (auto simp: tree_entries_eq btree_inv_def)
qed

end
