(* ===== verification/BTree_Delete.thy ===== *)
theory BTree_Delete
  imports BTree_Insert
begin

text \<open>
  Deletion with rebalancing. A node that lost a key is in flight; borrowing and merging rebuild
  the pair it forms with a sibling and put the parent in flight in its turn. Borrowing ends the
  work, merging continues at the parent, and the root disappears when its last two children merge.
\<close>

section \<open>The heap around a node in flight\<close>

lemma flight_frame:
  assumes "flight s n t (Frame p kl cl kr cr # fs)"
  shows "\<exists>P. nodes s p = Some (Internal P) \<and> in_id P = p \<and> in_keys P = kl @ kr \<and>
      in_children P = map tid cl @ tid t # map tid cr \<and> in_parent P = hole_parent fs"
    and "\<forall>u \<in> set cl \<union> set cr. rep (nodes s) (Some p) u" "rep_ctx (nodes s) p fs"
    and "owns s (p # concat (map ids cl) @ ids t @ concat (map ids cr) @ ctx_ids fs)"
    and "root_id s = root_of p fs"
    and "node_rep (Some p) t n" "tid t \<in> dom (nodes s)" "next_of (nodes s) (tid t) = node_next n"
    and "\<And>i ks ts. t = BN i ks ts \<Longrightarrow> \<forall>u \<in> set ts. rep (nodes s) (Some i) u"
proof -
  let ?ns = "(nodes s)(tid t \<mapsto> n)"
  show rep: "node_rep (Some p) t n" and dom: "tid t \<in> dom (nodes s)"
    and "next_of (nodes s) (tid t) = node_next n"
    using assms by (auto simp: flight_def)
  have id: "node_id_of n = tid t" using node_rep_id [OF rep] .
  have *: "rep ?ns (Some p) t" "rep_ctx ?ns (tid t) (Frame p kl cl kr cr # fs)"
    "owns s (ids t @ p # concat (map ids (cl @ cr)) @ ctx_ids fs)"
    using assms dom id unfolding flight_def struct_ok_plug by simp_all
  show own: "owns s (p # concat (map ids cl) @ ids t @ concat (map ids cr) @ ctx_ids fs)"
    using *(3) by (subst owns_perm) (auto simp: ac_simps)
  show "root_id s = root_of p fs" using assms by (simp add: flight_def struct_ok_plug)
  have dist: "tid t \<noteq> p" "tid t \<notin> set (concat (map ids (cl @ cr)))" "tid t \<notin> set (ctx_ids fs)" "distinct (ids t)"
    using *(3) tid_in_ids [of t] by (auto simp: owns_def simp del: tid_in_ids)
  then show "\<exists>P. nodes s p = Some (Internal P) \<and> in_id P = p \<and> in_keys P = kl @ kr \<and>
      in_children P = map tid cl @ tid t # map tid cr \<and> in_parent P = hole_parent fs"
    using *(2) by auto
  show "rep_ctx (nodes s) p fs"
    by (rule rep_ctx_cong [of ?ns]) (use *(2) dist in auto)
  show "\<forall>u \<in> set cl \<union> set cr. rep (nodes s) (Some p) u"
  proof
    fix u assume u: "u \<in> set cl \<union> set cr"
    show "rep (nodes s) (Some p) u"
      by (rule rep_cong [of ?ns]) (use *(2) dist u in auto)
  qed
  show "\<forall>u \<in> set ts. rep (nodes s) (Some i) u" if t: "t = BN i ks ts" for i ks ts
  proof
    fix u assume u: "u \<in> set ts"
    show "rep (nodes s) (Some i) u"
      by (rule rep_cong [of ?ns]) (use *(1) dist(4) t u in auto)
  qed
qed

text \<open>Replacing neighbouring children \<open>xs\<close> (identifiers) by the trees \<open>ws\<close> under a new parent node.\<close>

lemma surgery:
  assumes "\<forall>u \<in> set us1 \<union> set us2. rep (nodes s) (Some p) u" "rep_ctx (nodes s) p fs"
    and own: "owns s (p # concat (map ids us1) @ xs @ concat (map ids us2) @ ctx_ids fs)"
    and "root_id s = root_of p fs" "next_of (nodes s) p = None"
    and agree: "\<forall>j. j \<notin> set xs \<longrightarrow> nodes s' j = nodes s j" and ws: "\<forall>w \<in> set ws. rep (nodes s') (Some p) w"
    and own': "owns s' (p # concat (map ids us1) @ concat (map ids ws) @ concat (map ids us2) @ ctx_ids fs)"
    and "root_id s' = root_id s" and N: "in_id N = p" "in_keys N = ks" "in_children N = map tid (us1 @ ws @ us2)" "in_parent N = hole_parent fs"
  shows "flight s' (Internal N) (BN p ks (us1 @ ws @ us2)) fs"
proof -
  have p: "p \<notin> set xs" "p \<in> dom (nodes s')" using own own' by (auto simp: owns_def)
  have "rep ((nodes s')(p \<mapsto> Internal N)) (Some p) u" if u: "u \<in> set (us1 @ us2)" for u
    by (rule rep_cong [of "nodes s"]) (use assms(1) own agree u in \<open>auto simp: owns_def\<close>)
  moreover have "rep ((nodes s')(p \<mapsto> Internal N)) (Some p) w" if w: "w \<in> set ws" for w
    by (rule rep_cong [of "nodes s'"]) (use ws own' w in \<open>auto simp: owns_def\<close>)
  moreover have "rep_ctx ((nodes s')(p \<mapsto> Internal N)) p fs"
    by (rule rep_ctx_cong [OF assms(2)]) (use own agree in \<open>auto simp: owns_def\<close>)
  moreover have "next_of (nodes s') p = None" using assms(5) agree p(1) by (simp add: next_of_def)
  moreover have "owns (update_node s' (Internal N)) (p # concat (map ids us1) @ concat (map ids ws) @ concat (map ids us2) @ ctx_ids fs)"
    using own' p(2) N(1) by simp
  ultimately show ?thesis
    using N assms(4,9) p(2) by (auto simp: flight_def struct_ok_plug)
qed

lemma owns_middle:
  assumes "owns s (p # xs @ ys @ zs)"
  shows "distinct ys" "p \<notin> set ys"
  using assms by (simp_all add: owns_def)

lemma position_child:
  assumes "owns s (p # concat (map ids cl) @ ids t @ zs)"
  shows "position (tid t) (map tid cl @ tid t # ys) = Some (length cl)"
proof -
  have "set (concat (map ids cl)) \<inter> set (ids t) = {}" using assms by (auto simp: owns_def)
  moreover have "tid ` set cl \<subseteq> set (concat (map ids cl))" using tid_in_ids by auto
  ultimately have "tid t \<notin> set (map tid cl)" using tid_in_ids [of t] unfolding set_map by blast
  from position_append [OF this] show ?thesis by simp
qed

lemma leaf_node:
  assumes "rep ns p (BL i es)"
  obtains l where "ns i = Some (Leaf l)" "lf_id l = i" "lf_entries l = es" "lf_parent l = p"
  using assms by (auto simp: node_rep_BL)

lemma inner_node:
  assumes "rep ns p (BN i ks ts)"
  obtains n where "ns i = Some (Internal n)" "in_id n = i" "in_keys n = ks" "in_children n = map tid ts" "in_parent n = p"
    "\<forall>t \<in> set ts. rep ns (Some i) t"
  using assms by (auto simp: node_rep_BN)

section \<open>Borrowing\<close>

text \<open>
  \<open>lands s n t fs r\<close>: \<open>r\<close> is the successful result of writing back the in-flight node of the
  tree \<open>t\<close> in a state that differs from \<open>s\<close> in no leaf link.
\<close>

definition lands :: "BPlusTree \<Rightarrow> bt \<Rightarrow> ctx \<Rightarrow> unit tree_result \<Rightarrow> bool" where
  "lands s t fs r \<longleftrightarrow> (\<exists>s' N. r = (update_node s' N, Ok ()) \<and> same_leaves s s' \<and> flight s' N t fs)"

lemma update_separator_key_at:
  assumes "nodes s p = Some (Internal P)" "in_keys P = kl @ k # kr" "position c (in_children P) = Some (Suc (length kl))"
    and "nodes s c = Some child" "first_key child = Some x"
  shows "update_separator_key s p c = (update_node s (Internal (P\<lparr>in_keys := kl @ x # kr\<rparr>)), Ok ())"
  using assms by (simp add: update_separator_key_def get_node_Some)

text \<open>Two neighbouring children exchange content: the identifiers stay the same.\<close>

lemma replace_pair:
  assumes "\<forall>u \<in> set cl \<union> set cr. rep (nodes s) (Some p) u" "rep_ctx (nodes s) p fs"
    and own: "owns s (p # concat (map ids cl) @ xs @ concat (map ids cr) @ ctx_ids fs)"
    and "root_id s = root_of p fs" and P: "nodes s p = Some (Internal P)" "in_id P = p" "in_parent P = hole_parent fs"
      "in_children P = map tid (cl @ [a, b] @ cr)"
    and agree: "\<forall>j. j \<notin> set xs \<longrightarrow> nodes s' j = nodes s j" and ab: "rep (nodes s') (Some p) a" "rep (nodes s') (Some p) b"
    and "mset (ids a @ ids b) = mset xs" "dom (nodes s') = dom (nodes s)"
    and s': "s' = s\<lparr>nodes := nodes s'\<rparr>"
  shows "flight s' (Internal (P\<lparr>in_keys := ks\<rparr>)) (BN p ks (cl @ [a, b] @ cr)) fs"
proof (rule surgery [of cl cr s p fs xs])
  have eq: "mset (p # concat (map ids cl) @ concat (map ids [a, b]) @ concat (map ids cr) @ ctx_ids fs) =
      mset (p # concat (map ids cl) @ xs @ concat (map ids cr) @ ctx_ids fs)"
    using assms(12) by simp
  have "next_node_id s' = next_node_id s" by (subst s') simp
  then have "owns s' (p # concat (map ids cl) @ xs @ concat (map ids cr) @ ctx_ids fs)"
    using own assms(13) by (simp add: owns_def)
  then show "owns s' (p # concat (map ids cl) @ concat (map ids [a, b]) @ concat (map ids cr) @ ctx_ids fs)"
    by (subst owns_perm [OF eq])
  show "next_of (nodes s) p = None" using P(1) by (simp add: next_of_def)
  show "root_id s' = root_id s" by (subst s') simp
qed (use assms(1-4) agree ab P in auto)

lemma borrow_left_leaf:
  assumes fl: "flight s (Leaf l) (BL i es) (Frame p (kl @ [k]) (cl @ [BL j (esL @ [e])]) kr cr # fs)"
    and len: "length cl = length kl"
  shows "lands s (BN p (kl @ fst e # kr) (cl @ [BL j esL, BL i (e # es)] @ cr)) fs (borrow_from_left s (Leaf l) j)"
proof -
  note ff = flight_frame [OF fl]
  obtain P where P: "nodes s p = Some (Internal P)" "in_id P = p" "in_keys P = kl @ k # kr"
      "in_children P = map tid cl @ j # i # map tid cr" "in_parent P = hole_parent fs"
    using ff(1) by auto
  obtain lj where lj: "nodes s j = Some (Leaf lj)" "lf_id lj = j" "lf_entries lj = esL @ [e]" "lf_parent lj = Some p"
    using ff(2) by (auto simp: node_rep_BL)
  have l: "lf_id l = i" "lf_entries l = es" "lf_parent l = Some p" using ff(6) by auto
  have own: "owns s (p # concat (map ids cl) @ [j, i] @ concat (map ids cr) @ ctx_ids fs)" using ff(4) by simp
  then have dist: "p \<noteq> i" "p \<noteq> j" "i \<noteq> j" by (auto simp: owns_def)
  define l' lj' where "l' = l\<lparr>lf_entries := e # es\<rparr>" and "lj' = lj\<lparr>lf_entries := esL\<rparr>"
  define s2 where "s2 = update_node (update_node s (Leaf lj')) (Leaf l')"
  have nodes: "nodes s2 = (nodes s)(j \<mapsto> Leaf lj', i \<mapsto> Leaf l')" by (simp add: s2_def l'_def lj'_def l lj)
  have s2: "s2 = s\<lparr>nodes := nodes s2\<rparr>" by (simp add: s2_def update_node_def)
  have "position i (in_children P) = Some (Suc (length kl))"
    using position_child [OF ff(4)] len by (simp add: P(4))
  then have "update_separator_key s2 p i = (update_node s2 (Internal (P\<lparr>in_keys := kl @ fst e # kr\<rparr>)), Ok ())"
    by (intro update_separator_key_at [where child = "Leaf l'"]) (use P dist in \<open>simp_all add: nodes l'_def\<close>)
  then have "borrow_from_left s (Leaf l) j = (update_node s2 (Internal (P\<lparr>in_keys := kl @ fst e # kr\<rparr>)), Ok ())"
    using lj l by (simp add: borrow_from_left_def get_node_Some l'_def lj'_def s2_def)
  moreover have "next_of (nodes s2) = next_of (nodes s)"
    using lj(1) ff(8) by (auto simp: nodes next_of_upd l'_def lj'_def next_of_def)
  then have "same_leaves s s2" by (subst s2) (simp add: same_leaves_def)
  moreover have "flight s2 (Internal (P\<lparr>in_keys := kl @ fst e # kr\<rparr>)) (BN p (kl @ fst e # kr) (cl @ [BL j esL, BL i (e # es)] @ cr)) fs"
    by (rule replace_pair [OF _ ff(3) own ff(5) P(1,2,5) _ _ _ _ _ _ s2])
      (use ff(2,7) P lj l dist in \<open>auto simp: nodes l'_def lj'_def\<close>)
  ultimately show ?thesis unfolding lands_def by blast
qed

lemma borrow_right_leaf:
  assumes fl: "flight s (Leaf l) (BL i es) (Frame p kl cl (k # kr) (BL j (e # e' # esR) # cr) # fs)"
    and len: "length cl = length kl"
  shows "lands s (BN p (kl @ fst e' # kr) (cl @ [BL i (es @ [e]), BL j (e' # esR)] @ cr)) fs (borrow_from_right s (Leaf l) j)"
proof -
  note ff = flight_frame [OF fl]
  obtain P where P: "nodes s p = Some (Internal P)" "in_id P = p" "in_keys P = kl @ k # kr"
      "in_children P = map tid cl @ i # j # map tid cr" "in_parent P = hole_parent fs"
    using ff(1) by auto
  obtain lj where lj: "nodes s j = Some (Leaf lj)" "lf_id lj = j" "lf_entries lj = e # e' # esR" "lf_parent lj = Some p"
    using ff(2) by (auto simp: node_rep_BL)
  have l: "lf_id l = i" "lf_entries l = es" "lf_parent l = Some p" using ff(6) by auto
  have own: "owns s (p # concat (map ids cl) @ [i, j] @ concat (map ids cr) @ ctx_ids fs)" using ff(4) by simp
  then have dist: "p \<noteq> i" "p \<noteq> j" "i \<noteq> j" by (auto simp: owns_def)
  define l' lj' where "l' = l\<lparr>lf_entries := es @ [e]\<rparr>" and "lj' = lj\<lparr>lf_entries := e' # esR\<rparr>"
  define s2 where "s2 = update_node (update_node s (Leaf lj')) (Leaf l')"
  have nodes: "nodes s2 = (nodes s)(j \<mapsto> Leaf lj', i \<mapsto> Leaf l')" by (simp add: s2_def l'_def lj'_def l lj)
  have s2: "s2 = s\<lparr>nodes := nodes s2\<rparr>" by (simp add: s2_def update_node_def)
  have "position j (in_children P) = Some (Suc (length kl))"
    using position_child [of s p "cl @ [BL i es]" "BL j []"] own len by (simp add: P(4))
  then have "update_separator_key s2 p j = (update_node s2 (Internal (P\<lparr>in_keys := kl @ fst e' # kr\<rparr>)), Ok ())"
    by (intro update_separator_key_at [where child = "Leaf lj'"]) (use P dist in \<open>simp_all add: nodes lj'_def\<close>)
  then have "borrow_from_right s (Leaf l) j = (update_node s2 (Internal (P\<lparr>in_keys := kl @ fst e' # kr\<rparr>)), Ok ())"
    using lj l by (simp add: borrow_from_right_def get_node_Some l'_def lj'_def s2_def)
  moreover have "next_of (nodes s2) = next_of (nodes s)"
    using lj(1) ff(8) by (auto simp: nodes next_of_upd l'_def lj'_def next_of_def)
  then have "same_leaves s s2" by (subst s2) (simp add: same_leaves_def)
  moreover have "flight s2 (Internal (P\<lparr>in_keys := kl @ fst e' # kr\<rparr>)) (BN p (kl @ fst e' # kr) (cl @ [BL i (es @ [e]), BL j (e' # esR)] @ cr)) fs"
    by (rule replace_pair [OF _ ff(3) own ff(5) P(1,2,5) _ _ _ _ _ _ s2])
      (use ff(2,7) P lj l dist in \<open>auto simp: nodes l'_def lj'_def\<close>)
  ultimately show ?thesis unfolding lands_def by blast
qed

text \<open>The heap after a child \<open>c\<close> moved from the node \<open>j\<close> to its neighbour \<open>i\<close>.\<close>

lemma move_child_rep:
  assumes own: "distinct (j # i # ids c @ concat (map ids us) @ concat (map ids ts))"
    and us: "\<forall>u \<in> set us. rep ns (Some j) u" and ts: "\<forall>u \<in> set ts. rep ns (Some i) u"
    and c: "rep ns q c" "ns (tid c) = Some cn" "node_rep q c cn"
    and ns': "ns' = ns(tid c \<mapsto> set_parent (Some i) cn, j \<mapsto> nj, i \<mapsto> ni)"
  shows "\<forall>u \<in> set us. rep ns' (Some j) u" "\<forall>u \<in> set ts. rep ns' (Some i) u" "rep ns' (Some i) c"
    and "ns' j = Some nj" "ns' i = Some ni"
proof -
  have keep: "\<forall>x \<in> set (ids u). ns' x = ns x" if "u \<in> set us \<union> set ts" for u
  proof
    fix x assume "x \<in> set (ids u)"
    with that have "x \<in> set (concat (map ids us)) \<union> set (concat (map ids ts))" by auto
    moreover have "set (ids c) \<inter> (set (concat (map ids us)) \<union> set (concat (map ids ts))) = {}"
      "i \<notin> set (concat (map ids us)) \<union> set (concat (map ids ts))"
      "j \<notin> set (concat (map ids us)) \<union> set (concat (map ids ts))"
      using own by auto
    ultimately have "x \<noteq> i" "x \<noteq> j" "x \<noteq> tid c" using tid_in_ids [of c] by blast+
    then show "ns' x = ns x" by (simp add: ns')
  qed
  have sepc: "x \<noteq> i" "x \<noteq> j" if "x \<in> set (ids c)" for x using own that by auto
  show "\<forall>u \<in> set us. rep ns' (Some j) u" "\<forall>u \<in> set ts. rep ns' (Some i) u"
    using us ts keep rep_cong [of ns _ _ ns'] by blast+
  have "rep (ns(tid c \<mapsto> set_parent (Some i) cn)) (Some i) c"
    by (rule rep_update_top [OF c(1) _ node_rep_set_parent [OF c(3)]]) (use own in simp)
  then show "rep ns' (Some i) c"
    by (rule rep_cong) (use sepc in \<open>auto simp: ns'\<close>)
  show "ns' j = Some nj" "ns' i = Some ni" using own by (auto simp: ns')
qed

lemma borrow_left_inner:
  assumes fl: "flight s (Internal n) (BN i ks ts) (Frame p (kl @ [k]) (cl @ [BN j (ksL @ [x]) (tsL @ [c])]) kr cr # fs)"
    and len: "length cl = length kl"
  shows "lands s (BN p (kl @ x # kr) (cl @ [BN j ksL tsL, BN i (k # ks) (c # ts)] @ cr)) fs (borrow_from_left s (Internal n) j)"
proof -
  note ff = flight_frame [OF fl]
  obtain P where P: "nodes s p = Some (Internal P)" "in_id P = p" "in_keys P = kl @ k # kr"
      "in_children P = map tid cl @ j # i # map tid cr" "in_parent P = hole_parent fs"
    using ff(1) by auto
  obtain nj where nj: "nodes s j = Some (Internal nj)" "in_id nj = j" "in_keys nj = ksL @ [x]"
      "in_children nj = map tid tsL @ [tid c]" "in_parent nj = Some p"
    using ff(2) by (auto simp: node_rep_BN)
  have n: "in_id n = i" "in_keys n = ks" "in_children n = map tid ts" "in_parent n = Some p" using ff(6) by auto
  let ?xs = "ids (BN j (ksL @ [x]) (tsL @ [c])) @ ids (BN i ks ts)"
  have own: "owns s (p # concat (map ids cl) @ ?xs @ concat (map ids cr) @ ctx_ids fs)" using ff(4) by simp
  have "mset (j # i # ids c @ concat (map ids tsL) @ concat (map ids ts)) = mset ?xs" by simp
  with owns_middle [OF own] have dist: "distinct (j # i # ids c @ concat (map ids tsL) @ concat (map ids ts))" "p \<notin> set ?xs"
    by (metis mset_eq_imp_distinct_iff)+
  have kids: "\<forall>u \<in> set tsL. rep (nodes s) (Some j) u" "rep (nodes s) (Some j) c" "\<forall>u \<in> set ts. rep (nodes s) (Some i) u"
    using ff(2,9) by auto
  obtain cn where cn: "nodes s (tid c) = Some cn" "node_rep (Some j) c cn" using rep_top [OF kids(2)] by auto
  define n' nj' where "n' = n\<lparr>in_keys := k # ks, in_children := tid c # map tid ts\<rparr>"
    and "nj' = nj\<lparr>in_keys := ksL, in_children := map tid tsL\<rparr>"
  define s2 where "s2 = s\<lparr>nodes := (nodes s)(tid c \<mapsto> set_parent (Some i) cn, j \<mapsto> Internal nj', i \<mapsto> Internal n')\<rparr>"
  have nodes: "nodes s2 = (nodes s)(tid c \<mapsto> set_parent (Some i) cn, j \<mapsto> Internal nj', i \<mapsto> Internal n')"
    by (simp add: s2_def)
  have s2: "s2 = s\<lparr>nodes := nodes s2\<rparr>" by (simp add: s2_def)
  have cx: "tid c \<in> set ?xs" "j \<in> set ?xs" "i \<in> set ?xs" by auto
  then have ne: "p \<noteq> j" "p \<noteq> i" "p \<noteq> tid c" using dist(2) by metis+
  have pos: "position i (in_children P) = Some (Suc (length kl))"
    using position_child [OF ff(4)] len by (simp add: P(4))
  let ?P = "P\<lparr>in_keys := kl @ x # kr\<rparr>"
  have "borrow_from_left s (Internal n) j = (update_node s2 (Internal ?P), Ok ())"
    using nj n P pos cn(1) ne node_rep_id [OF cn(2)]
    by (simp add: borrow_from_left_def get_node_def update_node_def s2_def n'_def nj'_def Let_def fun_upd_twist)
  moreover have "next_of (nodes s2) = next_of (nodes s)"
    using nj(1) ff(8) cn(1) by (auto simp: nodes next_of_upd next_of_def)
  then have "same_leaves s s2" by (subst s2) (simp add: same_leaves_def)
  moreover have "flight s2 (Internal ?P) (BN p (kl @ x # kr) (cl @ [BN j ksL tsL, BN i (k # ks) (c # ts)] @ cr)) fs"
  proof (rule replace_pair [OF _ ff(3) own ff(5) P(1,2,5) _ _ _ _ _ _ s2])
    note mv = move_child_rep [OF dist(1) kids(1,3,2) cn nodes]
    show "rep (nodes s2) (Some p) (BN j ksL tsL)" "rep (nodes s2) (Some p) (BN i (k # ks) (c # ts))"
      using mv nj n by (auto simp: n'_def nj'_def)
    show "dom (nodes s2) = dom (nodes s)" using nj(1) cn(1) ff(7) by (auto simp: nodes)
    show "\<forall>y. y \<notin> set ?xs \<longrightarrow> nodes s2 y = nodes s y" using cx by (auto simp: nodes simp del: ids.simps)
  qed (use ff(2) P in auto)
  ultimately show ?thesis unfolding lands_def by blast
qed

lemma borrow_right_inner:
  assumes fl: "flight s (Internal n) (BN i ks ts) (Frame p kl cl (k # kr) (BN j (x # ksR) (c # tsR) # cr) # fs)"
    and len: "length cl = length kl"
  shows "lands s (BN p (kl @ x # kr) (cl @ [BN i (ks @ [k]) (ts @ [c]), BN j ksR tsR] @ cr)) fs (borrow_from_right s (Internal n) j)"
proof -
  note ff = flight_frame [OF fl]
  obtain P where P: "nodes s p = Some (Internal P)" "in_id P = p" "in_keys P = kl @ k # kr"
      "in_children P = map tid cl @ i # j # map tid cr" "in_parent P = hole_parent fs"
    using ff(1) by auto
  obtain nj where nj: "nodes s j = Some (Internal nj)" "in_id nj = j" "in_keys nj = x # ksR"
      "in_children nj = tid c # map tid tsR" "in_parent nj = Some p"
    using ff(2) by (auto simp: node_rep_BN)
  have n: "in_id n = i" "in_keys n = ks" "in_children n = map tid ts" "in_parent n = Some p" using ff(6) by auto
  let ?xs = "ids (BN i ks ts) @ ids (BN j (x # ksR) (c # tsR))"
  have own: "owns s (p # concat (map ids cl) @ ?xs @ concat (map ids cr) @ ctx_ids fs)" using ff(4) by simp
  have "mset (j # i # ids c @ concat (map ids tsR) @ concat (map ids ts)) = mset ?xs" by simp
  with owns_middle [OF own] have dist: "distinct (j # i # ids c @ concat (map ids tsR) @ concat (map ids ts))" "p \<notin> set ?xs"
    by (metis mset_eq_imp_distinct_iff)+
  have kids: "\<forall>u \<in> set tsR. rep (nodes s) (Some j) u" "rep (nodes s) (Some j) c" "\<forall>u \<in> set ts. rep (nodes s) (Some i) u"
    using ff(2,9) by auto
  obtain cn where cn: "nodes s (tid c) = Some cn" "node_rep (Some j) c cn" using rep_top [OF kids(2)] by auto
  define n' nj' where "n' = n\<lparr>in_keys := ks @ [k], in_children := map tid ts @ [tid c]\<rparr>"
    and "nj' = nj\<lparr>in_keys := ksR, in_children := map tid tsR\<rparr>"
  define s2 where "s2 = s\<lparr>nodes := (nodes s)(tid c \<mapsto> set_parent (Some i) cn, j \<mapsto> Internal nj', i \<mapsto> Internal n')\<rparr>"
  have nodes: "nodes s2 = (nodes s)(tid c \<mapsto> set_parent (Some i) cn, j \<mapsto> Internal nj', i \<mapsto> Internal n')"
    by (simp add: s2_def)
  have s2: "s2 = s\<lparr>nodes := nodes s2\<rparr>" by (simp add: s2_def)
  have cx: "tid c \<in> set ?xs" "j \<in> set ?xs" "i \<in> set ?xs" by auto
  then have ne: "p \<noteq> j" "p \<noteq> i" "p \<noteq> tid c" using dist(2) by metis+
  have pos: "position i (in_children P) = Some (length kl)"
    using position_child [OF ff(4)] len by (simp add: P(4))
  let ?P = "P\<lparr>in_keys := kl @ x # kr\<rparr>"
  have "borrow_from_right s (Internal n) j = (update_node s2 (Internal ?P), Ok ())"
    using nj n P pos cn(1) ne node_rep_id [OF cn(2)]
    by (simp add: borrow_from_right_def get_node_def update_node_def s2_def n'_def nj'_def Let_def fun_upd_twist)
  moreover have "next_of (nodes s2) = next_of (nodes s)"
    using nj(1) ff(8) cn(1) by (auto simp: nodes next_of_upd next_of_def)
  then have "same_leaves s s2" by (subst s2) (simp add: same_leaves_def)
  moreover have "flight s2 (Internal ?P) (BN p (kl @ x # kr) (cl @ [BN i (ks @ [k]) (ts @ [c]), BN j ksR tsR] @ cr)) fs"
  proof (rule replace_pair [OF _ ff(3) own ff(5) P(1,2,5) _ _ _ _ _ _ s2])
    note mv = move_child_rep [OF dist(1) kids(1,3,2) cn nodes]
    show "rep (nodes s2) (Some p) (BN j ksR tsR)" "rep (nodes s2) (Some p) (BN i (ks @ [k]) (ts @ [c]))"
      using mv nj n by (auto simp: n'_def nj'_def)
    show "dom (nodes s2) = dom (nodes s)" using nj(1) cn(1) ff(7) by (auto simp: nodes)
    show "\<forall>y. y \<notin> set ?xs \<longrightarrow> nodes s2 y = nodes s y" using cx by (auto simp: nodes simp del: ids.simps)
  qed (use ff(2) P in auto)
  ultimately show ?thesis unfolding lands_def by blast
qed

section \<open>Merging\<close>

text \<open>
  \<open>merges\<close>: a merge removes the node \<open>i\<close> and calls \<open>from_parent\<close> in a state whose stored parent
  still lists it; once the parent drops it, the tree \<open>t\<close> is in flight.
\<close>

definition merges :: "BPlusTree \<Rightarrow> BPlusTree \<Rightarrow> node_id \<Rightarrow> node_id \<Rightarrow> bt \<Rightarrow> ctx \<Rightarrow> bool" where
  "merges s s' p i t fs \<longleftrightarrow>
     (\<exists>P. nodes s' p = Some P \<and> flight s' (drop_child i P) t fs) \<and>
     config s' = config s \<and> leftmost_leaf s' = leftmost_leaf s"

lemma merges_frame:
  assumes "merges s1 s2 p i t fs" "s1 = s\<lparr>nodes := nodes s1\<rparr>"
  shows "merges s s2 p i t fs"
proof -
  have "config s1 = config s" "leftmost_leaf s1 = leftmost_leaf s" by (subst assms(2); simp)+
  with assms(1) show ?thesis by (simp add: merges_def)
qed

lemma drop_child_right:
  assumes "in_keys P = kl @ k # kr" "in_children P = map tid cl @ a # i # map tid cr" "length cl = length kl"
    and "i \<notin> tid ` set cl" "a \<noteq> i"
  shows "drop_child i (Internal P) =
    Internal (P\<lparr>in_keys := kl @ kr, in_children := map tid cl @ a # map tid cr\<rparr>)"
proof -
  have "position i ((map tid cl @ [a]) @ i # map tid cr) = Some (length (map tid cl @ [a]))"
    by (rule position_append) (use assms(4,5) in auto)
  moreover have "vec_remove (Suc (length kl)) ((map tid cl @ [a]) @ i # map tid cr) = (map tid cl @ [a]) @ map tid cr"
    by (rule vec_remove_append) (simp add: assms(3))
  moreover have "vec_remove (length kl) (kl @ k # kr) = kl @ kr" by (rule vec_remove_append) simp
  ultimately show ?thesis using assms(1-3) by simp
qed

text \<open>The pair \<open>a\<close>, \<open>b\<close> becomes one tree \<open>w\<close> at the identifier of \<open>a\<close>.\<close>

lemma merge_pair:
  assumes "\<forall>u \<in> set cl \<union> set cr. rep (nodes s) (Some p) u" "rep_ctx (nodes s) p fs"
    and own: "owns s (p # concat (map ids cl) @ (ids a @ ids b) @ concat (map ids cr) @ ctx_ids fs)"
    and "root_id s = root_of p fs" and P: "nodes s p = Some (Internal P)" "in_id P = p" "in_parent P = hole_parent fs"
      "in_keys P = kl @ k # kr" "in_children P = map tid (cl @ [a, b] @ cr)" "length cl = length kl"
    and agree: "\<forall>j. j \<notin> set (ids a @ ids b) \<longrightarrow> nodes s' j = nodes s j" and w: "rep (nodes s') (Some p) w"
    and "mset (ids a @ ids b) = mset (tid b # ids w)" "tid w = tid a" "dom (nodes s') = dom (nodes s) - {tid b}"
    and s': "s' = s\<lparr>nodes := nodes s'\<rparr>"
  shows "merges s s' p (tid b) (BN p (kl @ kr) (cl @ [w] @ cr)) fs"
proof -
  let ?N = "P\<lparr>in_keys := kl @ kr, in_children := map tid cl @ tid a # map tid cr\<rparr>"
  note mid = owns_middle [OF own]
  have eq: "mset (p # concat (map ids cl) @ (ids a @ ids b) @ concat (map ids cr) @ ctx_ids fs) =
      mset (tid b # p # concat (map ids cl) @ concat (map ids [w]) @ concat (map ids cr) @ ctx_ids fs)"
    using assms(13) by simp
  have "next_node_id s' = next_node_id s" by (subst s') simp
  moreover have "owns s (tid b # p # concat (map ids cl) @ concat (map ids [w]) @ concat (map ids cr) @ ctx_ids fs)"
    using own by (subst owns_perm [OF eq [symmetric]])
  ultimately have own': "owns s' (p # concat (map ids cl) @ concat (map ids [w]) @ concat (map ids cr) @ ctx_ids fs)"
    using assms(15) by (auto simp: owns_def)
  have "tid a \<noteq> tid b" using mid(1) tid_in_ids [of a] tid_in_ids [of b] by (auto simp del: tid_in_ids)
  moreover have "tid b \<notin> tid ` set cl"
  proof -
    have "set (concat (map ids cl)) \<inter> set (ids b) = {}" using own by (auto simp: owns_def)
    moreover have "tid ` set cl \<subseteq> set (concat (map ids cl))" using tid_in_ids by auto
    ultimately show ?thesis using tid_in_ids [of b] by blast
  qed
  ultimately have drop: "drop_child (tid b) (Internal P) = Internal ?N"
    by (intro drop_child_right) (use P in auto)
  have "flight s' (Internal ?N) (BN p (kl @ kr) (cl @ [w] @ cr)) fs"
  proof (rule surgery [of cl cr s p fs "ids a @ ids b"])
    show "owns s' (p # concat (map ids cl) @ concat (map ids [w]) @ concat (map ids cr) @ ctx_ids fs)" by (rule own')
    show "next_of (nodes s) p = None" using P(1) by (simp add: next_of_def)
    show "root_id s' = root_id s" by (subst s') simp
  qed (use assms(1-4,14) agree w P in auto)
  moreover have "nodes s' p = Some (Internal P)" using agree P(1) mid(2) by simp
  moreover have "config s' = config s" "leftmost_leaf s' = leftmost_leaf s" by (subst s'; simp)+
  ultimately show ?thesis unfolding merges_def drop [symmetric] by blast
qed

text \<open>The \<open>prev\<close> pointers play no part in the represented tree.\<close>

fun strip_prev :: "BPlusTreeNode \<Rightarrow> BPlusTreeNode" where
  "strip_prev (Leaf l) = Leaf (l\<lparr>lf_prev := None\<rparr>)"
| "strip_prev (Internal n) = Internal n"

definition sim :: "(node_id \<rightharpoonup> BPlusTreeNode) \<Rightarrow> (node_id \<rightharpoonup> BPlusTreeNode) \<Rightarrow> bool" where
  "sim ns ns' \<longleftrightarrow> (\<forall>i. map_option strip_prev (ns i) = map_option strip_prev (ns' i))"

lemma strip_prev_eq_Internal [simp]:
  "strip_prev n = Internal m \<longleftrightarrow> n = Internal m" "Internal m = strip_prev n \<longleftrightarrow> n = Internal m"
  by (cases n; auto)+

lemma node_rep_strip [simp]: "node_rep p t (strip_prev n) = node_rep p t n"
  by (cases "(p, t, n)" rule: node_rep.cases) auto

lemma node_next_strip [simp]: "node_next (strip_prev n) = node_next n"
  by (cases n) auto

lemma rep_strip: "rep (\<lambda>i. map_option strip_prev (ns i)) p t \<longleftrightarrow> rep ns p t"
  by (induction ns p t rule: rep.induct) auto

lemma rep_ctx_strip: "rep_ctx (\<lambda>i. map_option strip_prev (ns i)) c fs \<longleftrightarrow> rep_ctx ns c fs"
  by (induction ns c fs rule: rep_ctx.induct) (auto simp: rep_strip)

lemma sim_comp: "sim ns ns' \<Longrightarrow> (\<lambda>i. map_option strip_prev (ns i)) = (\<lambda>i. map_option strip_prev (ns' i))"
  by (auto simp: sim_def)

lemma sim_upd: "sim ns ns' \<Longrightarrow> sim (ns(i \<mapsto> n)) (ns'(i \<mapsto> n))"
  by (simp add: sim_def)

lemma sim_rep: "sim ns ns' \<Longrightarrow> rep ns p t = rep ns' p t" "sim ns ns' \<Longrightarrow> rep_ctx ns c fs = rep_ctx ns' c fs"
  using sim_comp rep_strip rep_ctx_strip by metis+

lemma sim_dom: "sim ns ns' \<Longrightarrow> dom ns = dom ns'"
  unfolding sim_def dom_def by (metis option.map_disc_iff)

lemma sim_next_of:
  assumes "sim ns ns'"
  shows "next_of ns = next_of ns'"
proof
  fix i
  have "map_option strip_prev (ns i) = map_option strip_prev (ns' i)" using assms by (simp add: sim_def)
  then show "next_of ns i = next_of ns' i"
    by (cases "ns i"; cases "ns' i") (auto simp: next_of_def dest: arg_cong [of _ _ node_next])
qed

lemma flight_sim:
  assumes "flight s n t fs" "sim (nodes s1) (nodes s)" "s1 = s\<lparr>nodes := nodes s1\<rparr>"
  shows "flight s1 n t fs"
proof -
  have frame: "next_node_id s1 = next_node_id s" "root_id s1 = root_id s" by (subst assms(3); simp)+
  note up = sim_upd [OF assms(2), of "node_id_of n" n]
  show ?thesis
    using assms(1) sim_rep [OF up] sim_dom [OF assms(2)] sim_dom [OF up] sim_next_of [OF assms(2)]
    by (simp add: flight_def struct_ok_def owns_def frame)
qed

lemma relink_prev_ok:
  assumes "\<And>x. nx = Some x \<Longrightarrow> \<exists>n. nodes s x = Some n \<and> node_id_of n = x"
  shows "\<exists>s1. relink_prev s nx q = (s1, Ok ()) \<and> sim (nodes s1) (nodes s) \<and> s1 = s\<lparr>nodes := nodes s1\<rparr>"
proof (cases nx)
  case None
  then show ?thesis by (simp add: relink_prev_def sim_def)
next
  case (Some x)
  then obtain n where "nodes s x = Some n" "node_id_of n = x" using assms by auto
  then show ?thesis
    by (cases n) (auto simp: relink_prev_def Some get_node_Some sim_def update_node_def)
qed

lemma merge_left_leaf:
  assumes fl: "flight s (Leaf l) (BL i es) (Frame p (kl @ [k]) (cl @ [BL j esL]) kr cr # fs)"
    and len: "length cl = length kl"
    and nx: "\<And>x. next_of (nodes s) i = Some x \<Longrightarrow> \<exists>n. nodes s x = Some n \<and> node_id_of n = x"
  shows "\<exists>s'. merge_with_left fp s (Leaf l) j = fp s' p i \<and>
    merges s s' p i (BN p (kl @ kr) (cl @ [BL j (esL @ es)] @ cr)) fs \<and>
    next_of (nodes s') = (next_of (nodes s))(j := next_of (nodes s) i, i := None)"
proof -
  have nxt: "next_of (nodes s) i = lf_next l" and par: "lf_parent l = Some p" "lf_id l = i" "lf_entries l = es"
    using flight_frame(6,8) [OF fl] by auto
  obtain lj where lj: "nodes s j = Some (Leaf lj)" "lf_id lj = j" "lf_entries lj = esL" "lf_parent lj = Some p"
    using flight_frame(2) [OF fl] by (auto simp: node_rep_BL)
  obtain s1 where s1: "relink_prev s (lf_next l) j = (s1, Ok ())" "sim (nodes s1) (nodes s)" "s1 = s\<lparr>nodes := nodes s1\<rparr>"
    using relink_prev_ok [of "lf_next l" s j] nx nxt by auto
  note ff = flight_frame [OF flight_sim [OF fl s1(2,3)]]
  obtain P where P: "nodes s1 p = Some (Internal P)" "in_id P = p" "in_keys P = kl @ k # kr"
      "in_children P = map tid cl @ j # i # map tid cr" "in_parent P = hole_parent fs"
    using ff(1) by auto
  have own: "owns s1 (p # concat (map ids cl) @ (ids (BL j esL) @ ids (BL i es)) @ concat (map ids cr) @ ctx_ids fs)"
    using ff(4) by simp
  have ij: "i \<noteq> j" using owns_middle [OF own] by auto
  let ?lj = "lj\<lparr>lf_entries := esL @ es, lf_next := lf_next l\<rparr>"
  define s2 where "s2 = remove_node (update_node s1 (Leaf ?lj)) i"
  have nodes: "nodes s2 = (nodes s1)(j \<mapsto> Leaf ?lj, i := None)" by (simp add: s2_def remove_node_def lj)
  have s2: "s2 = s1\<lparr>nodes := nodes s2\<rparr>" by (simp add: s2_def remove_node_def update_node_def)
  have "merge_with_left fp s (Leaf l) j = fp s2 p i"
    using lj s1(1) par by (simp add: merge_with_left_def get_node_Some s2_def)
  moreover have "merges s1 s2 p (tid (BL i es)) (BN p (kl @ kr) (cl @ [BL j (esL @ es)] @ cr)) fs"
  proof (rule merge_pair [OF _ ff(3) own ff(5) P(1,2,5,3) _ len _ _ _ _ _ s2])
    have "j \<in> dom (nodes s1)" using lj(1) sim_dom [OF s1(2)] by auto
    then show "dom (nodes s2) = dom (nodes s1) - {tid (BL i es)}" using ij by (auto simp: nodes)
  qed (use ff(2) P lj ij in \<open>auto simp: nodes\<close>)
  then have "merges s s2 p i (BN p (kl @ kr) (cl @ [BL j (esL @ es)] @ cr)) fs"
    using merges_frame [OF _ s1(3)] by simp
  moreover have "next_of (nodes s2) = (next_of (nodes s))(j := next_of (nodes s) i, i := None)"
    using sim_next_of [OF s1(2)] nxt ij by (auto simp: nodes next_of_def fun_eq_iff)
  ultimately show ?thesis by blast
qed

lemma merge_right_leaf:
  assumes fl: "flight s (Leaf l) (BL i es) (Frame p kl cl (k # kr) (BL j esR # cr) # fs)"
    and len: "length cl = length kl"
    and nx: "\<And>x. next_of (nodes s) j = Some x \<Longrightarrow> \<exists>n. nodes s x = Some n \<and> node_id_of n = x"
  shows "\<exists>s'. merge_with_right fp s (Leaf l) j = fp s' p j \<and>
    merges s s' p j (BN p (kl @ kr) (cl @ [BL i (es @ esR)] @ cr)) fs \<and>
    next_of (nodes s') = (next_of (nodes s))(i := next_of (nodes s) j, j := None)"
proof -
  have par: "lf_parent l = Some p" "lf_id l = i" "lf_entries l = es"
    using flight_frame(6) [OF fl] by auto
  obtain lj where lj: "nodes s j = Some (Leaf lj)" "lf_id lj = j" "lf_entries lj = esR" "lf_parent lj = Some p"
    using flight_frame(2) [OF fl] by (auto simp: node_rep_BL)
  then have nxt: "next_of (nodes s) j = lf_next lj" by (simp add: next_of_def)
  obtain s1 where s1: "relink_prev s (lf_next lj) i = (s1, Ok ())" "sim (nodes s1) (nodes s)" "s1 = s\<lparr>nodes := nodes s1\<rparr>"
    using relink_prev_ok [of "lf_next lj" s i] nx nxt by auto
  note ff = flight_frame [OF flight_sim [OF fl s1(2,3)]]
  obtain P where P: "nodes s1 p = Some (Internal P)" "in_id P = p" "in_keys P = kl @ k # kr"
      "in_children P = map tid cl @ i # j # map tid cr" "in_parent P = hole_parent fs"
    using ff(1) by auto
  have own: "owns s1 (p # concat (map ids cl) @ (ids (BL i es) @ ids (BL j esR)) @ concat (map ids cr) @ ctx_ids fs)"
    using ff(4) by simp
  have ij: "i \<noteq> j" using owns_middle [OF own] by auto
  let ?l = "l\<lparr>lf_entries := es @ esR, lf_next := lf_next lj\<rparr>"
  define s2 where "s2 = remove_node (update_node s1 (Leaf ?l)) j"
  have nodes: "nodes s2 = (nodes s1)(i \<mapsto> Leaf ?l, j := None)" by (simp add: s2_def remove_node_def par)
  have s2: "s2 = s1\<lparr>nodes := nodes s2\<rparr>" by (simp add: s2_def remove_node_def update_node_def)
  have "merge_with_right fp s (Leaf l) j = fp s2 p j"
    using lj s1(1) par by (simp add: merge_with_right_def get_node_Some s2_def)
  moreover have "merges s1 s2 p (tid (BL j esR)) (BN p (kl @ kr) (cl @ [BL i (es @ esR)] @ cr)) fs"
  proof (rule merge_pair [OF _ ff(3) own ff(5) P(1,2,5,3) _ len _ _ _ _ _ s2])
    show "dom (nodes s2) = dom (nodes s1) - {tid (BL j esR)}" using ij ff(7) by (auto simp: nodes)
  qed (use ff(2) P par ij in \<open>auto simp: nodes\<close>)
  then have "merges s s2 p j (BN p (kl @ kr) (cl @ [BL i (es @ esR)] @ cr)) fs"
    using merges_frame [OF _ s1(3)] by simp
  moreover have "next_of (nodes s2) = (next_of (nodes s))(i := next_of (nodes s) j, j := None)"
    using sim_next_of [OF s1(2)] nxt ij by (auto simp: nodes next_of_def fun_eq_iff)
  ultimately show ?thesis by blast
qed

lemma merge_left_inner:
  assumes fl: "flight s (Internal n) (BN i ks ts) (Frame p (kl @ [k]) (cl @ [BN j ksL tsL]) kr cr # fs)"
    and len: "length cl = length kl"
  shows "\<exists>s'. merge_with_left fp s (Internal n) j = fp s' p i \<and>
    merges s s' p i (BN p (kl @ kr) (cl @ [BN j (ksL @ k # ks) (tsL @ ts)] @ cr)) fs \<and>
    next_of (nodes s') = next_of (nodes s)"
proof -
  note ff = flight_frame [OF fl]
  obtain P where P: "nodes s p = Some (Internal P)" "in_id P = p" "in_keys P = kl @ k # kr"
      "in_children P = map tid cl @ j # i # map tid cr" "in_parent P = hole_parent fs"
    using ff(1) by auto
  obtain nj where nj: "nodes s j = Some (Internal nj)" "in_id nj = j" "in_keys nj = ksL"
      "in_children nj = map tid tsL" "in_parent nj = Some p"
    using ff(2) by (auto simp: node_rep_BN)
  have n: "in_id n = i" "in_keys n = ks" "in_children n = map tid ts" "in_parent n = Some p" using ff(6) by auto
  let ?a = "BN j ksL tsL" and ?b = "BN i ks ts"
  have own: "owns s (p # concat (map ids cl) @ (ids ?a @ ids ?b) @ concat (map ids cr) @ ctx_ids fs)" using ff(4) by simp
  have dist: "distinct (concat (map ids (tsL @ ts)))" "i \<noteq> j" "i \<notin> set (concat (map ids (tsL @ ts)))" "j \<notin> set (concat (map ids (tsL @ ts)))"
    using owns_middle(1) [OF own] by auto
  have "\<exists>q. rep (nodes s) q u" if "u \<in> set (tsL @ ts)" for u using ff(2,9) that by auto
  then obtain ns where ns: "set_parents s (map tid (tsL @ ts)) j = (s\<lparr>nodes := ns\<rparr>, Ok ())"
    "\<forall>u \<in> set (tsL @ ts). rep ns (Some j) u" "\<forall>x. x \<notin> set (concat (map ids (tsL @ ts))) \<longrightarrow> ns x = nodes s x"
    "dom ns = dom (nodes s)" "next_of ns = next_of (nodes s)"
    using set_parents_ok [OF _ dist(1), of s j] by metis
  let ?nj = "nj\<lparr>in_keys := ksL @ k # ks, in_children := map tid (tsL @ ts)\<rparr>"
  define s2 where "s2 = remove_node (update_node (s\<lparr>nodes := ns\<rparr>) (Internal ?nj)) i"
  have nodes: "nodes s2 = ns(j \<mapsto> Internal ?nj, i := None)" by (simp add: s2_def remove_node_def nj)
  have s2: "s2 = s\<lparr>nodes := nodes s2\<rparr>" by (simp add: s2_def remove_node_def update_node_def)
  have pos: "position i (in_children P) = Some (Suc (length kl))"
    using position_child [OF ff(4)] len by (simp add: P(4))
  have "merge_with_left fp s (Internal n) j = fp s2 p i"
    using nj n P ns(1) pos by (simp add: merge_with_left_def get_node_Some s2_def Let_def)
  moreover have "merges s s2 p (tid ?b) (BN p (kl @ kr) (cl @ [BN j (ksL @ k # ks) (tsL @ ts)] @ cr)) fs"
  proof (rule merge_pair [OF _ ff(3) own ff(5) P(1,2,5,3) _ len _ _ _ _ _ s2])
    have "rep (nodes s2) (Some j) u" if u: "u \<in> set (tsL @ ts)" for u
      by (rule rep_cong [of ns]) (use ns(2) u dist in \<open>auto simp: nodes\<close>)
    then show "rep (nodes s2) (Some p) (BN j (ksL @ k # ks) (tsL @ ts))" using nj dist(2) by (auto simp: nodes)
    show "dom (nodes s2) = dom (nodes s) - {tid ?b}" using nj(1) ns(4) dist(2) by (auto simp: nodes)
    show "\<forall>x. x \<notin> set (ids ?a @ ids ?b) \<longrightarrow> nodes s2 x = nodes s x" using ns(3) by (auto simp: nodes)
  qed (use ff(2) P in auto)
  moreover have "next_of (nodes s2) = next_of (nodes s)"
  proof -
    have "next_of (nodes s) i = None" "next_of (nodes s) j = None" using ff(8) nj(1) by (auto simp: next_of_def)
    then show ?thesis by (auto simp: nodes fun_eq_iff next_of_def simp flip: ns(5))
  qed
  ultimately show ?thesis by auto
qed

lemma merge_right_inner:
  assumes fl: "flight s (Internal n) (BN i ks ts) (Frame p kl cl (k # kr) (BN j ksR tsR # cr) # fs)"
    and len: "length cl = length kl"
  shows "\<exists>s'. merge_with_right fp s (Internal n) j = fp s' p j \<and>
    merges s s' p j (BN p (kl @ kr) (cl @ [BN i (ks @ k # ksR) (ts @ tsR)] @ cr)) fs \<and>
    next_of (nodes s') = next_of (nodes s)"
proof -
  note ff = flight_frame [OF fl]
  obtain P where P: "nodes s p = Some (Internal P)" "in_id P = p" "in_keys P = kl @ k # kr"
      "in_children P = map tid cl @ i # j # map tid cr" "in_parent P = hole_parent fs"
    using ff(1) by auto
  obtain nj where nj: "nodes s j = Some (Internal nj)" "in_id nj = j" "in_keys nj = ksR"
      "in_children nj = map tid tsR" "in_parent nj = Some p"
    using ff(2) by (auto simp: node_rep_BN)
  have n: "in_id n = i" "in_keys n = ks" "in_children n = map tid ts" "in_parent n = Some p" using ff(6) by auto
  let ?a = "BN i ks ts" and ?b = "BN j ksR tsR"
  have own: "owns s (p # concat (map ids cl) @ (ids ?a @ ids ?b) @ concat (map ids cr) @ ctx_ids fs)" using ff(4) by simp
  have dist: "distinct (concat (map ids (ts @ tsR)))" "i \<noteq> j" "i \<notin> set (concat (map ids (ts @ tsR)))" "j \<notin> set (concat (map ids (ts @ tsR)))"
    using owns_middle(1) [OF own] by auto
  have "\<exists>q. rep (nodes s) q u" if "u \<in> set (ts @ tsR)" for u using ff(2,9) that by auto
  then obtain ns where ns: "set_parents s (map tid (ts @ tsR)) i = (s\<lparr>nodes := ns\<rparr>, Ok ())"
    "\<forall>u \<in> set (ts @ tsR). rep ns (Some i) u" "\<forall>x. x \<notin> set (concat (map ids (ts @ tsR))) \<longrightarrow> ns x = nodes s x"
    "dom ns = dom (nodes s)" "next_of ns = next_of (nodes s)"
    using set_parents_ok [OF _ dist(1), of s i] by metis
  let ?n = "n\<lparr>in_keys := ks @ k # ksR, in_children := map tid (ts @ tsR)\<rparr>"
  define s2 where "s2 = remove_node (update_node (s\<lparr>nodes := ns\<rparr>) (Internal ?n)) j"
  have nodes: "nodes s2 = ns(i \<mapsto> Internal ?n, j := None)" by (simp add: s2_def remove_node_def n)
  have s2: "s2 = s\<lparr>nodes := nodes s2\<rparr>" by (simp add: s2_def remove_node_def update_node_def)
  have pos: "position i (in_children P) = Some (length kl)"
    using position_child [OF ff(4)] len by (simp add: P(4))
  have "merge_with_right fp s (Internal n) j = fp s2 p j"
    using nj n P ns(1) pos by (simp add: merge_with_right_def get_node_Some s2_def Let_def)
  moreover have "merges s s2 p (tid ?b) (BN p (kl @ kr) (cl @ [BN i (ks @ k # ksR) (ts @ tsR)] @ cr)) fs"
  proof (rule merge_pair [OF _ ff(3) own ff(5) P(1,2,5,3) _ len _ _ _ _ _ s2])
    have "rep (nodes s2) (Some i) u" if u: "u \<in> set (ts @ tsR)" for u
      by (rule rep_cong [of ns]) (use ns(2) u dist in \<open>auto simp: nodes\<close>)
    then show "rep (nodes s2) (Some p) (BN i (ks @ k # ksR) (ts @ tsR))" using n dist(2) by (auto simp: nodes)
    show "dom (nodes s2) = dom (nodes s) - {tid ?b}" using ff(7) ns(4) dist(2) by (auto simp: nodes)
    show "\<forall>x. x \<notin> set (ids ?a @ ids ?b) \<longrightarrow> nodes s2 x = nodes s x" using ns(3) by (auto simp: nodes)
  qed (use ff(2) P in auto)
  moreover have "next_of (nodes s2) = next_of (nodes s)"
  proof -
    have "next_of (nodes s) i = None" "next_of (nodes s) j = None" using ff(8) nj(1) by (auto simp: next_of_def)
    then show ?thesis by (auto simp: nodes fun_eq_iff next_of_def simp flip: ns(5))
  qed
  ultimately show ?thesis by auto
qed

section \<open>Propagating an underflow\<close>

text \<open>
  \<open>leafy s ls\<close>: \<open>ls\<close> is the chain of leaves. \<open>restored\<close>: a successful result with the given
  content.
\<close>

definition leafy :: "BPlusTree \<Rightarrow> node_id list \<Rightarrow> bool" where
  "leafy s ls \<longleftrightarrow> chain (nodes s) None ls \<and> leftmost_leaf s = Some (hd ls)"

definition restored :: "BPlusTreeConfig \<Rightarrow> item list \<Rightarrow> unit tree_result \<Rightarrow> bool" where
  "restored c xs r \<longleftrightarrow>
     (\<exists>s h t. r = (s, Ok ()) \<and> tree_inv s h t \<and> ents (inord t) = ents xs \<and> config s = c)"

text \<open>The situation in which a subtree \<open>t\<close> of height \<open>h\<close> is in flight, at least \<open>b\<close> keys at its top.\<close>

definition adrift :: "BPlusTree \<Rightarrow> BPlusTreeNode \<Rightarrow> nat \<Rightarrow> nat \<Rightarrow> bt \<Rightarrow> ctx \<Rightarrow> bool" where
  "adrift s n b h t fs \<longleftrightarrow>
     flight s n t fs \<and> config_ok (config s) \<and>
     node_ok b (lo_keys (config s)) (max_keys (config s)) h t \<and>
     ctx_ok (lo_keys (config s)) (max_keys (config s)) h fs \<and>
     items_sorted (items_left fs @ inord t @ items_right fs) \<and>
     leafy s (leaves_left fs @ leaves t @ leaves_right fs)"

lemma adrift_land:
  assumes "adrift s n (hole_min (lo_keys (config s)) h fs) h t fs"
  shows "restored (config s) (items_left fs @ inord t @ items_right fs) (update_node s n, Ok ())"
proof -
  have "tree_inv (update_node s n) (h + length fs) (plug t fs)"
    by (rule flight_land) (use assms in \<open>auto simp: adrift_def leafy_def\<close>)
  moreover have "inord (plug t fs) = items_left fs @ inord t @ items_right fs"
    using assms by (intro inord_plug [of "lo_keys (config s)" "max_keys (config s)" h]) (auto simp: adrift_def)
  ultimately show ?thesis unfolding restored_def by fastforce
qed

lemma lo_keys_pos: "config_ok c \<Longrightarrow> 1 \<le> lo_keys c"
  by (auto simp: config_ok_def lo_keys_def)

lemma shrink_root:
  assumes ad: "adrift s n 0 (Suc h) (BN p [] [w]) []" and n: "nodes s (tid w) = Some nw"
  shows "restored (config s) (inord w)
    (remove_node ((update_node s (set_parent None nw))\<lparr>root_id := tid w\<rparr>) p, Ok ())"
proof -
  let ?s' = "remove_node ((update_node s (set_parent None nw))\<lparr>root_id := tid w\<rparr>) p"
  let ?lo = "lo_keys (config s)" and ?m = "max_keys (config s)"
  have fl: "flight s n (BN p [] [w]) []" using ad by (simp add: adrift_def)
  note fc = flight_children [OF fl]
  have w: "rep (nodes s) (Some p) w" "owns s (p # ids w)" using fc(1,3) by auto
  then have dist: "distinct (ids w)" "p \<notin> set (ids w)" "dom (nodes s) = insert p (set (ids w))" by (auto simp: owns_def)
  have nw: "node_rep (Some p) w nw" using rep_top [OF w(1)] n by auto
  have nodes: "nodes ?s' = (nodes s)(tid w \<mapsto> set_parent None nw, p := None)"
    using node_rep_id [OF nw] by (simp add: remove_node_def)
  have "rep ((nodes s)(tid w \<mapsto> set_parent None nw)) None w"
    by (rule rep_update_top [OF w(1) dist(1) node_rep_set_parent [OF nw]])
  then have "rep (nodes ?s') None w"
    by (rule rep_cong) (use dist(2) in \<open>auto simp: nodes\<close>)
  moreover have "owns ?s' (ids w)"
    using w(2) dist node_rep_id [OF nw] by (auto simp: owns_def remove_node_def)
  ultimately have st: "struct_ok ?s' w" by (simp add: struct_ok_def remove_node_def)
  have "next_of (nodes ?s') = next_of (nodes s)"
    using n fc(5) by (auto simp: nodes next_of_def fun_eq_iff)
  then have "chain (nodes ?s') None (leaves w)"
    using ad chain_cong [of "leaves w" "nodes ?s'" "nodes s"] by (simp add: adrift_def leafy_def)
  moreover have "leftmost_leaf ?s' = Some (hd (leaves w))" "config ?s' = config s"
    using ad by (simp_all add: adrift_def leafy_def remove_node_def)
  moreover have "tree_ok ?lo ?m h w"
  proof -
    have "node_ok ?lo ?lo ?m h w" "1 \<le> ?lo" using ad lo_keys_pos by (auto simp: adrift_def)
    then show ?thesis unfolding tree_ok_def by (auto intro: node_ok_mono simp: root_min_def)
  qed
  ultimately have "tree_inv ?s' h w"
    using ad st by (simp add: tree_inv_def heap_ok_def adrift_def)
  then show ?thesis using \<open>config ?s' = config s\<close> unfolding restored_def by blast
qed

lemma remove_from_parent_ok:
  assumes P: "nodes s p = Some P" "n = drop_child c P"
    and ad: "adrift s n (if fs = [] then 0 else lo_keys (config s) - 1) (Suc h) (BN p ks ts) fs"
    and und: "fs \<noteq> [] \<Longrightarrow> length ks < min_keys (config s) \<Longrightarrow>
      restored (config s) (items_left fs @ inord (BN p ks ts) @ items_right fs) (underflow s n)"
  shows "restored (config s) (items_left fs @ inord (BN p ks ts) @ items_right fs) (remove_from_parent underflow s p c)"
proof -
  have fl: "flight s n (BN p ks ts) fs" using ad by (simp add: adrift_def)
  then obtain N where N: "n = Internal N" "in_keys N = ks" "in_children N = map tid ts" "in_parent N = hole_parent fs"
    by (auto simp: flight_def node_rep_BN)
  have len: "length ts = Suc (length ks)" using ad by (simp add: adrift_def)
  have land: "restored (config s) (items_left fs @ inord (BN p ks ts) @ items_right fs) (update_node s n, Ok ())"
    if "hole_min (lo_keys (config s)) (Suc h) fs \<le> length ks"
    by (rule adrift_land [of s n "Suc h"]) (use ad that in \<open>auto simp: adrift_def\<close>)
  show ?thesis
  proof (cases fs)
    case Nil
    show ?thesis
    proof (cases ks)
      case ks: Nil
      with len obtain w where ts: "ts = [w]" by (cases ts) auto
      obtain nw where nw: "nodes s (tid w) = Some nw"
        using flight_children(1) [OF fl] rep_top [of "nodes s" "Some p" w] by (auto simp: ts)
      have "remove_from_parent underflow s p c =
          (remove_node ((update_node s (set_parent None nw))\<lparr>root_id := tid w\<rparr>) p, Ok ())"
        using P(1) nw N by (simp add: remove_from_parent_def get_node_Some ts Nil P(2) [symmetric])
      with shrink_root [OF _ nw, of n h p] ad show ?thesis by (simp add: Nil ks ts)
    next
      case (Cons k ks')
      then obtain a b ts' where "ts = a # b # ts'" using len by (cases ts; cases "tl ts") auto
      then have "remove_from_parent underflow s p c = (update_node s n, Ok ())"
        using P(1) N by (simp add: remove_from_parent_def get_node_Some Nil P(2) [symmetric])
      with land show ?thesis by (simp add: Nil Cons hole_min_def root_min_def)
    qed
  next
    case (Cons f fs')
    then have par: "parent n = Some (fr_id f)" "key_count n = length ks" using N by auto
    then have "remove_from_parent underflow s p c =
        (if length ks < min_keys (config s) then underflow s n else (update_node s n, Ok ()))"
      using P(1) by (simp add: remove_from_parent_def get_node_Some Let_def P(2) [symmetric])
    moreover have "lo_keys (config s) \<le> min_keys (config s)" by (simp add: lo_keys_def)
    ultimately show ?thesis using und land Cons by (auto simp: hole_min_def)
  qed
qed

text \<open>Neighbouring children in the item list of their parent.\<close>

lemma pair_items:
  assumes "length cl = length kl" "length cr = length kr"
  shows "inord (BN p (kl @ k # kr) (cl @ [a, b] @ cr)) =
    weave kl (map inord cl @ [[]]) @ inord a @ (k, None) # inord b @ weave kr ([] # map inord cr)"
    and "inord (BN p (kl @ kr) (cl @ [a] @ cr)) =
    weave kl (map inord cl @ [[]]) @ inord a @ weave kr ([] # map inord cr)"
  using assms by (simp_all add: weave_append weave_Cons)

lemma frame_items_left:
  assumes "length cl = length kl" "length cr = length kr"
  shows "items_left (Frame p (kl @ [k]) (cl @ [a]) kr cr # fs) @ inord b @ items_right (Frame p (kl @ [k]) (cl @ [a]) kr cr # fs) =
    items_left fs @ inord (BN p (kl @ k # kr) (cl @ [a, b] @ cr)) @ items_right fs"
    and "leaves_left (Frame p (kl @ [k]) (cl @ [a]) kr cr # fs) @ leaves b @ leaves_right (Frame p (kl @ [k]) (cl @ [a]) kr cr # fs) =
    leaves_left fs @ leaves (BN p (kl @ k # kr) (cl @ [a, b] @ cr)) @ leaves_right fs"
  unfolding pair_items(1) [OF assms]
  using assms weave_append [of kl "map inord cl" "[k]" "[inord a, []]"] by simp_all

lemma frame_items_right:
  assumes "length cl = length kl" "length cr = length kr"
  shows "items_left (Frame p kl cl (k # kr) (b # cr) # fs) @ inord a @ items_right (Frame p kl cl (k # kr) (b # cr) # fs) =
    items_left fs @ inord (BN p (kl @ k # kr) (cl @ [a, b] @ cr)) @ items_right fs"
    and "leaves_left (Frame p kl cl (k # kr) (b # cr) # fs) @ leaves a @ leaves_right (Frame p kl cl (k # kr) (b # cr) # fs) =
    leaves_left fs @ leaves (BN p (kl @ k # kr) (cl @ [a, b] @ cr)) @ leaves_right fs"
  unfolding pair_items(1) [OF assms]
  using assms by (simp_all add: weave_Cons)

lemma items_sorted_drop: "items_sorted (xs @ y # ys) \<Longrightarrow> items_sorted (xs @ ys)"
  by (auto simp: sorted_wrt_append)

text \<open>Moving an entry across a separator, and a child across one.\<close>

lemma items_sorted_move_right:
  assumes "items_sorted (xs @ map ent_item (es1 @ [e]) @ (k, None) # map ent_item es2 @ ys)" "es1 \<noteq> []"
  shows "items_sorted (xs @ map ent_item es1 @ (fst e, None) # map ent_item (e # es2) @ ys)"
proof -
  have "items_sorted (xs @ map ent_item (es1 @ e # es2) @ ys)"
    using items_sorted_drop [of "xs @ map ent_item (es1 @ [e])"] assms(1) by simp
  from items_sorted_separator [OF this assms(2)] show ?thesis .
qed

lemma items_sorted_move_left:
  assumes "items_sorted (xs @ map ent_item es1 @ (k, None) # map ent_item (e # e' # es2) @ ys)"
  shows "items_sorted (xs @ map ent_item (es1 @ [e]) @ (fst e', None) # map ent_item (e' # es2) @ ys)"
proof -
  have "items_sorted (xs @ map ent_item ((es1 @ [e]) @ e' # es2) @ ys)"
    using items_sorted_drop [of "xs @ map ent_item es1"] assms by simp
  from items_sorted_separator [OF this] show ?thesis by simp
qed

lemma inord_move_right:
  "length us = Suc (length ks1) \<Longrightarrow>
   inord (BN j (ks1 @ [x]) (us @ [c])) @ (k, None) # inord (BN i ks2 ts) =
   inord (BN j ks1 us) @ (x, None) # inord (BN i (k # ks2) (c # ts))"
  using inord_split [of us ks1 j x "[]" "[c]" j j] by simp

lemma inord_move_left:
  "length ts = Suc (length ks1) \<Longrightarrow>
   inord (BN i ks1 ts) @ (k, None) # inord (BN j (x # ks2) (c # us)) =
   inord (BN i (ks1 @ [k]) (ts @ [c])) @ (x, None) # inord (BN j ks2 us)"
  using inord_split [of ts ks1 i k "[]" "[c]" i i] by simp

lemma lands_restored:
  assumes "lands s t fs r" "config_ok (config s)"
    and "node_ok (hole_min (lo_keys (config s)) h fs) (lo_keys (config s)) (max_keys (config s)) h t"
    and "ctx_ok (lo_keys (config s)) (max_keys (config s)) h fs"
    and "items_sorted (items_left fs @ inord t @ items_right fs)"
    and "leafy s (leaves_left fs @ leaves t @ leaves_right fs)"
    and "ents (items_left fs @ inord t @ items_right fs) = ents xs"
  shows "restored (config s) xs r"
proof -
  obtain s' N where r: "r = (update_node s' N, Ok ())" "same_leaves s s'" "flight s' N t fs"
    using assms(1) by (auto simp: lands_def)
  have "leafy s' (leaves_left fs @ leaves t @ leaves_right fs)"
    using assms(6) r(2) chain_cong [of "leaves_left fs @ leaves t @ leaves_right fs" "nodes s'" "nodes s"]
    by (simp add: leafy_def same_leaves_def)
  moreover have "config s' = config s" using r(2) by (simp add: same_leaves_def)
  ultimately have "adrift s' N (hole_min (lo_keys (config s')) h fs) h t fs"
    using assms r(3) by (simp add: adrift_def)
  from adrift_land [OF this] show ?thesis
    using assms(7) \<open>config s' = config s\<close> by (simp add: restored_def r(1))
qed

end
