(* ===== verification/BTree_Underflow.thy ===== *)
theory BTree_Underflow
  imports BTree_Delete
begin

text \<open>
  The underflow loop: each of the four repairs of \<open>handle_underflow\<close> restores the invariant with
  the same entries, merging by induction along the path to the root, and deletion is correct.
\<close>

section \<open>One repair\<close>

fun nkeys :: "bt \<Rightarrow> nat" where
  "nkeys (BL _ es) = length es"
| "nkeys (BN _ ks _) = length ks"

lemma key_count_rep: "node_rep p t n \<Longrightarrow> key_count n = nkeys t"
  by (cases "(p, t, n)" rule: node_rep.cases) auto

lemma adriftD:
  assumes "adrift s n b h t (Frame p kl cl kr cr # fs)"
  defines "lo \<equiv> lo_keys (config s)" and "m \<equiv> max_keys (config s)"
  shows "flight s n t (Frame p kl cl kr cr # fs)" "config_ok (config s)" "node_ok b lo m h t"
    and "length cl = length kl" "length cr = length kr" "hole_min lo (Suc h) fs \<le> length kl + length kr" "length kl + length kr \<le> m"
    and "\<forall>u \<in> set cl \<union> set cr. node_ok lo lo m h u" "ctx_ok lo m (Suc h) fs"
    and "items_sorted (items_left (Frame p kl cl kr cr # fs) @ inord t @ items_right (Frame p kl cl kr cr # fs))"
    and "leafy s (leaves_left (Frame p kl cl kr cr # fs) @ leaves t @ leaves_right (Frame p kl cl kr cr # fs))"
  using assms by (simp_all add: adrift_def)

lemma borrow_left_restored:
  assumes ad: "adrift s n b h t (Frame p (kl @ [k]) (cl @ [L]) kr cr # fs)" and b: "lo_keys (config s) \<le> Suc b"
    and L: "min_keys (config s) < nkeys L" and t: "nkeys t < min_keys (config s)"
  shows "restored (config s)
    (items_left (Frame p (kl @ [k]) (cl @ [L]) kr cr # fs) @ inord t @ items_right (Frame p (kl @ [k]) (cl @ [L]) kr cr # fs))
    (borrow_from_left s n (tid L))"
proof -
  let ?lo = "lo_keys (config s)" and ?m = "max_keys (config s)"
  note D = adriftD [OF ad]
  have len: "length cl = length kl" "length cr = length kr" using D(4,5) by auto
  have ok: "node_ok ?lo ?lo ?m h L" "\<forall>u \<in> set cl \<union> set cr. node_ok ?lo ?lo ?m h u" using D(8) by auto
  have num: "?lo \<le> min_keys (config s)" "1 \<le> min_keys (config s)" "min_keys (config s) < ?m"
    using D(2) by (auto simp: lo_keys_def config_ok_def)
  note items = frame_items_left [OF len, of p k L fs t]
  have sorted: "items_sorted (items_left fs @ inord (BN p (kl @ k # kr) (cl @ [L, t] @ cr)) @ items_right fs)"
    using D(10) unfolding items .
  have leafy: "leafy s (leaves_left fs @ leaves (BN p (kl @ k # kr) (cl @ [L, t] @ cr)) @ leaves_right fs)"
    using D(11) unfolding items .
  have top: "node_ok (hole_min ?lo (Suc h) fs) ?lo ?m (Suc h) (BN p (kl @ x # kr) (cl @ [a, c] @ cr))"
    if "node_ok ?lo ?lo ?m h a" "node_ok ?lo ?lo ?m h c" for x a c
    using that D(6,7) len ok(2) by auto
  from D(3) show ?thesis
  proof (cases rule: node_ok_cases)
    case (leaf i es)
    obtain j esL0 where L0: "L = BL j esL0" using ok(1) leaf by (auto elim: node_ok_cases)
    then obtain esL e where esL: "esL0 = esL @ [e]" using L by (cases esL0 rule: rev_cases) auto
    note L' = L0 [unfolded esL]
    obtain l where n: "n = Leaf l" using D(1) leaf by (auto simp: flight_def node_rep_BL)
    let ?T = "BN p (kl @ fst e # kr) (cl @ [BL j esL, BL i (e # es)] @ cr)"
    have lands: "lands s ?T fs (borrow_from_left s n (tid L))"
      using borrow_left_leaf [of s l i es p kl k cl j esL e kr cr fs] D(1) len(1) by (simp add: n leaf L')
    have len': "esL \<noteq> []" "?lo \<le> length esL" "length esL < ?m" using L num ok(1) by (auto simp: L' leaf)
    show ?thesis unfolding items
    proof (rule lands_restored [OF lands D(2) _ D(9)])
      show "node_ok (hole_min ?lo (Suc h) fs) ?lo ?m (Suc h) ?T"
        by (rule top) (use len' leaf b t num in auto)
      show "items_sorted (items_left fs @ inord ?T @ items_right fs)"
        using items_sorted_move_right [of "items_left fs @ weave kl (map inord cl @ [[]])" esL e k es] len'(1) sorted
        unfolding pair_items(1) [OF len] by (simp add: leaf L')
      show "ents (items_left fs @ inord ?T @ items_right fs) =
          ents (items_left fs @ inord (BN p (kl @ k # kr) (cl @ [L, t] @ cr)) @ items_right fs)"
        unfolding pair_items(1) [OF len] by (simp add: leaf L' ent_item_def)
      show "leafy s (leaves_left fs @ leaves ?T @ leaves_right fs)" using leafy by (simp add: leaf L')
    qed
  next
    case (inner h' i ks ts)
    obtain j ksL0 tsL0 where L0: "L = BN j ksL0 tsL0" "length tsL0 = Suc (length ksL0)"
      using ok(1) inner by (auto elim: node_ok_cases)
    obtain ksL x where ksL: "ksL0 = ksL @ [x]" using L L0(1) by (cases ksL0 rule: rev_cases) auto
    obtain tsL c where tsL: "tsL0 = tsL @ [c]" using L0(2) by (cases tsL0 rule: rev_cases) auto
    have lenL: "length tsL = Suc (length ksL)" using L0(2) ksL tsL by simp
    note L' = L0(1) [unfolded ksL tsL]
    obtain n' where n: "n = Internal n'" using D(1) inner by (auto simp: flight_def node_rep_BN)
    let ?T = "BN p (kl @ x # kr) (cl @ [BN j ksL tsL, BN i (k # ks) (c # ts)] @ cr)"
    have lands: "lands s ?T fs (borrow_from_left s n (tid L))"
      using borrow_left_inner [of s n' i ks ts p kl k cl j ksL x tsL c kr cr fs] D(1) len(1) by (simp add: n inner L')
    have T: "inord ?T = inord (BN p (kl @ k # kr) (cl @ [L, t] @ cr))"
      unfolding pair_items(1) [OF len] L' inner(2) using inord_move_right [OF lenL, of j x c k i ks ts] by simp
    show ?thesis unfolding items
    proof (rule lands_restored [OF lands D(2) _ D(9)])
      show "node_ok (hole_min ?lo (Suc h) fs) ?lo ?m (Suc h) ?T"
        by (rule top) (use lenL ok(1) L inner b t num in \<open>auto simp: L'\<close>)
      show "leafy s (leaves_left fs @ leaves ?T @ leaves_right fs)" using leafy by (simp add: inner L')
    qed (use sorted T in auto)
  qed
qed

lemma borrow_right_restored:
  assumes ad: "adrift s n b h t (Frame p kl cl (k # kr) (R # cr) # fs)" and b: "lo_keys (config s) \<le> Suc b"
    and R: "min_keys (config s) < nkeys R" and t: "nkeys t < min_keys (config s)"
  shows "restored (config s)
    (items_left (Frame p kl cl (k # kr) (R # cr) # fs) @ inord t @ items_right (Frame p kl cl (k # kr) (R # cr) # fs))
    (borrow_from_right s n (tid R))"
proof -
  let ?lo = "lo_keys (config s)" and ?m = "max_keys (config s)"
  note D = adriftD [OF ad]
  have len: "length cl = length kl" "length cr = length kr" using D(4,5) by auto
  have ok: "node_ok ?lo ?lo ?m h R" "\<forall>u \<in> set cl \<union> set cr. node_ok ?lo ?lo ?m h u" using D(8) by auto
  have num: "?lo \<le> min_keys (config s)" "1 \<le> min_keys (config s)" "min_keys (config s) < ?m"
    using D(2) by (auto simp: lo_keys_def config_ok_def)
  note items = frame_items_right [OF len, of p k R fs t]
  have sorted: "items_sorted (items_left fs @ inord (BN p (kl @ k # kr) (cl @ [t, R] @ cr)) @ items_right fs)"
    using D(10) unfolding items .
  have leafy: "leafy s (leaves_left fs @ leaves (BN p (kl @ k # kr) (cl @ [t, R] @ cr)) @ leaves_right fs)"
    using D(11) unfolding items .
  have top: "node_ok (hole_min ?lo (Suc h) fs) ?lo ?m (Suc h) (BN p (kl @ x # kr) (cl @ [a, c] @ cr))"
    if "node_ok ?lo ?lo ?m h a" "node_ok ?lo ?lo ?m h c" for x a c
    using that D(6,7) len ok(2) by auto
  from D(3) show ?thesis
  proof (cases rule: node_ok_cases)
    case (leaf i es)
    obtain j esR0 where R0: "R = BL j esR0" using ok(1) leaf by (auto elim: node_ok_cases)
    then obtain e e' esR where esR: "esR0 = e # e' # esR" using R num by (cases esR0; cases "tl esR0") auto
    note R' = R0 [unfolded esR]
    obtain l where n: "n = Leaf l" using D(1) leaf by (auto simp: flight_def node_rep_BL)
    let ?T = "BN p (kl @ fst e' # kr) (cl @ [BL i (es @ [e]), BL j (e' # esR)] @ cr)"
    have lands: "lands s ?T fs (borrow_from_right s n (tid R))"
      using borrow_right_leaf [of s l i es p kl cl k kr j e e' esR cr fs] D(1) len(1) by (simp add: n leaf R')
    have len': "?lo \<le> Suc (length esR)" "Suc (length esR) < ?m" using R num ok(1) by (auto simp: R' leaf)
    show ?thesis unfolding items
    proof (rule lands_restored [OF lands D(2) _ D(9)])
      show "node_ok (hole_min ?lo (Suc h) fs) ?lo ?m (Suc h) ?T"
        by (rule top) (use len' leaf b t num in auto)
      show "items_sorted (items_left fs @ inord ?T @ items_right fs)"
        using items_sorted_move_left [of "items_left fs @ weave kl (map inord cl @ [[]])" es k e e' esR] sorted
        unfolding pair_items(1) [OF len] by (simp add: leaf R')
      show "ents (items_left fs @ inord ?T @ items_right fs) =
          ents (items_left fs @ inord (BN p (kl @ k # kr) (cl @ [t, R] @ cr)) @ items_right fs)"
        unfolding pair_items(1) [OF len] by (simp add: leaf R' ent_item_def)
      show "leafy s (leaves_left fs @ leaves ?T @ leaves_right fs)" using leafy by (simp add: leaf R')
    qed
  next
    case (inner h' i ks ts)
    obtain j ksR0 tsR0 where R0: "R = BN j ksR0 tsR0" "length tsR0 = Suc (length ksR0)"
      using ok(1) inner by (auto elim: node_ok_cases)
    obtain ksR x where ksR: "ksR0 = x # ksR" using R R0(1) by (cases ksR0) auto
    obtain tsR c where tsR: "tsR0 = c # tsR" using R0(2) by (cases tsR0) auto
    note R' = R0(1) [unfolded ksR tsR]
    obtain n' where n: "n = Internal n'" using D(1) inner by (auto simp: flight_def node_rep_BN)
    let ?T = "BN p (kl @ x # kr) (cl @ [BN i (ks @ [k]) (ts @ [c]), BN j ksR tsR] @ cr)"
    have lands: "lands s ?T fs (borrow_from_right s n (tid R))"
      using borrow_right_inner [of s n' i ks ts p kl cl k kr j x ksR c tsR cr fs] D(1) len(1) by (simp add: n inner R')
    have T: "inord ?T = inord (BN p (kl @ k # kr) (cl @ [t, R] @ cr))"
      unfolding pair_items(1) [OF len] R' inner(2) using inord_move_left [OF inner(5), of i k j x ksR c tsR] by simp
    show ?thesis unfolding items
    proof (rule lands_restored [OF lands D(2) _ D(9)])
      show "node_ok (hole_min ?lo (Suc h) fs) ?lo ?m (Suc h) ?T"
        by (rule top) (use R0(2) ok(1) R inner b t num ksR tsR in \<open>auto simp: R'\<close>)
      show "leafy s (leaves_left fs @ leaves ?T @ leaves_right fs)" using leafy by (simp add: inner R')
    qed (use sorted T in auto)
  qed
qed

section \<open>Merging towards the root\<close>

text \<open>What a merge leaves behind: the parent adrift, with one key less.\<close>

lemma merges_adrift:
  assumes mg: "merges s s' p c (BN p (kl @ kr) (cl @ [w] @ cr)) fs" and cfg: "config_ok (config s)"
    and len: "length cl = length kl" "length cr = length kr"
    and num: "hole_min (lo_keys (config s)) (Suc h) fs \<le> Suc (length kl + length kr)" "length kl + length kr \<le> max_keys (config s)"
    and ok: "\<forall>u \<in> set cl \<union> set cr. node_ok (lo_keys (config s)) (lo_keys (config s)) (max_keys (config s)) h u"
      "node_ok (lo_keys (config s)) (lo_keys (config s)) (max_keys (config s)) h w"
      "ctx_ok (lo_keys (config s)) (max_keys (config s)) (Suc h) fs"
    and items: "items_sorted (items_left fs @ inord (BN p (kl @ kr) (cl @ [w] @ cr)) @ items_right fs)"
    and leafy: "leafy s' (leaves_left fs @ leaves (BN p (kl @ kr) (cl @ [w] @ cr)) @ leaves_right fs)"
  obtains P where "nodes s' p = Some P" "config s' = config s"
    "adrift s' (drop_child c P) (if fs = [] then 0 else lo_keys (config s') - 1) (Suc h) (BN p (kl @ kr) (cl @ [w] @ cr)) fs"
proof -
  obtain P where P: "nodes s' p = Some P" "flight s' (drop_child c P) (BN p (kl @ kr) (cl @ [w] @ cr)) fs" "config s' = config s"
    using mg by (auto simp: merges_def)
  have "adrift s' (drop_child c P) (if fs = [] then 0 else lo_keys (config s') - 1) (Suc h) (BN p (kl @ kr) (cl @ [w] @ cr)) fs"
    using P(2,3) cfg len num ok items leafy by (auto simp: adrift_def hole_min_def)
  with P that show thesis by blast
qed

lemma rep_ids: "rep ns p t \<Longrightarrow> x \<in> set (ids t) \<Longrightarrow> \<exists>n. ns x = Some n \<and> node_id_of n = x"
  by (induction ns p t rule: rep.induct) (auto dest: node_rep_id)

lemma rep_ctx_ids: "rep_ctx ns c fs \<Longrightarrow> x \<in> set (ctx_ids fs) \<Longrightarrow> \<exists>n. ns x = Some n \<and> node_id_of n = x"
  by (induction ns c fs rule: rep_ctx.induct) (auto dest: rep_ids)

lemma flight_ctx_node:
  assumes "flight s n t fs" "x \<in> set (ctx_ids fs)"
  shows "\<exists>n. nodes s x = Some n \<and> node_id_of n = x"
proof -
  have id: "node_id_of n = tid t" using assms(1) by (auto simp: flight_def dest: node_rep_id)
  have "rep_ctx ((nodes s)(tid t \<mapsto> n)) (tid t) fs" "owns (update_node s n) (ids t @ ctx_ids fs)"
    using assms(1) by (auto simp: flight_def struct_ok_plug id)
  moreover from this(2) have "x \<noteq> tid t" using assms(2) tid_in_ids [of t] by (auto simp: owns_def simp del: tid_in_ids)
  ultimately show ?thesis using rep_ctx_ids [OF _ assms(2)] by fastforce
qed

lemma chain_next_in: "chain ns None (xs @ i # ys) \<Longrightarrow> next_of ns i = Some x \<Longrightarrow> x \<in> set ys"
  by (cases ys) auto

lemma leafy_merge:
  assumes "leafy s (xs @ j # i # ys)" "distinct (xs @ j # i # ys)" "leftmost_leaf s' = leftmost_leaf s"
    and nx: "next_of (nodes s') = (next_of (nodes s))(j := next_of (nodes s) i, i := None)"
  shows "leafy s' (xs @ j # ys)"
proof -
  have "\<forall>x \<in> set xs \<union> set ys. next_of (nodes s') x = next_of (nodes s) x" using assms(2) by (auto simp: nx)
  then have "chain (nodes s') (Some j) xs" "chain (nodes s') None ys"
    using assms(1) chain_cong [of xs "nodes s'" "nodes s"] chain_cong [of ys "nodes s'" "nodes s"]
    by (auto simp: leafy_def)
  with assms show ?thesis using hd_append_leaf [of xs j ys "i # ys"] by (auto simp: leafy_def nx)
qed

lemma flight_leaves_distinct:
  assumes "flight s n t fs"
  shows "distinct (leaves_left fs @ leaves t @ leaves_right fs)"
proof -
  have "owns (update_node s n) (ids (plug t fs))" using assms by (simp add: flight_def struct_ok_def)
  from owns_leaves(1) [OF this] show ?thesis by (simp add: leaves_plug)
qed

text \<open>After the merge, dropping the child at the parent restores the tree, if underflows there do.\<close>

definition repairs :: "(BPlusTree \<Rightarrow> BPlusTreeNode \<Rightarrow> unit tree_result) \<Rightarrow> BPlusTreeConfig \<Rightarrow> nat \<Rightarrow> ctx \<Rightarrow> bool" where
  "repairs underflow c h fs \<longleftrightarrow>
     (\<forall>s n t. fs \<noteq> [] \<longrightarrow> config s = c \<longrightarrow> nkeys t < min_keys c \<longrightarrow> adrift s n (lo_keys c - 1) h t fs \<longrightarrow>
        restored c (items_left fs @ inord t @ items_right fs) (underflow s n))"

lemma repairsD:
  "repairs underflow c h fs \<Longrightarrow> fs \<noteq> [] \<Longrightarrow> config s = c \<Longrightarrow> nkeys t < min_keys c \<Longrightarrow>
   adrift s n (lo_keys c - 1) h t fs \<Longrightarrow> restored c (items_left fs @ inord t @ items_right fs) (underflow s n)"
  by (simp add: repairs_def)

lemma merge_finish:
  assumes mg: "merges s s' p i (BN p (kl @ kr) (cl @ [w] @ cr)) fs" and cfg: "config_ok (config s)"
    and len: "length cl = length kl" "length cr = length kr"
    and num: "hole_min (lo_keys (config s)) (Suc h) fs \<le> Suc (length kl + length kr)" "length kl + length kr \<le> max_keys (config s)"
    and ok: "\<forall>u \<in> set cl \<union> set cr. node_ok (lo_keys (config s)) (lo_keys (config s)) (max_keys (config s)) h u"
      "ctx_ok (lo_keys (config s)) (max_keys (config s)) (Suc h) fs"
    and und: "repairs underflow (config s) (Suc h) fs"
    and w: "node_ok (lo_keys (config s)) (lo_keys (config s)) (max_keys (config s)) h w"
    and it: "items_sorted (items_left fs @ inord (BN p (kl @ kr) (cl @ [w] @ cr)) @ items_right fs)"
    and lf: "leafy s' (leaves_left fs @ leaves (BN p (kl @ kr) (cl @ [w] @ cr)) @ leaves_right fs)"
    and en: "ents (items_left fs @ inord (BN p (kl @ kr) (cl @ [w] @ cr)) @ items_right fs) = ents xs"
  shows "restored (config s) xs (remove_from_parent underflow s' p i)"
proof -
  let ?T = "BN p (kl @ kr) (cl @ [w] @ cr)"
  obtain P where P: "nodes s' p = Some P" "config s' = config s"
    "adrift s' (drop_child i P) (if fs = [] then 0 else lo_keys (config s') - 1) (Suc h) ?T fs"
    using merges_adrift [OF mg cfg len num ok(1) w ok(2) it lf] by blast
  have "restored (config s') (items_left fs @ inord ?T @ items_right fs) (remove_from_parent underflow s' p i)"
  proof (rule remove_from_parent_ok [OF P(1) refl P(3)])
    assume "fs \<noteq> []" "length (kl @ kr) < min_keys (config s')"
    with P(2,3) show "restored (config s') (items_left fs @ inord ?T @ items_right fs) (underflow s' (drop_child i P))"
      by (intro repairsD [of underflow "config s'" "Suc h"]) (use und in auto)
  qed
  with en P(2) show ?thesis by (simp add: restored_def)
qed

lemma merge_left_restored:
  assumes ad: "adrift s n b h t (Frame p (kl @ [k]) (cl @ [L]) kr cr # fs)"
    and L: "nkeys L \<le> min_keys (config s)" and t: "nkeys t < min_keys (config s)"
    and und: "repairs underflow (config s) (Suc h) fs"
  shows "restored (config s)
    (items_left (Frame p (kl @ [k]) (cl @ [L]) kr cr # fs) @ inord t @ items_right (Frame p (kl @ [k]) (cl @ [L]) kr cr # fs))
    (merge_with_left (remove_from_parent underflow) s n (tid L))"
proof -
  let ?lo = "lo_keys (config s)" and ?m = "max_keys (config s)" and ?f = "Frame p (kl @ [k]) (cl @ [L]) kr cr"
  note D = adriftD [OF ad]
  have len: "length cl = length kl" "length cr = length kr" using D(4,5) by auto
  have ok: "node_ok ?lo ?lo ?m h L" "\<forall>u \<in> set cl \<union> set cr. node_ok ?lo ?lo ?m h u" using D(8) by auto
  have num: "hole_min ?lo (Suc h) fs \<le> Suc (length kl + length kr)" "length kl + length kr \<le> ?m" using D(6,7) by auto
  have cap: "2 * min_keys (config s) \<le> ?m" using D(2) by (auto simp: config_ok_def)
  note items = frame_items_left [OF len, of p k L fs t]
  have sorted: "items_sorted (items_left fs @ inord (BN p (kl @ k # kr) (cl @ [L, t] @ cr)) @ items_right fs)"
    using D(10) unfolding items .
  have leafy: "leafy s (leaves_left fs @ leaves (BN p (kl @ k # kr) (cl @ [L, t] @ cr)) @ leaves_right fs)"
    using D(11) unfolding items .
  note finish = merge_finish [OF _ D(2) len num ok(2) D(9) und]
  from D(3) show ?thesis
  proof (cases rule: node_ok_cases)
    case (leaf i es)
    obtain j esL where L': "L = BL j esL" using ok(1) leaf by (auto elim: node_ok_cases)
    obtain l where n: "n = Leaf l" using D(1) leaf by (auto simp: flight_def node_rep_BL)
    let ?xs = "leaves_left fs @ concat (map leaves cl)" and ?ys = "concat (map leaves cr) @ leaves_right fs"
    have ch: "leafy s (?xs @ j # i # ?ys)" "distinct (?xs @ j # i # ?ys)"
      using leafy flight_leaves_distinct [OF D(1)] by (simp_all add: leaf L')
    have nx: "\<exists>n. nodes s x = Some n \<and> node_id_of n = x" if "next_of (nodes s) i = Some x" for x
    proof (rule flight_ctx_node [OF D(1)])
      have "x \<in> set ?ys" using ch(1) chain_next_in [of "nodes s" "?xs @ [j]" i ?ys x] that by (simp add: leafy_def)
      then show "x \<in> set (ctx_ids (?f # fs))" using leaves_ctx_subset [of "?f # fs"] by auto
    qed
    obtain s' where s': "merge_with_left (remove_from_parent underflow) s n (tid L) = remove_from_parent underflow s' p i"
      "merges s s' p i (BN p (kl @ kr) (cl @ [BL j (esL @ es)] @ cr)) fs"
      "next_of (nodes s') = (next_of (nodes s))(j := next_of (nodes s) i, i := None)"
      using merge_left_leaf [of s l i es p kl k cl j esL kr cr fs "remove_from_parent underflow"] D(1) len(1) nx
      by (auto simp: n leaf L')
    show ?thesis unfolding items s'(1)
    proof (rule finish [OF s'(2)])
      show "node_ok ?lo ?lo ?m h (BL j (esL @ es))" using ok(1) L t cap by (auto simp: leaf L')
      show "items_sorted (items_left fs @ inord (BN p (kl @ kr) (cl @ [BL j (esL @ es)] @ cr)) @ items_right fs)"
        using sorted items_sorted_drop [of "items_left fs @ weave kl (map inord cl @ [[]]) @ map ent_item esL" "(k, None)"]
        unfolding pair_items [OF len] by (simp add: leaf L')
      show "leafy s' (leaves_left fs @ leaves (BN p (kl @ kr) (cl @ [BL j (esL @ es)] @ cr)) @ leaves_right fs)"
        using leafy_merge [OF ch _ s'(3)] s'(2) by (simp add: merges_def)
      show "ents (items_left fs @ inord (BN p (kl @ kr) (cl @ [BL j (esL @ es)] @ cr)) @ items_right fs) =
          ents (items_left fs @ inord (BN p (kl @ k # kr) (cl @ [L, t] @ cr)) @ items_right fs)"
        unfolding pair_items [OF len] by (simp add: leaf L')
    qed
  next
    case (inner h' i ks ts)
    obtain j ksL tsL where L': "L = BN j ksL tsL" "length tsL = Suc (length ksL)"
      using ok(1) inner by (auto elim: node_ok_cases)
    obtain n' where n: "n = Internal n'" using D(1) inner by (auto simp: flight_def node_rep_BN)
    let ?w = "BN j (ksL @ k # ks) (tsL @ ts)"
    obtain s' where s': "merge_with_left (remove_from_parent underflow) s n (tid L) = remove_from_parent underflow s' p i"
      "merges s s' p i (BN p (kl @ kr) (cl @ [?w] @ cr)) fs" "next_of (nodes s') = next_of (nodes s)"
      using merge_left_inner [of s n' i ks ts p kl k cl j ksL tsL kr cr fs "remove_from_parent underflow"] D(1) len(1)
      by (auto simp: n inner L')
    have T: "inord (BN p (kl @ kr) (cl @ [?w] @ cr)) = inord (BN p (kl @ k # kr) (cl @ [L, t] @ cr))"
      unfolding pair_items [OF len] L' inner(2) inord_split [OF L'(2), of j k ks ts j i] by simp
    show ?thesis unfolding items s'(1)
    proof (rule finish [OF s'(2)])
      show "node_ok ?lo ?lo ?m h ?w" using ok(1) L t cap inner L' by auto
      show "leafy s' (leaves_left fs @ leaves (BN p (kl @ kr) (cl @ [?w] @ cr)) @ leaves_right fs)"
        using leafy s'(2,3) chain_cong [of _ "nodes s'" "nodes s"] by (simp add: inner L' leafy_def merges_def)
    qed (use sorted T in auto)
  qed
qed

lemma merge_right_restored:
  assumes ad: "adrift s n b h t (Frame p kl cl (k # kr) (R # cr) # fs)"
    and R: "nkeys R \<le> min_keys (config s)" and t: "nkeys t < min_keys (config s)"
    and und: "repairs underflow (config s) (Suc h) fs"
  shows "restored (config s)
    (items_left (Frame p kl cl (k # kr) (R # cr) # fs) @ inord t @ items_right (Frame p kl cl (k # kr) (R # cr) # fs))
    (merge_with_right (remove_from_parent underflow) s n (tid R))"
proof -
  let ?lo = "lo_keys (config s)" and ?m = "max_keys (config s)" and ?f = "Frame p kl cl (k # kr) (R # cr)"
  note D = adriftD [OF ad]
  have len: "length cl = length kl" "length cr = length kr" using D(4,5) by auto
  have ok: "node_ok ?lo ?lo ?m h R" "\<forall>u \<in> set cl \<union> set cr. node_ok ?lo ?lo ?m h u" using D(8) by auto
  have num: "hole_min ?lo (Suc h) fs \<le> Suc (length kl + length kr)" "length kl + length kr \<le> ?m" using D(6,7) by auto
  have cap: "2 * min_keys (config s) \<le> ?m" using D(2) by (auto simp: config_ok_def)
  note items = frame_items_right [OF len, of p k R fs t]
  have sorted: "items_sorted (items_left fs @ inord (BN p (kl @ k # kr) (cl @ [t, R] @ cr)) @ items_right fs)"
    using D(10) unfolding items .
  have leafy: "leafy s (leaves_left fs @ leaves (BN p (kl @ k # kr) (cl @ [t, R] @ cr)) @ leaves_right fs)"
    using D(11) unfolding items .
  note finish = merge_finish [OF _ D(2) len num ok(2) D(9) und]
  from D(3) show ?thesis
  proof (cases rule: node_ok_cases)
    case (leaf i es)
    obtain j esR where R': "R = BL j esR" using ok(1) leaf by (auto elim: node_ok_cases)
    obtain l where n: "n = Leaf l" using D(1) leaf by (auto simp: flight_def node_rep_BL)
    let ?xs = "leaves_left fs @ concat (map leaves cl)" and ?ys = "concat (map leaves cr) @ leaves_right fs"
    have ch: "leafy s (?xs @ i # j # ?ys)" "distinct (?xs @ i # j # ?ys)"
      using leafy flight_leaves_distinct [OF D(1)] by (simp_all add: leaf R')
    have nx: "\<exists>n. nodes s x = Some n \<and> node_id_of n = x" if "next_of (nodes s) j = Some x" for x
    proof (rule flight_ctx_node [OF D(1)])
      have "x \<in> set ?ys" using ch(1) chain_next_in [of "nodes s" "?xs @ [i]" j ?ys x] that by (simp add: leafy_def)
      then show "x \<in> set (ctx_ids (?f # fs))" using leaves_ctx_subset [of "?f # fs"] by auto
    qed
    let ?w = "BL i (es @ esR)"
    obtain s' where s': "merge_with_right (remove_from_parent underflow) s n (tid R) = remove_from_parent underflow s' p j"
      "merges s s' p j (BN p (kl @ kr) (cl @ [?w] @ cr)) fs"
      "next_of (nodes s') = (next_of (nodes s))(i := next_of (nodes s) j, j := None)"
      using merge_right_leaf [of s l i es p kl cl k kr j esR cr fs "remove_from_parent underflow"] D(1) len(1) nx
      by (auto simp: n leaf R')
    show ?thesis unfolding items s'(1)
    proof (rule finish [OF s'(2)])
      show "node_ok ?lo ?lo ?m h ?w" using ok(1) R t cap by (auto simp: leaf R')
      show "items_sorted (items_left fs @ inord (BN p (kl @ kr) (cl @ [?w] @ cr)) @ items_right fs)"
        using sorted items_sorted_drop [of "items_left fs @ weave kl (map inord cl @ [[]]) @ map ent_item es" "(k, None)"]
        unfolding pair_items [OF len] by (simp add: leaf R')
      show "leafy s' (leaves_left fs @ leaves (BN p (kl @ kr) (cl @ [?w] @ cr)) @ leaves_right fs)"
        using leafy_merge [OF ch _ s'(3)] s'(2) by (simp add: merges_def)
      show "ents (items_left fs @ inord (BN p (kl @ kr) (cl @ [?w] @ cr)) @ items_right fs) =
          ents (items_left fs @ inord (BN p (kl @ k # kr) (cl @ [t, R] @ cr)) @ items_right fs)"
        unfolding pair_items [OF len] by (simp add: leaf R')
    qed
  next
    case (inner h' i ks ts)
    obtain j ksR tsR where R': "R = BN j ksR tsR" "length tsR = Suc (length ksR)"
      using ok(1) inner by (auto elim: node_ok_cases)
    obtain n' where n: "n = Internal n'" using D(1) inner by (auto simp: flight_def node_rep_BN)
    let ?w = "BN i (ks @ k # ksR) (ts @ tsR)"
    obtain s' where s': "merge_with_right (remove_from_parent underflow) s n (tid R) = remove_from_parent underflow s' p j"
      "merges s s' p j (BN p (kl @ kr) (cl @ [?w] @ cr)) fs" "next_of (nodes s') = next_of (nodes s)"
      using merge_right_inner [of s n' i ks ts p kl cl k kr j ksR tsR cr fs "remove_from_parent underflow"] D(1) len(1)
      by (auto simp: n inner R')
    have T: "inord (BN p (kl @ kr) (cl @ [?w] @ cr)) = inord (BN p (kl @ k # kr) (cl @ [t, R] @ cr))"
      unfolding pair_items [OF len] R' inner(2) inord_split [OF inner(5), of i k ksR tsR i j] by simp
    show ?thesis unfolding items s'(1)
    proof (rule finish [OF s'(2)])
      show "node_ok ?lo ?lo ?m h ?w" using ok(1) R t cap inner R' by auto
      show "leafy s' (leaves_left fs @ leaves (BN p (kl @ kr) (cl @ [?w] @ cr)) @ leaves_right fs)"
        using leafy s'(2,3) chain_cong [of _ "nodes s'" "nodes s"] by (simp add: inner R' leafy_def merges_def)
    qed (use sorted T in auto)
  qed
qed

section \<open>The loop\<close>

lemma handle_underflow_eval:
  assumes fl: "flight s n t (Frame p kl cl kr cr # fs)"
  shows "handle_underflow (Suc fuel) s n =
    (if cl \<noteq> [] \<and> min_keys (config s) < nkeys (last cl) then borrow_from_left s n (tid (last cl))
     else if cr \<noteq> [] \<and> min_keys (config s) < nkeys (hd cr) then borrow_from_right s n (tid (hd cr))
     else if cl \<noteq> [] then merge_with_left (remove_from_parent (handle_underflow fuel)) s n (tid (last cl))
     else if cr \<noteq> [] then merge_with_right (remove_from_parent (handle_underflow fuel)) s n (tid (hd cr))
     else (update_node s n, Ok ()))"
proof -
  note ff = flight_frame [OF fl]
  obtain P where P: "nodes s p = Some (Internal P)" "in_children P = map tid cl @ tid t # map tid cr"
    using ff(1) by auto
  have n: "parent n = Some p" "node_id_of n = tid t" using ff(6) node_rep_parent node_rep_id by blast+
  have pos: "position (tid t) (in_children P) = Some (length cl)" using position_child [OF ff(4)] by (simp add: P(2))
  have left: "get_left_sibling n (Internal P) = (if cl = [] then None else Some (tid (last cl)))"
    using pos n(2) by (cases cl rule: rev_cases) (auto simp: P(2) nth_append)
  have right: "get_right_sibling n (Internal P) = (if cr = [] then None else Some (tid (hd cr)))"
    using pos n(2) by (cases cr) (auto simp: P(2) nth_append)
  have sib: "\<exists>m. get_node s (tid u) = Ok m \<and> key_count m = nkeys u" if "u \<in> set cl \<union> set cr" for u
    using ff(2) that rep_top [of "nodes s" "Some p" u] by (force simp: get_node_Some dest: key_count_rep)
  have "\<exists>m. cl \<noteq> [] \<longrightarrow> get_node s (tid (last cl)) = Ok m \<and> key_count m = nkeys (last cl)"
    "\<exists>m. cr \<noteq> [] \<longrightarrow> get_node s (tid (hd cr)) = Ok m \<and> key_count m = nkeys (hd cr)"
    using sib [of "last cl"] sib [of "hd cr"] by (cases "cl = []"; cases "cr = []"; simp)+
  then obtain ml mr where "cl \<noteq> [] \<longrightarrow> get_node s (tid (last cl)) = Ok ml \<and> key_count ml = nkeys (last cl)"
    "cr \<noteq> [] \<longrightarrow> get_node s (tid (hd cr)) = Ok mr \<and> key_count mr = nkeys (hd cr)" by metis
  then show ?thesis
    using n(1) P(1) by (simp add: get_node_Some left right Let_def del: get_left_sibling.simps get_right_sibling.simps)
qed

lemma handle_underflow_ok:
  assumes "adrift s n (lo_keys (config s) - 1) h t fs" "fs \<noteq> []" "nkeys t < min_keys (config s)" "length fs \<le> fuel"
  shows "restored (config s) (items_left fs @ inord t @ items_right fs) (handle_underflow fuel s n)"
  using assms
proof (induction fuel arbitrary: s n h t fs)
  case (Suc fuel)
  let ?c = "config s"
  obtain p kl cl kr cr fs' where fs: "fs = Frame p kl cl kr cr # fs'"
    using Suc.prems(2) by (cases fs; cases "hd fs") auto
  note ad = Suc.prems(1) [unfolded fs] and D = adriftD [OF Suc.prems(1) [unfolded fs]]
  have und: "repairs (handle_underflow fuel) ?c (Suc h) fs'"
    unfolding repairs_def
  proof (intro allI impI)
    fix s1 n1 t1
    assume a: "fs' \<noteq> []" "config s1 = ?c" "nkeys t1 < min_keys ?c" "adrift s1 n1 (lo_keys ?c - 1) (Suc h) t1 fs'"
    then show "restored ?c (items_left fs' @ inord t1 @ items_right fs') (handle_underflow fuel s1 n1)"
      using Suc.IH [of s1 n1 "Suc h" t1 fs'] Suc.prems(4) fs by simp
  qed
  have b: "lo_keys ?c \<le> Suc (lo_keys ?c - 1)" by simp
  have some: "cl \<noteq> [] \<or> cr \<noteq> []"
  proof -
    have "1 \<le> hole_min (lo_keys ?c) (Suc h) fs'" using lo_keys_pos [OF D(2)] by (simp add: hole_min_def root_min_def)
    with D(4-6) show ?thesis by auto
  qed
  note eval = handle_underflow_eval [OF D(1), of fuel]
  have left: "\<exists>k kl' L cl'. kl = kl' @ [k] \<and> cl = cl' @ [L]" if "cl \<noteq> []"
    using D(4) that by (metis length_0_conv rev_exhaust)
  have right: "\<exists>k kr' R cr'. kr = k # kr' \<and> cr = R # cr'" if "cr \<noteq> []"
    using D(5) that by (metis length_0_conv neq_Nil_conv)
  consider (bl) "cl \<noteq> []" "min_keys ?c < nkeys (last cl)"
    | (br) "\<not> (cl \<noteq> [] \<and> min_keys ?c < nkeys (last cl))" "cr \<noteq> []" "min_keys ?c < nkeys (hd cr)"
    | (ml) "cl \<noteq> []" "\<not> min_keys ?c < nkeys (last cl)" "\<not> (cr \<noteq> [] \<and> min_keys ?c < nkeys (hd cr))"
    | (mr) "cl = []" "cr \<noteq> []" "\<not> min_keys ?c < nkeys (hd cr)"
    using some by blast
  then show ?case
  proof cases
    case bl
    with left obtain k kl' L cl' where e: "kl = kl' @ [k]" "cl = cl' @ [L]" by blast
    with bl show ?thesis
      using borrow_left_restored [of s n _ h t p kl' k cl' L kr cr fs', OF _ b] ad Suc.prems(3)
      unfolding fs eval by (simp del: items_left.simps items_right.simps)
  next
    case br
    with right obtain k kr' R cr' where e: "kr = k # kr'" "cr = R # cr'" by blast
    from br have eval': "handle_underflow (Suc fuel) s n = borrow_from_right s n (tid (hd cr))" unfolding eval by auto
    from br show ?thesis
      using borrow_right_restored [of s n _ h t p kl cl k kr' R cr' fs', OF _ b] ad Suc.prems(3)
      unfolding fs eval' e by (simp del: items_left.simps items_right.simps)
  next
    case ml
    with left obtain k kl' L cl' where e: "kl = kl' @ [k]" "cl = cl' @ [L]" by blast
    from ml have eval': "handle_underflow (Suc fuel) s n = merge_with_left (remove_from_parent (handle_underflow fuel)) s n (tid (last cl))"
      unfolding eval by auto
    from ml show ?thesis
      using merge_left_restored [of s n _ h t p kl' k cl' L kr cr fs', OF _ _ _ und] ad Suc.prems(3)
      unfolding fs eval' e by (simp del: items_left.simps items_right.simps)
  next
    case mr
    with right obtain k kr' R cr' where e: "kr = k # kr'" "cr = R # cr'" by blast
    from mr have eval': "handle_underflow (Suc fuel) s n = merge_with_right (remove_from_parent (handle_underflow fuel)) s n (tid (hd cr))"
      unfolding eval by auto
    from mr show ?thesis
      using merge_right_restored [of s n _ h t p kl cl k kr' R cr' fs', OF _ _ _ und] ad Suc.prems(3)
      unfolding fs eval' e by (simp del: items_left.simps items_right.simps)
  qed
qed simp

section \<open>Deletion\<close>

lemma items_sorted_delete:
  assumes "items_sorted (xs @ map ent_item es @ ys)"
  shows "items_sorted (xs @ map ent_item (al_del k es) @ ys)"
proof -
  have "set (al_del k es) \<subseteq> set es" by (auto simp: al_del_def)
  with assms show ?thesis
    by (auto simp: sorted_wrt_append items_sorted_leaf ksorted_al_del)
qed

lemma length_al_del: "ksorted es \<Longrightarrow> length es \<le> Suc (length (al_del k es))"
proof (induction es)
  case (Cons e es)
  then have "fst e = k \<Longrightarrow> al_del k es = es" by (intro al_del_absent) auto
  with Cons show ?case by (auto simp: al_del_def)
qed (simp add: al_del_def)

lemma BPlusTree_delete_refines:
  assumes "tree_inv s h t"
  shows "\<exists>s' h' t'. BPlusTree_delete s k = (s', Ok (k \<in> fst ` set (ents (inord t)))) \<and> tree_inv s' h' t' \<and>
    ents (inord t') = al_del k (ents (inord t)) \<and> config s' = config s"
proof -
  let ?lo = "lo_keys (config s)" and ?m = "max_keys (config s)"
  obtain i es fs where p: "find_leaf s (root_id s) k = Ok i" "t = plug (BL i es) fs" "located k fs"
    "node_ok (hole_min ?lo 0 fs) ?lo ?m 0 (BL i es)" "ctx_ok ?lo ?m 0 fs"
    using find_leaf_path [OF assms] by metis
  have inv: "struct_ok s (plug (BL i es) fs)" "items_sorted (inord (plug (BL i es) fs))" "config_ok (config s)"
    "leafy s (leaves_left fs @ leaves (BL i es) @ leaves_right fs)"
    using assms p(2) by (auto simp: tree_inv_def heap_ok_def leaves_plug leafy_def)
  obtain l where l: "nodes s i = Some (Leaf l)" "lf_id l = i" "lf_entries l = es" "lf_parent l = hole_parent fs"
    using inv(1) by (auto simp: struct_ok_plug node_rep_BL)
  let ?es = "al_del k es" and ?l = "l\<lparr>lf_entries := al_del k es\<rparr>"
  have es: "ksorted es" using leaf_sorted [OF inv(2) p(5)] .
  have ents: "ents (inord t) = ents (items_left fs) @ es @ ents (items_right fs)"
    using p(2) by (simp add: inord_plug [OF p(5)])
  have outside: "k \<notin> fst ` set (ents (items_left fs))" "k \<notin> fst ` set (ents (items_right fs))"
    using located_ents [OF p(3)] by auto
  then have del: "al_del k (ents (inord t)) = ents (items_left fs @ map ent_item ?es @ items_right fs)"
    by (simp add: ents al_del_absent)
  have call: "BPlusTree_delete s k =
      (if map_of es k = None then (s, Ok False)
       else if length ?es < min_keys (config s) \<and> fs \<noteq> []
       then and_then (handle_underflow (next_node_id s + 1) s (Leaf ?l)) (\<lambda>s' _. (s', Ok True))
       else (update_node s (Leaf ?l), Ok True))"
    using p(1) l es by (cases fs) (auto simp: BPlusTree_delete_def get_node_Some leaf_simps split: option.split)
  show ?thesis
  proof (cases "map_of es k")
    case None
    with outside have absent: "k \<notin> fst ` set (ents (inord t))" by (auto simp: ents map_of_eq_None_iff)
    with None assms show ?thesis unfolding call by (auto simp: al_del_absent)
  next
    case (Some v)
    then have present: "k \<in> fst ` set (ents (inord t))" by (force simp: ents dest: map_of_SomeD)
    have ad: "adrift s (Leaf ?l) b 0 (BL i ?es) fs" if "b \<le> length ?es" for b
      unfolding adrift_def using that inv(3,4) p(4,5) flight_leaf_update [OF inv(1) l(1,2,4), of ?es]
        items_sorted_delete [of "items_left fs" es "items_right fs" k] inv(2) inord_plug [OF p(5)]
      by (auto simp: al_del_def intro: le_less_trans [OF length_filter_le])
    have "restored (config s) (items_left fs @ map ent_item ?es @ items_right fs)
       (if length ?es < min_keys (config s) \<and> fs \<noteq> [] then handle_underflow (next_node_id s + 1) s (Leaf ?l)
        else (update_node s (Leaf ?l), Ok ()))"
    proof (cases "length ?es < min_keys (config s) \<and> fs \<noteq> []")
      case True
      have "?lo \<le> length es" using p(4) True by (simp add: hole_min_def)
      then have "?lo - 1 \<le> length ?es" using length_al_del [OF es, of k] by simp
      moreover have "length fs \<le> next_node_id s + 1"
        using owns_length [of s "ids (plug (BL i es) fs)"] length_ctx_ids [of fs] inv(1)
        by (simp add: struct_ok_def mset_ids_plug flip: size_mset)
      ultimately show ?thesis
        using handle_underflow_ok [OF ad, of "next_node_id s + 1"] True by (simp del: handle_underflow.simps)
    next
      case False
      have "hole_min ?lo 0 fs \<le> length ?es"
        using False by (auto simp: hole_min_def root_min_def lo_keys_def)
      from adrift_land [OF ad [OF this]] show ?thesis unfolding if_not_P [OF False] by simp
    qed
    then obtain s' h' t' where r: "(if length ?es < min_keys (config s) \<and> fs \<noteq> []
         then handle_underflow (next_node_id s + 1) s (Leaf ?l) else (update_node s (Leaf ?l), Ok ())) = (s', Ok ())"
      "tree_inv s' h' t'" "ents (inord t') = ents (items_left fs @ map ent_item ?es @ items_right fs)" "config s' = config s"
      unfolding restored_def by blast
    have "BPlusTree_delete s k = (s', Ok (k \<in> fst ` set (ents (inord t))))"
      unfolding call using r(1) Some present by (auto simp del: handle_underflow.simps split: if_splits)
    with r(2-4) show ?thesis unfolding del by blast
  qed
qed

theorem BPlusTree_delete_correct:
  assumes "btree_inv s"
  shows "\<exists>s'. BPlusTree_delete s k = (s', Ok (k \<in> fst ` set (tree_entries s))) \<and> btree_inv s' \<and>
    tree_entries s' = al_del k (tree_entries s) \<and> config s' = config s"
proof -
  obtain h t where t: "tree_inv s h t" using assms by (auto simp: btree_inv_def)
  obtain s' h' t' where "BPlusTree_delete s k = (s', Ok (k \<in> fst ` set (ents (inord t))))" "tree_inv s' h' t'"
    "ents (inord t') = al_del k (ents (inord t))" "config s' = config s"
    using BPlusTree_delete_refines [OF t] by metis
  with t show ?thesis by (auto simp: tree_entries_eq btree_inv_def)
qed

end
