(* ===== verification/Core_Shard.thy ===== *)
theory Core_Shard
  imports NG_Prelude "HOL-Library.Signed_Division"
begin

unbundle bit_operations_syntax

text \<open>
  Shard identifiers, key ranges and the placement of keys on shards,
  \<open>nanograph-core/src/object/shard.rs\<close>: a shard identifier packs tenant, database, object and shard
  number into 128 bits; a key range has two bounds, a limit and a direction; a partitioner maps a
  key to a shard number.
\<close>

section \<open>Shard identifiers\<close>

type_synonym ShardNumber = u32
type_synonym ShardId = u128

definition ShardId_from_parts :: "u32 \<Rightarrow> u32 \<Rightarrow> u32 \<Rightarrow> ShardNumber \<Rightarrow> ShardId" where
  "ShardId_from_parts tenant database object_id shard_number =
     push_bit 96 (ucast tenant) OR push_bit 64 (ucast database) OR
     push_bit 32 (ucast object_id) OR push_bit 0 (ucast shard_number)"

definition shard_tenant :: "ShardId \<Rightarrow> u32" where
  "shard_tenant s = ucast (drop_bit 96 s)"

definition shard_database :: "ShardId \<Rightarrow> u32" where
  "shard_database s = ucast (drop_bit 64 s)"

definition shard_object :: "ShardId \<Rightarrow> u32" where
  "shard_object s = ucast (drop_bit 32 s)"

definition shard_number :: "ShardId \<Rightarrow> ShardNumber" where
  "shard_number s = ucast s"

section \<open>Key ranges\<close>

datatype 'a bound = Unbounded | Included 'a | Excluded 'a

record KeyRange =
  range_start :: "bytes bound"
  range_end :: "bytes bound"
  range_limit :: "nat option"
  range_reverse :: bool

definition KeyRange_all :: KeyRange where
  "KeyRange_all = \<lparr>range_start = Unbounded, range_end = Unbounded, range_limit = None, range_reverse = False\<rparr>"

definition KeyRange_new :: "bytes bound \<Rightarrow> bytes bound \<Rightarrow> KeyRange" where
  "KeyRange_new sb eb = \<lparr>range_start = sb, range_end = eb, range_limit = None, range_reverse = False\<rparr>"

definition KeyRange_from_to :: "bytes \<Rightarrow> bytes \<Rightarrow> KeyRange" where
  "KeyRange_from_to s e =
     \<lparr>range_start = Included s, range_end = Excluded e, range_limit = None, range_reverse = False\<rparr>"

definition prefix_end :: "bytes \<Rightarrow> bytes" where
  "prefix_end p =
     (if p = [] then []
      else if last p < 255 then butlast p @ [last p + 1]
      else p @ [0])"

definition KeyRange_prefix :: "bytes \<Rightarrow> KeyRange" where
  "KeyRange_prefix p =
     \<lparr>range_start = Included p, range_end = Excluded (prefix_end p), range_limit = None, range_reverse = False\<rparr>"

definition with_limit :: "nat \<Rightarrow> KeyRange \<Rightarrow> KeyRange" where
  "with_limit n r = r\<lparr>range_limit := Some n\<rparr>"

definition reversed :: "KeyRange \<Rightarrow> KeyRange" where
  "reversed r = r\<lparr>range_reverse := True\<rparr>"

fun within_start :: "bytes bound \<Rightarrow> bytes \<Rightarrow> bool" where
  "within_start Unbounded k \<longleftrightarrow> True"
| "within_start (Included s) k \<longleftrightarrow> s \<le> k"
| "within_start (Excluded s) k \<longleftrightarrow> s < k"

fun within_end :: "bytes bound \<Rightarrow> bytes \<Rightarrow> bool" where
  "within_end Unbounded k \<longleftrightarrow> True"
| "within_end (Included e) k \<longleftrightarrow> k \<le> e"
| "within_end (Excluded e) k \<longleftrightarrow> k < e"

definition in_range :: "KeyRange \<Rightarrow> bytes \<Rightarrow> bool" where
  "in_range r k \<longleftrightarrow> within_start (range_start r) k \<and> within_end (range_end r) k"

text \<open>What a scan of a range is to return, from the sorted entries of a shard.\<close>

definition range_entries :: "KeyRange \<Rightarrow> entry_list \<Rightarrow> entry_list" where
  "range_entries r es =
     (let hits = filter (\<lambda>e. in_range r (fst e)) es;
          ordered = (if range_reverse r then rev hits else hits)
      in case range_limit r of None \<Rightarrow> ordered | Some n \<Rightarrow> take n ordered)"

section \<open>Partitioning\<close>

datatype HashFunction = Murmur3 | XXHash | CityHash

definition fnv1a :: "bytes \<Rightarrow> u64" where
  "fnv1a key = foldl (\<lambda>h b. (h XOR ucast b) * 0x100000001b3) 0xcbf29ce484222325 key"

fun hash_key :: "HashFunction \<Rightarrow> bytes \<Rightarrow> u64" where
  "hash_key Murmur3 key = fnv1a key"
| "hash_key XXHash key = fnv1a key"
| "hash_key CityHash key = fnv1a key"

datatype Partitioner =
    PHash HashFunction
  | PRange "(bytes \<times> bytes) list"
  | PList "bytes list list"
  | PTime u64

primrec first_index :: "('a \<Rightarrow> bool) \<Rightarrow> nat \<Rightarrow> 'a list \<Rightarrow> nat option" where
  "first_index P i [] = None"
| "first_index P i (x # xs) = (if P x then Some i else first_index P (i + 1) xs)"

text \<open>
  The time partitioner reads the first eight bytes as a signed timestamp. Division by a zero
  interval or shard count panics, as does the one signed division that overflows.
\<close>

definition i64_be :: "bytes \<Rightarrow> int" where
  "i64_be key = signed (word_of_nat (be_value (take 8 key)) :: u64)"

fun get_shard_number :: "Partitioner \<Rightarrow> bytes \<Rightarrow> u32 \<Rightarrow> (unit, ShardNumber) res" where
  "get_shard_number (PHash f) key n =
     (if n = 0 then Inl Panicked else Ok (ucast (hash_key f key mod ucast n)))"
| "get_shard_number (PRange ranges) key n =
     (case first_index (\<lambda>(s, e). s \<le> key \<and> key < e) 0 ranges of
        Some i \<Rightarrow> Ok (word_of_nat i) | None \<Rightarrow> Ok 0)"
| "get_shard_number (PList key_lists) key n =
     (case first_index (\<lambda>ks. key \<in> set ks) 0 key_lists of
        Some i \<Rightarrow> Ok (word_of_nat i) | None \<Rightarrow> Ok 0)"
| "get_shard_number (PTime interval) key n =
     (if 8 \<le> length key then
        let ts = i64_be key; iv = (signed interval :: int)
        in if iv = 0 \<or> (ts = - (2 ^ 63) \<and> iv = - 1) \<or> n = 0 then Inl Panicked
           else Ok (word_of_int \<bar>(ts sdiv iv) smod uint n\<bar>)
      else Ok 0)"

section \<open>Properties\<close>

lemma ucast_slice:
  "ucast (drop_bit n (w :: u128)) = (v :: u32) \<longleftrightarrow> (\<forall>i < 32. bit w (n + i) = bit v i)"
  by (auto simp: bit_eq_iff bit_simps)

text \<open>
  C28: Packing tenant, database, object and shard number into a shard identifier loses nothing: the
  four accessors give the parts back, and every identifier is the packing of its parts.
\<close>

theorem shard_id_roundtrip:
  "shard_tenant (ShardId_from_parts t d ob n) = t \<and> shard_database (ShardId_from_parts t d ob n) = d \<and>
   shard_object (ShardId_from_parts t d ob n) = ob \<and> shard_number (ShardId_from_parts t d ob n) = n \<and>
   ShardId_from_parts (shard_tenant s) (shard_database s) (shard_object s) (shard_number s) = s"
proof (intro conjI)
  show "shard_tenant (ShardId_from_parts t d ob n) = t"
    by (rule bit_word_eqI) (auto simp: shard_tenant_def ShardId_from_parts_def bit_simps dest: bit_imp_le_length)
  show "shard_database (ShardId_from_parts t d ob n) = d"
    by (rule bit_word_eqI) (auto simp: shard_database_def ShardId_from_parts_def bit_simps dest: bit_imp_le_length)
  show "shard_object (ShardId_from_parts t d ob n) = ob"
    by (rule bit_word_eqI) (auto simp: shard_object_def ShardId_from_parts_def bit_simps dest: bit_imp_le_length)
  show "shard_number (ShardId_from_parts t d ob n) = n"
    by (rule bit_word_eqI) (auto simp: shard_number_def ShardId_from_parts_def bit_simps dest: bit_imp_le_length)
  show "ShardId_from_parts (shard_tenant s) (shard_database s) (shard_object s) (shard_number s) = s"
  proof (rule bit_word_eqI)
    fix n assume n: "n < LENGTH(128)"
    consider "n < 32" | "32 \<le> n" "n < 64" | "64 \<le> n" "n < 96" | "96 \<le> n" by linarith
    then show "bit (ShardId_from_parts (shard_tenant s) (shard_database s) (shard_object s) (shard_number s)) n = bit s n"
      using n
      by cases (auto simp: shard_tenant_def shard_database_def shard_object_def shard_number_def
          ShardId_from_parts_def bit_simps)
  qed
qed

text \<open>Byte strings between a prefix and its successor.\<close>

lemma le_append: "(p :: bytes) \<le> p @ ys"
  by (induction p) auto

lemma list_le_Nil: "(k :: bytes) < [] \<longleftrightarrow> False"
  by (cases k) auto

lemma between_zero: "p \<le> k \<and> k < p @ [0] \<longleftrightarrow> k = (p :: bytes)"
proof (induction p arbitrary: k)
  case Nil
  show ?case by (cases k) (simp_all add: list_le_Nil)
next
  case (Cons b p)
  show ?case
  proof (cases k)
    case (Cons c k')
    then show ?thesis using Cons.IH [of k'] by (cases "c = b") auto
  qed simp
qed

lemma less_succ_byte: "b < 255 \<Longrightarrow> x < b + 1 \<longleftrightarrow> x \<le> (b :: u8)"
proof -
  assume "b < 255"
  then have "unat (b + 1) = Suc (unat b)" by (simp add: word_less_nat_alt unat_word_ariths)
  then show ?thesis by (simp only: word_less_nat_alt word_le_nat_alt less_Suc_eq_le)
qed

lemma between_succ:
  assumes c: "\<And>x. x < c \<longleftrightarrow> x \<le> b"
  shows "p @ [b] \<le> k \<and> k < p @ [c] \<longleftrightarrow> (\<exists>ys. k = (p :: bytes) @ [b] @ ys)"
proof (induction p arbitrary: k)
  case Nil
  show ?case by (cases k) (auto simp: list_le_Nil c)
next
  case (Cons d p)
  show ?case
  proof (cases k)
    case (Cons x k')
    then show ?thesis using Cons.IH [of k'] by (cases "x = d") auto
  qed simp
qed

text \<open>
  C31: What a prefix range covers. For a prefix whose last byte is not 255 it is exactly the keys that
  start with the prefix. For a prefix that ends with 255 it is the prefix alone, so longer keys with
  that prefix are missed, and for the empty prefix it is no key at all.
\<close>

theorem prefix_range_exact:
  "in_range (KeyRange_prefix p) k \<longleftrightarrow>
     (if p = [] then False else if last p < 255 then \<exists>ys. k = p @ ys else k = p)"
proof -
  have "in_range (KeyRange_prefix p) k \<longleftrightarrow> p \<le> k \<and> k < prefix_end p"
    by (simp add: in_range_def KeyRange_prefix_def)
  moreover have "p \<le> k \<and> k < butlast p @ [last p + 1] \<longleftrightarrow> (\<exists>ys. k = p @ ys)" if "p \<noteq> []" "last p < 255"
    using between_succ [OF less_succ_byte [OF that(2)], of "butlast p" k] append_butlast_last_id [OF that(1)] by (metis append_assoc)
  ultimately show ?thesis by (auto simp: prefix_end_def list_le_Nil between_zero)
qed

lemma first_index_eq:
  "first_index P i xs =
    (if \<exists>x \<in> set xs. P x then Some (i + length (takeWhile (\<lambda>x. \<not> P x) xs)) else None)"
  by (induction xs arbitrary: i) auto

lemma first_index_less: "first_index P i xs = Some j \<Longrightarrow> j < i + length xs"
  by (induction xs arbitrary: i) (fastforce split: if_splits)+

definition partition_count :: "Partitioner \<Rightarrow> u32 \<Rightarrow> nat" where
  "partition_count p n = (case p of PRange rs \<Rightarrow> length rs | PList ls \<Rightarrow> length ls | _ \<Rightarrow> unat n)"

definition time_division_fails :: "Partitioner \<Rightarrow> bytes \<Rightarrow> bool" where
  "time_division_fails p key =
     (case p of PTime interval \<Rightarrow>
        8 \<le> length key \<and> (interval = 0 \<or> (interval = - 1 \<and> i64_be key = - (2 ^ 63)))
      | _ \<Rightarrow> False)"

lemma signed_u64_cases:
  "(signed (w :: u64) :: int) = 0 \<longleftrightarrow> w = 0" "(signed (w :: u64) :: int) = - 1 \<longleftrightarrow> w = - 1"
  by (metis signed_0 signed_word_eqI) (metis signed_minus_1 signed_word_eqI)

lemma first_index_bound:
  "first_index P 0 xs = Some j \<Longrightarrow> length xs \<le> unat n \<Longrightarrow> word_of_nat j < (n :: u32)"
  using first_index_less [of P 0 xs j]
  by (simp add: word_less_nat_alt unat_of_nat le_less_trans [OF mod_less_eq_dividend])

lemma hash_bound: "0 < n \<Longrightarrow> ucast ((h :: u64) mod ucast n) < (n :: u32)"
proof -
  assume "0 < n"
  have "take_bit 64 (unat n) = unat n"
    by (rule take_bit_nat_eq_self) (rule less_trans [OF unat_less_u32], simp)
  then have "unat (h mod ucast n) < unat n"
    using \<open>0 < n\<close> by (simp add: unat_mod unsigned_ucast_eq word_less_nat_alt)
  then show ?thesis
    by (simp add: word_less_nat_alt unsigned_ucast_eq take_bit_nat_def le_less_trans [OF mod_less_eq_dividend])
qed

lemma time_bound: "0 < n \<Longrightarrow> word_of_int \<bar>x smod uint n\<bar> < (n :: u32)"
proof -
  assume "0 < n"
  then have "0 < uint n" by (simp add: word_less_def)
  with smod_int_range [of "uint n" x] have "\<bar>x smod uint n\<bar> < uint n" by auto
  then show ?thesis using uint_bounded [of n] by (simp add: word_less_def uint_word_of_int)
qed

text \<open>
  C30: A partitioner stays inside the table's shards. If there is a shard and a range or list
  partitioner has no more ranges or key lists than there are shards, every key gets a shard number
  below the shard count. The one exception is time partitioning of a key of at least eight bytes
  when the division of the time stamp fails: the interval is zero, or it is \<open>2 ^ 64 - 1\<close> (which the
  cast reads as \<open>- 1\<close>) and the time stamp is the smallest \<open>i64\<close>. There, and only there, the call panics.
\<close>

theorem partitioner_in_bounds:
  assumes "0 < n" "partition_count p n \<le> unat n"
  shows "if time_division_fails p key then get_shard_number p key n = Inl Panicked
         else \<exists>i < n. get_shard_number p key n = Ok i"
proof (cases p)
  case (PHash f)
  then show ?thesis using assms hash_bound by (auto simp: time_division_fails_def)
next
  case (PRange rs)
  then show ?thesis using assms first_index_bound
    by (fastforce simp: partition_count_def time_division_fails_def split: option.splits)
next
  case (PList ls)
  then show ?thesis using assms first_index_bound
    by (fastforce simp: partition_count_def time_division_fails_def split: option.splits)
next
  case (PTime iv)
  then show ?thesis using assms time_bound
    by (auto simp: Let_def time_division_fails_def signed_u64_cases)
qed

theorem partitioner_in_bounds_witness:
  "(\<exists>i < 4. get_shard_number (PHash Murmur3) [1, 2] 4 = Ok i) \<and>
   (\<exists>i < 2. get_shard_number (PRange [([1], [5]), ([5], [9])]) [7] 2 = Ok i) \<and>
   (\<exists>i < 4. get_shard_number (PTime 60) [0, 0, 0, 0, 0, 0, 1, 0] 4 = Ok i) \<and>
   get_shard_number (PTime 0) [0, 0, 0, 0, 0, 0, 1, 0] 4 = Inl Panicked"
proof (intro conjI)
  show "\<exists>i < 4. get_shard_number (PHash Murmur3) [1, 2] 4 = Ok i"
    using partitioner_in_bounds [of 4 "PHash Murmur3" "[1, 2]"]
    by (simp add: partition_count_def time_division_fails_def)
  show "\<exists>i < 2. get_shard_number (PRange [([1], [5]), ([5], [9])]) [7] 2 = Ok i"
    using partitioner_in_bounds [of 2 "PRange [([1], [5]), ([5], [9])]" "[7]"]
    by (simp add: partition_count_def time_division_fails_def)
  show "\<exists>i < 4. get_shard_number (PTime 60) [0, 0, 0, 0, 0, 0, 1, 0] 4 = Ok i"
    using partitioner_in_bounds [of 4 "PTime 60" "[0, 0, 0, 0, 0, 0, 1, 0]"]
    by (simp add: partition_count_def time_division_fails_def)
  show "get_shard_number (PTime 0) [0, 0, 0, 0, 0, 0, 1, 0] 4 = Inl Panicked"
    using partitioner_in_bounds [of 4 "PTime 0" "[0, 0, 0, 0, 0, 0, 1, 0]"]
    by (simp add: partition_count_def time_division_fails_def)
qed

lemma sorted_ranges:
  "sorted (concat (map (\<lambda>(s, e). [s, e]) rs)) \<Longrightarrow> i < j \<Longrightarrow> j < length rs \<Longrightarrow> snd (rs ! i) \<le> fst (rs ! j)"
proof (induction rs arbitrary: i j)
  case (Cons r rs)
  have below: "snd r \<le> fst x" if "x \<in> set rs" for x
    using Cons.prems(1) that by (cases r; cases x) fastforce
  show ?case
  proof (cases i)
    case 0
    then show ?thesis using Cons.prems below by (cases j) auto
  next
    case (Suc i')
    then show ?thesis using Cons by (cases j; cases r) auto
  qed
qed simp

lemma first_index_nth:
  "i < length xs \<Longrightarrow> P (xs ! i) \<Longrightarrow> (\<And>j. j < i \<Longrightarrow> \<not> P (xs ! j)) \<Longrightarrow> first_index P 0 xs = Some i"
  using takeWhile_eq_take_P_nth [of i xs "\<lambda>x. \<not> P x"] by (auto simp: first_index_eq)

text \<open>
  C29: Range partitioning sends a key to its range. If the boundaries are sorted - each range starts
  no later than it ends, and ends no later than the next one starts - a key inside the range of
  index \<open>i\<close> gets shard number \<open>i\<close>; a key in no range gets shard number zero.
\<close>

theorem range_partitioner_correct:
  assumes "sorted (concat (map (\<lambda>(s, e). [s, e]) rs))"
  shows "(\<forall>i < length rs. fst (rs ! i) \<le> key \<and> key < snd (rs ! i) \<longrightarrow>
            get_shard_number (PRange rs) key n = Ok (word_of_nat i)) \<and>
         ((\<forall>i < length rs. \<not> (fst (rs ! i) \<le> key \<and> key < snd (rs ! i))) \<longrightarrow>
            get_shard_number (PRange rs) key n = Ok 0)"
proof (intro conjI allI impI)
  fix i assume i: "i < length rs" "fst (rs ! i) \<le> key \<and> key < snd (rs ! i)"
  have "first_index (\<lambda>(s, e). s \<le> key \<and> key < e) 0 rs = Some i"
  proof (rule first_index_nth)
    fix j assume "j < i"
    then have "snd (rs ! j) \<le> key" using sorted_ranges [OF assms _ i(1)] i(2) by (blast intro: order_trans)
    then show "\<not> (case rs ! j of (s, e) \<Rightarrow> s \<le> key \<and> key < e)" by (auto simp: case_prod_beta)
  qed (use i in \<open>auto simp: case_prod_beta\<close>)
  then show "get_shard_number (PRange rs) key n = Ok (word_of_nat i)" by simp
next
  assume "\<forall>i < length rs. \<not> (fst (rs ! i) \<le> key \<and> key < snd (rs ! i))"
  then have "\<not> (\<exists>x \<in> set rs. case x of (s, e) \<Rightarrow> s \<le> key \<and> key < e)"
    by (auto simp: in_set_conv_nth) (metis fst_conv snd_conv)
  then show "get_shard_number (PRange rs) key n = Ok 0" by (simp only: get_shard_number.simps first_index_eq) simp
qed

theorem range_partitioner_correct_witness:
  "get_shard_number (PRange [([0], [10]), ([10], [20])]) [12] 2 = Ok (word_of_nat 1) \<and>
   get_shard_number (PRange [([0], [10]), ([10], [20])]) [30] 2 = Ok 0"
proof
  show "get_shard_number (PRange [([0], [10]), ([10], [20])]) [12] 2 = Ok (word_of_nat 1)"
    using range_partitioner_correct [of "[([0], [10]), ([10], [20])]" "[12]" 2, THEN conjunct1]
    by (auto simp: less_Suc_eq)
  show "get_shard_number (PRange [([0], [10]), ([10], [20])]) [30] 2 = Ok 0"
    using range_partitioner_correct [of "[([0], [10]), ([10], [20])]" "[30]" 2, THEN conjunct2]
    by (auto simp: less_Suc_eq)
qed

end
