(* ===== verification/BTree_Iter.thy ===== *)
theory BTree_Iter
  imports BTree_Underflow Core_Shard
begin

text \<open>
  The range iterator, \<open>nanograph-btree/src/iterator.rs\<close>. The iterator of the code shares the tree
  with its writers; the model gives it the tree of the moment of the scan, so it describes scans
  without concurrent writes. Errors are the tree's own (the code converts them to the key-value
  error type). A forward scan returns the entries between its bounds, in order, up to its limit.
\<close>

section \<open>Definitions\<close>

record BPlusTreeIterator =
  it_tree :: BPlusTree
  current_leaf :: "node_id option"
  current_entries :: entry_list
  current_index :: nat
  end_bound :: "bytes bound"
  reverse :: bool
  limit :: "nat option"
  count :: nat

type_synonym iter_start = "node_id option \<times> entry_list \<times> nat"

definition usize_max :: nat where
  "usize_max = 18446744073709551615"

definition unwrap_or_idx :: "nat + nat \<Rightarrow> nat" where
  "unwrap_or_idx r = (case r of Inr i \<Rightarrow> i | Inl i \<Rightarrow> i)"

definition find_forward_from :: "BPlusTree \<Rightarrow> bool \<Rightarrow> bytes \<Rightarrow> (BTreeError, iter_start) res" where
  "find_forward_from s excluded key =
     (case find_leaf s (root_id s) key of
        Inl f \<Rightarrow> Inl f
      | Inr leaf_id \<Rightarrow>
          (case get_leaf_entries s leaf_id of
             Inl f \<Rightarrow> Inl f
           | Inr entries \<Rightarrow>
               let start = unwrap_or_idx (binary_search_by (\<lambda>e. cmp (fst e) key) entries);
                   start' = (if excluded \<and> start < length entries \<and> fst (entries ! start) = key
                             then start + 1 else start)
               in Ok (Some leaf_id, entries, start')))"

fun find_forward_start :: "BPlusTree \<Rightarrow> bytes bound \<Rightarrow> (BTreeError, iter_start) res" where
  "find_forward_start s Unbounded =
     (case get_leftmost_leaf s of
        Inl f \<Rightarrow> Inl f
      | Inr leaf_id \<Rightarrow>
          (case get_leaf_entries s leaf_id of
             Inl f \<Rightarrow> Inl f
           | Inr entries \<Rightarrow> Ok (Some leaf_id, entries, 0)))"
| "find_forward_start s (Included key) = find_forward_from s False key"
| "find_forward_start s (Excluded key) = find_forward_from s True key"

text \<open>The loop that walks to the rightmost leaf; a chain longer than the number of nodes is cyclic.\<close>

primrec rightmost_loop :: "nat \<Rightarrow> BPlusTree \<Rightarrow> node_id \<Rightarrow> (BTreeError, node_id) res" where
  "rightmost_loop 0 s i = Inl Diverged"
| "rightmost_loop (Suc fuel) s i =
     (case get_next_leaf s i of
        Inl f \<Rightarrow> Inl f
      | Inr None \<Rightarrow> Ok i
      | Inr (Some j) \<Rightarrow> rightmost_loop fuel s j)"

definition last_index :: "entry_list \<Rightarrow> nat" where
  "last_index es = (if es = [] then 0 else length es - 1)"

definition previous_leaf_start :: "BPlusTree \<Rightarrow> node_id \<Rightarrow> (BTreeError, iter_start) res" where
  "previous_leaf_start s leaf_id =
     (case get_prev_leaf s leaf_id of
        Inl f \<Rightarrow> Inl f
      | Inr None \<Rightarrow> Ok (None, [], 0)
      | Inr (Some prev_id) \<Rightarrow>
          (case get_leaf_entries s prev_id of
             Inl f \<Rightarrow> Inl f
           | Inr es \<Rightarrow> Ok (Some prev_id, es, last_index es)))"

definition find_reverse_from :: "BPlusTree \<Rightarrow> bool \<Rightarrow> bytes \<Rightarrow> (BTreeError, iter_start) res" where
  "find_reverse_from s excluded key =
     (case find_leaf s (root_id s) key of
        Inl f \<Rightarrow> Inl f
      | Inr leaf_id \<Rightarrow>
          (case get_leaf_entries s leaf_id of
             Inl f \<Rightarrow> Inl f
           | Inr entries \<Rightarrow>
               (case binary_search_by (\<lambda>e. cmp (fst e) key) entries of
                  Inr idx \<Rightarrow>
                    if excluded then (if idx = 0 then previous_leaf_start s leaf_id
                                      else Ok (Some leaf_id, entries, idx - 1))
                    else Ok (Some leaf_id, entries, idx)
                | Inl idx \<Rightarrow>
                    if idx = 0 then previous_leaf_start s leaf_id
                    else Ok (Some leaf_id, entries, idx - 1))))"

fun find_reverse_start :: "BPlusTree \<Rightarrow> bytes bound \<Rightarrow> (BTreeError, iter_start) res" where
  "find_reverse_start s Unbounded =
     (case get_leftmost_leaf s of
        Inl f \<Rightarrow> Inl f
      | Inr i \<Rightarrow>
          (case rightmost_loop (next_node_id s + 1) s i of
             Inl f \<Rightarrow> Inl f
           | Inr leaf_id \<Rightarrow>
               (case get_leaf_entries s leaf_id of
                  Inl f \<Rightarrow> Inl f
                | Inr es \<Rightarrow> Ok (Some leaf_id, es, last_index es))))"
| "find_reverse_start s (Included key) = find_reverse_from s False key"
| "find_reverse_start s (Excluded key) = find_reverse_from s True key"

definition BPlusTreeIterator_new ::
  "BPlusTree \<Rightarrow> bytes bound \<Rightarrow> bytes bound \<Rightarrow> bool \<Rightarrow> nat option \<Rightarrow> (BTreeError, BPlusTreeIterator) res" where
  "BPlusTreeIterator_new s start_bound end_bound' reverse' limit' =
     (case (if reverse' then find_reverse_start s end_bound' else find_forward_start s start_bound) of
        Inl f \<Rightarrow> Inl f
      | Inr (leaf, entries, idx) \<Rightarrow>
          Ok \<lparr>it_tree = s, current_leaf = leaf, current_entries = entries, current_index = idx,
              end_bound = end_bound', reverse = reverse', limit = limit', count = 0\<rparr>)"

definition is_within_end_bound :: "BPlusTreeIterator \<Rightarrow> bytes \<Rightarrow> bool" where
  "is_within_end_bound it key = within_end (end_bound it) key"

text \<open>The entry at the current position is returned and the position advanced.\<close>

definition yield_entry ::
  "BPlusTreeIterator \<Rightarrow> BPlusTreeIterator \<times> (BTreeError, bytes \<times> bytes) res option" where
  "yield_entry it =
     (let e = current_entries it ! current_index it
      in if \<not> reverse it \<and> \<not> is_within_end_bound it (fst e)
         then (it\<lparr>current_leaf := None\<rparr>, None)
         else (it\<lparr>count := count it + 1,
                  current_index :=
                    (if reverse it then (if current_index it = 0 then usize_max else current_index it - 1)
                     else current_index it + 1)\<rparr>,
               Some (Ok e)))"

primrec poll_loop ::
  "nat \<Rightarrow> BPlusTreeIterator \<Rightarrow> BPlusTreeIterator \<times> (BTreeError, bytes \<times> bytes) res option" where
  "poll_loop 0 it = (it, Some (Inl Diverged))"
| "poll_loop (Suc fuel) it =
     (if (case limit it of Some l \<Rightarrow> l \<le> count it | None \<Rightarrow> False) then (it, None)
      else case current_leaf it of
        None \<Rightarrow> (it, None)
      | Some leaf \<Rightarrow>
          if current_entries it = [] then (it\<lparr>current_leaf := None\<rparr>, None)
          else if length (current_entries it) \<le> current_index it
          then (case (if reverse it then get_prev_leaf (it_tree it) leaf else get_next_leaf (it_tree it) leaf) of
                  Inl f \<Rightarrow> (it, Some (Inl f))
                | Inr None \<Rightarrow> (it\<lparr>current_leaf := None\<rparr>, None)
                | Inr (Some leaf_id) \<Rightarrow>
                    (case get_leaf_entries (it_tree it) leaf_id of
                       Inl f \<Rightarrow> (it, Some (Inl f))
                     | Inr es \<Rightarrow>
                         if es = [] then poll_loop fuel (it\<lparr>current_leaf := Some leaf_id, current_entries := es\<rparr>)
                         else poll_loop fuel
                                (it\<lparr>current_leaf := Some leaf_id, current_entries := es,
                                    current_index := (if reverse it then length es - 1 else 0)\<rparr>)))
          else yield_entry it)"

text \<open>
  One call takes at most two further rounds: after a leaf change the loop returns an entry, or
  stops because the new leaf is empty.
\<close>

definition poll_next ::
  "BPlusTreeIterator \<Rightarrow> BPlusTreeIterator \<times> (BTreeError, bytes \<times> bytes) res option" where
  "poll_next it = poll_loop 3 it"

definition iter_seek :: "BPlusTreeIterator \<Rightarrow> bytes \<Rightarrow> BPlusTreeIterator \<times> (BTreeError, unit) res" where
  "iter_seek it key =
     (case find_leaf (it_tree it) (root_id (it_tree it)) key of
        Inl f \<Rightarrow> (it, Inl f)
      | Inr leaf_id \<Rightarrow>
          (case get_leaf_entries (it_tree it) leaf_id of
             Inl f \<Rightarrow> (it, Inl f)
           | Inr es \<Rightarrow>
               (it\<lparr>current_leaf := Some leaf_id, current_entries := es,
                   current_index := unwrap_or_idx (binary_search_by (\<lambda>e. cmp (fst e) key) es)\<rparr>, Ok ())))"

definition iter_position :: "BPlusTreeIterator \<Rightarrow> bytes option" where
  "iter_position it =
     (if current_index it < length (current_entries it)
      then Some (fst (current_entries it ! current_index it)) else None)"

definition iter_valid :: "BPlusTreeIterator \<Rightarrow> bool" where
  "iter_valid it \<longleftrightarrow> current_leaf it \<noteq> None \<and> current_index it < length (current_entries it)"

text \<open>Polling until the end of the scan or an error: what a consumer of the iterator collects.\<close>

primrec drain :: "nat \<Rightarrow> BPlusTreeIterator \<Rightarrow> entry_list" where
  "drain 0 it = []"
| "drain (Suc fuel) it =
     (case poll_next it of
        (it', Some (Inr e)) \<Rightarrow> e # drain fuel it'
      | (it', _) \<Rightarrow> [])"

section \<open>Forward scans\<close>

text \<open>A loop that has just entered a leaf ends in the next round.\<close>

lemma poll_loop_settled:
  "current_entries it = [] \<or> current_index it < length (current_entries it) \<Longrightarrow>
   poll_loop (Suc fuel) it = poll_loop (Suc 0) it"
  by (auto split: option.split)

lemma poll_loop_two_rounds: "poll_loop (Suc (Suc fuel)) it = poll_loop (Suc (Suc 0)) it"
proof -
  have "poll_loop (Suc fuel) (it\<lparr>current_leaf := Some j, current_entries := []\<rparr>) =
      poll_loop (Suc 0) (it\<lparr>current_leaf := Some j, current_entries := []\<rparr>)" for j
    by (rule poll_loop_settled) simp
  moreover have "es \<noteq> [] \<Longrightarrow>
      poll_loop (Suc fuel) (it\<lparr>current_leaf := Some j, current_entries := es, current_index := (if reverse it then length es - 1 else 0)\<rparr>) =
      poll_loop (Suc 0) (it\<lparr>current_leaf := Some j, current_entries := es, current_index := (if reverse it then length es - 1 else 0)\<rparr>)" for j es
    by (rule poll_loop_settled) simp
  ultimately show ?thesis
    unfolding poll_loop.simps(2) [of "Suc fuel"] poll_loop.simps(2) [of "Suc 0"]
    by (auto simp del: poll_loop.simps split: option.split sum.split)
qed

fun leaf_ents :: "bt \<Rightarrow> (node_id \<times> entry_list) list" where
  "leaf_ents (BL i es) = [(i, es)]"
| "leaf_ents (BN _ _ ts) = concat (map leaf_ents ts)"

lemma map_fst_leaf_ents: "map fst (leaf_ents t) = leaves t"
  by (induction t) (auto simp: map_concat cong: map_cong)

lemma concat_map_snd: "concat (map snd (concat (map f ts))) = concat (map (\<lambda>t. concat (map snd (f t))) ts)"
  by (induction ts) auto

lemma concat_leaf_ents: "node_ok b lo m h t \<Longrightarrow> concat (map snd (leaf_ents t)) = ents (inord t)"
proof (induction b lo m h t rule: node_ok.induct)
  case (2 b lo m h i ks ts)
  then show ?case by (simp add: ents_weave concat_map_snd comp_def cong: map_cong)
qed auto

lemma leaf_ents_nonempty: "node_ok b lo m h t \<Longrightarrow> 1 \<le> lo \<Longrightarrow> 1 \<le> b \<or> 0 < h \<Longrightarrow> (j, f) \<in> set (leaf_ents t) \<Longrightarrow> f \<noteq> []"
proof (induction b lo m h t rule: node_ok.induct)
  case (1 b lo m i es)
  then show ?case by auto
next
  case (2 b lo m h i ks ts)
  then obtain t where "t \<in> set ts" "(j, f) \<in> set (leaf_ents t)" by auto
  with 2 show ?case by auto
qed auto

lemma leaf_ents_rep:
  "rep ns p t \<Longrightarrow> (j, f) \<in> set (leaf_ents t) \<Longrightarrow> \<exists>l. ns j = Some (Leaf l) \<and> lf_entries l = f"
  by (induction ns p t rule: rep.induct) (auto simp: node_rep_BL)

lemma leaf_ents_plug:
  "ctx_ok lo m h fs \<Longrightarrow> \<exists>A B. leaf_ents (plug t fs) = A @ leaf_ents t @ B \<and>
     concat (map snd A) = ents (items_left fs) \<and> concat (map snd B) = ents (items_right fs)"
proof (induction fs arbitrary: h t)
  case Nil
  show ?case by (intro exI [of _ "[]"]) simp
next
  case (Cons f fs)
  obtain i kl cl kr cr where f: "f = Frame i kl cl kr cr" by (cases f)
  let ?t = "BN i (kl @ kr) (cl @ t # cr)"
  obtain A B where AB: "leaf_ents (plug ?t fs) = A @ leaf_ents ?t @ B"
    "concat (map snd A) = ents (items_left fs)" "concat (map snd B) = ents (items_right fs)"
    using Cons.IH [of "Suc h" ?t] Cons.prems by (auto simp: f)
  have ok: "\<forall>u \<in> set cl \<union> set cr. concat (map snd (leaf_ents u)) = ents (inord u)"
    "length cl = length kl" "length cr = length kr"
    using Cons.prems concat_leaf_ents [of lo lo m h] by (simp_all add: f)
  have "concat (map snd (concat (map leaf_ents cl))) = concat (map (\<lambda>u. ents (inord u)) cl)"
    "concat (map snd (concat (map leaf_ents cr))) = concat (map (\<lambda>u. ents (inord u)) cr)"
    using ok(1) by (simp_all add: concat_map_snd cong: map_cong)
  with ok(2,3) AB show ?case
    by (intro exI [of _ "A @ concat (map leaf_ents cl)"] exI [of _ "concat (map leaf_ents cr) @ B"])
      (simp add: f ents_weave comp_def)
qed

text \<open>
  The position of a forward scan: it stands in the leaf \<open>i\<close> with entries \<open>es\<close>, and the leaves \<open>B\<close>
  follow along the chain.
\<close>

definition fpos :: "BPlusTree \<Rightarrow> node_id \<Rightarrow> entry_list \<Rightarrow> (node_id \<times> entry_list) list \<Rightarrow> bool" where
  "fpos s i es B \<longleftrightarrow>
     chain (nodes s) None (i # map fst B) \<and>
     (\<forall>(j, f) \<in> set ((i, es) # B). \<exists>l. nodes s j = Some (Leaf l) \<and> lf_entries l = f) \<and>
     (\<forall>(j, f) \<in> set B. f \<noteq> []) \<and> (es = [] \<longrightarrow> B = [])"

lemma fpos_tree:
  assumes "tree_inv s h t" "leaf_ents t = A @ (i, es) # B"
  shows "fpos s i es B"
proof -
  have inv: "rep (nodes s) None t" "chain (nodes s) None (leaves t)" "config_ok (config s)"
    "node_ok (root_min h) (lo_keys (config s)) (max_keys (config s)) h t"
    using assms(1) by (auto simp: tree_inv_def heap_ok_unfold tree_ok_def)
  have "leaves t = map fst A @ i # map fst B" using map_fst_leaf_ents [of t] assms(2) by simp
  with inv(2) have "chain (nodes s) None (i # map fst B)" by simp
  moreover have "\<forall>(j, f) \<in> set ((i, es) # B). \<exists>l. nodes s j = Some (Leaf l) \<and> lf_entries l = f"
    using leaf_ents_rep [OF inv(1)] assms(2) by auto
  moreover have "(\<forall>(j, f) \<in> set B. f \<noteq> []) \<and> (es = [] \<longrightarrow> B = [])"
  proof (cases h)
    case 0
    with inv(4) obtain j f where "t = BL j f" by (auto elim: node_ok_cases)
    with assms(2) show ?thesis by (auto simp: Cons_eq_append_conv)
  next
    case (Suc h')
    with leaf_ents_nonempty [OF inv(4) lo_keys_pos [OF inv(3)]] assms(2) show ?thesis by auto
  qed
  ultimately show ?thesis by (simp add: fpos_def)
qed

definition limit_left :: "BPlusTreeIterator \<Rightarrow> 'a list \<Rightarrow> 'a list" where
  "limit_left it xs = (case limit it of None \<Rightarrow> xs | Some l \<Rightarrow> take (l - count it) xs)"

text \<open>At a forward position, the rest of the scan.\<close>

definition at_rest :: "BPlusTreeIterator \<Rightarrow> entry_list \<Rightarrow> bool" where
  "at_rest it R \<longleftrightarrow> \<not> reverse it \<and>
     (\<exists>i B. current_leaf it = Some i \<and> fpos (it_tree it) i (current_entries it) B \<and>
        R = drop (current_index it) (current_entries it) @ concat (map snd B))"

lemma poll_next_loop: "poll_next it = poll_loop (Suc (Suc fuel)) it"
  unfolding poll_next_def numeral_3_eq_3
  by (rule trans [OF poll_loop_two_rounds poll_loop_two_rounds [symmetric]])

lemma leaf_access:
  assumes "nodes s i = Some (Leaf l)"
  shows "get_next_leaf s i = Ok (lf_next l)" "get_leaf_entries s i = Ok (lf_entries l)" "next_of (nodes s) i = lf_next l"
  using assms by (simp_all add: get_next_leaf_def get_leaf_entries_def get_node_Some next_of_def)

lemma fpos_next:
  assumes "fpos s i es ((j, f) # B)"
  shows "get_next_leaf s i = Ok (Some j)" "get_leaf_entries s j = Ok f" "f \<noteq> []" "fpos s j f B"
proof -
  obtain l l' where l: "nodes s i = Some (Leaf l)" "nodes s j = Some (Leaf l')" "lf_entries l' = f"
    using assms by (auto simp: fpos_def)
  show "get_next_leaf s i = Ok (Some j)" "get_leaf_entries s j = Ok f"
    using assms leaf_access [OF l(1)] leaf_access [OF l(2)] l(3) by (simp_all add: fpos_def)
  show "f \<noteq> []" "fpos s j f B" using assms by (auto simp: fpos_def)
qed

lemma fpos_last:
  assumes "fpos s i es []"
  shows "get_next_leaf s i = Ok None"
proof -
  obtain l where "nodes s i = Some (Leaf l)" using assms by (auto simp: fpos_def)
  from leaf_access [OF this] assms show ?thesis by (simp add: fpos_def)
qed

lemma limit_left_Nil: "(case limit it of Some l \<Rightarrow> l \<le> count it | None \<Rightarrow> False) \<Longrightarrow> limit_left it xs = []"
  by (auto simp: limit_left_def split: option.splits)

definition poll_spec :: "BPlusTreeIterator \<Rightarrow> entry_list \<Rightarrow> BPlusTreeIterator \<times> (BTreeError, bytes \<times> bytes) res option \<Rightarrow> bool" where
  "poll_spec it R r \<longleftrightarrow>
     (case R of
        [] \<Rightarrow> snd r = None
      | e # R' \<Rightarrow>
          if is_within_end_bound it (fst e)
          then \<exists>it'. r = (it', Some (Ok e)) \<and> at_rest it' R' \<and> count it' = count it + 1 \<and>
                 limit it' = limit it \<and> end_bound it' = end_bound it
          else snd r = None)"

lemma poll_here:
  assumes "at_rest it R" and lim: "\<not> (case limit it of Some l \<Rightarrow> l \<le> count it | None \<Rightarrow> False)"
    and idx: "current_index it < length (current_entries it)"
  shows "poll_spec it R (poll_next it)"
proof -
  obtain i B where fwd: "\<not> reverse it" and i: "current_leaf it = Some i" "fpos (it_tree it) i (current_entries it) B"
    and R: "R = drop (current_index it) (current_entries it) @ concat (map snd B)"
    using assms(1) by (auto simp: at_rest_def)
  let ?e = "current_entries it ! current_index it"
  let ?it = "it\<lparr>count := count it + 1, current_index := current_index it + 1\<rparr>"
  have poll: "poll_next it = yield_entry it"
    using lim i(1) idx by (auto simp: poll_next_loop [of it 0])
  have "R = ?e # drop (Suc (current_index it)) (current_entries it) @ concat (map snd B)"
    using R idx by (simp add: Cons_nth_drop_Suc)
  moreover have "at_rest ?it (drop (Suc (current_index it)) (current_entries it) @ concat (map snd B))"
    using fwd i by (auto simp: at_rest_def)
  ultimately show ?thesis
    using fwd by (auto simp: poll_spec_def poll yield_entry_def Let_def)
qed

lemma poll_step:
  assumes "at_rest it R" and lim: "\<not> (case limit it of Some l \<Rightarrow> l \<le> count it | None \<Rightarrow> False)"
  shows "poll_spec it R (poll_next it)"
proof (cases "current_index it < length (current_entries it)")
  case True
  with assms show ?thesis by (rule poll_here)
next
  case False
  obtain i B where fwd: "\<not> reverse it" and i: "current_leaf it = Some i" "fpos (it_tree it) i (current_entries it) B"
    and R: "R = drop (current_index it) (current_entries it) @ concat (map snd B)"
    using assms(1) by (auto simp: at_rest_def)
  show ?thesis
  proof (cases B)
    case Nil
    with i(2) have "get_next_leaf (it_tree it) i = Ok None" using fpos_last by simp
    with R Nil False lim i(1) fwd show ?thesis by (simp add: poll_spec_def poll_next_loop [of it 0])
  next
    case (Cons jf B')
    obtain j f where jf: "jf = (j, f)" by (cases jf)
    note nx = fpos_next [OF i(2) [unfolded Cons jf]]
    let ?it = "it\<lparr>current_leaf := Some j, current_entries := f, current_index := 0\<rparr>"
    have ne: "current_entries it \<noteq> []" using i(2) Cons by (auto simp: fpos_def)
    have "poll_next it = poll_loop (Suc 0) ?it"
      unfolding poll_next_loop [of it 0] poll_loop.simps(2) [of "Suc 0" it] using lim i(1) fwd False ne nx(1-3) by simp
    also have "\<dots> = poll_next ?it"
      unfolding poll_next_loop [of ?it 0] by (rule poll_loop_settled [symmetric]) (use nx(3) in simp)
    finally have eq: "poll_next it = poll_next ?it" .
    have "at_rest ?it R" using fwd nx(4) R False by (auto simp: at_rest_def Cons jf)
    then have "poll_spec ?it R (poll_next ?it)" by (rule poll_here) (use lim nx(3) in \<open>auto split: option.splits\<close>)
    moreover have "poll_spec ?it R r = poll_spec it R r" for r
      by (cases R) (simp_all add: poll_spec_def is_within_end_bound_def)
    ultimately show ?thesis by (simp add: eq)
  qed
qed

lemma drain_at_rest:
  assumes "at_rest it R" "length R < fuel"
  shows "drain fuel it = limit_left it (takeWhile (\<lambda>e. within_end (end_bound it) (fst e)) R)"
  using assms
proof (induction R arbitrary: it fuel)
  case Nil
  obtain f where f: "fuel = Suc f" using Nil.prems(2) by (cases fuel) auto
  show ?case
  proof (cases "case limit it of Some l \<Rightarrow> l \<le> count it | None \<Rightarrow> False")
    case True
    then show ?thesis by (simp add: f poll_next_loop [of it 0] limit_left_Nil)
  next
    case False
    from poll_step [OF Nil.prems(1) this] show ?thesis
      by (cases "poll_next it") (auto simp: f poll_spec_def limit_left_def split: option.splits)
  qed
next
  case (Cons e R)
  obtain f where f: "fuel = Suc f" "length R < f" using Cons.prems(2) by (cases fuel) auto
  show ?case
  proof (cases "case limit it of Some l \<Rightarrow> l \<le> count it | None \<Rightarrow> False")
    case True
    then show ?thesis by (simp add: f poll_next_loop [of it 0] limit_left_Nil)
  next
    case False
    note step = poll_step [OF Cons.prems(1) this]
    show ?thesis
    proof (cases "within_end (end_bound it) (fst e)")
      case True
      then obtain it' where it': "poll_next it = (it', Some (Ok e))" "at_rest it' R" "count it' = count it + 1"
        "limit it' = limit it" "end_bound it' = end_bound it"
        using step by (auto simp: poll_spec_def is_within_end_bound_def)
      have "limit_left it (e # xs) = e # limit_left it' xs" for xs
        using False it' by (auto simp: limit_left_def take_Cons' Suc_diff_le split: option.splits)
      with True it' Cons.IH [OF it'(2) f(2)] show ?thesis by (simp add: f)
    next
      case out: False
      with step show ?thesis
        by (cases "poll_next it") (auto simp: f poll_spec_def is_within_end_bound_def limit_left_def split: option.splits)
    qed
  qed
qed

lemma forward_index:
  fixes es :: entry_list and key :: bytes
  assumes "ksorted es"
  defines "start \<equiv> unwrap_or_idx (binary_search_by (\<lambda>e. cmp (fst e) key) es)"
  shows "drop start es = filter (\<lambda>e. key \<le> fst e) es \<and>
    drop (if start < length es \<and> fst (es ! start) = key then start + 1 else start) es = filter (\<lambda>e. key < fst e) es"
proof -
  have split: "filter (\<lambda>e. key \<le> fst e) (xs @ zs @ ys) = filter (\<lambda>e. key \<le> fst e) zs @ ys"
    "filter (\<lambda>e. key < fst e) (xs @ zs @ ys) = filter (\<lambda>e. key < fst e) zs @ ys"
    if "\<forall>e \<in> set xs. fst e < key" "\<forall>e \<in> set ys. key < fst e" for xs zs ys :: entry_list
    using that by (auto simp: filter_empty_conv filter_id_conv order.order_iff_strict)
  from assms(1) show ?thesis
  proof (cases rule: binary_search_entries [where k = key])
    case (Found xs v ys)
    have "\<forall>e \<in> set xs. fst e < key" "\<forall>e \<in> set ys. key < fst e"
      by (subst Found(3), simp) (subst Found(4), simp)
    note sp = split [OF this, of "[(key, v)]"]
    have start: "start = length xs" by (simp add: start_def unwrap_or_idx_def Found(1))
    have "drop (length xs) es = (key, v) # ys" "drop (Suc (length xs)) es = ys" "length xs < length es"
      by (subst Found(2), simp)+
    moreover have "filter (\<lambda>e. key \<le> fst e) es = (key, v) # ys" "filter (\<lambda>e. key < fst e) es = ys"
      using sp by (subst Found(2), simp)+
    ultimately show ?thesis using Found(5) by (simp add: start)
  next
    case (Missing xs ys)
    have "\<forall>e \<in> set xs. fst e < key" "\<forall>e \<in> set ys. key < fst e"
      by (subst Missing(4), simp) (subst Missing(5), simp)
    note sp = split [OF this, of "[]"]
    have start: "start = length xs" by (simp add: start_def unwrap_or_idx_def Missing(1))
    have "drop (length xs) es = ys" by (subst Missing(3), simp)
    moreover have "filter (\<lambda>e. key \<le> fst e) es = ys" "filter (\<lambda>e. key < fst e) es = ys"
      using sp by (subst Missing(3), simp)+
    moreover have "length xs < length es \<Longrightarrow> fst (es ! length xs) \<noteq> key" using Missing(2) by (metis image_eqI nth_mem)
    ultimately show ?thesis by (auto simp: start)
  qed
qed

lemma forward_start_from:
  assumes "tree_inv s h t"
  shows "\<exists>i es idx B. find_forward_from s excl key = Ok (Some i, es, idx) \<and> fpos s i es B \<and>
    drop idx es @ concat (map snd B) = filter (\<lambda>e. if excl then key < fst e else key \<le> fst e) (ents (inord t))"
proof -
  obtain i es fs where p: "find_leaf s (root_id s) key = Ok i" "t = plug (BL i es) fs" "located key fs"
    "ctx_ok (lo_keys (config s)) (max_keys (config s)) 0 fs"
    using find_leaf_path [OF assms] by metis
  obtain A B where AB: "leaf_ents t = A @ (i, es) # B" "concat (map snd B) = ents (items_right fs)"
    using leaf_ents_plug [OF p(4), of "BL i es"] p(2) by auto
  have fp: "fpos s i es B" by (rule fpos_tree [OF assms AB(1)])
  have es: "ksorted es" using leaf_sorted [of i es fs, OF _ p(4)] assms p(2) by (simp add: tree_inv_def)
  have "get_leaf_entries s i = Ok es"
    using fp leaf_access(2) by (auto simp: fpos_def)
  moreover have "filter (\<lambda>e. key \<le> fst e) (ents (inord t)) = filter (\<lambda>e. key \<le> fst e) es @ ents (items_right fs)"
    "filter (\<lambda>e. key < fst e) (ents (inord t)) = filter (\<lambda>e. key < fst e) es @ ents (items_right fs)"
    using located_ents [OF p(3)]
    by (auto simp: p(2) inord_plug [OF p(4)] filter_empty_conv filter_id_conv order.order_iff_strict)
  ultimately show ?thesis
    using p(1) fp forward_index [OF es, of key] AB(2)
    by (cases excl) (auto simp: find_forward_from_def Let_def intro!: exI [of _ B])
qed

lemma forward_start:
  assumes "tree_inv s h t"
  shows "\<exists>i es idx B. find_forward_start s sb = Ok (Some i, es, idx) \<and> fpos s i es B \<and>
    drop idx es @ concat (map snd B) = filter (\<lambda>e. within_start sb (fst e)) (ents (inord t))"
proof (cases sb)
  case Unbounded
  have inv: "node_ok (root_min h) (lo_keys (config s)) (max_keys (config s)) h t" "leftmost_leaf s = Some (hd (leaves t))"
    using assms by (auto simp: tree_inv_def heap_ok_def tree_ok_def)
  then have "leaf_ents t \<noteq> []" using leaves_nonempty map_fst_leaf_ents [of t] by fastforce
  then obtain i es B where t: "leaf_ents t = [] @ (i, es) # B" by (cases "leaf_ents t") auto
  have fp: "fpos s i es B" by (rule fpos_tree [OF assms t])
  moreover have "get_leaf_entries s i = Ok es" using fp leaf_access(2) by (auto simp: fpos_def)
  moreover have "hd (leaves t) = i" using map_fst_leaf_ents [of t, symmetric] t by simp
  moreover have "ents (inord t) = es @ concat (map snd B)" using concat_leaf_ents [OF inv(1)] t by simp
  ultimately show ?thesis
    using inv(2) by (auto simp: Unbounded get_leftmost_leaf_def intro!: exI [of _ B])
next
  case (Included k)
  then show ?thesis using forward_start_from [OF assms, of False k] by simp
next
  case (Excluded k)
  then show ?thesis using forward_start_from [OF assms, of True k] by simp
qed

lemma takeWhile_end_filter:
  "ksorted es \<Longrightarrow> takeWhile (\<lambda>e. within_end eb (fst e)) es = filter (\<lambda>e. within_end eb (fst e)) es"
proof (induction es)
  case (Cons e es)
  then have "\<not> within_end eb (fst e) \<Longrightarrow> filter (\<lambda>e. within_end eb (fst e)) es = []"
    by (cases eb) (auto simp: filter_empty_conv not_le not_less dest: order.strict_trans order.strict_trans1)
  with Cons show ?case by auto
qed simp

lemma forward_scan:
  assumes "btree_inv s" "length (tree_entries s) < fuel"
  shows "\<exists>it. BPlusTreeIterator_new s sb eb False lim = Ok it \<and>
    drain fuel it = (case lim of None \<Rightarrow> \<lambda>xs. xs | Some l \<Rightarrow> take l)
      (filter (\<lambda>e. within_start sb (fst e) \<and> within_end eb (fst e)) (tree_entries s))"
proof -
  obtain h t where t: "tree_inv s h t" using assms(1) by (auto simp: btree_inv_def)
  obtain i es idx B where st: "find_forward_start s sb = Ok (Some i, es, idx)" "fpos s i es B"
    "drop idx es @ concat (map snd B) = filter (\<lambda>e. within_start sb (fst e)) (tree_entries s)"
    using forward_start [OF t, of sb] tree_entries_eq [OF t] by metis
  let ?it = "\<lparr>it_tree = s, current_leaf = Some i, current_entries = es, current_index = idx,
              end_bound = eb, reverse = False, limit = lim, count = 0\<rparr>"
  let ?R = "filter (\<lambda>e. within_start sb (fst e)) (tree_entries s)"
  have "at_rest ?it ?R" using st(2,3) by (auto simp: at_rest_def)
  moreover have "length ?R < fuel" using assms(2) length_filter_le [of _ "tree_entries s"] by (rule le_less_trans [rotated])
  ultimately have "drain fuel ?it = limit_left ?it (filter (\<lambda>e. within_end eb (fst e)) ?R)"
    using drain_at_rest takeWhile_end_filter [of ?R eb] ksorted_filter [OF tree_entries_sorted [OF assms(1)]] by simp
  then show ?thesis
    using st(1) by (auto simp: BPlusTreeIterator_new_def limit_left_def conj_commute split: option.split)
qed

end
