(* ===== verification/BTree_Stats.thy ===== *)
theory BTree_Stats
  imports BTree_Iter
begin

text \<open>
  The statistics of a tree, \<open>BPlusTree::stats\<close> of \<open>nanograph-btree/src/tree.rs\<close>, and the properties
  of the B+tree as a whole: it refines a sorted association list, it stays balanced, its forward
  scans are exact, its counters are those of the content, and its reverse scans are not exact.
\<close>

section \<open>Definitions\<close>

record BTreeStats =
  num_keys :: nat
  num_internal_nodes :: nat
  num_leaf_nodes :: nat
  height :: nat

text \<open>\<open>nodes.values()\<close>: every identifier in use is below \<open>next_node_id\<close>; only sums are taken.\<close>

definition heap_nodes :: "BPlusTree \<Rightarrow> BPlusTreeNode list" where
  "heap_nodes s = List.map_filter (nodes s) [0..<next_node_id s]"

fun leaf_len :: "BPlusTreeNode \<Rightarrow> nat" where
  "leaf_len (Leaf l) = length (lf_entries l)"
| "leaf_len (Internal n) = 0"

text \<open>The loop down to a leaf; \<open>None\<close> when it does not end.\<close>

primrec height_loop :: "nat \<Rightarrow> BPlusTree \<Rightarrow> BPlusTreeNode \<Rightarrow> nat \<Rightarrow> nat option" where
  "height_loop 0 s node height' = None"
| "height_loop (Suc fuel) s node height' =
     (if is_leaf node then Some height'
      else case get_child_for_key node [] of
        None \<Rightarrow> Some height'
      | Some child_id \<Rightarrow>
          (case get_node s child_id of
             Inl _ \<Rightarrow> Some height'
           | Inr child \<Rightarrow> height_loop fuel s child (height' + 1)))"

definition stats :: "BPlusTree \<Rightarrow> BTreeStats option" where
  "stats s =
     (let ns = heap_nodes s;
          num_leaves = length (filter is_leaf ns);
          num_internal = length ns - num_leaves;
          total_keys = sum_list (map leaf_len ns)
      in case (case get_node s (root_id s) of
                 Inl _ \<Rightarrow> Some 0
               | Inr node \<Rightarrow> height_loop (next_node_id s + 1) s node 1) of
           None \<Rightarrow> None
         | Some h \<Rightarrow>
             Some \<lparr>num_keys = total_keys, num_internal_nodes = num_internal,
                   num_leaf_nodes = num_leaves, height = h\<rparr>)"

text \<open>The entries a scan collects.\<close>

definition scan_entries ::
  "BPlusTree \<Rightarrow> bytes bound \<Rightarrow> bytes bound \<Rightarrow> bool \<Rightarrow> nat option \<Rightarrow> nat \<Rightarrow> entry_list option" where
  "scan_entries s sb eb rev' lim fuel =
     (case BPlusTreeIterator_new s sb eb rev' lim of Inl _ \<Rightarrow> None | Inr it \<Rightarrow> Some (drain fuel it))"

text \<open>The calls a client makes, answered by the tree and by a sorted association list.\<close>

datatype tree_call = TGet bytes | TInsert bytes bytes | TDelete bytes | TClear

datatype tree_answer = TValue "bytes option" | TDone | TDeleted bool

fun tree_do :: "BPlusTree \<Rightarrow> tree_call \<Rightarrow> BPlusTree \<times> (BTreeError, tree_answer) res" where
  "tree_do s (TGet k) = (s, map_sum id TValue (BPlusTree_get s k))"
| "tree_do s (TInsert k v) = (case BPlusTree_insert s k v of (s', r) \<Rightarrow> (s', map_sum id (\<lambda>_. TDone) r))"
| "tree_do s (TDelete k) = (case BPlusTree_delete s k of (s', r) \<Rightarrow> (s', map_sum id TDeleted r))"
| "tree_do s TClear = (case BPlusTree_clear s of (s', r) \<Rightarrow> (s', map_sum id (\<lambda>_. TDone) r))"

fun map_do :: "entry_list \<Rightarrow> tree_call \<Rightarrow> entry_list \<times> tree_answer" where
  "map_do m (TGet k) = (m, TValue (map_of m k))"
| "map_do m (TInsert k v) = (al_put k v m, TDone)"
| "map_do m (TDelete k) = (al_del k m, TDeleted (map_of m k \<noteq> None))"
| "map_do m TClear = ([], TDone)"

primrec tree_run :: "BPlusTree \<Rightarrow> tree_call list \<Rightarrow> BPlusTree \<times> (BTreeError, tree_answer) res list" where
  "tree_run s [] = (s, [])"
| "tree_run s (c # cs) =
     (case tree_do s c of (s1, a) \<Rightarrow> case tree_run s1 cs of (s2, as) \<Rightarrow> (s2, a # as))"

primrec map_run :: "entry_list \<Rightarrow> tree_call list \<Rightarrow> entry_list \<times> tree_answer list" where
  "map_run m [] = (m, [])"
| "map_run m (c # cs) =
     (case map_do m c of (m1, a) \<Rightarrow> case map_run m1 cs of (m2, as) \<Rightarrow> (m2, a # as))"

section \<open>Runs\<close>

lemma clear_is_new: "fst (BPlusTree_clear s) = BPlusTree_new (config s)"
  by (simp add: BPlusTree_clear_def BPlusTree_new_def)

lemma tree_entries_new: "config_ok cfg \<Longrightarrow> tree_entries (BPlusTree_new cfg) = []"
  using tree_entries_eq [OF tree_inv_new] by simp

lemma btree_inv_config: "btree_inv s \<Longrightarrow> config_ok (config s)"
  by (auto simp: btree_inv_def tree_inv_def)

lemma btree_inv_new: "config_ok cfg \<Longrightarrow> btree_inv (BPlusTree_new cfg)"
  using tree_inv_new by (auto simp: btree_inv_def)

lemma tree_do_refines:
  assumes "btree_inv s"
  shows "\<exists>s'. tree_do s c = (s', Ok (snd (map_do (tree_entries s) c))) \<and> btree_inv s' \<and>
    tree_entries s' = fst (map_do (tree_entries s) c) \<and> config s' = config s"
proof (cases c)
  case (TGet k)
  with assms show ?thesis by (simp add: BPlusTree_get_correct)
next
  case (TInsert k v)
  with BPlusTree_insert_correct [OF assms, of k v] show ?thesis by auto
next
  case (TDelete k)
  have "(k \<in> fst ` set (tree_entries s)) = (map_of (tree_entries s) k \<noteq> None)"
    by (simp add: map_of_eq_None_iff)
  with TDelete BPlusTree_delete_correct [OF assms, of k] show ?thesis by auto
next
  case TClear
  obtain s' where s': "BPlusTree_clear s = (s', Ok ())" "s' = BPlusTree_new (config s)"
    using clear_is_new [of s] by (cases "BPlusTree_clear s") (auto simp: BPlusTree_clear_def)
  moreover have "config s' = config s" by (simp add: s'(2) BPlusTree_new_def)
  ultimately show ?thesis
    using TClear btree_inv_config [OF assms] by (auto simp: btree_inv_new tree_entries_new)
qed

lemma tree_run_refines:
  "btree_inv s \<Longrightarrow> map_run (tree_entries s) cs = (m, as) \<Longrightarrow>
   \<exists>s'. tree_run s cs = (s', map Inr as) \<and> btree_inv s' \<and> tree_entries s' = m \<and> config s' = config s"
proof (induction cs arbitrary: s as)
  case (Cons c cs)
  obtain s1 where s1: "tree_do s c = (s1, Ok (snd (map_do (tree_entries s) c)))" "btree_inv s1"
    "tree_entries s1 = fst (map_do (tree_entries s) c)" "config s1 = config s"
    using tree_do_refines [OF Cons.prems(1)] by metis
  obtain as' where as': "map_run (tree_entries s1) cs = (m, as')" "as = snd (map_do (tree_entries s) c) # as'"
    using Cons.prems(2) s1(3) by (auto split: prod.splits)
  from Cons.IH [OF s1(2) as'(1)] s1 as'(2) show ?case by auto
qed simp

text \<open>Two small trees for the examples, one of three levels, one with a split in the middle.\<close>

definition demo_tree_cfg :: BPlusTreeConfig where
  "demo_tree_cfg = \<lparr>max_keys = 3, min_keys = 1\<rparr>"

definition demo_tree_calls :: "tree_call list" where
  "demo_tree_calls = map (\<lambda>i. TInsert [of_nat i] [of_nat (2 * i)]) [3, 1, 6, 2, 5, 4, 7, 8]"

definition demo_tree :: BPlusTree where
  "demo_tree = fst (tree_run (BPlusTree_new demo_tree_cfg) demo_tree_calls)"

definition split_tree :: BPlusTree where
  "split_tree = fst (tree_run (BPlusTree_new demo_tree_cfg) (map (\<lambda>i. TInsert [i] []) [5, 6, 7, 1, 2]))"

lemma demo_tree_inv: "btree_inv demo_tree \<and> tree_entries demo_tree = fst (map_run [] demo_tree_calls)"
proof -
  have "config_ok demo_tree_cfg" by (simp add: config_ok_def demo_tree_cfg_def)
  with tree_run_refines [OF btree_inv_new, of demo_tree_cfg demo_tree_calls] show ?thesis
    by (cases "map_run [] demo_tree_calls") (auto simp: demo_tree_def tree_entries_new)
qed

section \<open>Counters\<close>

lemma sum_heap_nodes:
  assumes "owns s xs"
  shows "sum_list (map (f :: _ \<Rightarrow> nat) (heap_nodes s)) = sum_list (map (\<lambda>i. f (the (nodes s i))) xs)"
proof -
  let ?g = "\<lambda>i. case nodes s i of None \<Rightarrow> 0 | Some n \<Rightarrow> f n"
  have "sum_list (map f (List.map_filter (nodes s) ys)) = sum_list (map ?g ys)" for ys
    by (induction ys) (auto simp: List.map_filter_def split: option.split)
  then have "sum_list (map f (heap_nodes s)) = (\<Sum>i \<in> {0..<next_node_id s}. ?g i)"
    by (simp add: heap_nodes_def sum_list_distinct_conv_sum_set)
  also have "\<dots> = (\<Sum>i \<in> set xs. ?g i)"
    using assms by (intro sum.mono_neutral_right) (auto simp: owns_def domIff split: option.split)
  also have "\<dots> = sum_list (map ?g xs)"
    using assms by (simp add: owns_def sum_list_distinct_conv_sum_set)
  also have "map ?g xs = map (\<lambda>i. f (the (nodes s i))) xs"
    using assms by (auto simp: owns_def split: option.split)
  finally show ?thesis .
qed

lemma sum_list_concat_map: "sum_list (map f (concat (map g xs))) = sum_list (map (\<lambda>x. sum_list (map f (g x))) xs)"
  by (induction xs) auto

lemma length_filter_sum: "length (filter P xs) = sum_list (map (\<lambda>x. if P x then 1 else 0) xs)"
  by (induction xs) auto

lemma length_leaf_ents: "length (leaf_ents t) = length (leaves t)"
  using arg_cong [OF map_fst_leaf_ents, of length] by simp

lemma sum_over_leaves:
  assumes "\<And>n. f (Internal n) = (0 :: nat)" "\<And>l. f (Leaf l) = g (lf_entries l)"
  shows "rep ns p t \<Longrightarrow> sum_list (map (\<lambda>i. f (the (ns i))) (ids t)) = sum_list (map (\<lambda>e. g (snd e)) (leaf_ents t))"
proof (induction t arbitrary: p)
  case (BL i es)
  then show ?case by (auto simp: node_rep_BL assms)
next
  case (BN i ks ts)
  then have "\<forall>t \<in> set ts. sum_list (map (\<lambda>i. f (the (ns i))) (ids t)) = sum_list (map (\<lambda>e. g (snd e)) (leaf_ents t))"
    by auto
  then have "(\<Sum>t \<leftarrow> ts. sum_list (map (\<lambda>i. f (the (ns i))) (ids t))) = (\<Sum>t \<leftarrow> ts. sum_list (map (\<lambda>e. g (snd e)) (leaf_ents t)))"
    by (simp cong: map_cong)
  with BN.prems show ?case
    by (auto simp: node_rep_BN assms sum_list_concat_map simp del: map_map)
qed

lemma height_loop_path:
  assumes "rep (nodes s) None (plug t fs)" "items_sorted (inord (plug t fs))" "located [] fs"
    and "node_ok (hole_min lo h fs) lo m h t" "ctx_ok lo m h fs" "h < fuel" "nodes s (tid t) = Some n"
  shows "height_loop fuel s n d = Some (d + h)"
  using assms
proof (induction h arbitrary: t fs fuel n d)
  case 0
  then obtain i es f where "t = BL i es" "fuel = Suc f"
    by (cases fuel) (auto elim: node_ok_cases)
  with 0 show ?case by (auto simp: rep_plug node_rep_BL)
next
  case (Suc h)
  obtain f where f: "fuel = Suc f" using Suc.prems(6) by (cases fuel) auto
  obtain i ks ts where t: "t = BN i ks ts" using Suc.prems(4) by (auto elim: node_ok_cases)
  obtain kl kr cl c cr where d: "ks = kl @ kr" "ts = cl @ c # cr" "length cl = length kl"
    "\<And>n. in_keys n = ks \<Longrightarrow> find_child_index n [] = length kl"
    "located [] (Frame i kl cl kr cr # fs)" "ctx_ok lo m h (Frame i kl cl kr cr # fs)"
    "node_ok lo lo m h c"
    by (rule descend [of i ks ts fs lo m h "[]"]) (use Suc.prems t in auto)
  have rep: "rep (nodes s) None (plug c (Frame i kl cl kr cr # fs))"
    using Suc.prems(1) by (simp add: t d(1,2))
  then obtain n' where n': "nodes s (tid c) = Some n'"
    by (cases c) (auto simp: rep_plug)
  have "height_loop fuel s n d = height_loop f s n' (d + 1)"
    using Suc.prems(1,7) d(1-4) n' by (auto simp: f t rep_plug node_rep_BN get_node_def nth_append)
  also have "\<dots> = Some (d + 1 + h)"
    by (rule Suc.IH [OF rep _ d(5) _ d(6) _ n'])
      (use Suc.prems d(7) in \<open>simp_all add: f t d(1,2) hole_min_def\<close>)
  finally show ?case by simp
qed

lemma stats_exact:
  assumes "tree_inv s h t"
  shows "stats s = Some \<lparr>num_keys = length (tree_entries s), num_internal_nodes = length (ids t) - length (leaves t),
    num_leaf_nodes = length (leaves t), height = h + 1\<rparr>"
proof -
  let ?lo = "lo_keys (config s)" and ?m = "max_keys (config s)"
  have *: "rep (nodes s) None t" "items_sorted (inord t)" "node_ok (root_min h) ?lo ?m h t" "root_id s = tid t"
    "owns s (ids t)"
    using assms by (auto simp: tree_inv_def heap_ok_unfold tree_ok_def)
  obtain n where n: "nodes s (tid t) = Some n" using *(1) by (cases t) auto
  have "height_loop (next_node_id s + 1) s n 1 = Some (1 + h)"
    by (rule height_loop_path [where fs = "[]" and lo = ?lo and m = ?m])
      (use * n tree_inv_height [OF assms] in \<open>auto simp: located_def hole_min_def\<close>)
  moreover have "length (filter is_leaf (heap_nodes s)) = length (leaves t)"
    using sum_heap_nodes [OF *(5), of "\<lambda>n. if is_leaf n then 1 else 0"]
      sum_over_leaves [OF _ _ *(1), of "\<lambda>n. if is_leaf n then 1 else 0" "\<lambda>_. 1"]
    by (simp add: length_filter_sum length_leaf_ents sum_list_triv comp_def)
  moreover have "length (heap_nodes s) = length (ids t)"
    using sum_heap_nodes [OF *(5), of "\<lambda>_. 1"] by (simp add: sum_list_triv)
  moreover have "sum_list (map leaf_len (heap_nodes s)) = length (tree_entries s)"
    using sum_heap_nodes [OF *(5), of leaf_len] sum_over_leaves [OF _ _ *(1), of leaf_len length]
      arg_cong [OF concat_leaf_ents [OF *(3)], of length]
    by (simp add: tree_entries_eq [OF assms] length_concat comp_def)
  ultimately show ?thesis
    using n *(4) by (simp add: stats_def Let_def get_node_def del: height_loop.simps)
qed


section \<open>Balance\<close>

lemma sum_list_bounds:
  assumes "\<forall>x \<in> set xs. a \<le> f x \<and> f x \<le> (b :: nat)"
  shows "length xs * a \<le> sum_list (map f xs) \<and> sum_list (map f xs) \<le> length xs * b"
  using assms by (induction xs) auto

lemma node_ok_entries:
  "node_ok b lo m h t \<Longrightarrow>
   (case h of 0 \<Rightarrow> b | Suc h' \<Rightarrow> (b + 1) * (lo * (lo + 1) ^ h')) \<le> length (ents (inord t)) \<and>
   length (ents (inord t)) \<le> (m - 1) * (m + 1) ^ h"
proof (induction h arbitrary: b t)
  case 0
  then show ?case by (auto elim!: node_ok_cases)
next
  case (Suc h)
  obtain i ks ts where t: "t = BN i ks ts" "b \<le> length ks" "length ks \<le> m" "length ts = Suc (length ks)"
    "\<forall>t \<in> set ts. node_ok lo lo m h t"
    using Suc.prems by (auto elim: node_ok_cases)
  let ?lo = "lo * (lo + 1) ^ h" and ?hi = "(m - 1) * (m + 1) ^ h" and ?n = "\<lambda>t. length (ents (inord t))"
  have "(case h of 0 \<Rightarrow> lo | Suc h' \<Rightarrow> (lo + 1) * (lo * (lo + 1) ^ h')) = ?lo"
    by (cases h) (simp_all add: mult.left_commute)
  then have "\<forall>t \<in> set ts. ?lo \<le> ?n t \<and> ?n t \<le> ?hi"
    using Suc.IH [of lo] t(5) by metis
  from sum_list_bounds [OF this]
  have "length ts * ?lo \<le> sum_list (map ?n ts)" "sum_list (map ?n ts) \<le> length ts * ?hi" by auto
  moreover have "(b + 1) * ?lo \<le> length ts * ?lo" "length ts * ?hi \<le> (m + 1) * ?hi"
    using t(2-4) by (intro mult_right_mono; simp)+
  moreover have "?n t = sum_list (map ?n ts)"
    using t(4) by (simp add: t(1) ents_weave length_concat comp_def)
  ultimately have "(b + 1) * ?lo \<le> ?n t" "?n t \<le> (m + 1) * ?hi" by linarith+
  then show ?case by (simp only: nat.case power_Suc mult.left_commute simp_thms)
qed

section \<open>Properties\<close>

text \<open>
  C1: Refinement. Any sequence of lookups, insertions, deletions and clears on a tree created with
  a usable configuration returns, call by call, exactly what a sorted association list returns, and
  never an error; afterwards the tree satisfies its invariant (balanced, ordered, pointers intact)
  and holds exactly the entries of the list.
\<close>

theorem btree_refines_map:
  assumes "config_ok cfg" "map_run [] calls = (m, answers)"
  shows "\<exists>s. tree_run (BPlusTree_new cfg) calls = (s, map Inr answers) \<and> btree_inv s \<and> tree_entries s = m"
  using tree_run_refines [OF btree_inv_new [OF assms(1)]] tree_entries_new [OF assms(1)] assms(2) by fastforce

theorem btree_refines_map_witness:
  "\<exists>s. tree_run (BPlusTree_new demo_tree_cfg) [TInsert [2] [9], TInsert [1] [8], TDelete [2], TGet [2], TGet [1], TClear, TGet [1]] =
     (s, map Inr [TDone, TDone, TDeleted True, TValue None, TValue (Some [8]), TDone, TValue None]) \<and>
     btree_inv s \<and> tree_entries s = []"
  by (rule btree_refines_map) (simp add: config_ok_def demo_tree_cfg_def, code_simp)

text \<open>
  C10: Scans. A forward scan of a tree in its invariant, from any start bound to any end bound and
  with any limit, returns exactly the entries between the bounds, in key order and each once, cut
  at the limit; one poll per entry plus one reaches its end, and none before that raises an error.
\<close>

theorem btree_forward_scan:
  assumes "btree_inv s" "length (tree_entries s) < fuel"
  shows "\<exists>it. BPlusTreeIterator_new s sb eb False lim = Ok it \<and>
    drain fuel it = (case lim of None \<Rightarrow> \<lambda>xs. xs | Some l \<Rightarrow> take l)
      (filter (\<lambda>e. within_start sb (fst e) \<and> within_end eb (fst e)) (tree_entries s))"
  by (rule forward_scan [OF assms])

theorem btree_forward_scan_witness:
  "\<exists>it. BPlusTreeIterator_new demo_tree (Excluded [2]) (Included [7]) False (Some 3) = Ok it \<and>
     drain 9 it = [([3], [6]), ([4], [8]), ([5], [10])]"
proof -
  have e: "tree_entries demo_tree = map (\<lambda>i. ([of_nat i], [of_nat (2 * i)])) [1, 2, 3, 4, 5, 6, 7, 8]"
    unfolding demo_tree_inv [THEN conjunct2] by code_simp
  show ?thesis
    using btree_forward_scan [of demo_tree 9 "Excluded [2]" "Included [7]" "Some 3"] by (simp add: demo_tree_inv [THEN conjunct1] e)
qed

text \<open>
  C11: Balance. The statistics of a tree in its invariant always return; they count the entries
  exactly; and the height they report is logarithmic in that number: a tree of height \<open>h \<ge> 2\<close> holds
  at least \<open>2 lo (lo + 1)^(h - 2)\<close> keys, and no tree of height \<open>h\<close> holds more than
  \<open>(max - 1) (max + 1)^(h - 1)\<close>, with \<open>lo\<close> the guaranteed occupancy of a node.
\<close>

theorem btree_height_logarithmic:
  assumes "btree_inv s"
  shows "\<exists>st. stats s = Some st \<and> num_keys st = length (tree_entries s) \<and> 1 \<le> height st \<and>
    (2 \<le> height st \<longrightarrow> 2 * (lo_keys (config s) * (lo_keys (config s) + 1) ^ (height st - 2)) \<le> num_keys st) \<and>
    num_keys st \<le> (max_keys (config s) - 1) * (max_keys (config s) + 1) ^ (height st - 1)"
proof -
  obtain h t where t: "tree_inv s h t" using assms by (auto simp: btree_inv_def)
  have "node_ok (root_min h) (lo_keys (config s)) (max_keys (config s)) h t"
    using t by (simp add: tree_inv_def tree_ok_def)
  from node_ok_entries [OF this] stats_exact [OF t] show ?thesis
    by (cases h) (auto simp: tree_entries_eq [OF t] root_min_def)
qed

theorem btree_height_logarithmic_witness:
  "\<exists>st. stats demo_tree = Some st \<and> num_keys st = 8 \<and> height st = 3 \<and> 2 * 2 ^ (height st - 2) \<le> num_keys st \<and>
     num_keys st \<le> 2 * 4 ^ (height st - 1)"
proof -
  have st: "stats demo_tree = Some \<lparr>num_keys = 8, num_internal_nodes = 3, num_leaf_nodes = 5, height = 3\<rparr>"
    and c: "lo_keys (config demo_tree) = 1" "max_keys (config demo_tree) = 3"
    by code_simp+
  show ?thesis
    using btree_height_logarithmic [of demo_tree] by (auto simp: demo_tree_inv st c)
qed

text \<open>
  Reverse scans are not exact. Five insertions give a tree whose forward scan returns all five
  entries. Its reverse scan returns three of them: splitting a leaf does not update the back
  pointer of the leaf that followed it, so the walk jumps over the new leaf. And a reverse scan
  that starts at key 6 returns an entry below 6: the iterator never compares with the start bound.
\<close>

theorem reverse_scan_inexact:
  "scan_entries split_tree Unbounded Unbounded False None 6 =
     Some [([1], []), ([2], []), ([5], []), ([6], []), ([7], [])] \<and>
   scan_entries split_tree Unbounded Unbounded True None 6 = Some [([7], []), ([6], []), ([1], [])] \<and>
   scan_entries split_tree (Included [6]) Unbounded True None 6 = Some [([7], []), ([6], []), ([1], [])]"
proof -
  have start: "find_reverse_start split_tree Unbounded = Ok (Some 1, [([6], []), ([7], [])], 1)" by code_simp
  have leaf: "get_leaf_entries split_tree 0 = Ok [([1], [])]" by code_simp
  have prev: "get_prev_leaf split_tree 1 = Ok (Some 0)" "get_prev_leaf split_tree 0 = Ok None" by code_simp+
  have wrap: "Suc 0 \<le> usize_max" "Suc (Suc 0) \<le> usize_max" by (simp_all add: usize_max_def)
  have six: "6 = Suc (Suc (Suc (Suc (Suc (Suc 0)))))" by simp
  have poll: "poll_next it = poll_loop (Suc (Suc (Suc 0))) it" for it by (simp add: poll_next_def numeral_3_eq_3)
  have "scan_entries split_tree sb Unbounded True None 6 = Some [([7], []), ([6], []), ([1], [])]" for sb
    by (simp add: scan_entries_def BPlusTreeIterator_new_def start poll six wrap
        yield_entry_def prev [simplified] leaf del: find_reverse_start.simps)
  moreover have "scan_entries split_tree Unbounded Unbounded False None 6 =
      Some [([1], []), ([2], []), ([5], []), ([6], []), ([7], [])]" by code_simp
  ultimately show ?thesis by simp
qed

end
