(* ===== verification/Kvt_Error.thy ===== *)
theory Kvt_Error
  imports Core_Shard
begin

text \<open>
  The error type every storage engine returns, \<open>nanograph-kvt/src/error.rs\<close>. Errors of other crates
  that a variant wraps (file system, I/O, log) are represented by their rendering.
\<close>

datatype KeyValueError =
    OutOfMemory
  | KvKeyNotFound
  | KeyExists
  | InvalidKey string
  | InvalidValue string
  | IoError string
  | StdIoError string
  | WalError string
  | StorageCorruption string
  | LockTimeout
  | KvWriteConflict
  | LockPoisoned
  | SnapshotExpired
  | ReadOnly
  | Closed
  | StorageFull
  | KeyTooLarge nat nat
  | ValueTooLarge nat nat
  | Consensus string
  | ShardNotFound ShardId
  | KvInvalidOperation string
  | InvalidSnapshotFormat
  | UnsupportedSnapshotVersion
  | KvSerialization string
  | Deserialization string
  | PermissionDenied nat string string
  | TablespaceQuotaExceeded nat nat
  | KvInternal string
  | TablespaceNotFound nat

text \<open>\<open>map_err\<close>: the error is converted, a panic or divergence is not.\<close>

fun map_fault :: "('e \<Rightarrow> 'f) \<Rightarrow> 'e fault \<Rightarrow> 'f fault" where
  "map_fault h (Raised e) = Raised (h e)"
| "map_fault h Panicked = Panicked"
| "map_fault h Diverged = Diverged"

definition map_err :: "('e \<Rightarrow> 'f) \<Rightarrow> ('e, 'a) res \<Rightarrow> ('f, 'a) res" where
  "map_err h r = (case r of Inl f \<Rightarrow> Inl (map_fault h f) | Inr a \<Rightarrow> Ok a)"

lemma map_err_simps [simp]: "map_err h (Ok a) = Ok a" "map_err h (Err e) = Err (h e)"
  by (simp_all add: map_err_def)

end
