(* ===== verification/Wal_Records.thy ===== *)
theory Wal_Records
  imports Kvt_Error BTree_Tree
begin

text \<open>
  Payloads of the log records: \<open>wal_record.rs\<close> of \<open>nanograph-btree\<close>, \<open>nanograph-art\<close> and
  \<open>nanograph-lsm\<close>. The three crates share the layout of puts and deletes and differ in the error
  type; the LSM crate adds committed operations, commit, checkpoint and flush records. Lengths are
  written as 32-bit little-endian integers, so a payload is decoded to what was encoded if its
  parts are shorter than \<open>2^32\<close> bytes.
\<close>

section \<open>Shared layout\<close>

definition u32_at :: "bytes \<Rightarrow> nat \<Rightarrow> nat" where
  "u32_at payload off = le_value (take 4 (drop off payload))"

definition u64_at :: "bytes \<Rightarrow> nat \<Rightarrow> nat" where
  "u64_at payload off = le_value (take 8 (drop off payload))"

definition slice :: "bytes \<Rightarrow> nat \<Rightarrow> nat \<Rightarrow> bytes" where
  "slice payload off len = take len (drop off payload)"

definition put_layout :: "bytes \<Rightarrow> bytes \<Rightarrow> bytes" where
  "put_layout key val = le_bytes 4 (length key) @ key @ le_bytes 4 (length val) @ val"

definition delete_layout :: "bytes \<Rightarrow> bytes" where
  "delete_layout key = le_bytes 4 (length key) @ key"

definition parse_put :: "(string \<Rightarrow> 'e) \<Rightarrow> bytes \<Rightarrow> ('e, bytes \<times> bytes) res" where
  "parse_put corrupt payload =
     (if length payload < 8 then Err (corrupt ''WAL Put record too short'')
      else let key_len = u32_at payload 0; off = 4 in
        if length payload < off + key_len then Err (corrupt ''WAL Put record key length exceeds payload'')
        else let key = slice payload off key_len; off = off + key_len in
          if length payload < off + 4 then Err (corrupt ''WAL Put record missing value length'')
          else let value_len = u32_at payload off; off = off + 4 in
            if length payload < off + value_len
            then Err (corrupt ''WAL Put record value length exceeds payload'')
            else Ok (key, slice payload off value_len))"

definition parse_delete :: "(string \<Rightarrow> 'e) \<Rightarrow> bytes \<Rightarrow> ('e, bytes) res" where
  "parse_delete corrupt payload =
     (if length payload < 4 then Err (corrupt ''WAL Delete record too short'')
      else let key_len = u32_at payload 0 in
        if length payload < 4 + key_len then Err (corrupt ''WAL Delete record key length exceeds payload'')
        else Ok (slice payload 4 key_len))"

section \<open>Records of the B+tree engine\<close>

datatype WalRecordKind = WPut | WDelete | WCheckpoint | WClear

fun kind_from_u16 :: "u16 \<Rightarrow> WalRecordKind option" where
  "kind_from_u16 v =
     (if v = 1 then Some WPut else if v = 2 then Some WDelete
      else if v = 3 then Some WCheckpoint else if v = 4 then Some WClear else None)"

fun kind_to_u16 :: "WalRecordKind \<Rightarrow> u16" where
  "kind_to_u16 WPut = 1"
| "kind_to_u16 WDelete = 2"
| "kind_to_u16 WCheckpoint = 3"
| "kind_to_u16 WClear = 4"

definition btree_encode_put :: "bytes \<Rightarrow> bytes \<Rightarrow> bytes" where
  "btree_encode_put key val = put_layout key val"

definition btree_decode_put :: "bytes \<Rightarrow> (BTreeError, bytes \<times> bytes) res" where
  "btree_decode_put payload = parse_put InternalError payload"

definition btree_encode_delete :: "bytes \<Rightarrow> bytes" where
  "btree_encode_delete key = delete_layout key"

definition btree_decode_delete :: "bytes \<Rightarrow> (BTreeError, bytes) res" where
  "btree_decode_delete payload = parse_delete InternalError payload"

definition btree_encode_checkpoint :: bytes where
  "btree_encode_checkpoint = []"

definition btree_encode_clear :: bytes where
  "btree_encode_clear = []"

section \<open>Records of the LSM engine\<close>

datatype LsmRecordKind =
  LPut | LDelete | LPutCommitted | LDeleteCommitted | LCommit | LCheckpoint | LFlushComplete

fun lsm_kind_from_u16 :: "u16 \<Rightarrow> LsmRecordKind option" where
  "lsm_kind_from_u16 v =
     (if v = 1 then Some LPut else if v = 2 then Some LDelete
      else if v = 3 then Some LPutCommitted else if v = 4 then Some LDeleteCommitted
      else if v = 5 then Some LCommit else if v = 6 then Some LCheckpoint
      else if v = 7 then Some LFlushComplete else None)"

fun lsm_kind_to_u16 :: "LsmRecordKind \<Rightarrow> u16" where
  "lsm_kind_to_u16 LPut = 1"
| "lsm_kind_to_u16 LDelete = 2"
| "lsm_kind_to_u16 LPutCommitted = 3"
| "lsm_kind_to_u16 LDeleteCommitted = 4"
| "lsm_kind_to_u16 LCommit = 5"
| "lsm_kind_to_u16 LCheckpoint = 6"
| "lsm_kind_to_u16 LFlushComplete = 7"

text \<open>An \<open>i64\<close> is written as its two's complement, the bytes of the 64-bit word.\<close>

type_synonym i64 = u64

definition i64_bytes :: "i64 \<Rightarrow> bytes" where
  "i64_bytes ts = le_bytes 8 (unat ts)"

definition i64_at :: "bytes \<Rightarrow> nat \<Rightarrow> i64" where
  "i64_at payload off = word_of_nat (u64_at payload off)"

definition lsm_encode_put :: "bytes \<Rightarrow> bytes \<Rightarrow> bytes" where
  "lsm_encode_put key val = put_layout key val"

definition lsm_decode_put :: "bytes \<Rightarrow> (KeyValueError, bytes \<times> bytes) res" where
  "lsm_decode_put payload = parse_put StorageCorruption payload"

definition lsm_encode_delete :: "bytes \<Rightarrow> bytes" where
  "lsm_encode_delete key = delete_layout key"

definition lsm_decode_delete :: "bytes \<Rightarrow> (KeyValueError, bytes) res" where
  "lsm_decode_delete payload = parse_delete StorageCorruption payload"

definition encode_put_committed :: "bytes \<Rightarrow> bytes \<Rightarrow> i64 \<Rightarrow> bytes" where
  "encode_put_committed key val ts =
     le_bytes 4 (length key) @ key @ le_bytes 4 (length val) @ val @ i64_bytes ts"

definition decode_put_committed :: "bytes \<Rightarrow> (KeyValueError, bytes \<times> bytes \<times> i64) res" where
  "decode_put_committed payload =
     (if length payload < 16 then Err (StorageCorruption ''WAL PutCommitted record too short'')
      else let key_len = u32_at payload 0; off = 4 in
        if length payload < off + key_len
        then Err (StorageCorruption ''WAL PutCommitted record key length exceeds payload'')
        else let key = slice payload off key_len; off = off + key_len in
          if length payload < off + 4
          then Err (StorageCorruption ''WAL PutCommitted record missing value length'')
          else let value_len = u32_at payload off; off = off + 4 in
            if length payload < off + value_len + 8
            then Err (StorageCorruption ''WAL PutCommitted record value length exceeds payload'')
            else Ok (key, slice payload off value_len, i64_at payload (off + value_len)))"

definition encode_delete_committed :: "bytes \<Rightarrow> i64 \<Rightarrow> bytes" where
  "encode_delete_committed key ts = le_bytes 4 (length key) @ key @ i64_bytes ts"

definition decode_delete_committed :: "bytes \<Rightarrow> (KeyValueError, bytes \<times> i64) res" where
  "decode_delete_committed payload =
     (if length payload < 12 then Err (StorageCorruption ''WAL DeleteCommitted record too short'')
      else let key_len = u32_at payload 0 in
        if length payload < 4 + key_len + 8
        then Err (StorageCorruption ''WAL DeleteCommitted record key length exceeds payload'')
        else Ok (slice payload 4 key_len, i64_at payload (4 + key_len)))"

definition encode_commit :: "i64 \<Rightarrow> bytes" where
  "encode_commit ts = i64_bytes ts"

definition decode_commit :: "bytes \<Rightarrow> (KeyValueError, i64) res" where
  "decode_commit payload =
     (if length payload < 8 then Err (StorageCorruption ''WAL Commit record too short'')
      else Ok (i64_at payload 0))"

definition encode_checkpoint :: "u64 \<Rightarrow> u64 \<Rightarrow> bytes" where
  "encode_checkpoint sequence file_number = le_bytes 8 (unat sequence) @ le_bytes 8 (unat file_number)"

definition decode_checkpoint :: "bytes \<Rightarrow> (KeyValueError, u64 \<times> u64) res" where
  "decode_checkpoint payload =
     (if length payload < 16 then Err (StorageCorruption ''WAL Checkpoint record too short'')
      else Ok (word_of_nat (u64_at payload 0), word_of_nat (u64_at payload 8)))"

definition encode_flush_complete :: "u64 \<Rightarrow> u32 \<Rightarrow> bytes" where
  "encode_flush_complete file_number level = le_bytes 8 (unat file_number) @ le_bytes 4 (unat level)"

definition decode_flush_complete :: "bytes \<Rightarrow> (KeyValueError, u64 \<times> u32) res" where
  "decode_flush_complete payload =
     (if length payload < 12 then Err (StorageCorruption ''WAL FlushComplete record too short'')
      else Ok (word_of_nat (u64_at payload 0), word_of_nat (u32_at payload 8)))"

section \<open>The contract of a payload format\<close>

text \<open>
  A format has an encoder and a decoder that agree on the values it can hold, also when bytes follow.
  Then no encoding is a prefix of another, so distinct operations have distinct payloads.
\<close>

locale payload_format =
  fixes encode :: "'a \<Rightarrow> bytes" and decode :: "bytes \<Rightarrow> ('e, 'a) res" and fits :: "'a \<Rightarrow> bool"
  assumes decode_encode: "fits x \<Longrightarrow> decode (encode x @ rest) = Ok x"
begin

lemma encode_prefix_free: "fits x \<Longrightarrow> fits y \<Longrightarrow> encode x @ r = encode y @ s \<Longrightarrow> x = y \<and> r = s"
  using decode_encode [of x r] decode_encode [of y s] by simp

lemma encode_inj: "fits x \<Longrightarrow> fits y \<Longrightarrow> encode x = encode y \<Longrightarrow> x = y"
  using encode_prefix_free [of x y "[]" "[]"] by simp

lemma decode_exact: "fits x \<Longrightarrow> decode (encode x) = Ok x"
  using decode_encode [of x "[]"] by simp

end

lemmas field_simps_at = u32_at_def u64_at_def slice_def i64_at_def i64_bytes_def

definition short :: "bytes \<Rightarrow> bool" where
  "short bs \<longleftrightarrow> length bs < 2 ^ 32"

lemma parse_put_layout:
  "short key \<Longrightarrow> short val \<Longrightarrow> parse_put corrupt (put_layout key val @ rest) = Ok (key, val)"
  by (simp add: parse_put_def put_layout_def field_simps_at short_def Let_def)

lemma parse_delete_layout: "short key \<Longrightarrow> parse_delete corrupt (delete_layout key @ rest) = Ok key"
  by (simp add: parse_delete_def delete_layout_def field_simps_at short_def Let_def)

interpretation btree_put: payload_format "\<lambda>(k, v). btree_encode_put k v" btree_decode_put "\<lambda>(k, v). short k \<and> short v"
  by unfold_locales (auto simp: btree_encode_put_def btree_decode_put_def parse_put_layout)

interpretation btree_delete: payload_format btree_encode_delete btree_decode_delete short
  by unfold_locales (auto simp: btree_encode_delete_def btree_decode_delete_def parse_delete_layout)

interpretation lsm_put: payload_format "\<lambda>(k, v). lsm_encode_put k v" lsm_decode_put "\<lambda>(k, v). short k \<and> short v"
  by unfold_locales (auto simp: lsm_encode_put_def lsm_decode_put_def parse_put_layout)

interpretation lsm_delete: payload_format lsm_encode_delete lsm_decode_delete short
  by unfold_locales (auto simp: lsm_encode_delete_def lsm_decode_delete_def parse_delete_layout)

lemma decode_put_committed_layout:
  assumes "short key" "short val"
  shows "decode_put_committed (encode_put_committed key val ts @ rest) = Ok (key, val, ts)"
proof -
  let ?p = "encode_put_committed key val ts @ rest"
  have "length ?p = 16 + length key + length val + length rest"
    by (simp add: encode_put_committed_def i64_bytes_def)
  moreover have "u32_at ?p 0 = length key" "slice ?p 4 (length key) = key"
    "u32_at ?p (4 + length key) = length val" "slice ?p (8 + length key) (length val) = val"
    "i64_at ?p (8 + length key + length val) = ts"
    using assms by (simp_all add: encode_put_committed_def field_simps_at short_def)
  ultimately show ?thesis by (simp add: decode_put_committed_def Let_def)
qed

interpretation lsm_put_committed: payload_format "\<lambda>(k, v, ts). encode_put_committed k v ts"
  decode_put_committed "\<lambda>(k, v, ts). short k \<and> short v"
  by unfold_locales (auto simp: decode_put_committed_layout)

interpretation lsm_delete_committed: payload_format "\<lambda>(k, ts). encode_delete_committed k ts"
  decode_delete_committed "\<lambda>(k, ts). short k"
  by unfold_locales
     (clarsimp simp: encode_delete_committed_def decode_delete_committed_def field_simps_at short_def Let_def)

interpretation lsm_commit: payload_format encode_commit decode_commit "\<lambda>_. True"
  by unfold_locales (auto simp: encode_commit_def decode_commit_def field_simps_at)

interpretation lsm_checkpoint: payload_format "\<lambda>(s, f). encode_checkpoint s f" decode_checkpoint "\<lambda>_. True"
  by unfold_locales (auto simp: encode_checkpoint_def decode_checkpoint_def field_simps_at)

interpretation lsm_flush_complete: payload_format "\<lambda>(f, l). encode_flush_complete f l" decode_flush_complete "\<lambda>_. True"
  by unfold_locales (auto simp: encode_flush_complete_def decode_flush_complete_def field_simps_at)

section \<open>Properties\<close>

text \<open>
  C26: Every LSM log payload decodes to the operation it encodes, also when other bytes follow it,
  provided keys and values are shorter than \<open>2^32\<close> bytes.
\<close>

theorem lsm_payload_roundtrip:
  assumes "short key" "short val"
  shows "lsm_decode_put (lsm_encode_put key val @ rest) = Ok (key, val) \<and>
    lsm_decode_delete (lsm_encode_delete key @ rest) = Ok key \<and>
    decode_put_committed (encode_put_committed key val ts @ rest) = Ok (key, val, ts) \<and>
    decode_delete_committed (encode_delete_committed key ts @ rest) = Ok (key, ts) \<and>
    decode_commit (encode_commit ts @ rest) = Ok ts \<and>
    decode_checkpoint (encode_checkpoint sq fno @ rest) = Ok (sq, fno) \<and>
    decode_flush_complete (encode_flush_complete fno lv @ rest) = Ok (fno, lv)"
  using assms lsm_put.decode_encode [of "(key, val)"] lsm_delete.decode_encode [of key]
    lsm_put_committed.decode_encode [of "(key, val, ts)"] lsm_delete_committed.decode_encode [of "(key, ts)"]
    lsm_commit.decode_encode [of ts] lsm_checkpoint.decode_encode [of "(sq, fno)"]
    lsm_flush_complete.decode_encode [of "(fno, lv)"]
  by simp

theorem lsm_payload_roundtrip_witness:
  "decode_put_committed (encode_put_committed [1] [2, 3] 4 @ [9]) = Ok ([1], [2, 3], 4)"
  using lsm_payload_roundtrip [of "[1]" "[2, 3]" "[9]" 4] by (simp add: short_def)

lemma u32_at_take: "off + 4 \<le> n \<Longrightarrow> u32_at (take n p) off = u32_at p off"
  by (simp add: u32_at_def drop_take)

text \<open>
  C27: A torn put record is noticed. Decoding a strict prefix of an encoded put reports an error; it
  neither panics nor yields a shortened key or value.
\<close>

theorem torn_put_detected:
  assumes "short key" "short val" "n < length (btree_encode_put key val)"
  shows "\<exists>msg. btree_decode_put (take n (btree_encode_put key val)) = Err (InternalError msg)"
proof -
  let ?p = "put_layout key val"
  have len: "length ?p = 8 + length key + length val" by (simp add: put_layout_def)
  have fields: "u32_at ?p 0 = length key" "u32_at ?p (4 + length key) = length val"
    using assms(1,2) by (simp_all add: put_layout_def u32_at_def short_def)
  consider "n < 8" | "8 \<le> n" "n < 8 + length key" | "8 + length key \<le> n" "8 \<le> n" by linarith
  then show ?thesis
  proof cases
    case 1
    then show ?thesis using assms(3) len by (simp add: btree_decode_put_def btree_encode_put_def parse_put_def)
  next
    case 2
    then show ?thesis using len u32_at_take [of 0 n ?p]
      by (auto simp: btree_decode_put_def btree_encode_put_def parse_put_def Let_def fields)
  next
    case 3
    then show ?thesis using assms(3) len u32_at_take [of 0 n ?p] u32_at_take [of "4 + length key" n ?p]
      by (auto simp: btree_decode_put_def btree_encode_put_def parse_put_def Let_def fields)
  qed
qed

theorem torn_put_detected_witness:
  "\<exists>msg. btree_decode_put (take 9 (btree_encode_put [1] [2, 3])) = Err (InternalError msg)"
  by (rule torn_put_detected) (simp_all add: short_def btree_encode_put_def put_layout_def)

end
