(* ===== verification/BTree_Txn.thy ===== *)
theory BTree_Txn
  imports BTree_Stats Wal_Records
begin

text \<open>
  Transactions of the B+tree engine, \<open>nanograph-btree/src/transaction.rs\<close>: writes are buffered in a hash
  map and applied to the tree at commit. The tree is held by a weak reference, modelled by an
  identifier that the store resolves (\<open>upgrade\<close>); here the resolved tree is an argument, \<open>None\<close> when it
  is gone. The order of a hash map is the order of its list; no result below depends on it. The
  transaction's timestamp is the clock, an argument.
\<close>

section \<open>Errors\<close>

fun btree_error_text :: "BTreeError \<Rightarrow> string" where
  "btree_error_text KeyNotFound = ''Key not found''"
| "btree_error_text NodeNotFound = ''Node not found''"
| "btree_error_text NodeOverflow = ''Node overflow: too many keys''"
| "btree_error_text NodeUnderflow = ''Node underflow: too few keys''"
| "btree_error_text InvalidNode = ''Invalid node structure''"
| "btree_error_text (InvalidOperation e) = ''Invalid operation: '' @ e"
| "btree_error_text (Io e) = ''IO error: '' @ e"
| "btree_error_text (Serialization e) = ''Serialization error: '' @ e"
| "btree_error_text (Vfs e) = ''VFS error: '' @ e"
| "btree_error_text (Wal e) = ''WAL error: '' @ e"
| "btree_error_text WriteConflict = ''Write conflict''"
| "btree_error_text (InternalError e) = ''Internal error: '' @ e"

fun kv_error :: "BTreeError \<Rightarrow> KeyValueError" where
  "kv_error KeyNotFound = KvKeyNotFound"
| "kv_error (Io e) = IoError e"
| "kv_error (Vfs e) = IoError e"
| "kv_error WriteConflict = KvWriteConflict"
| "kv_error other = StorageCorruption (btree_error_text other)"

section \<open>Transactions\<close>

datatype BTreeWriteOp = BPut bytes bytes | BDelete bytes

record BTreeTransaction =
  btx_id :: u64
  btx_shard :: ShardId
  btx_timestamp :: u64
  btx_tree :: nat
  write_buffer :: "(bytes \<times> BTreeWriteOp) list"
  btx_active :: bool

definition BTreeTransaction_new :: "u64 \<Rightarrow> ShardId \<Rightarrow> u64 \<Rightarrow> nat \<Rightarrow> BTreeTransaction" where
  "BTreeTransaction_new i sh now tree_ref =
     \<lparr>btx_id = i, btx_shard = sh, btx_timestamp = now, btx_tree = tree_ref, write_buffer = [], btx_active = True\<rparr>"

definition upgraded :: "BPlusTree option \<Rightarrow> (KeyValueError, BPlusTree) res" where
  "upgraded t = (case t of Some tree \<Rightarrow> Ok tree | None \<Rightarrow> Err (StorageCorruption ''Tree no longer exists''))"

definition buffer_put :: "BTreeTransaction \<Rightarrow> bytes \<Rightarrow> bytes \<Rightarrow> BTreeTransaction \<times> (KeyValueError, unit) res" where
  "buffer_put tx key val =
     (if \<not> btx_active tx then (tx, Err KvWriteConflict)
      else (tx\<lparr>write_buffer := hm_insert key (BPut key val) (write_buffer tx)\<rparr>, Ok ()))"

definition buffer_delete :: "BTreeTransaction \<Rightarrow> bytes \<Rightarrow> BTreeTransaction \<times> (KeyValueError, unit) res" where
  "buffer_delete tx key =
     (if \<not> btx_active tx then (tx, Err KvWriteConflict)
      else (tx\<lparr>write_buffer := hm_insert key (BDelete key) (write_buffer tx)\<rparr>, Ok ()))"

definition get_writes :: "BTreeTransaction \<Rightarrow> BTreeWriteOp list" where
  "get_writes tx = map snd (write_buffer tx)"

definition mark_committed :: "BTreeTransaction \<Rightarrow> BTreeTransaction" where
  "mark_committed tx = tx\<lparr>btx_active := False\<rparr>"

definition mark_aborted :: "BTreeTransaction \<Rightarrow> BTreeTransaction" where
  "mark_aborted tx = tx\<lparr>btx_active := False\<rparr>"

text \<open>The shard argument of the operations is ignored by the code.\<close>

definition btx_get :: "BTreeTransaction \<Rightarrow> BPlusTree option \<Rightarrow> ShardId \<Rightarrow> bytes \<Rightarrow> (KeyValueError, bytes option) res" where
  "btx_get tx t table key =
     (case map_of (write_buffer tx) key of
        Some (BPut _ val) \<Rightarrow> Ok (Some val)
      | Some (BDelete _) \<Rightarrow> Ok None
      | None \<Rightarrow> (case upgraded t of Inl f \<Rightarrow> Inl f | Inr tree \<Rightarrow> map_err kv_error (BPlusTree_get tree key)))"

definition btx_put :: "BTreeTransaction \<Rightarrow> ShardId \<Rightarrow> bytes \<Rightarrow> bytes \<Rightarrow> BTreeTransaction \<times> (KeyValueError, unit) res" where
  "btx_put tx table key val = (fst (buffer_put tx key val), Ok ())"

definition btx_delete :: "BTreeTransaction \<Rightarrow> ShardId \<Rightarrow> bytes \<Rightarrow> BTreeTransaction \<times> (KeyValueError, bool) res" where
  "btx_delete tx table key = (fst (buffer_delete tx key), Ok True)"

definition btx_scan :: "BTreeTransaction \<Rightarrow> ShardId \<Rightarrow> KeyRange \<Rightarrow> (KeyValueError, unit) res" where
  "btx_scan tx table r =
     (if \<not> btx_active tx then Err KvWriteConflict
      else Err (StorageCorruption
        ''Transaction scan not yet fully implemented - needs B+Tree iterator integration''))"

primrec apply_ops :: "BPlusTree \<Rightarrow> BTreeWriteOp list \<Rightarrow> BPlusTree \<times> (KeyValueError, unit) res" where
  "apply_ops tree [] = (tree, Ok ())"
| "apply_ops tree (op # ops) =
     (case op of
        BPut key val \<Rightarrow>
          (case BPlusTree_insert tree key val of
             (tree', Inl f) \<Rightarrow> (tree', Inl (map_fault kv_error f))
           | (tree', Inr _) \<Rightarrow> apply_ops tree' ops)
      | BDelete key \<Rightarrow>
          (case BPlusTree_delete tree key of
             (tree', Inl f) \<Rightarrow> (tree', Inl (map_fault kv_error f))
           | (tree', Inr _) \<Rightarrow> apply_ops tree' ops))"

definition btx_commit ::
  "BTreeTransaction \<Rightarrow> BPlusTree option \<Rightarrow> BTreeTransaction \<times> BPlusTree option \<times> (KeyValueError, unit) res" where
  "btx_commit tx t =
     (if \<not> btx_active tx then (tx, t, Err KvWriteConflict)
      else case upgraded t of
        Inl f \<Rightarrow> (tx, t, Inl f)
      | Inr tree \<Rightarrow>
          (case apply_ops tree (get_writes tx) of
             (tree', Inl f) \<Rightarrow> (tx, Some tree', Inl f)
           | (tree', Inr _) \<Rightarrow> (mark_committed tx, Some tree', Ok ())))"

definition btx_rollback :: "BTreeTransaction \<Rightarrow> BTreeTransaction \<times> (KeyValueError, unit) res" where
  "btx_rollback tx =
     (if \<not> btx_active tx then (tx, Err KvWriteConflict)
      else (mark_aborted (tx\<lparr>write_buffer := []\<rparr>), Ok ()))"

section \<open>The transaction manager\<close>

record TransactionManager =
  next_tx_id :: u64
  active_transactions :: "(u64 \<times> BTreeTransaction) list"

definition TransactionManager_new :: TransactionManager where
  "TransactionManager_new = \<lparr>next_tx_id = 1, active_transactions = []\<rparr>"

definition tm_begin :: "TransactionManager \<Rightarrow> ShardId \<Rightarrow> u64 \<Rightarrow> nat \<Rightarrow> TransactionManager \<times> BTreeTransaction" where
  "tm_begin m table now tree_ref =
     (let tx = BTreeTransaction_new (next_tx_id m) table now tree_ref
      in (\<lparr>next_tx_id = next_tx_id m + 1, active_transactions = hm_insert (next_tx_id m) tx (active_transactions m)\<rparr>, tx))"

definition get_transaction :: "TransactionManager \<Rightarrow> u64 \<Rightarrow> BTreeTransaction option" where
  "get_transaction m i = map_of (active_transactions m) i"

definition remove_transaction :: "TransactionManager \<Rightarrow> u64 \<Rightarrow> TransactionManager" where
  "remove_transaction m i = m\<lparr>active_transactions := al_del i (active_transactions m)\<rparr>"

definition tm_active_count :: "TransactionManager \<Rightarrow> nat" where
  "tm_active_count m = length (active_transactions m)"

definition cleanup_inactive :: "TransactionManager \<Rightarrow> TransactionManager" where
  "cleanup_inactive m = m\<lparr>active_transactions := filter (\<lambda>(_, tx). btx_active tx) (active_transactions m)\<rparr>"

section \<open>Commits\<close>

fun op_target :: "BTreeWriteOp \<Rightarrow> bytes" where
  "op_target (BPut k v) = k"
| "op_target (BDelete k) = k"

fun op_result :: "BTreeWriteOp \<Rightarrow> bytes option" where
  "op_result (BPut k v) = Some v"
| "op_result (BDelete k) = None"

text \<open>The buffer of a transaction: one operation per key, filed under its key.\<close>

definition btx_ok :: "BTreeTransaction \<Rightarrow> bool" where
  "btx_ok tx \<longleftrightarrow> distinct (map fst (write_buffer tx)) \<and> (\<forall>p \<in> set (write_buffer tx). op_target (snd p) = fst p)"

lemma btx_ok_new: "btx_ok (BTreeTransaction_new i sh now r)"
  by (simp add: btx_ok_def BTreeTransaction_new_def)

lemma btx_ok_buffered:
  assumes "btx_ok tx"
  shows "btx_ok (fst (btx_put tx sh k v))" "btx_ok (fst (btx_delete tx sh k))"
  using assms set_hm_insert [of k "BPut k v" "write_buffer tx"] set_hm_insert [of k "BDelete k" "write_buffer tx"]
  by (auto simp: btx_ok_def btx_put_def btx_delete_def buffer_put_def buffer_delete_def hm_insert_distinct)

lemma apply_ops_correct:
  assumes "btree_inv tree" "distinct (map op_target ops)"
  shows "\<exists>tree'. apply_ops tree ops = (tree', Ok ()) \<and> btree_inv tree' \<and> config tree' = config tree \<and>
    (\<forall>k. map_of (tree_entries tree') k =
      (case find (\<lambda>op. op_target op = k) ops of Some op \<Rightarrow> op_result op | None \<Rightarrow> map_of (tree_entries tree) k))"
  using assms
proof (induction ops arbitrary: tree)
  case (Cons op ops)
  obtain t1 where t1: "apply_ops tree (op # ops) = apply_ops t1 ops" "btree_inv t1" "config t1 = config tree"
    "\<And>k. map_of (tree_entries t1) k = (if op_target op = k then op_result op else map_of (tree_entries tree) k)"
  proof (cases op)
    case (BPut k v)
    obtain t1 where t1: "BPlusTree_insert tree k v = (t1, Ok ())" "btree_inv t1" "config t1 = config tree"
      "tree_entries t1 = al_put k v (tree_entries tree)"
      using BPlusTree_insert_correct [OF Cons.prems(1)] by metis
    show thesis by (rule that [of t1]) (use BPut t1 in auto)
  next
    case (BDelete k)
    obtain t1 b where t1: "BPlusTree_delete tree k = (t1, Ok b)" "btree_inv t1" "config t1 = config tree"
      "tree_entries t1 = al_del k (tree_entries tree)"
      using BPlusTree_delete_correct [OF Cons.prems(1)] by metis
    show thesis by (rule that [of t1]) (use BDelete t1 in auto)
  qed
  have absent: "find (\<lambda>o'. op_target o' = op_target op) ops = None"
    using Cons.prems(2) by (simp add: find_None_iff) (metis image_eqI)
  from Cons.IH [OF t1(2)] Cons.prems(2) obtain t2 where
    t2: "apply_ops t1 ops = (t2, Ok ())" "btree_inv t2" "config t2 = config t1"
    "\<forall>k. map_of (tree_entries t2) k =
      (case find (\<lambda>op. op_target op = k) ops of Some op \<Rightarrow> op_result op | None \<Rightarrow> map_of (tree_entries t1) k)" by auto
  have "map_of (tree_entries t2) k =
    (case find (\<lambda>op. op_target op = k) (op # ops) of Some op \<Rightarrow> op_result op | None \<Rightarrow> map_of (tree_entries tree) k)" for k
    using t2(4) t1(4) [of k] absent by (cases "op_target op = k") (auto split: option.split)
  with t1 t2 show ?case by (intro exI [of _ t2]) simp
qed simp

lemma find_buffer:
  assumes "btx_ok tx"
  shows "find (\<lambda>op. op_target op = k) (get_writes tx) = map_of (write_buffer tx) k"
proof -
  have "\<forall>p \<in> set es. op_target (snd p) = fst p \<Longrightarrow> find (\<lambda>op. op_target op = k) (map snd es) = map_of es k" for es
    by (induction es) auto
  with assms show ?thesis by (simp add: btx_ok_def get_writes_def)
qed

lemma writes_distinct: "btx_ok tx \<Longrightarrow> distinct (map op_target (get_writes tx))"
proof -
  assume ok: "btx_ok tx"
  then have "map op_target (get_writes tx) = map fst (write_buffer tx)" by (auto simp: btx_ok_def get_writes_def)
  with ok show ?thesis by (simp add: btx_ok_def)
qed

text \<open>
  C12: A commit of a B+tree transaction publishes what the transaction read. While its tree exists, a
  commit of an active transaction succeeds, keeps the tree's invariant, and every later lookup in the tree
  returns what the transaction would have returned for that key just before; the transaction is
  then closed. In particular the order in which the hash map yields the buffered writes is
  irrelevant.
\<close>

theorem btree_commit_publishes:
  assumes "btree_inv tree" "btx_ok tx" "btx_active tx"
  shows "\<exists>tree' tx'. btx_commit tx (Some tree) = (tx', Some tree', Ok ()) \<and> btree_inv tree' \<and> \<not> btx_active tx' \<and>
    (\<forall>sh k. map_err kv_error (BPlusTree_get tree' k) = btx_get tx (Some tree) sh k)"
proof -
  obtain tree' where t: "apply_ops tree (get_writes tx) = (tree', Ok ())" "btree_inv tree'"
    "\<forall>k. map_of (tree_entries tree') k =
      (case find (\<lambda>op. op_target op = k) (get_writes tx) of Some op \<Rightarrow> op_result op | None \<Rightarrow> map_of (tree_entries tree) k)"
    using apply_ops_correct [OF assms(1) writes_distinct [OF assms(2)]] by metis
  have "map_err kv_error (BPlusTree_get tree' k) = btx_get tx (Some tree) sh k" for sh k
    using t(3) BPlusTree_get_correct [OF t(2)] BPlusTree_get_correct [OF assms(1)]
    by (auto simp: btx_get_def upgraded_def find_buffer [OF assms(2)] split: option.split BTreeWriteOp.split)
  with t assms(3) show ?thesis by (simp add: btx_commit_def upgraded_def mark_committed_def)
qed

theorem btree_commit_publishes_witness:
  "\<exists>tree' tx'. btx_commit (fst (btx_delete (fst (btx_put (BTreeTransaction_new 1 7 0 0) 7 [9] [1])) 7 [3])) (Some demo_tree) =
       (tx', Some tree', Ok ()) \<and>
     map_err kv_error (BPlusTree_get tree' [9]) = Ok (Some [1]) \<and> map_err kv_error (BPlusTree_get tree' [3]) = Ok None"
proof -
  let ?tx = "fst (btx_delete (fst (btx_put (BTreeTransaction_new 1 7 0 0) 7 [9] [1])) 7 [3])"
  have "btx_ok ?tx" by (intro btx_ok_buffered btx_ok_new)
  moreover have "btx_active ?tx" by code_simp
  moreover have "btx_get ?tx (Some demo_tree) 7 [9] = Ok (Some [1])" "btx_get ?tx (Some demo_tree) 7 [3] = Ok None"
    by code_simp+
  ultimately show ?thesis
    using btree_commit_publishes [OF demo_tree_inv [THEN conjunct1], of ?tx] by fastforce
qed

text \<open>
  A write after the transaction has ended is lost silently. Put and delete on a committed or rolled
  back transaction report success and change nothing, although the buffer they call refuses with a
  write conflict.
\<close>

theorem write_after_end_silent:
  assumes "btx_rollback tx = (tx', Ok ())"
  shows "btx_put tx' sh k v = (tx', Ok ()) \<and> btx_delete tx' sh k = (tx', Ok True) \<and>
    snd (buffer_put tx' k v) = Err KvWriteConflict"
  using assms
  by (auto simp: btx_rollback_def mark_aborted_def btx_put_def btx_delete_def buffer_put_def buffer_delete_def split: if_splits)

theorem write_after_end_silent_witness:
  "let tx' = fst (btx_rollback (BTreeTransaction_new 1 7 0 0))
   in btx_put tx' 7 [1] [2] = (tx', Ok ()) \<and> btx_delete tx' 7 [1] = (tx', Ok True) \<and>
      snd (buffer_put tx' [1] [2]) = Err KvWriteConflict"
  unfolding Let_def by (rule write_after_end_silent [of "BTreeTransaction_new 1 7 0 0"]) code_simp

end
