(* ===== verification/BTree_Metrics.thy ===== *)
theory BTree_Metrics
  imports NG_Prelude
begin

text \<open>
  The operation counters of the B+tree engine, \<open>nanograph-btree/src/metrics.rs\<close>. A counter is a 64-bit
  word, \<open>fetch_add\<close> wraps. The quotients (hit rate, average scan size) are floating point and are not
  modelled.
\<close>

record BTreeMetrics =
  reads :: u64
  read_hits :: u64
  read_misses :: u64
  writes :: u64
  updates :: u64
  deletes :: u64
  node_splits :: u64
  node_merges :: u64
  node_reads :: u64
  node_writes :: u64
  height_changes :: u64
  rebalances :: u64
  scans :: u64
  scan_entries_returned :: u64

definition BTreeMetrics_new :: BTreeMetrics where
  "BTreeMetrics_new =
     \<lparr>reads = 0, read_hits = 0, read_misses = 0, writes = 0, updates = 0, deletes = 0, node_splits = 0,
      node_merges = 0, node_reads = 0, node_writes = 0, height_changes = 0, rebalances = 0, scans = 0,
      scan_entries_returned = 0\<rparr>"

definition record_read :: "bool \<Rightarrow> BTreeMetrics \<Rightarrow> BTreeMetrics" where
  "record_read found m =
     (let m = m\<lparr>reads := reads m + 1\<rparr>
      in if found then m\<lparr>read_hits := read_hits m + 1\<rparr> else m\<lparr>read_misses := read_misses m + 1\<rparr>)"

definition record_write :: "bool \<Rightarrow> BTreeMetrics \<Rightarrow> BTreeMetrics" where
  "record_write is_update m =
     (let m = m\<lparr>writes := writes m + 1\<rparr>
      in if is_update then m\<lparr>updates := updates m + 1\<rparr> else m)"

definition record_delete :: "BTreeMetrics \<Rightarrow> BTreeMetrics" where
  "record_delete m = m\<lparr>deletes := deletes m + 1\<rparr>"

definition record_node_split :: "BTreeMetrics \<Rightarrow> BTreeMetrics" where
  "record_node_split m = m\<lparr>node_splits := node_splits m + 1\<rparr>"

definition record_node_merge :: "BTreeMetrics \<Rightarrow> BTreeMetrics" where
  "record_node_merge m = m\<lparr>node_merges := node_merges m + 1\<rparr>"

definition record_node_read :: "BTreeMetrics \<Rightarrow> BTreeMetrics" where
  "record_node_read m = m\<lparr>node_reads := node_reads m + 1\<rparr>"

definition record_node_write :: "BTreeMetrics \<Rightarrow> BTreeMetrics" where
  "record_node_write m = m\<lparr>node_writes := node_writes m + 1\<rparr>"

definition record_height_change :: "BTreeMetrics \<Rightarrow> BTreeMetrics" where
  "record_height_change m = m\<lparr>height_changes := height_changes m + 1\<rparr>"

definition record_rebalance :: "BTreeMetrics \<Rightarrow> BTreeMetrics" where
  "record_rebalance m = m\<lparr>rebalances := rebalances m + 1\<rparr>"

definition record_scan :: "u64 \<Rightarrow> BTreeMetrics \<Rightarrow> BTreeMetrics" where
  "record_scan entries_returned m =
     m\<lparr>scans := scans m + 1, scan_entries_returned := scan_entries_returned m + entries_returned\<rparr>"

definition metrics_reset :: "BTreeMetrics \<Rightarrow> BTreeMetrics" where
  "metrics_reset m =
     m\<lparr>reads := 0, read_hits := 0, read_misses := 0, writes := 0, updates := 0, deletes := 0, node_splits := 0,
       node_merges := 0, node_reads := 0, node_writes := 0, height_changes := 0, rebalances := 0, scans := 0,
       scan_entries_returned := 0\<rparr>"

text \<open>Every read is a hit or a miss, modulo the wrap-around of the counters.\<close>

definition metrics_ok :: "BTreeMetrics \<Rightarrow> bool" where
  "metrics_ok m \<longleftrightarrow> reads m = read_hits m + read_misses m"

lemma metrics_ok_steps:
  "metrics_ok BTreeMetrics_new" "metrics_ok m \<Longrightarrow> metrics_ok (record_read b m)"
  "metrics_ok m \<Longrightarrow> metrics_ok (record_write b m)" "metrics_ok m \<Longrightarrow> metrics_ok (record_delete m)"
  "metrics_ok m \<Longrightarrow> metrics_ok (record_scan n m)" "metrics_ok (metrics_reset m)"
  by (simp_all add: metrics_ok_def BTreeMetrics_new_def record_read_def record_write_def record_delete_def
      record_scan_def metrics_reset_def Let_def)

lemma reset_is_new: "metrics_reset m = BTreeMetrics_new"
  by (simp add: metrics_reset_def BTreeMetrics_new_def)

end
