(* ===== verification/Util_Integrity.thy ===== *)
theory Util_Integrity
  imports NG_Prelude
begin

text \<open>
  Checksums and algorithm identifiers, \<open>nanograph-util/src/integrity.rs\<close>, \<open>compression.rs\<close> and
  \<open>encryption.rs\<close>. The hash functions come from the crates \<open>crc\<close> and \<open>xxhash-rust\<close>; they are the
  fields of a record that the definitions take as an argument. An incremental hasher is used for
  the concatenation of its chunks.
\<close>

record hash_lib =
  crc32_cksum :: "bytes \<Rightarrow> u32"
  xxh32 :: "bytes \<Rightarrow> u32"

datatype IntegrityAlgorithm = IntegrityNone | Crc32c | XXHash32

fun integrity_as_u8 :: "IntegrityAlgorithm \<Rightarrow> u8" where
  "integrity_as_u8 IntegrityNone = 0"
| "integrity_as_u8 Crc32c = 1"
| "integrity_as_u8 XXHash32 = 2"

definition integrity_from_u8 :: "u8 \<Rightarrow> IntegrityAlgorithm option" where
  "integrity_from_u8 v =
     (if v = 0 then Some IntegrityNone else if v = 1 then Some Crc32c
      else if v = 2 then Some XXHash32 else None)"

fun integrity_hash_size :: "IntegrityAlgorithm \<Rightarrow> nat" where
  "integrity_hash_size IntegrityNone = 0"
| "integrity_hash_size Crc32c = 4"
| "integrity_hash_size XXHash32 = 4"

datatype IntegrityHash = NoHash | Hash32 u32

fun integrity_hash :: "hash_lib \<Rightarrow> IntegrityAlgorithm \<Rightarrow> bytes \<Rightarrow> IntegrityHash" where
  "integrity_hash H IntegrityNone data = NoHash"
| "integrity_hash H Crc32c data = Hash32 (crc32_cksum H data)"
| "integrity_hash H XXHash32 data = Hash32 (xxh32 H data)"

fun hash_as_u32 :: "IntegrityHash \<Rightarrow> u32 option" where
  "hash_as_u32 (Hash32 v) = Some v"
| "hash_as_u32 NoHash = None"

datatype UtilError = Compression string | Decompression string | IntegrityCheckFailed u32 u32 | InvalidAlgorithm u8

definition integrity_verify :: "hash_lib \<Rightarrow> IntegrityAlgorithm \<Rightarrow> bytes \<Rightarrow> IntegrityHash \<Rightarrow> (UtilError, unit) res" where
  "integrity_verify H alg data expected =
     (let actual = integrity_hash H alg data
      in if actual = expected then Ok ()
         else case (expected, actual) of
                (Hash32 e, Hash32 a) \<Rightarrow> Err (IntegrityCheckFailed e a)
              | _ \<Rightarrow> Err (IntegrityCheckFailed 0 0))"

fun hash_to_bytes :: "IntegrityHash \<Rightarrow> bytes" where
  "hash_to_bytes NoHash = []"
| "hash_to_bytes (Hash32 v) = le_bytes 4 (unat v)"

fun hash_from_bytes :: "IntegrityAlgorithm \<Rightarrow> bytes \<Rightarrow> (UtilError, IntegrityHash) res" where
  "hash_from_bytes IntegrityNone bs =
     (if bs \<noteq> [] then Err (InvalidAlgorithm (integrity_as_u8 IntegrityNone)) else Ok NoHash)"
| "hash_from_bytes alg bs =
     (if length bs \<noteq> 4 then Err (InvalidAlgorithm (integrity_as_u8 alg))
      else Ok (Hash32 (word_of_nat (le_value bs))))"

datatype CompressionAlgorithm = CompressionNone | Lz4 | Zstd | Snappy

fun compression_as_u8 :: "CompressionAlgorithm \<Rightarrow> u8" where
  "compression_as_u8 CompressionNone = 0"
| "compression_as_u8 Lz4 = 1"
| "compression_as_u8 Zstd = 2"
| "compression_as_u8 Snappy = 3"

definition compression_from_u8 :: "u8 \<Rightarrow> CompressionAlgorithm option" where
  "compression_from_u8 v =
     (if v = 0 then Some CompressionNone else if v = 1 then Some Lz4
      else if v = 2 then Some Zstd else if v = 3 then Some Snappy else None)"

datatype EncryptionAlgorithm = EncryptionNone | Aes256Gcm | ChaCha20Poly1305

fun encryption_as_u8 :: "EncryptionAlgorithm \<Rightarrow> u8" where
  "encryption_as_u8 EncryptionNone = 0"
| "encryption_as_u8 Aes256Gcm = 1"
| "encryption_as_u8 ChaCha20Poly1305 = 2"

definition encryption_from_u8 :: "u8 \<Rightarrow> EncryptionAlgorithm option" where
  "encryption_from_u8 v =
     (if v = 0 then Some EncryptionNone else if v = 1 then Some Aes256Gcm
      else if v = 2 then Some ChaCha20Poly1305 else None)"

lemma algorithm_ids [simp]:
  "integrity_from_u8 (integrity_as_u8 i) = Some i"
  "compression_from_u8 (compression_as_u8 c) = Some c"
  "encryption_from_u8 (encryption_as_u8 e) = Some e"
  by (cases i; cases c; cases e; simp add: integrity_from_u8_def compression_from_u8_def encryption_from_u8_def)+

lemma verify_hash: "integrity_verify H alg data (integrity_hash H alg data) = Ok ()"
  by (simp add: integrity_verify_def)

lemma hash_bytes_roundtrip:
  "hash_from_bytes alg (hash_to_bytes (integrity_hash H alg data)) = Ok (integrity_hash H alg data)"
  by (cases alg) simp_all

end
