(* ===== verification/Wal.thy ===== *)
theory Wal
  imports Util_Integrity
begin

text \<open>
  The write-ahead log, \<open>nanograph-wal\<close>: segment header (\<open>walfile.rs\<close>), appending records
  (\<open>walfile.rs\<close>, \<open>writer.rs\<close>), reading them back (\<open>reader.rs\<close>) and the manager (\<open>manager.rs\<close>). The
  file under a segment is the in-memory file of \<open>nanograph-vfs/src/memoryfs.rs\<close>, a byte vector; its
  writes do not fail. Metrics are not modelled; the creation time is an argument.
\<close>

section \<open>In-memory files\<close>

type_synonym mem_file = bytes

definition mf_size :: "mem_file \<Rightarrow> nat" where
  "mf_size f = length f"

text \<open>\<open>end - off\<close> underflows, a panic, when the offset is past the end of the file: \<open>None\<close>.\<close>

definition mf_read_at :: "mem_file \<Rightarrow> nat \<Rightarrow> nat \<Rightarrow> bytes option" where
  "mf_read_at f pos n = (if length f < pos then None else Some (take n (drop pos f)))"

definition mf_write_to :: "mem_file \<Rightarrow> nat \<Rightarrow> bytes \<Rightarrow> mem_file" where
  "mf_write_to f pos buf =
     (let end = pos + length buf;
          f' = (if length f < end then f @ replicate (end - length f) 0 else f)
      in take pos f' @ buf @ drop end f')"

definition mf_set_size :: "mem_file \<Rightarrow> nat \<Rightarrow> mem_file" where
  "mf_set_size f n = (if n \<le> length f then take n f else f @ replicate (n - length f) 0)"

section \<open>Segment header\<close>

record LogSequenceNumber =
  lsn_segment_id :: u64
  lsn_offset :: nat

datatype WriteAheadLogError =
    WalFileSystem string
  | Corruption LogSequenceNumber
  | InvalidLsn
  | VersionMismatch
  | WrappedError string
  | ChecksumMismatch
  | WalLockPoisoned

text \<open>
  \<open>Display\<close> of an error is its derived \<open>Debug\<close> rendering; an error of another crate inside a variant is
  represented by its own rendering.
\<close>

definition lsn_text :: "LogSequenceNumber \<Rightarrow> string" where
  "lsn_text lsn =
     ''LogSequenceNumber { segment_id: '' @ nat_to_string (unat (lsn_segment_id lsn)) @
     '', offset: '' @ nat_to_string (lsn_offset lsn) @ '' }''"

fun wal_error_text :: "WriteAheadLogError \<Rightarrow> string" where
  "wal_error_text (WalFileSystem e) = ''FileSystem('' @ e @ '')''"
| "wal_error_text (Corruption lsn) = ''Corruption { lsn: '' @ lsn_text lsn @ '' }''"
| "wal_error_text InvalidLsn = ''InvalidLsn''"
| "wal_error_text VersionMismatch = ''VersionMismatch''"
| "wal_error_text (WrappedError e) = ''WrappedError('' @ e @ '')''"
| "wal_error_text ChecksumMismatch = ''ChecksumMismatch''"
| "wal_error_text WalLockPoisoned = ''LockPoisoned''"

definition SEGMENT_MAGIC :: nat where "SEGMENT_MAGIC = 0x474e414e"
definition RECORD_MAGIC :: nat where "RECORD_MAGIC = 0x474e414f"

definition HEADER_SIZE :: nat where
  "HEADER_SIZE = 4 + 2 + 16 + 8 + 8 + 8 + 1 + 1 + 1 + 16 + 4"

definition LSN_ZERO :: LogSequenceNumber where
  "LSN_ZERO = \<lparr>lsn_segment_id = 0, lsn_offset = HEADER_SIZE\<rparr>"

record WriteAheadLogSegmentHeader =
  sh_version :: u16
  sh_shard_id :: u128
  sh_segment_id :: u64
  sh_start_offset :: u64
  sh_created_at_unix_ms :: u64
  sh_integrity :: IntegrityAlgorithm
  sh_compression :: CompressionAlgorithm
  sh_encryption :: EncryptionAlgorithm
  sh_encryption_key_id :: u128
  sh_checksum :: u32

definition checksum32 :: "hash_lib \<Rightarrow> IntegrityAlgorithm \<Rightarrow> bytes \<Rightarrow> u32" where
  "checksum32 H alg data = (case hash_as_u32 (integrity_hash H alg data) of Some v \<Rightarrow> v | None \<Rightarrow> 0)"

text \<open>The bytes \<open>0x00..0x31\<close> that the header checksum covers.\<close>

definition header_fields :: "WriteAheadLogSegmentHeader \<Rightarrow> bytes" where
  "header_fields h =
     be_bytes 4 SEGMENT_MAGIC @ be_bytes 2 (unat (sh_version h)) @ be_bytes 16 (unat (sh_shard_id h)) @
     be_bytes 8 (unat (sh_segment_id h)) @ be_bytes 8 (unat (sh_start_offset h)) @
     be_bytes 8 (unat (sh_created_at_unix_ms h)) @
     [integrity_as_u8 (sh_integrity h), compression_as_u8 (sh_compression h), encryption_as_u8 (sh_encryption h)]"

text \<open>\<open>encode\<close> fills the first 69 bytes of the buffer and panics on a shorter one.\<close>

definition header_encode :: "hash_lib \<Rightarrow> WriteAheadLogSegmentHeader \<Rightarrow> bytes \<Rightarrow> ('e, bytes) res" where
  "header_encode H h buffer =
     (if length buffer < HEADER_SIZE then Inl Panicked
      else Ok (header_fields h @ be_bytes 16 (unat (sh_encryption_key_id h)) @
               be_bytes 4 (unat (checksum32 H (sh_integrity h) (header_fields h))) @ drop HEADER_SIZE buffer))"

definition be_at :: "bytes \<Rightarrow> nat \<Rightarrow> nat \<Rightarrow> nat" where
  "be_at buffer off n = be_value (take n (drop off buffer))"

definition header_decode :: "hash_lib \<Rightarrow> bytes \<Rightarrow> (WriteAheadLogError, WriteAheadLogSegmentHeader) res" where
  "header_decode H buffer =
     (if length buffer < HEADER_SIZE then Err InvalidLsn
      else if be_at buffer 0 4 \<noteq> SEGMENT_MAGIC then Err VersionMismatch
      else case integrity_from_u8 (buffer ! 0x2E) of
        None \<Rightarrow> Err VersionMismatch
      | Some integrity \<Rightarrow>
          (case compression_from_u8 (buffer ! 0x2F) of
             None \<Rightarrow> Err VersionMismatch
           | Some compression \<Rightarrow>
               (case encryption_from_u8 (buffer ! 0x30) of
                  None \<Rightarrow> Err VersionMismatch
                | Some encryption \<Rightarrow>
                    let read_checksum = word_of_nat (be_at buffer 0x41 4) in
                    if integrity \<noteq> IntegrityNone \<and> read_checksum \<noteq> checksum32 H integrity (take 0x31 buffer)
                    then Err ChecksumMismatch
                    else Ok \<lparr>sh_version = word_of_nat (be_at buffer 0x04 2),
                             sh_shard_id = word_of_nat (be_at buffer 0x06 16),
                             sh_segment_id = word_of_nat (be_at buffer 0x16 8),
                             sh_start_offset = word_of_nat (be_at buffer 0x1E 8),
                             sh_created_at_unix_ms = word_of_nat (be_at buffer 0x26 8),
                             sh_integrity = integrity, sh_compression = compression,
                             sh_encryption = encryption,
                             sh_encryption_key_id = word_of_nat (be_at buffer 0x31 16),
                             sh_checksum = read_checksum\<rparr>)))"

section \<open>Segment files\<close>

record WriteAheadLogFile =
  wf_file :: mem_file
  wf_shard_id :: u128
  wf_segment_id :: u64
  wf_start_offset :: u64
  wf_write_offset :: nat
  wf_integrity :: IntegrityAlgorithm

definition new_header ::
  "u64 \<Rightarrow> u128 \<Rightarrow> u64 \<Rightarrow> u64 \<Rightarrow> IntegrityAlgorithm \<Rightarrow> CompressionAlgorithm \<Rightarrow> EncryptionAlgorithm \<Rightarrow> u128 \<Rightarrow>
   WriteAheadLogSegmentHeader" where
  "new_header now shard_id segment_id start_offset integrity compression encryption key_id =
     \<lparr>sh_version = 1, sh_shard_id = shard_id, sh_segment_id = segment_id, sh_start_offset = start_offset,
      sh_created_at_unix_ms = now, sh_integrity = integrity, sh_compression = compression,
      sh_encryption = encryption, sh_encryption_key_id = key_id, sh_checksum = 0\<rparr>"

definition walfile_create ::
  "hash_lib \<Rightarrow> u64 \<Rightarrow> mem_file \<Rightarrow> u128 \<Rightarrow> u64 \<Rightarrow> u64 \<Rightarrow> IntegrityAlgorithm \<Rightarrow> CompressionAlgorithm \<Rightarrow>
   EncryptionAlgorithm \<Rightarrow> u128 \<Rightarrow> (WriteAheadLogError, WriteAheadLogFile) res" where
  "walfile_create H now file shard_id segment_id start_offset integrity compression encryption key_id =
     (case header_encode H (new_header now shard_id segment_id start_offset integrity compression encryption key_id)
             (replicate HEADER_SIZE 0) of
        Inl f \<Rightarrow> Inl f
      | Inr buffer \<Rightarrow>
          Ok \<lparr>wf_file = mf_write_to file 0 buffer, wf_shard_id = shard_id, wf_segment_id = segment_id,
              wf_start_offset = start_offset, wf_write_offset = HEADER_SIZE, wf_integrity = integrity\<rparr>)"

text \<open>A short read leaves the rest of the zeroed buffer.\<close>

definition walfile_open_existing :: "hash_lib \<Rightarrow> mem_file \<Rightarrow> (WriteAheadLogError, WriteAheadLogFile) res" where
  "walfile_open_existing H file =
     (case mf_read_at file 0 HEADER_SIZE of
        None \<Rightarrow> Inl Panicked
      | Some got \<Rightarrow>
          (case header_decode H (got @ replicate (HEADER_SIZE - length got) 0) of
             Inl f \<Rightarrow> Inl f
           | Inr h \<Rightarrow>
               Ok \<lparr>wf_file = file, wf_shard_id = sh_shard_id h, wf_segment_id = sh_segment_id h,
                   wf_start_offset = sh_start_offset h, wf_write_offset = mf_size file,
                   wf_integrity = sh_integrity h\<rparr>))"

definition walfile_start_lsn :: "WriteAheadLogFile \<Rightarrow> LogSequenceNumber" where
  "walfile_start_lsn f = \<lparr>lsn_segment_id = wf_segment_id f, lsn_offset = unat (wf_start_offset f)\<rparr>"

definition walfile_tail_lsn :: "WriteAheadLogFile \<Rightarrow> LogSequenceNumber" where
  "walfile_tail_lsn f = \<lparr>lsn_segment_id = wf_segment_id f, lsn_offset = wf_write_offset f\<rparr>"

record WriteAheadLogRecord =
  wr_kind :: u16
  wr_payload :: bytes

definition record_body :: "WriteAheadLogRecord \<Rightarrow> bytes" where
  "record_body r =
     be_bytes 4 RECORD_MAGIC @ be_bytes 2 (unat (wr_kind r)) @ be_bytes 4 (length (wr_payload r)) @ wr_payload r"

definition record_image :: "hash_lib \<Rightarrow> IntegrityAlgorithm \<Rightarrow> WriteAheadLogRecord \<Rightarrow> bytes" where
  "record_image H alg r = record_body r @ be_bytes 4 (unat (checksum32 H alg (record_body r)))"

definition walfile_append ::
  "hash_lib \<Rightarrow> WriteAheadLogFile \<Rightarrow> WriteAheadLogRecord \<Rightarrow>
   WriteAheadLogFile \<times> (WriteAheadLogError, LogSequenceNumber) res" where
  "walfile_append H f r =
     (let lsn = \<lparr>lsn_segment_id = wf_segment_id f, lsn_offset = wf_write_offset f\<rparr>;
          buffer = record_image H (wf_integrity f) r
      in (f\<lparr>wf_file := mf_write_to (wf_file f) (wf_write_offset f) buffer,
             wf_write_offset := wf_write_offset f + length buffer\<rparr>, Ok lsn))"

text \<open>\<open>flush\<close> and \<open>sync\<close> of an in-memory file do nothing, so the durability level makes no difference.\<close>

datatype Durability = DurabilityNone | Buffered | Sync

definition writer_append ::
  "hash_lib \<Rightarrow> WriteAheadLogFile \<Rightarrow> WriteAheadLogRecord \<Rightarrow> Durability \<Rightarrow>
   WriteAheadLogFile \<times> (WriteAheadLogError, LogSequenceNumber) res" where
  "writer_append H f r durability = walfile_append H f r"

primrec append_loop ::
  "hash_lib \<Rightarrow> WriteAheadLogFile \<Rightarrow> LogSequenceNumber \<Rightarrow> WriteAheadLogRecord list \<Rightarrow>
   WriteAheadLogFile \<times> (WriteAheadLogError, LogSequenceNumber) res" where
  "append_loop H f last_lsn [] = (f, Ok last_lsn)"
| "append_loop H f last_lsn (r # rs) = and_then (walfile_append H f r) (\<lambda>f' lsn. append_loop H f' lsn rs)"

definition writer_append_batch ::
  "hash_lib \<Rightarrow> WriteAheadLogFile \<Rightarrow> WriteAheadLogRecord list \<Rightarrow> Durability \<Rightarrow>
   WriteAheadLogFile \<times> (WriteAheadLogError, LogSequenceNumber) res" where
  "writer_append_batch H f rs durability = append_loop H f LSN_ZERO rs"

section \<open>Reader\<close>

record WriteAheadLogReader =
  rd_segment_id :: u64
  rd_offset :: nat
  rd_integrity :: IntegrityAlgorithm

record WriteAheadLogEntry =
  en_lsn :: LogSequenceNumber
  en_kind :: u16
  en_payload :: bytes

definition walfile_reader_from_offset :: "WriteAheadLogFile \<Rightarrow> nat \<Rightarrow> WriteAheadLogReader" where
  "walfile_reader_from_offset f off =
     \<lparr>rd_segment_id = wf_segment_id f, rd_offset = off, rd_integrity = wf_integrity f\<rparr>"

lemma reader_from_offset_simps [simp]:
  "rd_segment_id (walfile_reader_from_offset f off) = wf_segment_id f"
  "rd_offset (walfile_reader_from_offset f off) = off"
  "rd_integrity (walfile_reader_from_offset f off) = wf_integrity f"
  by (simp_all add: walfile_reader_from_offset_def)

definition reader_next ::
  "hash_lib \<Rightarrow> mem_file \<Rightarrow> WriteAheadLogReader \<Rightarrow>
   WriteAheadLogReader \<times> (WriteAheadLogError, WriteAheadLogEntry option) res" where
  "reader_next H file rd =
     (let off = rd_offset rd; lsn = \<lparr>lsn_segment_id = rd_segment_id rd, lsn_offset = off\<rparr> in
      if mf_size file \<le> off then (rd, Ok None)
      else case mf_read_at file off 10 of
        None \<Rightarrow> (rd, Inl Panicked)
      | Some header \<Rightarrow>
          if length header < 10 then (rd, Ok None)
          else if be_at header 0 4 \<noteq> RECORD_MAGIC then (rd, Err (Corruption lsn))
          else let kind = word_of_nat (be_at header 4 2); len = be_at header 6 4 in
            case mf_read_at file (off + 10) len of
              None \<Rightarrow> (rd, Inl Panicked)
            | Some payload \<Rightarrow>
                if length payload < len then (rd, Err (Corruption lsn))
                else case mf_read_at file (off + 10 + len) 4 of
                  None \<Rightarrow> (rd, Inl Panicked)
                | Some checksum_buf \<Rightarrow>
                    if length checksum_buf < 4 then (rd, Err (Corruption lsn))
                    else if rd_integrity rd \<noteq> IntegrityNone \<and>
                            word_of_nat (be_at checksum_buf 0 4) \<noteq> checksum32 H (rd_integrity rd) (header @ payload)
                    then (rd, Err (Corruption lsn))
                    else (rd\<lparr>rd_offset := off + (10 + len + 4)\<rparr>,
                          Ok (Some \<lparr>en_lsn = lsn, en_kind = kind, en_payload = payload\<rparr>)))"

text \<open>The loop of a client that reads to the end of the log.\<close>

primrec read_loop ::
  "nat \<Rightarrow> hash_lib \<Rightarrow> mem_file \<Rightarrow> WriteAheadLogReader \<Rightarrow>
   WriteAheadLogEntry list \<times> (WriteAheadLogError, unit) res" where
  "read_loop 0 H file rd = ([], Inl Diverged)"
| "read_loop (Suc n) H file rd =
     (case reader_next H file rd of
        (rd', Inl f) \<Rightarrow> ([], Inl f)
      | (rd', Inr None) \<Rightarrow> ([], Ok ())
      | (rd', Inr (Some e)) \<Rightarrow> (let (es, r) = read_loop n H file rd' in (e # es, r)))"

text \<open>Every record read moves the offset by at least 14 bytes, so the size of the file bounds the loop.\<close>

definition read_all ::
  "hash_lib \<Rightarrow> mem_file \<Rightarrow> WriteAheadLogReader \<Rightarrow> WriteAheadLogEntry list \<times> (WriteAheadLogError, unit) res" where
  "read_all H file rd = read_loop (length file + 1) H file rd"

section \<open>Manager\<close>

text \<open>
  The directory of the log is a map from file names to files. No operation of the source adds a
  segment to the archive, so the active segment is the only one written.
\<close>

record EncryptionKey =
  ek_algorithm :: EncryptionAlgorithm
  ek_key_id :: u128
  ek_key :: bytes

record WriteAheadLogConfig =
  wc_shard_id :: u128
  wc_max_segment_size :: u64
  wc_sync_on_rotate :: bool
  wc_checksum :: IntegrityAlgorithm
  wc_compression :: CompressionAlgorithm
  wc_encryption :: EncryptionAlgorithm
  wc_encryption_key :: "EncryptionKey option"

definition WalConfig_default :: WriteAheadLogConfig where
  "WalConfig_default =
     \<lparr>wc_shard_id = 0, wc_max_segment_size = 64 * 1024 * 1024, wc_sync_on_rotate = True, wc_checksum = Crc32c,
      wc_compression = CompressionNone, wc_encryption = EncryptionNone, wc_encryption_key = None\<rparr>"

definition WalConfig_new :: "u128 \<Rightarrow> WriteAheadLogConfig" where
  "WalConfig_new shard_id = WalConfig_default\<lparr>wc_shard_id := shard_id\<rparr>"

definition with_encryption ::
  "WriteAheadLogConfig \<Rightarrow> EncryptionAlgorithm \<Rightarrow> EncryptionKey option \<Rightarrow> WriteAheadLogConfig" where
  "with_encryption c encryption key = c\<lparr>wc_encryption := encryption, wc_encryption_key := key\<rparr>"

fun encryption_text :: "EncryptionAlgorithm \<Rightarrow> string" where
  "encryption_text EncryptionNone = ''None''"
| "encryption_text Aes256Gcm = ''Aes256Gcm''"
| "encryption_text ChaCha20Poly1305 = ''ChaCha20Poly1305''"

definition wal_config_validate :: "WriteAheadLogConfig \<Rightarrow> (string, unit) res" where
  "wal_config_validate c =
     (if wc_max_segment_size c = 0 then Err ''max_segment_size must be greater than 0''
      else if wc_encryption c \<noteq> EncryptionNone \<and> wc_encryption_key c = None
      then Err ''encryption_key must be provided when encryption is enabled''
      else case wc_encryption_key c of
             Some key \<Rightarrow>
               if ek_algorithm key \<noteq> wc_encryption c
               then Err (''encryption_key algorithm ('' @ encryption_text (ek_algorithm key) @
                         '') does not match config encryption ('' @ encryption_text (wc_encryption c) @ '')'')
               else Ok ()
           | None \<Rightarrow> Ok ())"

record WriteAheadLogManager =
  wm_root :: string
  wm_shard_id :: u128
  wm_active :: WriteAheadLogFile
  wm_archived :: "WriteAheadLogFile list"

definition segment_path :: "string \<Rightarrow> nat \<Rightarrow> string" where
  "segment_path root i = root @ ''/segment_'' @ nat_to_string i @ ''.wal''"

definition manager_new ::
  "hash_lib \<Rightarrow> u64 \<Rightarrow> (string \<Rightarrow> mem_file option) \<Rightarrow> string \<Rightarrow> WriteAheadLogConfig \<Rightarrow>
   (WriteAheadLogError, WriteAheadLogManager) res" where
  "manager_new H now fs root c =
     (case (case fs (segment_path root 0) of
              Some file \<Rightarrow> walfile_open_existing H file
            | None \<Rightarrow> walfile_create H now [] (wc_shard_id c) 0 0 (wc_checksum c) (wc_compression c) (wc_encryption c) 0) of
        Inl f \<Rightarrow> Inl f
      | Inr active \<Rightarrow> Ok \<lparr>wm_root = root, wm_shard_id = wc_shard_id c, wm_active = active, wm_archived = []\<rparr>)"

definition manager_reader_from ::
  "WriteAheadLogManager \<Rightarrow> LogSequenceNumber \<Rightarrow> (WriteAheadLogError, mem_file \<times> WriteAheadLogReader) res" where
  "manager_reader_from m lsn =
     (if wf_segment_id (wm_active m) = lsn_segment_id lsn
      then Ok (wf_file (wm_active m), walfile_reader_from_offset (wm_active m) (lsn_offset lsn))
      else case find (\<lambda>s. wf_segment_id s = lsn_segment_id lsn) (wm_archived m) of
             Some s \<Rightarrow> Ok (wf_file s, walfile_reader_from_offset s (lsn_offset lsn))
           | None \<Rightarrow> Err InvalidLsn)"

definition manager_head_lsn :: "WriteAheadLogManager \<Rightarrow> LogSequenceNumber" where
  "manager_head_lsn m =
     (case wm_archived m of s # _ \<Rightarrow> walfile_start_lsn s | [] \<Rightarrow> walfile_start_lsn (wm_active m))"

definition manager_tail_lsn :: "WriteAheadLogManager \<Rightarrow> LogSequenceNumber" where
  "manager_tail_lsn m = walfile_tail_lsn (wm_active m)"

text \<open>
  Truncation drops archived segments and removes their files, all of them even when one fails; the
  first failure is reported. \<open>remove\<close> is the file system's \<open>remove_file\<close>: \<open>Some e\<close> when it fails.
\<close>

definition manager_truncate_before ::
  "(string \<Rightarrow> string option) \<Rightarrow> WriteAheadLogManager \<Rightarrow> LogSequenceNumber \<Rightarrow>
   WriteAheadLogManager \<times> (WriteAheadLogError, unit) res" where
  "manager_truncate_before remove m lsn =
     (let segments_to_delete = map wf_segment_id (filter (\<lambda>s. wf_segment_id s < lsn_segment_id lsn) (wm_archived m));
          m' = m\<lparr>wm_archived := filter (\<lambda>s. lsn_segment_id lsn \<le> wf_segment_id s) (wm_archived m)\<rparr>;
          delete_errors =
            List.map_filter (\<lambda>i. map_option (Pair i) (remove (segment_path (wm_root m) (unat i)))) segments_to_delete
      in case delete_errors of
           [] \<Rightarrow> (m', Ok ())
         | (i, e) # _ \<Rightarrow>
             (m', Err (WrappedError (''Failed to delete WAL segment '' @ nat_to_string (unat i) @ '': '' @ e))))"

section \<open>Reading back what was written\<close>

lemma write_at_end: "mf_write_to f (length f) buf = f @ buf"
  by (simp add: mf_write_to_def Let_def)

lemma be_at_field: "length pre = off \<Longrightarrow> length field = n \<Longrightarrow> be_at (pre @ field @ rest) off n = be_value field"
  by (simp add: be_at_def)

definition readable :: "WriteAheadLogRecord \<Rightarrow> bool" where
  "readable r \<longleftrightarrow> length (wr_payload r) < 2 ^ 32"

lemma record_image_length: "length (record_image H alg r) = 14 + length (wr_payload r)"
  by (simp add: record_image_def record_body_def)

lemma record_header:
  assumes "readable r"
  obtains hdr where "length hdr = 10" "be_at hdr 0 4 = RECORD_MAGIC" "word_of_nat (be_at hdr 4 2) = wr_kind r"
    "be_at hdr 6 4 = length (wr_payload r)" "record_body r = hdr @ wr_payload r"
proof (rule that)
  let ?h = "be_bytes 4 RECORD_MAGIC @ be_bytes 2 (unat (wr_kind r)) @ be_bytes 4 (length (wr_payload r))"
  show "length ?h = 10" "be_at ?h 0 4 = RECORD_MAGIC" "word_of_nat (be_at ?h 4 2) = wr_kind r"
    "be_at ?h 6 4 = length (wr_payload r)" "record_body r = ?h @ wr_payload r"
    using assms by (simp_all add: be_at_def RECORD_MAGIC_def readable_def record_body_def)
qed

lemma checksum_buf: "be_at (be_bytes 4 (unat (c :: u32))) 0 4 = unat c"
  by (simp add: be_at_def)

definition entry_of :: "u64 \<Rightarrow> nat \<Rightarrow> WriteAheadLogRecord \<Rightarrow> WriteAheadLogEntry" where
  "entry_of seg off r =
     \<lparr>en_lsn = \<lparr>lsn_segment_id = seg, lsn_offset = off\<rparr>, en_kind = wr_kind r, en_payload = wr_payload r\<rparr>"

lemma reader_next_record:
  assumes "file = pre @ record_image H (rd_integrity rd) r @ post" "rd_offset rd = length pre" "readable r"
  shows "reader_next H file rd =
    (rd\<lparr>rd_offset := length pre + length (record_image H (rd_integrity rd) r)\<rparr>,
     Ok (Some (entry_of (rd_segment_id rd) (length pre) r)))"
proof -
  obtain hdr where h: "length hdr = 10" "be_at hdr 0 4 = RECORD_MAGIC" "word_of_nat (be_at hdr 4 2) = wr_kind r"
    "be_at hdr 6 4 = length (wr_payload r)" "record_body r = hdr @ wr_payload r"
    using record_header [OF assms(3)] .
  have "mf_read_at file (length pre) 10 = Some hdr"
    "mf_read_at file (length pre + 10) (length (wr_payload r)) = Some (wr_payload r)"
    "mf_read_at file (length pre + 10 + length (wr_payload r)) 4 =
       Some (be_bytes 4 (unat (checksum32 H (rd_integrity rd) (record_body r))))"
    "length pre < mf_size file"
    unfolding assms(1) record_image_def by (simp_all add: mf_read_at_def mf_size_def h)
  then show ?thesis
    using h by (simp add: reader_next_def Let_def assms(2) entry_of_def record_image_length checksum_buf)
qed

text \<open>A record cut off in the middle, as a crash during a write leaves it.\<close>

lemma reader_next_torn:
  assumes "file = pre @ take n (record_image H (rd_integrity rd) r)" "rd_offset rd = length pre" "readable r"
    and "n < length (record_image H (rd_integrity rd) r)"
  shows "reader_next H file rd =
    (rd, if n < 10 then Ok None else Err (Corruption \<lparr>lsn_segment_id = rd_segment_id rd, lsn_offset = length pre\<rparr>))"
proof (cases "n < 10")
  case True
  then show ?thesis
    using assms(4) by (simp add: reader_next_def Let_def assms(1,2) mf_size_def mf_read_at_def)
next
  case False
  obtain hdr where h: "length hdr = 10" "be_at hdr 0 4 = RECORD_MAGIC" "word_of_nat (be_at hdr 4 2) = wr_kind r"
    "be_at hdr 6 4 = length (wr_payload r)" "record_body r = hdr @ wr_payload r"
    using record_header [OF assms(3)] .
  let ?len = "length (wr_payload r)"
  have hdr: "mf_read_at file (length pre) 10 = Some hdr" "length pre < mf_size file"
    using False unfolding assms(1) record_image_def by (simp_all add: mf_read_at_def mf_size_def h)
  have payload: "mf_read_at file (length pre + 10) ?len = Some (take (n - 10) (wr_payload r))"
    using False unfolding assms(1) record_image_def by (auto simp: mf_read_at_def h drop_take min_def)
  have "\<exists>c. mf_read_at file (length pre + 10 + ?len) 4 = Some c \<and> length c < 4" if "10 + ?len \<le> n"
    using that assms(4) unfolding assms(1) record_image_length by (simp add: mf_read_at_def record_image_length)
  then show ?thesis
    using False h hdr payload by (cases "10 + ?len \<le> n") (auto simp: reader_next_def Let_def assms(2) min_def)
qed

section \<open>Whole logs\<close>

definition log_image :: "hash_lib \<Rightarrow> IntegrityAlgorithm \<Rightarrow> WriteAheadLogRecord list \<Rightarrow> bytes" where
  "log_image H alg rs = concat (map (record_image H alg) rs)"

primrec entries_from :: "u64 \<Rightarrow> nat \<Rightarrow> WriteAheadLogRecord list \<Rightarrow> WriteAheadLogEntry list" where
  "entries_from seg off [] = []"
| "entries_from seg off (r # rs) = entry_of seg off r # entries_from seg (off + 14 + length (wr_payload r)) rs"

lemma read_loop_log:
  assumes "\<forall>r \<in> set rs. readable r" "rd_offset rd = length pre" "length rs \<le> fuel"
    and "file = pre @ log_image H (rd_integrity rd) rs @ tail"
  shows "read_loop fuel H file rd =
    (let (es, r) = read_loop (fuel - length rs) H file (rd\<lparr>rd_offset := length pre + length (log_image H (rd_integrity rd) rs)\<rparr>)
     in (entries_from (rd_segment_id rd) (length pre) rs @ es, r))"
  using assms
proof (induction rs arbitrary: rd pre fuel)
  case Nil
  then have "rd\<lparr>rd_offset := length pre\<rparr> = rd" by simp
  then show ?case by (simp add: log_image_def)
next
  case (Cons r rs)
  let ?img = "record_image H (rd_integrity rd) r" and ?rd = "rd\<lparr>rd_offset := length (pre @ record_image H (rd_integrity rd) r)\<rparr>"
  obtain n where n: "fuel = Suc n" using Cons.prems(3) by (cases fuel) auto
  have split: "file = pre @ ?img @ log_image H (rd_integrity rd) rs @ tail"
    using Cons.prems(4) by (simp add: log_image_def)
  have "reader_next H file rd = (?rd, Ok (Some (entry_of (rd_segment_id rd) (length pre) r)))"
    using reader_next_record [OF split Cons.prems(2)] Cons.prems(1) by simp
  moreover have "read_loop n H file ?rd =
    (let (es, r) = read_loop (n - length rs) H file (?rd\<lparr>rd_offset := length (pre @ ?img) + length (log_image H (rd_integrity rd) rs)\<rparr>)
     in (entries_from (rd_segment_id rd) (length (pre @ ?img)) rs @ es, r))"
    using Cons.IH [of ?rd "pre @ ?img" n] Cons.prems split by (simp add: n)
  ultimately show ?case
    by (simp add: n log_image_def record_image_length add.assoc split: prod.split)
qed

lemma log_image_length: "length rs \<le> length (log_image H alg rs)"
  by (induction rs) (auto simp: log_image_def record_image_length)

lemma read_all_log:
  assumes "\<forall>r \<in> set rs. readable r" "rd_offset rd = length pre"
    and "file = pre @ log_image H (rd_integrity rd) rs @ tail"
    and "reader_next H file (rd\<lparr>rd_offset := length pre + length (log_image H (rd_integrity rd) rs)\<rparr>) = (rd', res)"
    and "\<And>e. res \<noteq> Ok (Some e)"
  shows "read_all H file rd =
    (entries_from (rd_segment_id rd) (length pre) rs, case res of Inl f \<Rightarrow> Inl f | Inr _ \<Rightarrow> Ok ())"
proof -
  obtain n where n: "length file + 1 - length rs = Suc n"
    using log_image_length [of rs H "rd_integrity rd"] assms(3) by (cases "length file + 1 - length rs") auto
  have "length rs \<le> length file + 1" using log_image_length [of rs H "rd_integrity rd"] assms(3) by simp
  from read_loop_log [OF assms(1,2) this assms(3)] show ?thesis
    using assms(4,5) unfolding read_all_def n by (auto split: sum.split option.split)
qed

lemma reader_next_end: "rd_offset rd = length file \<Longrightarrow> reader_next H file rd = (rd, Ok None)"
  by (simp add: reader_next_def mf_size_def Let_def)

text \<open>The segment file of a log that holds the given records.\<close>

definition header_image :: "hash_lib \<Rightarrow> WriteAheadLogSegmentHeader \<Rightarrow> bytes" where
  "header_image H h =
     header_fields h @ be_bytes 16 (unat (sh_encryption_key_id h)) @
     be_bytes 4 (unat (checksum32 H (sh_integrity h) (header_fields h)))"

definition wal_holds ::
  "hash_lib \<Rightarrow> WriteAheadLogSegmentHeader \<Rightarrow> WriteAheadLogFile \<Rightarrow> WriteAheadLogRecord list \<Rightarrow> bool" where
  "wal_holds H h f rs \<longleftrightarrow>
     f = \<lparr>wf_file = header_image H h @ log_image H (sh_integrity h) rs, wf_shard_id = sh_shard_id h,
          wf_segment_id = sh_segment_id h, wf_start_offset = sh_start_offset h,
          wf_write_offset = HEADER_SIZE + length (log_image H (sh_integrity h) rs), wf_integrity = sh_integrity h\<rparr>"

lemma length_header_image [simp]: "length (header_image H h) = HEADER_SIZE"
  by (simp add: header_image_def header_fields_def HEADER_SIZE_def)

lemma create_holds:
  "\<exists>f. walfile_create H now [] shard_id segment_id start_offset alg cmpr encr key_id = Ok f \<and>
    wal_holds H (new_header now shard_id segment_id start_offset alg cmpr encr key_id) f []"
  by (simp add: walfile_create_def header_encode_def wal_holds_def header_image_def log_image_def
      new_header_def mf_write_to_def HEADER_SIZE_def header_fields_def)

lemma append_holds:
  assumes "wal_holds H h f rs"
  shows "\<exists>f'. walfile_append H f r = (f', Ok (walfile_tail_lsn f)) \<and> wal_holds H h f' (rs @ [r])"
proof -
  have "wf_write_offset f = length (wf_file f)" using assms by (simp add: wal_holds_def)
  then have "mf_write_to (wf_file f) (wf_write_offset f) buf = wf_file f @ buf" for buf by (simp add: write_at_end)
  then show ?thesis
    unfolding walfile_append_def Let_def using assms by (simp add: walfile_tail_lsn_def wal_holds_def log_image_def)
qed

lemma append_loop_holds:
  assumes "wal_holds H h f rs"
  shows "\<exists>f' lsn. append_loop H f l rs' = (f', Ok lsn) \<and> wal_holds H h f' (rs @ rs')"
  using assms
proof (induction rs' arbitrary: f l rs)
  case (Cons r rs')
  from append_holds [OF Cons.prems] obtain f1 where
    f1: "walfile_append H f r = (f1, Ok (walfile_tail_lsn f))" "wal_holds H h f1 (rs @ [r])" by blast
  from Cons.IH [OF f1(2)] f1(1) show ?case by simp
qed simp

lemma header_decode_image:
  "header_decode H (header_image H h @ rest) = Ok (h\<lparr>sh_checksum := checksum32 H (sh_integrity h) (header_fields h)\<rparr>)"
proof -
  let ?b = "header_image H h @ rest" and ?c = "checksum32 H (sh_integrity h) (header_fields h)"
  have len: "length (header_fields h) = 49" by (simp add: header_fields_def)
  have "be_at ?b 0 4 = SEGMENT_MAGIC" "be_at ?b 4 2 = unat (sh_version h)" "be_at ?b 6 16 = unat (sh_shard_id h)"
    "be_at ?b 0x16 8 = unat (sh_segment_id h)" "be_at ?b 0x1E 8 = unat (sh_start_offset h)"
    "be_at ?b 0x26 8 = unat (sh_created_at_unix_ms h)"
    by (simp_all add: be_at_def header_image_def header_fields_def SEGMENT_MAGIC_def)
  moreover have "?b ! 0x2E = integrity_as_u8 (sh_integrity h)" "?b ! 0x2F = compression_as_u8 (sh_compression h)"
    "?b ! 0x30 = encryption_as_u8 (sh_encryption h)"
    by (simp_all add: header_image_def header_fields_def nth_append)
  moreover have "be_at ?b 0x31 16 = unat (sh_encryption_key_id h)" "be_at ?b 0x41 4 = unat ?c" "take 0x31 ?b = header_fields h"
    using len by (simp_all add: be_at_def header_image_def)
  moreover have "\<not> length ?b < HEADER_SIZE" by simp
  ultimately show ?thesis by (simp add: header_decode_def Let_def)
qed

lemma open_existing_tail:
  assumes "wal_holds H h f rs"
  shows "walfile_open_existing H (wf_file f @ tail) =
    Ok (f\<lparr>wf_file := wf_file f @ tail, wf_write_offset := length (wf_file f @ tail)\<rparr>)"
proof -
  have "mf_read_at (wf_file f @ tail) 0 HEADER_SIZE = Some (header_image H h)"
    using assms by (simp add: wal_holds_def mf_read_at_def)
  then show ?thesis
    using header_decode_image [of H h "[]"] assms by (simp add: walfile_open_existing_def wal_holds_def mf_size_def)
qed

lemma open_existing_holds: "wal_holds H h f rs \<Longrightarrow> walfile_open_existing H (wf_file f) = Ok f"
  using open_existing_tail [of H h f rs "[]"] by (simp add: wal_holds_def)

section \<open>Properties\<close>

lemma created_log:
  assumes "walfile_create H now [] shard_id segment_id start_offset alg cmpr encr key_id = Ok f0"
    and "append_loop H f0 l rs = (f, r)"
  shows "wal_holds H (new_header now shard_id segment_id start_offset alg cmpr encr key_id) f rs"
  using create_holds [of H now shard_id segment_id start_offset alg cmpr encr key_id] assms
    append_loop_holds [of H _ f0 "[]" l rs] by auto

text \<open>
  C8: The log returns what was appended. Take a new segment, append records, and append more: reading
  from the position reached in between gives exactly the later records, in order, each with the
  position at which it was appended, and then the end of the log. (With no earlier records this
  reads the whole log.)
\<close>

theorem wal_replay_exact:
  assumes "walfile_create H now [] shard_id segment_id start_offset alg cmpr encr key_id = Ok f0"
    and "append_loop H f0 l rs1 = (f1, r1)" "append_loop H f1 l' rs2 = (f2, r2)"
    and "\<forall>r \<in> set rs2. readable r"
  shows "read_all H (wf_file f2) (walfile_reader_from_offset f2 (lsn_offset (walfile_tail_lsn f1))) =
    (entries_from segment_id (lsn_offset (walfile_tail_lsn f1)) rs2, Ok ())"
proof -
  let ?h = "new_header now shard_id segment_id start_offset alg cmpr encr key_id"
  have h: "sh_integrity ?h = alg" "sh_segment_id ?h = segment_id" by (simp_all add: new_header_def)
  note f1 = created_log [OF assms(1,2)]
  from append_loop_holds [OF f1, of l' rs2] assms(3) have f2: "wal_holds H ?h f2 (rs1 @ rs2)" by auto
  let ?rd = "walfile_reader_from_offset f2 (lsn_offset (walfile_tail_lsn f1))"
  let ?pre = "header_image H ?h @ log_image H alg rs1"
  have rd: "rd_offset ?rd = length ?pre" "rd_integrity ?rd = alg" "rd_segment_id ?rd = segment_id"
    and layout: "wf_file f2 = ?pre @ log_image H (rd_integrity ?rd) rs2 @ []"
    using f1 f2 by (simp_all add: wal_holds_def walfile_reader_from_offset_def walfile_tail_lsn_def log_image_def h)
  have "reader_next H (wf_file f2) (?rd\<lparr>rd_offset := length ?pre + length (log_image H (rd_integrity ?rd) rs2)\<rparr>) =
      (?rd\<lparr>rd_offset := length ?pre + length (log_image H (rd_integrity ?rd) rs2)\<rparr>, Ok None)"
    by (rule reader_next_end) (simp add: layout)
  note read = read_all_log [OF assms(4) rd(1) layout this]
  have "length ?pre = lsn_offset (walfile_tail_lsn f1)"
    using f1 by (simp add: wal_holds_def walfile_tail_lsn_def h)
  with read show ?thesis by (simp only: rd sum.case) simp
qed

definition demo_hash :: hash_lib where
  "demo_hash = \<lparr>crc32_cksum = (\<lambda>bs. word_of_nat (sum_list (map unat bs))), xxh32 = (\<lambda>bs. 0)\<rparr>"

definition demo_records :: "WriteAheadLogRecord list" where
  "demo_records = [\<lparr>wr_kind = 1, wr_payload = [7, 8]\<rparr>, \<lparr>wr_kind = 2, wr_payload = []\<rparr>]"

theorem wal_replay_exact_witness:
  "\<exists>f0 f2 r. walfile_create demo_hash 5 [] 9 0 0 Crc32c CompressionNone EncryptionNone 0 = Ok f0 \<and>
     append_loop demo_hash f0 LSN_ZERO demo_records = (f2, r) \<and>
     read_all demo_hash (wf_file f2) (walfile_reader_from_offset f2 (lsn_offset (walfile_tail_lsn f0))) =
       (entries_from 0 (lsn_offset (walfile_tail_lsn f0)) demo_records, Ok ())"
proof -
  from create_holds [of demo_hash 5 9 0 0 Crc32c CompressionNone EncryptionNone 0]
  obtain f0 where f0: "walfile_create demo_hash 5 [] 9 0 0 Crc32c CompressionNone EncryptionNone 0 = Ok f0" by blast
  obtain f2 r where f2: "append_loop demo_hash f0 LSN_ZERO demo_records = (f2, r)" by fastforce
  have "append_loop demo_hash f0 LSN_ZERO [] = (f0, Ok LSN_ZERO)" "\<forall>r \<in> set demo_records. readable r"
    by (simp_all add: demo_records_def readable_def)
  from wal_replay_exact [OF f0 this(1) f2 this(2)] f0 f2 show ?thesis by blast
qed

text \<open>
  C25: Reopening a segment restores it: opening the file a log wrote gives the same segment state, with
  the same identifiers, checksum algorithm and append position.
\<close>

theorem wal_reopen:
  assumes "walfile_create H now [] shard_id segment_id start_offset alg cmpr encr key_id = Ok f0"
    and "append_loop H f0 l rs = (f, r)"
  shows "walfile_open_existing H (wf_file f) = Ok f"
  using open_existing_holds [OF created_log [OF assms]] .

theorem wal_reopen_witness:
  "\<exists>f0 f r. walfile_create demo_hash 5 [] 9 0 0 Crc32c CompressionNone EncryptionNone 0 = Ok f0 \<and>
     append_loop demo_hash f0 LSN_ZERO demo_records = (f, r) \<and> walfile_open_existing demo_hash (wf_file f) = Ok f"
proof -
  from create_holds [of demo_hash 5 9 0 0 Crc32c CompressionNone EncryptionNone 0]
  obtain f0 where f0: "walfile_create demo_hash 5 [] 9 0 0 Crc32c CompressionNone EncryptionNone 0 = Ok f0" by blast
  obtain f r where f: "append_loop demo_hash f0 LSN_ZERO demo_records = (f, r)" by fastforce
  from wal_reopen [OF f0 f] f0 f show ?thesis by blast
qed

text \<open>
  C9: A torn last record loses nothing else. If a crash keeps only the first \<open>n\<close> bytes of the last
  record, reading the log returns every earlier record, never a part of the torn one, and then the
  end of the log (less than ten bytes left) or a corruption error at the torn record.
\<close>

theorem wal_torn_tail:
  assumes "walfile_create H now [] shard_id segment_id start_offset alg cmpr encr key_id = Ok f0"
    and "append_loop H f0 l rs = (f, r)" "\<forall>r \<in> set (rs @ [torn]). readable r"
    and "n < length (record_image H alg torn)"
  shows "read_all H (wf_file f @ take n (record_image H alg torn)) (walfile_reader_from_offset f HEADER_SIZE) =
    (entries_from segment_id HEADER_SIZE rs,
     if n < 10 then Ok () else Err (Corruption \<lparr>lsn_segment_id = segment_id, lsn_offset = wf_write_offset f\<rparr>))"
proof -
  let ?h = "new_header now shard_id segment_id start_offset alg cmpr encr key_id"
  have h: "sh_integrity ?h = alg" "sh_segment_id ?h = segment_id" by (simp_all add: new_header_def)
  note f = created_log [OF assms(1,2)]
  let ?rd = "walfile_reader_from_offset f HEADER_SIZE" and ?tail = "take n (record_image H alg torn)"
  have rd: "rd_offset ?rd = length (header_image H ?h)" "rd_integrity ?rd = alg" "rd_segment_id ?rd = segment_id"
    and layout: "wf_file f @ ?tail = header_image H ?h @ log_image H (rd_integrity ?rd) rs @ ?tail"
    and off: "wf_write_offset f = length (header_image H ?h @ log_image H alg rs)"
    and wf: "wf_integrity f = alg" "wf_segment_id f = segment_id"
    using f by (simp_all add: wal_holds_def h)
  let ?rd' = "?rd\<lparr>rd_offset := length (header_image H ?h) + length (log_image H (rd_integrity ?rd) rs)\<rparr>"
  have "reader_next H (wf_file f @ ?tail) ?rd' =
    (?rd', if n < 10 then Ok None else Err (Corruption \<lparr>lsn_segment_id = rd_segment_id ?rd',
      lsn_offset = length (header_image H ?h @ log_image H alg rs)\<rparr>))"
    by (rule reader_next_torn [where r = torn]) (use assms(3,4) in \<open>simp_all add: layout wf\<close>)
  from read_all_log [OF _ rd(1) layout this] show ?thesis using assms(3) by (auto simp: wf off)
qed

theorem wal_torn_tail_witness:
  "\<exists>f0 f r. walfile_create demo_hash 5 [] 9 0 0 Crc32c CompressionNone EncryptionNone 0 = Ok f0 \<and>
     append_loop demo_hash f0 LSN_ZERO demo_records = (f, r) \<and>
     read_all demo_hash (wf_file f @ take 12 (record_image demo_hash Crc32c \<lparr>wr_kind = 1, wr_payload = [1]\<rparr>))
       (walfile_reader_from_offset f HEADER_SIZE) =
     (entries_from 0 HEADER_SIZE demo_records,
      Err (Corruption \<lparr>lsn_segment_id = 0, lsn_offset = wf_write_offset f\<rparr>))"
proof -
  from create_holds [of demo_hash 5 9 0 0 Crc32c CompressionNone EncryptionNone 0]
  obtain f0 where f0: "walfile_create demo_hash 5 [] 9 0 0 Crc32c CompressionNone EncryptionNone 0 = Ok f0" by blast
  obtain f r where f: "append_loop demo_hash f0 LSN_ZERO demo_records = (f, r)" by fastforce
  from wal_torn_tail [OF f0 f, of "\<lparr>wr_kind = 1, wr_payload = [1]\<rparr>" 12] f0 f show ?thesis
    by (simp add: demo_records_def readable_def record_image_length)
qed

text \<open>
  The header checksum does not protect the encryption key identifier. Whatever sixteen bytes stand
  in its place, decoding accepts the header, reports them as the key identifier, and everything else
  as it was.
\<close>

theorem header_key_unprotected:
  assumes "length k = 16"
  shows "header_decode H (take 49 (header_image H h) @ k @ drop 65 (header_image H h)) =
    Ok (h\<lparr>sh_encryption_key_id := word_of_nat (be_value k),
           sh_checksum := checksum32 H (sh_integrity h) (header_fields h)\<rparr>)"
proof -
  have "be_value k < 2 ^ 128" using be_value_less [of k] assms by simp
  then have "be_bytes 16 (unat (word_of_nat (be_value k) :: u128)) = k"
    using assms by (simp add: unat_of_nat)
  moreover have "length (header_fields h) = 49" by (simp add: header_fields_def)
  moreover have "header_fields (h\<lparr>sh_encryption_key_id := i\<rparr>) = header_fields h" for i by (simp add: header_fields_def)
  ultimately have "take 49 (header_image H h) @ k @ drop 65 (header_image H h) =
      header_image H (h\<lparr>sh_encryption_key_id := word_of_nat (be_value k)\<rparr>)"
    by (simp add: header_image_def)
  then show ?thesis
    using header_decode_image [of H "h\<lparr>sh_encryption_key_id := word_of_nat (be_value k)\<rparr>" "[]"]
    by (simp add: header_fields_def)
qed

text \<open>
  The head position of a new log is not the position of its first record. A manager on an empty
  directory gives a head position at which a reader reports corruption, even after records were
  appended: it is the offset of the segment header.
\<close>

theorem head_lsn_unreadable:
  assumes "manager_new H now (\<lambda>_. None) root c = Ok m"
    and "append_loop H (wm_active m) l rs = (f, r)"
  shows "\<exists>file rd. manager_reader_from (m\<lparr>wm_active := f\<rparr>) (manager_head_lsn (m\<lparr>wm_active := f\<rparr>)) = Ok (file, rd) \<and>
    snd (reader_next H file rd) = Err (Corruption (manager_head_lsn (m\<lparr>wm_active := f\<rparr>)))"
proof -
  let ?h = "new_header now (wc_shard_id c) 0 0 (wc_checksum c) (wc_compression c) (wc_encryption c) 0"
  from assms(1) obtain f0 where
    f0: "walfile_create H now [] (wc_shard_id c) 0 0 (wc_checksum c) (wc_compression c) (wc_encryption c) 0 = Ok f0" "wm_active m = f0"
    "wm_archived m = []" by (auto simp: manager_new_def split: sum.splits)
  with created_log [OF f0(1)] assms(2) have f: "wal_holds H ?h f rs" by blast
  have head: "manager_head_lsn (m\<lparr>wm_active := f\<rparr>) = \<lparr>lsn_segment_id = 0, lsn_offset = 0\<rparr>"
    using f by (simp add: manager_head_lsn_def f0(3) walfile_start_lsn_def wal_holds_def new_header_def)
  let ?rd = "walfile_reader_from_offset f 0"
  have "mf_read_at (wf_file f) 0 10 = Some (take 10 (header_image H ?h))" "0 < mf_size (wf_file f)"
    using f by (simp_all add: wal_holds_def mf_read_at_def mf_size_def HEADER_SIZE_def)
  moreover have "be_at (take 10 (header_image H ?h)) 0 4 \<noteq> RECORD_MAGIC"
    by (simp add: be_at_def header_image_def header_fields_def SEGMENT_MAGIC_def RECORD_MAGIC_def)
  moreover have "rd_segment_id ?rd = 0" "rd_offset ?rd = 0" "wf_segment_id f = 0"
    using f by (simp_all add: walfile_reader_from_offset_def wal_holds_def new_header_def)
  ultimately have "snd (reader_next H (wf_file f) ?rd) = Err (Corruption \<lparr>lsn_segment_id = 0, lsn_offset = 0\<rparr>)"
    by (simp add: reader_next_def Let_def HEADER_SIZE_def)
  then show ?thesis using \<open>wf_segment_id f = 0\<close> by (simp add: head manager_reader_from_def)
qed

theorem header_key_unprotected_witness:
  "header_decode demo_hash (take 49 (header_image demo_hash (new_header 5 9 0 0 Crc32c CompressionNone Aes256Gcm 77)) @
     replicate 16 0 @ drop 65 (header_image demo_hash (new_header 5 9 0 0 Crc32c CompressionNone Aes256Gcm 77))) =
   Ok (new_header 5 9 0 0 Crc32c CompressionNone Aes256Gcm 77\<lparr>sh_encryption_key_id := word_of_nat (be_value (replicate 16 0)),
     sh_checksum := checksum32 demo_hash (sh_integrity (new_header 5 9 0 0 Crc32c CompressionNone Aes256Gcm 77))
       (header_fields (new_header 5 9 0 0 Crc32c CompressionNone Aes256Gcm 77))\<rparr>)"
  by (rule header_key_unprotected) simp

theorem head_lsn_unreadable_witness:
  "\<exists>m f r file rd. manager_new demo_hash 5 (\<lambda>_. None) ''/wal'' (WalConfig_new 9) = Ok m \<and>
     append_loop demo_hash (wm_active m) LSN_ZERO demo_records = (f, r) \<and>
     manager_reader_from (m\<lparr>wm_active := f\<rparr>) (manager_head_lsn (m\<lparr>wm_active := f\<rparr>)) = Ok (file, rd) \<and>
     snd (reader_next demo_hash file rd) = Err (Corruption (manager_head_lsn (m\<lparr>wm_active := f\<rparr>)))"
proof -
  obtain m where m: "manager_new demo_hash 5 (\<lambda>_. None) ''/wal'' (WalConfig_new 9) = Ok m"
    using create_holds [of demo_hash 5 9 0 0 Crc32c CompressionNone EncryptionNone 0]
    by (auto simp: manager_new_def WalConfig_new_def WalConfig_default_def)
  obtain f r where f: "append_loop demo_hash (wm_active m) LSN_ZERO demo_records = (f, r)" by fastforce
  from head_lsn_unreadable [OF m f] m f show ?thesis by blast
qed

text \<open>A successful read returns an entry at the reader's offset and moves past the length it found there.\<close>

lemma reader_next_entry:
  assumes "reader_next H file rd = (rd', Ok (Some e))"
  shows "lsn_offset (en_lsn e) = rd_offset rd"
    and "rd_offset rd' = rd_offset rd + 14 + be_at (take 10 (drop (rd_offset rd) file)) 6 4"
  using assms by (auto simp: reader_next_def Let_def mf_read_at_def split: if_splits option.splits)

lemma read_loop_member:
  assumes "e \<in> set (fst (read_loop (Suc m) H file rd))"
  obtains rd' e0 where "reader_next H file rd = (rd', Ok (Some e0))" "e = e0 \<or> e \<in> set (fst (read_loop m H file rd'))"
proof -
  obtain rd' res where step: "reader_next H file rd = (rd', res)" by (cases "reader_next H file rd")
  obtain es r where rest: "read_loop m H file rd' = (es, r)" by (cases "read_loop m H file rd'")
  from assms step rest obtain e0 where "res = Ok (Some e0)" "e = e0 \<or> e \<in> set es"
    by (auto split: sum.splits option.splits)
  with that step rest show thesis by simp
qed

lemma read_loop_from: "e \<in> set (fst (read_loop fuel H file rd)) \<Longrightarrow> rd_offset rd \<le> lsn_offset (en_lsn e)"
proof (induction fuel arbitrary: rd)
  case (Suc fuel)
  obtain rd' e0 where step: "reader_next H file rd = (rd', Ok (Some e0))"
    "e = e0 \<or> e \<in> set (fst (read_loop fuel H file rd'))" using read_loop_member [OF Suc.prems] .
  with reader_next_entry [OF step(1)] Suc.IH [of rd'] show ?case by auto
qed simp

lemma read_loop_skips:
  assumes "rd_offset rd < x" "x < rd_offset rd + 14 + be_at (take 10 (drop (rd_offset rd) file)) 6 4"
    and "e \<in> set (fst (read_loop fuel H file rd))"
  shows "lsn_offset (en_lsn e) \<noteq> x"
proof (cases fuel)
  case (Suc m)
  obtain rd' e0 where step: "reader_next H file rd = (rd', Ok (Some e0))"
    "e = e0 \<or> e \<in> set (fst (read_loop m H file rd'))" using read_loop_member [OF assms(3) [unfolded Suc]] .
  with reader_next_entry [OF step(1)] read_loop_from [of e m H "file" rd'] assms(1,2) show ?thesis by auto
qed (use assms(3) in simp)

lemma entries_before:
  "e \<in> set (entries_from seg off rs) \<Longrightarrow> lsn_offset (en_lsn e) < off + length (log_image H alg rs)"
proof (induction rs arbitrary: off)
  case (Cons r rs)
  from Cons.prems consider "e = entry_of seg off r" | "e \<in> set (entries_from seg (off + 14 + length (wr_payload r)) rs)"
    by auto
  then show ?case
  proof cases
    case 2
    from Cons.IH [OF this] show ?thesis by (simp add: log_image_def record_image_length)
  qed (simp add: entry_of_def log_image_def record_image_length)
qed simp

text \<open>The length a reader finds at a torn record that another record follows leads past the end of the torn bytes.\<close>

lemma torn_length:
  assumes "readable torn" "n < length (record_image H alg torn)"
  shows "n < 14 + be_at (take 10 (take n (record_image H alg torn) @ rest)) 6 4"
proof (cases "n < 10")
  case False
  obtain hdr where h: "length hdr = 10" "be_at hdr 6 4 = length (wr_payload torn)"
    "record_body torn = hdr @ wr_payload torn" using record_header [OF assms(1)] by metis
  with False have "take 10 (take n (record_image H alg torn) @ rest) = hdr"
    by (simp add: record_image_def min_def)
  with h assms(2) show ?thesis by (simp add: record_image_length)
qed simp

text \<open>
  C40: A torn tail is not repaired on reopening. If any proper, non-empty part of a record is left at the
  end of the file, reopening succeeds and the next append succeeds and returns its position, but
  reading the log, which returns all earlier records first, never returns an entry at that position:
  the reader stops at the torn record or goes on behind the start of the new one.
\<close>

theorem append_after_torn_tail_lost:
  assumes "walfile_create H now [] shard_id segment_id start_offset alg cmpr encr key_id = Ok f0"
    and "append_loop H f0 l rs = (f, r)" "\<forall>r \<in> set (rs @ [torn]). readable r"
    and "0 < n" "n < length (record_image H alg torn)"
  shows "\<exists>g g' es res. walfile_open_existing H (wf_file f @ take n (record_image H alg torn)) = Ok g \<and>
    walfile_append H g new = (g', Ok (walfile_tail_lsn g)) \<and>
    read_all H (wf_file g') (walfile_reader_from_offset g' HEADER_SIZE) =
      (entries_from segment_id HEADER_SIZE rs @ es, res) \<and>
    (\<forall>e \<in> set (entries_from segment_id HEADER_SIZE rs @ es). en_lsn e \<noteq> walfile_tail_lsn g)"
proof -
  let ?h = "new_header now shard_id segment_id start_offset alg cmpr encr key_id"
  let ?T = "take n (record_image H alg torn)" and ?N = "record_image H alg new"
  note f = created_log [OF assms(1,2)]
  let ?g = "f\<lparr>wf_file := wf_file f @ ?T, wf_write_offset := length (wf_file f @ ?T)\<rparr>"
  let ?g' = "f\<lparr>wf_file := wf_file f @ ?T @ ?N, wf_write_offset := length (wf_file f @ ?T @ ?N)\<rparr>"
  have int: "wf_integrity f = alg" "wf_segment_id f = segment_id" "wf_file f = header_image H ?h @ log_image H alg rs"
    using f by (simp_all add: wal_holds_def new_header_def)
  have append: "walfile_append H ?g new = (?g', Ok (walfile_tail_lsn ?g))"
    using write_at_end [of "wf_file f @ ?T"] by (simp add: walfile_append_def Let_def walfile_tail_lsn_def int(1))
  let ?rd = "walfile_reader_from_offset ?g' HEADER_SIZE"
  let ?rd' = "?rd\<lparr>rd_offset := length (wf_file f)\<rparr>" and ?m = "length (wf_file ?g') + 1 - length rs"
  define es where "es = fst (read_loop ?m H (wf_file ?g') ?rd')"
  have layout: "wf_file ?g' = header_image H ?h @ log_image H (rd_integrity ?rd) rs @ (?T @ ?N)"
    and rd: "rd_offset ?rd = length (header_image H ?h)" by (simp_all add: int)
  have "length rs \<le> length (wf_file ?g') + 1" using log_image_length [of rs H alg] by (simp add: int(3))
  from read_loop_log [OF _ rd this layout] assms(3)
  have read: "read_all H (wf_file ?g') ?rd = (entries_from segment_id HEADER_SIZE rs @ es, snd (read_loop ?m H (wf_file ?g') ?rd'))"
    by (simp add: read_all_def es_def int case_prod_beta)
  have "n < 14 + be_at (take 10 (?T @ ?N)) 6 4" using torn_length assms(3,5) by simp
  then have "lsn_offset (en_lsn e) \<noteq> length (wf_file f) + n" if "e \<in> set es" for e
    by (intro read_loop_skips [of ?rd' _ "wf_file ?g'" e ?m H]) (use that assms(4) in \<open>simp_all add: es_def\<close>)
  moreover have "lsn_offset (en_lsn e) \<noteq> length (wf_file f) + n" if "e \<in> set (entries_from segment_id HEADER_SIZE rs)" for e
    using entries_before [OF that, of H alg] by (simp add: int(3))
  moreover have "lsn_offset (walfile_tail_lsn ?g) = length (wf_file f) + n"
    using assms(5) by (simp add: walfile_tail_lsn_def)
  ultimately have "\<forall>e \<in> set (entries_from segment_id HEADER_SIZE rs @ es). en_lsn e \<noteq> walfile_tail_lsn ?g"
    by (metis Un_iff set_append)
  with open_existing_tail [OF f, of ?T] append read show ?thesis by blast
qed

theorem append_after_torn_tail_lost_witness:
  "\<exists>f0 f r g g' es res. walfile_create demo_hash 5 [] 9 0 0 Crc32c CompressionNone EncryptionNone 0 = Ok f0 \<and>
     append_loop demo_hash f0 LSN_ZERO demo_records = (f, r) \<and>
     walfile_open_existing demo_hash (wf_file f @ take 12 (record_image demo_hash Crc32c \<lparr>wr_kind = 1, wr_payload = [1]\<rparr>)) = Ok g \<and>
     walfile_append demo_hash g \<lparr>wr_kind = 1, wr_payload = [2]\<rparr> = (g', Ok (walfile_tail_lsn g)) \<and>
     read_all demo_hash (wf_file g') (walfile_reader_from_offset g' HEADER_SIZE) =
       (entries_from 0 HEADER_SIZE demo_records @ es, res) \<and>
     (\<forall>e \<in> set (entries_from 0 HEADER_SIZE demo_records @ es). en_lsn e \<noteq> walfile_tail_lsn g)"
proof -
  let ?torn = "\<lparr>wr_kind = 1, wr_payload = [1]\<rparr>"
  from create_holds [of demo_hash 5 9 0 0 Crc32c CompressionNone EncryptionNone 0]
  obtain f0 where f0: "walfile_create demo_hash 5 [] 9 0 0 Crc32c CompressionNone EncryptionNone 0 = Ok f0" by blast
  obtain f r where f: "append_loop demo_hash f0 LSN_ZERO demo_records = (f, r)" by fastforce
  have "\<forall>r \<in> set (demo_records @ [?torn]). readable r" "12 < length (record_image demo_hash Crc32c ?torn)"
    by (simp_all add: demo_records_def readable_def record_image_length)
  from append_after_torn_tail_lost [OF f0 f this(1) _ this(2), of "\<lparr>wr_kind = 1, wr_payload = [2]\<rparr>"] f0 f show ?thesis
    by auto
qed

end
