(* ===== verification/Store_Spec.thy ===== *)
theory Store_Spec
  imports Kvt_Error
begin

text \<open>
  The contract of a shard store, the trait \<open>KeyValueShardStore\<close> of \<open>nanograph-kvt/src/kvstore.rs\<close>: calls,
  answers, and what each call does to the shards, a map from identifiers to sorted key-value lists.
  A store implements the contract if every call changes its shards and answers as specified. The
  contract leaves open what creating an existing shard does; the stores of the source differ there.
\<close>

datatype store_call =
    SGet ShardId bytes
  | SPut ShardId bytes bytes
  | SDelete ShardId bytes
  | SExists ShardId bytes
  | SBatchGet ShardId "bytes list"
  | SBatchPut ShardId entry_list
  | SBatchDelete ShardId "bytes list"
  | SKeyCount ShardId
  | SCreate ShardId
  | SDrop ShardId
  | SClear ShardId
  | SShardExists ShardId

datatype store_answer =
    AUnit
  | AValue "bytes option"
  | ABool bool
  | AValues "bytes option list"
  | ACount nat

type_synonym shard_map = "ShardId \<Rightarrow> entry_list option"

definition on_shard ::
  "ShardId \<Rightarrow> (entry_list \<Rightarrow> entry_list \<times> store_answer) \<Rightarrow> shard_map \<Rightarrow>
   shard_map \<times> (KeyValueError, store_answer) res" where
  "on_shard sh f m =
     (case m sh of
        None \<Rightarrow> (m, Err (ShardNotFound sh))
      | Some es \<Rightarrow> (m(sh \<mapsto> fst (f es)), Ok (snd (f es))))"

definition put_all :: "entry_list \<Rightarrow> entry_list \<Rightarrow> entry_list" where
  "put_all kvs es = fold (\<lambda>(k, v). al_put k v) kvs es"

fun del_all :: "bytes list \<Rightarrow> entry_list \<Rightarrow> entry_list \<times> nat" where
  "del_all [] es = (es, 0)"
| "del_all (k # ks) es =
     (let (es', n) = del_all ks (al_del k es) in (es', (if k \<in> fst ` set es then 1 else 0) + n))"

fun spec_step :: "store_call \<Rightarrow> shard_map \<Rightarrow> shard_map \<times> (KeyValueError, store_answer) res" where
  "spec_step (SGet sh k) m = on_shard sh (\<lambda>es. (es, AValue (map_of es k))) m"
| "spec_step (SPut sh k v) m = on_shard sh (\<lambda>es. (al_put k v es, AUnit)) m"
| "spec_step (SDelete sh k) m = on_shard sh (\<lambda>es. (al_del k es, ABool (k \<in> fst ` set es))) m"
| "spec_step (SExists sh k) m = on_shard sh (\<lambda>es. (es, ABool (k \<in> fst ` set es))) m"
| "spec_step (SBatchGet sh ks) m = on_shard sh (\<lambda>es. (es, AValues (map (map_of es) ks))) m"
| "spec_step (SBatchPut sh kvs) m = on_shard sh (\<lambda>es. (put_all kvs es, AUnit)) m"
| "spec_step (SBatchDelete sh ks) m = on_shard sh (\<lambda>es. (fst (del_all ks es), ACount (snd (del_all ks es)))) m"
| "spec_step (SKeyCount sh) m = on_shard sh (\<lambda>es. (es, ACount (length es))) m"
| "spec_step (SClear sh) m = on_shard sh (\<lambda>es. ([], AUnit)) m"
| "spec_step (SCreate sh) m = (m(sh \<mapsto> []), Ok AUnit)"
| "spec_step (SDrop sh) m = (m(sh := None), Ok AUnit)"
| "spec_step (SShardExists sh) m = (m, Ok (ABool (m sh \<noteq> None)))"

fun allowed :: "store_call \<Rightarrow> shard_map \<Rightarrow> bool" where
  "allowed (SCreate sh) m \<longleftrightarrow> m sh = None"
| "allowed _ m \<longleftrightarrow> True"

primrec run_calls :: "(store_call \<Rightarrow> 's \<Rightarrow> 's \<times> 'r) \<Rightarrow> store_call list \<Rightarrow> 's \<Rightarrow> 's \<times> 'r list" where
  "run_calls step [] s = (s, [])"
| "run_calls step (c # cs) s =
     (let (s1, r) = step c s; (s2, rs) = run_calls step cs s1 in (s2, r # rs))"

primrec allowed_calls :: "store_call list \<Rightarrow> shard_map \<Rightarrow> bool" where
  "allowed_calls [] m \<longleftrightarrow> True"
| "allowed_calls (c # cs) m \<longleftrightarrow> allowed c m \<and> allowed_calls cs (fst (spec_step c m))"

locale shard_store =
  fixes inv :: "'s \<Rightarrow> bool"
    and view :: "'s \<Rightarrow> shard_map"
    and step :: "store_call \<Rightarrow> 's \<Rightarrow> 's \<times> (KeyValueError, store_answer) res"
  assumes step_correct:
    "inv s \<Longrightarrow> allowed c (view s) \<Longrightarrow>
     inv (fst (step c s)) \<and> view (fst (step c s)) = fst (spec_step c (view s)) \<and> snd (step c s) = snd (spec_step c (view s))"
begin

lemma run_correct:
  "inv s \<Longrightarrow> allowed_calls cs (view s) \<Longrightarrow>
   inv (fst (run_calls step cs s)) \<and>
   view (fst (run_calls step cs s)) = fst (run_calls spec_step cs (view s)) \<and>
   snd (run_calls step cs s) = snd (run_calls spec_step cs (view s))"
proof (induction cs arbitrary: s)
  case (Cons c cs)
  then have "allowed c (view s)" "allowed_calls cs (fst (spec_step c (view s)))" by auto
  with Cons show ?case using step_correct [of s c] by (simp add: case_prod_beta Let_def)
qed simp

text \<open>Reading a key after writing it, and after writing another.\<close>

lemma get_after_put:
  assumes "inv s" "view s sh \<noteq> None"
  shows "snd (step (SGet sh k') (fst (step (SPut sh k v) s))) =
    (if k' = k then Ok (AValue (Some v)) else snd (step (SGet sh k') s))"
  using assms step_correct [of s "SPut sh k v"] step_correct [of "fst (step (SPut sh k v) s)" "SGet sh k'"]
    step_correct [of s "SGet sh k'"]
  by (auto simp: on_shard_def)

lemma get_after_delete:
  assumes "inv s" "view s sh \<noteq> None"
  shows "snd (step (SGet sh k') (fst (step (SDelete sh k) s))) =
    (if k' = k then Ok (AValue None) else snd (step (SGet sh k') s))"
  using assms step_correct [of s "SDelete sh k"] step_correct [of "fst (step (SDelete sh k) s)" "SGet sh k'"]
    step_correct [of s "SGet sh k'"]
  by (auto simp: on_shard_def)

text \<open>Shards do not interfere.\<close>

lemma other_shard_untouched:
  assumes "inv s" "sh' \<noteq> sh"
  shows "view (fst (step (SPut sh k v) s)) sh' = view s sh'" "view (fst (step (SDelete sh k) s)) sh' = view s sh'"
    "view (fst (step (SClear sh) s)) sh' = view s sh'" "view (fst (step (SDrop sh) s)) sh' = view s sh'"
  using assms step_correct [of s "SPut sh k v"] step_correct [of s "SDelete sh k"] step_correct [of s "SClear sh"]
    step_correct [of s "SDrop sh"]
  by (auto simp: on_shard_def split: option.splits)

end

text \<open>Two stores of the contract cannot be told apart by their clients.\<close>

locale two_stores =
  a: shard_store inv_a view_a step_a + b: shard_store inv_b view_b step_b
  for inv_a :: "'s \<Rightarrow> bool" and view_a step_a and inv_b :: "'t \<Rightarrow> bool" and view_b step_b
begin

lemma same_answers:
  assumes "inv_a s" "inv_b t" "view_a s = view_b t" "allowed_calls cs (view_a s)"
  shows "snd (run_calls step_a cs s) = snd (run_calls step_b cs t)"
    and "view_a (fst (run_calls step_a cs s)) = view_b (fst (run_calls step_b cs t))"
  using a.run_correct [OF assms(1,4)] b.run_correct [OF assms(2)] assms(3,4) by simp_all

end

end
