(* ===== verification/Kvt_Memory.thy ===== *)
theory Kvt_Memory
  imports Store_Spec
begin

text \<open>
  The in-memory shard store, \<open>nanograph-kvt/src/memory.rs\<close>: a map from shard identifiers to ordered
  maps, scans, and transactions that buffer their writes. An ordered map (\<open>BTreeMap\<close>) is its sorted
  list of entries. Lock poisoning is not modelled. The transaction identifier is random and its
  timestamp is the clock; both are arguments.
\<close>

section \<open>The store\<close>

record MemoryKeyValueShardStore =
  ms_shards :: "(ShardId \<times> entry_list) list"

definition MemoryStore_new :: MemoryKeyValueShardStore where
  "MemoryStore_new = \<lparr>ms_shards = []\<rparr>"

definition ms_get_shard :: "MemoryKeyValueShardStore \<Rightarrow> ShardId \<Rightarrow> (KeyValueError, entry_list) res" where
  "ms_get_shard s sh = (case map_of (ms_shards s) sh of Some d \<Rightarrow> Ok d | None \<Rightarrow> Err (ShardNotFound sh))"

definition ms_set_shard :: "MemoryKeyValueShardStore \<Rightarrow> ShardId \<Rightarrow> entry_list \<Rightarrow> MemoryKeyValueShardStore" where
  "ms_set_shard s sh d = s\<lparr>ms_shards := hm_insert sh d (ms_shards s)\<rparr>"

definition ms_get :: "MemoryKeyValueShardStore \<Rightarrow> ShardId \<Rightarrow> bytes \<Rightarrow> (KeyValueError, bytes option) res" where
  "ms_get s sh key = (case ms_get_shard s sh of Inl f \<Rightarrow> Inl f | Inr d \<Rightarrow> Ok (map_of d key))"

definition ms_put ::
  "MemoryKeyValueShardStore \<Rightarrow> ShardId \<Rightarrow> bytes \<Rightarrow> bytes \<Rightarrow> MemoryKeyValueShardStore \<times> (KeyValueError, unit) res" where
  "ms_put s sh key val =
     (case ms_get_shard s sh of Inl f \<Rightarrow> (s, Inl f) | Inr d \<Rightarrow> (ms_set_shard s sh (al_put key val d), Ok ()))"

definition ms_delete ::
  "MemoryKeyValueShardStore \<Rightarrow> ShardId \<Rightarrow> bytes \<Rightarrow> MemoryKeyValueShardStore \<times> (KeyValueError, bool) res" where
  "ms_delete s sh key =
     (case ms_get_shard s sh of
        Inl f \<Rightarrow> (s, Inl f)
      | Inr d \<Rightarrow> (ms_set_shard s sh (al_del key d), Ok (map_of d key \<noteq> None)))"

definition ms_exists :: "MemoryKeyValueShardStore \<Rightarrow> ShardId \<Rightarrow> bytes \<Rightarrow> (KeyValueError, bool) res" where
  "ms_exists s sh key = (case ms_get_shard s sh of Inl f \<Rightarrow> Inl f | Inr d \<Rightarrow> Ok (map_of d key \<noteq> None))"

definition ms_batch_get ::
  "MemoryKeyValueShardStore \<Rightarrow> ShardId \<Rightarrow> bytes list \<Rightarrow> (KeyValueError, bytes option list) res" where
  "ms_batch_get s sh keys = (case ms_get_shard s sh of Inl f \<Rightarrow> Inl f | Inr d \<Rightarrow> Ok (map (map_of d) keys))"

primrec insert_pairs :: "entry_list \<Rightarrow> entry_list \<Rightarrow> entry_list" where
  "insert_pairs [] d = d"
| "insert_pairs (p # ps) d = insert_pairs ps (al_put (fst p) (snd p) d)"

definition ms_batch_put ::
  "MemoryKeyValueShardStore \<Rightarrow> ShardId \<Rightarrow> entry_list \<Rightarrow> MemoryKeyValueShardStore \<times> (KeyValueError, unit) res" where
  "ms_batch_put s sh pairs =
     (case ms_get_shard s sh of
        Inl f \<Rightarrow> (s, Inl f)
      | Inr d \<Rightarrow> (ms_set_shard s sh (insert_pairs pairs d), Ok ()))"

primrec remove_keys :: "bytes list \<Rightarrow> entry_list \<Rightarrow> nat \<Rightarrow> entry_list \<times> nat" where
  "remove_keys [] d n = (d, n)"
| "remove_keys (k # ks) d n = remove_keys ks (al_del k d) (if map_of d k \<noteq> None then n + 1 else n)"

definition ms_batch_delete ::
  "MemoryKeyValueShardStore \<Rightarrow> ShardId \<Rightarrow> bytes list \<Rightarrow> MemoryKeyValueShardStore \<times> (KeyValueError, nat) res" where
  "ms_batch_delete s sh keys =
     (case ms_get_shard s sh of
        Inl f \<Rightarrow> (s, Inl f)
      | Inr d \<Rightarrow> let (d', n) = remove_keys keys d 0 in (ms_set_shard s sh d', Ok n))"

text \<open>\<open>BTreeMap::range\<close> panics if the start is above the end, or if both exclude the same key;
  a map that was never written to is not searched and does not panic, which is not told apart here.\<close>

fun range_panics :: "bytes bound \<Rightarrow> bytes bound \<Rightarrow> bool" where
  "range_panics Unbounded _ \<longleftrightarrow> False"
| "range_panics _ Unbounded \<longleftrightarrow> False"
| "range_panics (Excluded a) (Excluded b) \<longleftrightarrow> b \<le> a"
| "range_panics (Excluded a) (Included b) \<longleftrightarrow> b < a"
| "range_panics (Included a) (Excluded b) \<longleftrightarrow> b < a"
| "range_panics (Included a) (Included b) \<longleftrightarrow> b < a"

record MemoryKeyValueIterator =
  mi_items :: entry_list
  mi_index :: nat

definition mi_new :: "entry_list \<Rightarrow> MemoryKeyValueIterator" where
  "mi_new items = \<lparr>mi_items = items, mi_index = 0\<rparr>"

definition mi_poll_next :: "MemoryKeyValueIterator \<Rightarrow> MemoryKeyValueIterator \<times> (bytes \<times> bytes) option" where
  "mi_poll_next it =
     (if mi_index it < length (mi_items it)
      then (it\<lparr>mi_index := mi_index it + 1\<rparr>, Some (mi_items it ! mi_index it))
      else (it, None))"

definition mi_seek :: "MemoryKeyValueIterator \<Rightarrow> bytes \<Rightarrow> MemoryKeyValueIterator" where
  "mi_seek it key =
     (case first_index (\<lambda>e. key \<le> fst e) 0 (mi_items it) of
        Some pos \<Rightarrow> it\<lparr>mi_index := pos\<rparr>
      | None \<Rightarrow> it\<lparr>mi_index := length (mi_items it)\<rparr>)"

definition mi_position :: "MemoryKeyValueIterator \<Rightarrow> bytes option" where
  "mi_position it =
     (if mi_index it < length (mi_items it) then Some (fst (mi_items it ! mi_index it)) else None)"

definition mi_valid :: "MemoryKeyValueIterator \<Rightarrow> bool" where
  "mi_valid it \<longleftrightarrow> mi_index it < length (mi_items it)"

definition scan_data :: "entry_list \<Rightarrow> KeyRange \<Rightarrow> (KeyValueError, MemoryKeyValueIterator) res" where
  "scan_data d r =
     (if range_panics (range_start r) (range_end r) then Inl Panicked
      else let items = filter (\<lambda>e. within_start (range_start r) (fst e) \<and> within_end (range_end r) (fst e)) d;
               ordered = (if range_reverse r then rev items else items)
           in Ok (mi_new (case range_limit r of Some n \<Rightarrow> take n ordered | None \<Rightarrow> ordered)))"

definition ms_scan :: "MemoryKeyValueShardStore \<Rightarrow> ShardId \<Rightarrow> KeyRange \<Rightarrow> (KeyValueError, MemoryKeyValueIterator) res" where
  "ms_scan s sh r = (case ms_get_shard s sh of Inl f \<Rightarrow> Inl f | Inr d \<Rightarrow> scan_data d r)"

definition ms_key_count :: "MemoryKeyValueShardStore \<Rightarrow> ShardId \<Rightarrow> (KeyValueError, nat) res" where
  "ms_key_count s sh = (case ms_get_shard s sh of Inl f \<Rightarrow> Inl f | Inr d \<Rightarrow> Ok (length d))"

definition ms_data_bytes :: "entry_list \<Rightarrow> nat" where
  "ms_data_bytes d = sum_list (map (\<lambda>(k, v). length k + length v) d)"

definition ms_create_shard :: "MemoryKeyValueShardStore \<Rightarrow> ShardId \<Rightarrow> MemoryKeyValueShardStore \<times> (KeyValueError, unit) res" where
  "ms_create_shard s sh =
     (case map_of (ms_shards s) sh of Some _ \<Rightarrow> (s, Ok ()) | None \<Rightarrow> (ms_set_shard s sh [], Ok ()))"

definition ms_drop_shard :: "MemoryKeyValueShardStore \<Rightarrow> ShardId \<Rightarrow> MemoryKeyValueShardStore \<times> (KeyValueError, unit) res" where
  "ms_drop_shard s sh = (s\<lparr>ms_shards := al_del sh (ms_shards s)\<rparr>, Ok ())"

definition ms_clear :: "MemoryKeyValueShardStore \<Rightarrow> ShardId \<Rightarrow> MemoryKeyValueShardStore \<times> (KeyValueError, unit) res" where
  "ms_clear s sh = (case ms_get_shard s sh of Inl f \<Rightarrow> (s, Inl f) | Inr d \<Rightarrow> (ms_set_shard s sh [], Ok ()))"

definition ms_list_shards :: "MemoryKeyValueShardStore \<Rightarrow> ShardId list" where
  "ms_list_shards s = map fst (ms_shards s)"

definition ms_shard_exists :: "MemoryKeyValueShardStore \<Rightarrow> ShardId \<Rightarrow> bool" where
  "ms_shard_exists s sh \<longleftrightarrow> map_of (ms_shards s) sh \<noteq> None"

section \<open>Transactions\<close>

record MemoryTransaction =
  mtx_id :: u64
  mtx_ts :: u64
  pending_writes :: "(ShardId \<times> (bytes \<times> bytes option) list) list"

definition MemoryTransaction_new :: "u64 \<Rightarrow> u64 \<Rightarrow> MemoryTransaction" where
  "MemoryTransaction_new i ts = \<lparr>mtx_id = i, mtx_ts = ts, pending_writes = []\<rparr>"

definition pending_of :: "MemoryTransaction \<Rightarrow> ShardId \<Rightarrow> (bytes \<times> bytes option) list" where
  "pending_of tx sh = (case map_of (pending_writes tx) sh of Some ws \<Rightarrow> ws | None \<Rightarrow> [])"

definition mtx_get ::
  "MemoryKeyValueShardStore \<Rightarrow> MemoryTransaction \<Rightarrow> ShardId \<Rightarrow> bytes \<Rightarrow> (KeyValueError, bytes option) res" where
  "mtx_get s tx sh key =
     (case map_of (pending_of tx sh) key of
        Some v \<Rightarrow> Ok v
      | None \<Rightarrow> (case map_of (ms_shards s) sh of Some d \<Rightarrow> Ok (map_of d key) | None \<Rightarrow> Err (ShardNotFound sh)))"

definition mtx_put :: "MemoryTransaction \<Rightarrow> ShardId \<Rightarrow> bytes \<Rightarrow> bytes \<Rightarrow> MemoryTransaction \<times> (KeyValueError, unit) res" where
  "mtx_put tx sh key val =
     (tx\<lparr>pending_writes := hm_insert sh (hm_insert key (Some val) (pending_of tx sh)) (pending_writes tx)\<rparr>, Ok ())"

definition mtx_delete :: "MemoryTransaction \<Rightarrow> ShardId \<Rightarrow> bytes \<Rightarrow> MemoryTransaction \<times> (KeyValueError, bool) res" where
  "mtx_delete tx sh key =
     (tx\<lparr>pending_writes := hm_insert sh (hm_insert key None (pending_of tx sh)) (pending_writes tx)\<rparr>, Ok True)"

primrec merge_pending :: "(bytes \<times> bytes option) list \<Rightarrow> entry_list \<Rightarrow> entry_list" where
  "merge_pending [] d = d"
| "merge_pending (w # ws) d =
     merge_pending ws (case snd w of Some v \<Rightarrow> al_put (fst w) v d | None \<Rightarrow> al_del (fst w) d)"

definition mtx_scan ::
  "MemoryKeyValueShardStore \<Rightarrow> MemoryTransaction \<Rightarrow> ShardId \<Rightarrow> KeyRange \<Rightarrow> (KeyValueError, MemoryKeyValueIterator) res" where
  "mtx_scan s tx sh r =
     (case map_of (ms_shards s) sh of
        None \<Rightarrow> Err (ShardNotFound sh)
      | Some d \<Rightarrow> scan_data (merge_pending (pending_of tx sh) d) r)"

primrec commit_shards ::
  "(ShardId \<times> (bytes \<times> bytes option) list) list \<Rightarrow> MemoryKeyValueShardStore \<Rightarrow>
   MemoryKeyValueShardStore \<times> (KeyValueError, unit) res" where
  "commit_shards [] s = (s, Ok ())"
| "commit_shards (p # ps) s =
     (case map_of (ms_shards s) (fst p) of
        None \<Rightarrow> (s, Err (ShardNotFound (fst p)))
      | Some d \<Rightarrow> commit_shards ps (ms_set_shard s (fst p) (merge_pending (snd p) d)))"

definition mtx_commit ::
  "MemoryKeyValueShardStore \<Rightarrow> MemoryTransaction \<Rightarrow> MemoryKeyValueShardStore \<times> (KeyValueError, unit) res" where
  "mtx_commit s tx = commit_shards (pending_writes tx) s"

definition mtx_rollback :: "MemoryTransaction \<Rightarrow> MemoryTransaction" where
  "mtx_rollback tx = tx\<lparr>pending_writes := []\<rparr>"

section \<open>The store implements the contract\<close>

definition res_map :: "('a \<Rightarrow> 'b) \<Rightarrow> ('e, 'a) res \<Rightarrow> ('e, 'b) res" where
  "res_map g r = (case r of Inl f \<Rightarrow> Inl f | Inr a \<Rightarrow> Ok (g a))"

lemma res_map_simps [simp]: "res_map g (Ok a) = Ok (g a)" "res_map g (Inl f) = Inl f"
  by (simp_all add: res_map_def)

fun mem_step :: "store_call \<Rightarrow> MemoryKeyValueShardStore \<Rightarrow> MemoryKeyValueShardStore \<times> (KeyValueError, store_answer) res" where
  "mem_step (SGet sh k) s = (s, res_map AValue (ms_get s sh k))"
| "mem_step (SPut sh k v) s = map_prod id (res_map (\<lambda>_. AUnit)) (ms_put s sh k v)"
| "mem_step (SDelete sh k) s = map_prod id (res_map ABool) (ms_delete s sh k)"
| "mem_step (SExists sh k) s = (s, res_map ABool (ms_exists s sh k))"
| "mem_step (SBatchGet sh ks) s = (s, res_map AValues (ms_batch_get s sh ks))"
| "mem_step (SBatchPut sh kvs) s = map_prod id (res_map (\<lambda>_. AUnit)) (ms_batch_put s sh kvs)"
| "mem_step (SBatchDelete sh ks) s = map_prod id (res_map ACount) (ms_batch_delete s sh ks)"
| "mem_step (SKeyCount sh) s = (s, res_map ACount (ms_key_count s sh))"
| "mem_step (SCreate sh) s = map_prod id (res_map (\<lambda>_. AUnit)) (ms_create_shard s sh)"
| "mem_step (SDrop sh) s = map_prod id (res_map (\<lambda>_. AUnit)) (ms_drop_shard s sh)"
| "mem_step (SClear sh) s = map_prod id (res_map (\<lambda>_. AUnit)) (ms_clear s sh)"
| "mem_step (SShardExists sh) s = (s, Ok (ABool (ms_shard_exists s sh)))"

definition mem_view :: "MemoryKeyValueShardStore \<Rightarrow> shard_map" where
  "mem_view s = map_of (ms_shards s)"

lemma mem_view_set [simp]: "mem_view (ms_set_shard s sh d) = (mem_view s)(sh \<mapsto> d)"
  by (simp add: mem_view_def ms_set_shard_def)

lemma mem_view_drop [simp]: "mem_view (s\<lparr>ms_shards := al_del sh (ms_shards s)\<rparr>) = (mem_view s)(sh := None)"
  by (simp add: mem_view_def)

lemma insert_pairs_put_all: "insert_pairs ps d = put_all ps d"
  by (induction ps arbitrary: d) (auto simp: put_all_def)

lemma map_of_present: "map_of es k \<noteq> None \<longleftrightarrow> k \<in> fst ` set es"
  by (simp add: map_of_eq_None_iff)

lemma remove_keys_del_all: "remove_keys ks d n = (fst (del_all ks d), n + snd (del_all ks d))"
  by (induction ks arbitrary: d n) (auto simp: Let_def case_prod_beta map_of_eq_None_iff)

interpretation mem: shard_store "\<lambda>_. True" mem_view mem_step
proof
  fix s c
  show "True \<and> mem_view (fst (mem_step c s)) = fst (spec_step c (mem_view s)) \<and>
      snd (mem_step c s) = snd (spec_step c (mem_view s))" if "allowed c (mem_view s)"
    using that
    by (cases "(c, s)" rule: mem_step.cases; simp)
       (auto simp: on_shard_def mem_view_def [symmetric] ms_get_def ms_put_def ms_delete_def ms_exists_def
         ms_batch_get_def ms_batch_put_def ms_batch_delete_def ms_key_count_def ms_create_shard_def ms_drop_shard_def
         ms_clear_def ms_shard_exists_def ms_get_shard_def map_of_present insert_pairs_put_all remove_keys_del_all
         case_prod_beta simp del: not_None_eq split: option.splits)
qed

section \<open>What a transaction reads is what it commits\<close>

definition mtx_ok :: "MemoryTransaction \<Rightarrow> bool" where
  "mtx_ok tx \<longleftrightarrow>
     distinct (map fst (pending_writes tx)) \<and> (\<forall>p \<in> set (pending_writes tx). distinct (map fst (snd p)))"

lemma pending_distinct: "mtx_ok tx \<Longrightarrow> distinct (map fst (pending_of tx sh))"
  by (auto simp: mtx_ok_def pending_of_def dest: map_of_SomeD split: option.split)

lemma mtx_ok_new: "mtx_ok (MemoryTransaction_new i ts)"
  by (simp add: mtx_ok_def MemoryTransaction_new_def)

lemma mtx_ok_write:
  assumes "mtx_ok tx"
  shows "mtx_ok (fst (mtx_put tx sh k v))" "mtx_ok (fst (mtx_delete tx sh k))"
proof -
  have "mtx_ok (tx\<lparr>pending_writes := hm_insert sh (hm_insert k w (pending_of tx sh)) (pending_writes tx)\<rparr>)" for w
    using assms pending_distinct [OF assms, of sh] set_hm_insert [of sh "hm_insert k w (pending_of tx sh)" "pending_writes tx"]
    by (auto simp: mtx_ok_def hm_insert_distinct)
  then show "mtx_ok (fst (mtx_put tx sh k v))" "mtx_ok (fst (mtx_delete tx sh k))"
    by (simp_all add: mtx_put_def mtx_delete_def)
qed

lemma merge_pending_map_of:
  "distinct (map fst ws) \<Longrightarrow>
   map_of (merge_pending ws d) k = (case map_of ws k of Some v \<Rightarrow> v | None \<Rightarrow> map_of d k)"
proof (induction ws arbitrary: d)
  case (Cons w ws)
  then have "map_of ws (fst w) = None" by (simp add: map_of_eq_None_iff)
  with Cons show ?case by (cases w; cases "snd w") (auto split: option.split)
qed simp

lemma commit_shards_map_of:
  assumes "distinct (map fst ps)" "\<forall>p \<in> set ps. map_of (ms_shards s) (fst p) \<noteq> None"
  shows "snd (commit_shards ps s) = Ok () \<and>
    map_of (ms_shards (fst (commit_shards ps s))) sh =
      (case map_of ps sh of
         Some ws \<Rightarrow> map_option (merge_pending ws) (map_of (ms_shards s) sh)
       | None \<Rightarrow> map_of (ms_shards s) sh)"
  using assms
proof (induction ps arbitrary: s)
  case (Cons p ps)
  obtain d where d: "map_of (ms_shards s) (fst p) = Some d" using Cons.prems(2) by auto
  let ?s = "ms_set_shard s (fst p) (merge_pending (snd p) d)"
  have "map_of ps (fst p) = None" using Cons.prems(1) by (simp add: map_of_eq_None_iff)
  moreover have "\<forall>q \<in> set ps. map_of (ms_shards ?s) (fst q) \<noteq> None"
    using Cons.prems(2) by (auto simp: ms_set_shard_def)
  with Cons.IH [of ?s] Cons.prems(1)
  have "snd (commit_shards ps ?s) = Ok () \<and>
    map_of (ms_shards (fst (commit_shards ps ?s))) sh =
      (case map_of ps sh of
         Some ws \<Rightarrow> map_option (merge_pending ws) (map_of (ms_shards ?s) sh)
       | None \<Rightarrow> map_of (ms_shards ?s) sh)" by simp
  ultimately show ?case using d by (cases p) (auto simp: ms_set_shard_def split: option.splits)
qed simp

text \<open>
  C14: A commit of the in-memory store publishes exactly what the transaction read: if every shard the
  transaction wrote to exists, the commit succeeds, and afterwards every read of the store returns
  what the transaction would have read just before.
\<close>

theorem memory_commit_publishes:
  assumes "mtx_ok tx" "\<forall>p \<in> set (pending_writes tx). map_of (ms_shards s) (fst p) \<noteq> None"
  shows "snd (mtx_commit s tx) = Ok () \<and> ms_get (fst (mtx_commit s tx)) sh k = mtx_get s tx sh k"
proof -
  have "distinct (map fst (pending_writes tx))" using assms(1) by (simp add: mtx_ok_def)
  note c = commit_shards_map_of [OF this assms(2), of sh]
  have "distinct (map fst ws)" if "map_of (pending_writes tx) sh = Some ws" for ws
    using assms(1) that by (auto simp: mtx_ok_def dest: map_of_SomeD)
  moreover have "map_of (ms_shards s) sh \<noteq> None" if "map_of (pending_writes tx) sh = Some ws" for ws
    using assms(2) map_of_SomeD [OF that] by force
  ultimately show ?thesis
    using c by (cases "map_of (pending_writes tx) sh"; cases "map_of (ms_shards s) sh")
      (auto simp: mtx_commit_def ms_get_def ms_get_shard_def mtx_get_def pending_of_def merge_pending_map_of split: option.split)
qed

definition demo_mem :: MemoryKeyValueShardStore where
  "demo_mem = fst (ms_create_shard MemoryStore_new 1)"

definition demo_tx :: MemoryTransaction where
  "demo_tx = fst (mtx_delete (fst (mtx_put (MemoryTransaction_new 7 9) 1 [1] [10])) 1 [2])"

theorem memory_commit_publishes_witness:
  "snd (mtx_commit demo_mem demo_tx) = Ok () \<and> ms_get (fst (mtx_commit demo_mem demo_tx)) 1 [1] = mtx_get demo_mem demo_tx 1 [1]"
proof (rule memory_commit_publishes)
  show "mtx_ok demo_tx" unfolding demo_tx_def by (intro mtx_ok_write mtx_ok_new)
  show "\<forall>p \<in> set (pending_writes demo_tx). map_of (ms_shards demo_mem) (fst p) \<noteq> None" by code_simp
qed

text \<open>
  A commit of the in-memory store is not atomic. If a shard the transaction wrote to is missing, the
  commit reports the error, but the writes to shards drained before it stay applied.
\<close>

theorem memory_commit_not_atomic:
  assumes "map_of (ms_shards s) a = Some d" "map_of (ms_shards s) b = None" "pending_writes tx = [(a, ws), (b, ws')]"
  shows "mtx_commit s tx = (ms_set_shard s a (merge_pending ws d), Err (ShardNotFound b))"
proof -
  have "a \<noteq> b" using assms(1,2) by auto
  then show ?thesis using assms by (simp add: mtx_commit_def ms_set_shard_def)
qed

theorem memory_commit_not_atomic_witness:
  "let s = fst (ms_create_shard MemoryStore_new 1);
       tx = fst (mtx_put (fst (mtx_put (MemoryTransaction_new 7 9) 1 [1] [10])) 2 [1] [10])
   in mtx_commit s tx = (ms_set_shard s 1 (merge_pending [([1], Some [10])] []), Err (ShardNotFound 2))"
  unfolding Let_def by (rule memory_commit_not_atomic) code_simp+

end
