(* ===== verification/BTree_Store.thy ===== *)
theory BTree_Store
  imports BTree_Txn BTree_Metrics Wal Kvt_Memory
begin

text \<open>
  The B+tree key-value store, \<open>nanograph-btree/src/kvstore.rs\<close>: a tree, an optional log and counters for
  each shard; recovery by replaying the log; transactions on one shard. A shard's tree is shared
  with the transactions that refer to it, so it carries an identity. The hash library of the log
  is the argument \<open>H\<close>, the clock \<open>now\<close>. The log writer appends to the manager's active segment.
\<close>

section \<open>State\<close>

record ShardData =
  sd_ref :: nat
  sd_tree :: BPlusTree
  sd_wal :: "WriteAheadLogManager option"
  sd_flushed_lsn :: "LogSequenceNumber option"

record BTreeKeyValueStore =
  bs_shards :: "(ShardId \<times> ShardData) list"
  bs_next_ref :: nat
  bs_tx_manager :: TransactionManager
  bs_metrics :: "(ShardId \<times> BTreeMetrics) list"
  bs_config :: BPlusTreeConfig
  bs_wal_enabled :: bool

type_synonym 'a store_result = "BTreeKeyValueStore \<times> (KeyValueError, 'a) res"

definition BTreeStore_new :: "BPlusTreeConfig \<Rightarrow> BTreeKeyValueStore" where
  "BTreeStore_new cfg =
     \<lparr>bs_shards = [], bs_next_ref = 0, bs_tx_manager = TransactionManager_new, bs_metrics = [],
      bs_config = cfg, bs_wal_enabled = False\<rparr>"

definition BTreeStore_with_wal :: "BPlusTreeConfig \<Rightarrow> BTreeKeyValueStore" where
  "BTreeStore_with_wal cfg =
     \<lparr>bs_shards = [], bs_next_ref = 0, bs_tx_manager = TransactionManager_new, bs_metrics = [],
      bs_config = cfg, bs_wal_enabled = True\<rparr>"

definition bs_get_shard :: "BTreeKeyValueStore \<Rightarrow> ShardId \<Rightarrow> (KeyValueError, ShardData) res" where
  "bs_get_shard s sh = (case map_of (bs_shards s) sh of Some d \<Rightarrow> Ok d | None \<Rightarrow> Err (ShardNotFound sh))"

definition bs_get_tree :: "BTreeKeyValueStore \<Rightarrow> ShardId \<Rightarrow> (KeyValueError, BPlusTree) res" where
  "bs_get_tree s sh = (case bs_get_shard s sh of Inl f \<Rightarrow> Inl f | Inr d \<Rightarrow> Ok (sd_tree d))"

text \<open>Changes to shared objects: the data of a shard, its tree, its counters (created on first use).\<close>

definition set_shard :: "ShardId \<Rightarrow> ShardData \<Rightarrow> BTreeKeyValueStore \<Rightarrow> BTreeKeyValueStore" where
  "set_shard sh d s = s\<lparr>bs_shards := hm_insert sh d (bs_shards s)\<rparr>"

definition set_tree :: "ShardId \<Rightarrow> BPlusTree \<Rightarrow> BTreeKeyValueStore \<Rightarrow> BTreeKeyValueStore" where
  "set_tree sh t s =
     (case map_of (bs_shards s) sh of Some d \<Rightarrow> set_shard sh (d\<lparr>sd_tree := t\<rparr>) s | None \<Rightarrow> s)"

definition bs_get_metrics :: "BTreeKeyValueStore \<Rightarrow> ShardId \<Rightarrow> BTreeMetrics" where
  "bs_get_metrics s sh = (case map_of (bs_metrics s) sh of Some m \<Rightarrow> m | None \<Rightarrow> BTreeMetrics_new)"

definition with_metrics :: "ShardId \<Rightarrow> (BTreeMetrics \<Rightarrow> BTreeMetrics) \<Rightarrow> BTreeKeyValueStore \<Rightarrow> BTreeKeyValueStore" where
  "with_metrics sh g s = s\<lparr>bs_metrics := hm_insert sh (g (bs_get_metrics s sh)) (bs_metrics s)\<rparr>"

section \<open>The log\<close>

definition wal_append :: "hash_lib \<Rightarrow> WriteAheadLogManager \<Rightarrow> WalRecordKind \<Rightarrow> bytes \<Rightarrow>
  WriteAheadLogManager \<times> (WriteAheadLogError, LogSequenceNumber) res" where
  "wal_append H m kind payload =
     (case writer_append H (wm_active m) \<lparr>wr_kind = kind_to_u16 kind, wr_payload = payload\<rparr> Sync of
        (f, r) \<Rightarrow> (m\<lparr>wm_active := f\<rparr>, r))"

text \<open>\<open>wal_record\<close>: append a record to the log of a shard, if it has one.\<close>

definition wal_record ::
  "hash_lib \<Rightarrow> string \<Rightarrow> ShardId \<Rightarrow> ShardData \<Rightarrow> WalRecordKind \<Rightarrow> bytes \<Rightarrow> BTreeKeyValueStore \<Rightarrow> unit store_result" where
  "wal_record H msg sh d kind payload s =
     (case sd_wal d of
        None \<Rightarrow> (s, Ok ())
      | Some m \<Rightarrow>
          (case wal_append H m kind payload of
             (m', Inl f) \<Rightarrow> (set_shard sh (d\<lparr>sd_wal := Some m'\<rparr>) s,
                            Inl (map_fault (\<lambda>e. StorageCorruption (msg @ wal_error_text e)) f))
           | (m', Inr _) \<Rightarrow> (set_shard sh (d\<lparr>sd_wal := Some m'\<rparr>) s, Ok ())))"

definition wal_write_put :: "hash_lib \<Rightarrow> ShardId \<Rightarrow> bytes \<Rightarrow> bytes \<Rightarrow> BTreeKeyValueStore \<Rightarrow> unit store_result" where
  "wal_write_put H sh key val s =
     (if \<not> bs_wal_enabled s then (s, Ok ())
      else case bs_get_shard s sh of
        Inl f \<Rightarrow> (s, Inl f)
      | Inr d \<Rightarrow> wal_record H ''WAL write failed: '' sh d WPut (btree_encode_put key val) s)"

definition wal_write_delete :: "hash_lib \<Rightarrow> ShardId \<Rightarrow> bytes \<Rightarrow> BTreeKeyValueStore \<Rightarrow> unit store_result" where
  "wal_write_delete H sh key s =
     (if \<not> bs_wal_enabled s then (s, Ok ())
      else case bs_get_shard s sh of
        Inl f \<Rightarrow> (s, Inl f)
      | Inr d \<Rightarrow> wal_record H ''WAL write failed: '' sh d WDelete (btree_encode_delete key) s)"

text \<open>One record of the replay loop. The result of a delete is dropped, unless the call does not return.\<close>

definition ignore_error :: "('e, 'a) res \<Rightarrow> ('f, unit) res" where
  "ignore_error r =
     (case r of Inl Panicked \<Rightarrow> Inl Panicked | Inl Diverged \<Rightarrow> Inl Diverged | Inl (Raised _) \<Rightarrow> Ok () | Inr _ \<Rightarrow> Ok ())"

definition replay_entry :: "BPlusTree \<Rightarrow> WriteAheadLogEntry \<Rightarrow> BPlusTree \<times> (KeyValueError, unit) res" where
  "replay_entry tree entry =
     (case kind_from_u16 (en_kind entry) of
        Some WPut \<Rightarrow>
          (case btree_decode_put (en_payload entry) of
             Inl f \<Rightarrow> (tree, Inl (map_fault (\<lambda>e. StorageCorruption (''Failed to decode put: '' @ btree_error_text e)) f))
           | Inr (key, val) \<Rightarrow>
               (case BPlusTree_insert tree key val of
                  (tree', r) \<Rightarrow> (tree', map_err (\<lambda>e. StorageCorruption (btree_error_text e)) r)))
      | Some WDelete \<Rightarrow>
          (case btree_decode_delete (en_payload entry) of
             Inl f \<Rightarrow> (tree, Inl (map_fault (\<lambda>e. StorageCorruption (''Failed to decode delete: '' @ btree_error_text e)) f))
           | Inr key \<Rightarrow> (case BPlusTree_delete tree key of (tree', r) \<Rightarrow> (tree', ignore_error r)))
      | Some WCheckpoint \<Rightarrow> (tree, Ok ())
      | Some WClear \<Rightarrow>
          (case BPlusTree_clear tree of
             (tree', r) \<Rightarrow> (tree', map_err (\<lambda>e. StorageCorruption (''Failed to clear: '' @ btree_error_text e)) r))
      | None \<Rightarrow> (tree, Ok ()))"

primrec replay_loop ::
  "nat \<Rightarrow> hash_lib \<Rightarrow> mem_file \<Rightarrow> WriteAheadLogReader \<Rightarrow> BPlusTree \<Rightarrow> BPlusTree \<times> (KeyValueError, unit) res" where
  "replay_loop 0 H file rd tree = (tree, Inl Diverged)"
| "replay_loop (Suc fuel) H file rd tree =
     (case reader_next H file rd of
        (rd', Inl f) \<Rightarrow> (tree, Inl (map_fault (\<lambda>e. StorageCorruption (''WAL read error: '' @ wal_error_text e)) f))
      | (rd', Inr None) \<Rightarrow> (tree, Ok ())
      | (rd', Inr (Some entry)) \<Rightarrow> and_then (replay_entry tree entry) (\<lambda>tree' _. replay_loop fuel H file rd' tree'))"

text \<open>The part of \<open>recover_from_wal\<close> after the shard is found: its log is replayed into the given tree.\<close>

definition replay_wal ::
  "hash_lib \<Rightarrow> WriteAheadLogManager option \<Rightarrow> BPlusTree \<Rightarrow> BPlusTree \<times> (KeyValueError, unit) res" where
  "replay_wal H wal tree =
     (case wal of
        None \<Rightarrow> (tree, Ok ())
      | Some m \<Rightarrow>
          (case manager_reader_from m LSN_ZERO of
             Inl f \<Rightarrow> (tree, Inl (map_fault (\<lambda>e. StorageCorruption (''Failed to create WAL reader: '' @ wal_error_text e)) f))
           | Inr (file, rd) \<Rightarrow> replay_loop (length file + 1) H file rd tree))"

definition recover_from_wal ::
  "hash_lib \<Rightarrow> ShardId \<Rightarrow> BPlusTree \<Rightarrow> BTreeKeyValueStore \<Rightarrow> BPlusTree \<times> (KeyValueError, unit) res" where
  "recover_from_wal H sh tree s =
     (if \<not> bs_wal_enabled s then (tree, Ok ())
      else case bs_get_shard s sh of
        Inl f \<Rightarrow> (tree, Inl f)
      | Inr d \<Rightarrow> replay_wal H (sd_wal d) tree)"

definition checkpoint_shard :: "hash_lib \<Rightarrow> ShardId \<Rightarrow> BTreeKeyValueStore \<Rightarrow> unit store_result" where
  "checkpoint_shard H sh s =
     (case bs_get_shard s sh of
        Inl f \<Rightarrow> (s, Inl f)
      | Inr d \<Rightarrow>
          if bs_wal_enabled s then wal_record H ''Checkpoint write failed: '' sh d WCheckpoint btree_encode_checkpoint s
          else (s, Ok ()))"

primrec checkpoint_loop :: "hash_lib \<Rightarrow> ShardId list \<Rightarrow> BTreeKeyValueStore \<Rightarrow> unit store_result" where
  "checkpoint_loop H [] s = (s, Ok ())"
| "checkpoint_loop H (sh # shs) s = and_then (checkpoint_shard H sh s) (\<lambda>s' _. checkpoint_loop H shs s')"

definition checkpoint_all :: "hash_lib \<Rightarrow> BTreeKeyValueStore \<Rightarrow> unit store_result" where
  "checkpoint_all H s = checkpoint_loop H (map fst (bs_shards s)) s"

section \<open>Reads and writes\<close>

definition bs_get :: "ShardId \<Rightarrow> bytes \<Rightarrow> BTreeKeyValueStore \<Rightarrow> bytes option store_result" where
  "bs_get sh key s =
     (case bs_get_tree s sh of
        Inl f \<Rightarrow> (s, Inl f)
      | Inr tree \<Rightarrow>
          (case map_err kv_error (BPlusTree_get tree key) of
             Inl f \<Rightarrow> (with_metrics sh id s, Inl f)
           | Inr result \<Rightarrow> (with_metrics sh (record_read (result \<noteq> None)) s, Ok result)))"

text \<open>The body of \<open>put\<close> after the log write, also run for every pair of \<open>batch_put\<close>.\<close>

definition tree_put :: "ShardId \<Rightarrow> bytes \<Rightarrow> bytes \<Rightarrow> BTreeKeyValueStore \<Rightarrow> unit store_result" where
  "tree_put sh key val s =
     (case bs_get_tree s sh of
        Inl f \<Rightarrow> (s, Inl f)
      | Inr tree \<Rightarrow>
          (case map_err kv_error (BPlusTree_get tree key) of
             Inl f \<Rightarrow> (with_metrics sh id s, Inl f)
           | Inr old \<Rightarrow>
               (case BPlusTree_insert tree key val of
                  (tree', Inl f) \<Rightarrow> (with_metrics sh id (set_tree sh tree' s), Inl (map_fault kv_error f))
                | (tree', Inr _) \<Rightarrow> (with_metrics sh (record_write (old \<noteq> None)) (set_tree sh tree' s), Ok ()))))"

definition tree_delete :: "ShardId \<Rightarrow> bytes \<Rightarrow> BTreeKeyValueStore \<Rightarrow> bool store_result" where
  "tree_delete sh key s =
     (case bs_get_tree s sh of
        Inl f \<Rightarrow> (s, Inl f)
      | Inr tree \<Rightarrow>
          (case BPlusTree_delete tree key of
             (tree', Inl f) \<Rightarrow> (with_metrics sh id (set_tree sh tree' s), Inl (map_fault kv_error f))
           | (tree', Inr deleted) \<Rightarrow>
               (with_metrics sh (if deleted then record_delete else id) (set_tree sh tree' s), Ok deleted)))"

definition bs_put :: "hash_lib \<Rightarrow> ShardId \<Rightarrow> bytes \<Rightarrow> bytes \<Rightarrow> BTreeKeyValueStore \<Rightarrow> unit store_result" where
  "bs_put H sh key val s = and_then (wal_write_put H sh key val s) (\<lambda>s' _. tree_put sh key val s')"

definition bs_delete :: "hash_lib \<Rightarrow> ShardId \<Rightarrow> bytes \<Rightarrow> BTreeKeyValueStore \<Rightarrow> bool store_result" where
  "bs_delete H sh key s = and_then (wal_write_delete H sh key s) (\<lambda>s' _. tree_delete sh key s')"

definition bs_exists :: "ShardId \<Rightarrow> bytes \<Rightarrow> BTreeKeyValueStore \<Rightarrow> (KeyValueError, bool) res" where
  "bs_exists sh key s =
     (case bs_get_tree s sh of
        Inl f \<Rightarrow> Inl f
      | Inr tree \<Rightarrow> res_map (\<lambda>r. r \<noteq> None) (map_err kv_error (BPlusTree_get tree key)))"

primrec get_loop :: "ShardId \<Rightarrow> BPlusTree \<Rightarrow> bytes list \<Rightarrow> BTreeKeyValueStore \<Rightarrow> bytes option list store_result" where
  "get_loop sh tree [] s = (s, Ok [])"
| "get_loop sh tree (k # ks) s =
     (case map_err kv_error (BPlusTree_get tree k) of
        Inl f \<Rightarrow> (s, Inl f)
      | Inr r \<Rightarrow> and_then (get_loop sh tree ks (with_metrics sh (record_read (r \<noteq> None)) s)) (\<lambda>s' rs. (s', Ok (r # rs))))"

definition bs_batch_get :: "ShardId \<Rightarrow> bytes list \<Rightarrow> BTreeKeyValueStore \<Rightarrow> bytes option list store_result" where
  "bs_batch_get sh keys s =
     (case bs_get_tree s sh of Inl f \<Rightarrow> (s, Inl f) | Inr tree \<Rightarrow> get_loop sh tree keys (with_metrics sh id s))"

primrec wal_put_loop :: "hash_lib \<Rightarrow> ShardId \<Rightarrow> entry_list \<Rightarrow> BTreeKeyValueStore \<Rightarrow> unit store_result" where
  "wal_put_loop H sh [] s = (s, Ok ())"
| "wal_put_loop H sh (p # ps) s =
     and_then (wal_write_put H sh (fst p) (snd p) s) (\<lambda>s' _. wal_put_loop H sh ps s')"

primrec put_loop :: "ShardId \<Rightarrow> entry_list \<Rightarrow> BTreeKeyValueStore \<Rightarrow> unit store_result" where
  "put_loop sh [] s = (s, Ok ())"
| "put_loop sh (p # ps) s = and_then (tree_put sh (fst p) (snd p) s) (\<lambda>s' _. put_loop sh ps s')"

definition bs_batch_put :: "hash_lib \<Rightarrow> ShardId \<Rightarrow> entry_list \<Rightarrow> BTreeKeyValueStore \<Rightarrow> unit store_result" where
  "bs_batch_put H sh pairs s =
     and_then (wal_put_loop H sh pairs s) (\<lambda>s' _.
       case bs_get_tree s' sh of Inl f \<Rightarrow> (s', Inl f) | Inr _ \<Rightarrow> put_loop sh pairs (with_metrics sh id s'))"

primrec wal_delete_loop :: "hash_lib \<Rightarrow> ShardId \<Rightarrow> bytes list \<Rightarrow> BTreeKeyValueStore \<Rightarrow> unit store_result" where
  "wal_delete_loop H sh [] s = (s, Ok ())"
| "wal_delete_loop H sh (k # ks) s = and_then (wal_write_delete H sh k s) (\<lambda>s' _. wal_delete_loop H sh ks s')"

primrec delete_loop :: "ShardId \<Rightarrow> bytes list \<Rightarrow> nat \<Rightarrow> BTreeKeyValueStore \<Rightarrow> nat store_result" where
  "delete_loop sh [] n s = (s, Ok n)"
| "delete_loop sh (k # ks) n s =
     and_then (tree_delete sh k s) (\<lambda>s' deleted. delete_loop sh ks (if deleted then n + 1 else n) s')"

definition bs_batch_delete :: "hash_lib \<Rightarrow> ShardId \<Rightarrow> bytes list \<Rightarrow> BTreeKeyValueStore \<Rightarrow> nat store_result" where
  "bs_batch_delete H sh keys s =
     and_then (wal_delete_loop H sh keys s) (\<lambda>s' _.
       case bs_get_tree s' sh of Inl f \<Rightarrow> (s', Inl f) | Inr _ \<Rightarrow> delete_loop sh keys 0 (with_metrics sh id s'))"

definition bs_scan :: "ShardId \<Rightarrow> KeyRange \<Rightarrow> BTreeKeyValueStore \<Rightarrow> BPlusTreeIterator store_result" where
  "bs_scan sh r s =
     (case bs_get_tree s sh of
        Inl f \<Rightarrow> (s, Inl f)
      | Inr tree \<Rightarrow>
          (with_metrics sh (record_scan 0) s,
           map_err kv_error
             (BPlusTreeIterator_new tree (range_start r) (range_end r) (range_reverse r) (range_limit r))))"

definition tree_stats :: "BPlusTree \<Rightarrow> (KeyValueError, BTreeStats) res" where
  "tree_stats tree = (case stats tree of Some st \<Rightarrow> Ok st | None \<Rightarrow> Inl Diverged)"

definition bs_key_count :: "ShardId \<Rightarrow> BTreeKeyValueStore \<Rightarrow> (KeyValueError, nat) res" where
  "bs_key_count sh s =
     (case bs_get_tree s sh of Inl f \<Rightarrow> Inl f | Inr tree \<Rightarrow> res_map num_keys (tree_stats tree))"

text \<open>
  The integer part of \<open>shard_stats\<close>: key count, data bytes, index bytes, and the engine counters in
  the order they are inserted (\<open>total_merges\<close> twice).
\<close>

definition bs_shard_stats ::
  "ShardId \<Rightarrow> BTreeKeyValueStore \<Rightarrow> (nat \<times> nat \<times> nat \<times> (string \<times> nat) list) store_result" where
  "bs_shard_stats sh s =
     (case bs_get_tree s sh of
        Inl f \<Rightarrow> (s, Inl f)
      | Inr tree \<Rightarrow>
          (case tree_stats tree of
             Inl f \<Rightarrow> (s, Inl f)
           | Inr st \<Rightarrow>
               let m = bs_get_metrics s sh in
               (with_metrics sh id s,
                Ok (num_keys st, num_keys st * (32 + 128), num_internal_nodes st * 1024,
                    hm_insert ''total_merges'' (max_keys (bs_config s) * 64)
                      (hm_insert ''total_merges'' (unat (node_merges m))
                        [(''tree_height'', height st), (''total_nodes'', num_internal_nodes st + num_leaf_nodes st),
                         (''internal_nodes'', num_internal_nodes st), (''leaf_nodes'', num_leaf_nodes st),
                         (''total_splits'', unat (node_splits m))])))))"

section \<open>Shards\<close>

text \<open>\<open>insert_shard\<close>: a shard with a fresh tree object, and new counters.\<close>

definition insert_shard ::
  "ShardId \<Rightarrow> BPlusTree \<Rightarrow> WriteAheadLogManager option \<Rightarrow> BTreeKeyValueStore \<Rightarrow> BTreeKeyValueStore" where
  "insert_shard sh tree wal s =
     s\<lparr>bs_shards := hm_insert sh \<lparr>sd_ref = bs_next_ref s, sd_tree = tree, sd_wal = wal, sd_flushed_lsn = None\<rparr> (bs_shards s),
       bs_next_ref := bs_next_ref s + 1, bs_metrics := hm_insert sh BTreeMetrics_new (bs_metrics s)\<rparr>"

definition bs_create_shard :: "hash_lib \<Rightarrow> u64 \<Rightarrow> ShardId \<Rightarrow> BTreeKeyValueStore \<Rightarrow> unit store_result" where
  "bs_create_shard H now sh s =
     (let tree = BPlusTree_new (bs_config s) in
      case (if bs_wal_enabled s
            then case manager_new H now (\<lambda>_. None) (''/wal_'' @ nat_to_string (unat sh)) (WalConfig_new sh) of
                   Inl f \<Rightarrow> Inl (map_fault (\<lambda>e. StorageCorruption (''Failed to create WAL: '' @ wal_error_text e)) f)
                 | Inr m \<Rightarrow> Ok (Some m)
            else Ok None) of
        Inl f \<Rightarrow> (s, Inl f)
      | Inr wal \<Rightarrow>
          let s1 = insert_shard sh tree wal s
          in case recover_from_wal H sh tree s1 of (tree', r) \<Rightarrow> (set_tree sh tree' s1, r))"

record BTreeStorageConfig =
  bc_data_dir :: string
  bc_wal_dir :: string
  bc_order :: nat
  bc_cache_size_mb :: nat

text \<open>
  Creating a shard on a given file system: \<open>mkdir\<close> is its \<open>create_directory_all\<close> (\<open>Some e\<close> when it
  fails), \<open>fs\<close> its files. The log is replayed before the shard is inserted. The segment file that opening
  the log may add to the file system is not part of the result.
\<close>

definition create_shard_with_config ::
  "hash_lib \<Rightarrow> u64 \<Rightarrow> (string \<Rightarrow> string option) \<Rightarrow> (string \<Rightarrow> mem_file option) \<Rightarrow> ShardId \<Rightarrow> BTreeStorageConfig \<Rightarrow>
   BTreeKeyValueStore \<Rightarrow> unit store_result" where
  "create_shard_with_config H now mkdir fs sh c s =
     (case mkdir (bc_data_dir c) of
        Some e \<Rightarrow> (s, Err (StorageCorruption e))
      | None \<Rightarrow>
          (case mkdir (bc_wal_dir c) of
             Some e \<Rightarrow> (s, Err (StorageCorruption e))
           | None \<Rightarrow>
               let tree = BPlusTree_new \<lparr>max_keys = bc_order c * 2, min_keys = bc_order c\<rparr> in
               case (if bs_wal_enabled s
                     then case manager_new H now fs (bc_wal_dir c) (WalConfig_new sh) of
                            Inl f \<Rightarrow> Inl (map_fault (\<lambda>e. StorageCorruption (wal_error_text e)) f)
                          | Inr m \<Rightarrow> Ok (Some m)
                     else Ok None) of
                 Inl f \<Rightarrow> (s, Inl f)
               | Inr wal \<Rightarrow>
                   (case recover_from_wal H sh tree s of
                      (tree', Inl f) \<Rightarrow> (s, Inl f)
                    | (tree', Inr _) \<Rightarrow> (insert_shard sh tree' wal s, Ok ()))))"

definition bs_drop_shard :: "ShardId \<Rightarrow> BTreeKeyValueStore \<Rightarrow> unit store_result" where
  "bs_drop_shard sh s =
     (s\<lparr>bs_shards := al_del sh (bs_shards s), bs_metrics := al_del sh (bs_metrics s)\<rparr>, Ok ())"

definition bs_clear :: "hash_lib \<Rightarrow> ShardId \<Rightarrow> BTreeKeyValueStore \<Rightarrow> unit store_result" where
  "bs_clear H sh s =
     (case bs_get_shard s sh of
        Inl f \<Rightarrow> (s, Inl f)
      | Inr d \<Rightarrow>
          (case BPlusTree_clear (sd_tree d) of
             (tree', Inl f) \<Rightarrow> (set_tree sh tree' s, Inl (map_fault (\<lambda>e. StorageCorruption (btree_error_text e)) f))
           | (tree', Inr _) \<Rightarrow>
               and_then (wal_record H [] sh (d\<lparr>sd_tree := tree'\<rparr>) WClear btree_encode_clear (set_tree sh tree' s))
                 (\<lambda>s' _. (with_metrics sh metrics_reset s', Ok ()))))"

definition bs_list_shards :: "BTreeKeyValueStore \<Rightarrow> ShardId list" where
  "bs_list_shards s = map fst (bs_shards s)"

definition bs_shard_exists :: "ShardId \<Rightarrow> BTreeKeyValueStore \<Rightarrow> bool" where
  "bs_shard_exists sh s \<longleftrightarrow> map_of (bs_shards s) sh \<noteq> None"

section \<open>Transactions of the store\<close>

text \<open>The transaction is on the shard that the hash map yields first.\<close>

definition begin_transaction :: "u64 \<Rightarrow> BTreeKeyValueStore \<Rightarrow> BTreeTransaction store_result" where
  "begin_transaction now s =
     (case bs_shards s of
        [] \<Rightarrow> (s, Err (StorageCorruption ''No shards available for transaction''))
      | (sh, d) # _ \<Rightarrow>
          let (m, tx) = tm_begin (bs_tx_manager s) sh now (sd_ref d) in (s\<lparr>bs_tx_manager := m\<rparr>, Ok tx))"

text \<open>A weak reference resolves as long as a shard holds the tree.\<close>

definition upgrade :: "BTreeKeyValueStore \<Rightarrow> nat \<Rightarrow> BPlusTree option" where
  "upgrade s r = map_option (\<lambda>p. sd_tree (snd p)) (find (\<lambda>p. sd_ref (snd p) = r) (bs_shards s))"

definition store_tree :: "nat \<Rightarrow> BPlusTree option \<Rightarrow> BTreeKeyValueStore \<Rightarrow> BTreeKeyValueStore" where
  "store_tree r t s =
     (case t of
        None \<Rightarrow> s
      | Some tree \<Rightarrow> s\<lparr>bs_shards := map (\<lambda>(sh, d). (sh, if sd_ref d = r then d\<lparr>sd_tree := tree\<rparr> else d)) (bs_shards s)\<rparr>)"

definition bs_tx_get :: "BTreeTransaction \<Rightarrow> ShardId \<Rightarrow> bytes \<Rightarrow> BTreeKeyValueStore \<Rightarrow> (KeyValueError, bytes option) res" where
  "bs_tx_get tx sh key s = btx_get tx (upgrade s (btx_tree tx)) sh key"

definition bs_tx_commit :: "BTreeTransaction \<Rightarrow> BTreeKeyValueStore \<Rightarrow> BTreeTransaction \<times> unit store_result" where
  "bs_tx_commit tx s =
     (case btx_commit tx (upgrade s (btx_tree tx)) of (tx', t, r) \<Rightarrow> (tx', store_tree (btx_tree tx) t s, r))"

section \<open>The store implements the contract\<close>

fun bs_step :: "hash_lib \<Rightarrow> u64 \<Rightarrow> store_call \<Rightarrow> BTreeKeyValueStore \<Rightarrow> store_answer store_result" where
  "bs_step H now (SGet sh k) s = map_prod id (res_map AValue) (bs_get sh k s)"
| "bs_step H now (SPut sh k v) s = map_prod id (res_map (\<lambda>_. AUnit)) (bs_put H sh k v s)"
| "bs_step H now (SDelete sh k) s = map_prod id (res_map ABool) (bs_delete H sh k s)"
| "bs_step H now (SExists sh k) s = (s, res_map ABool (bs_exists sh k s))"
| "bs_step H now (SBatchGet sh ks) s = map_prod id (res_map AValues) (bs_batch_get sh ks s)"
| "bs_step H now (SBatchPut sh kvs) s = map_prod id (res_map (\<lambda>_. AUnit)) (bs_batch_put H sh kvs s)"
| "bs_step H now (SBatchDelete sh ks) s = map_prod id (res_map ACount) (bs_batch_delete H sh ks s)"
| "bs_step H now (SKeyCount sh) s = (s, res_map ACount (bs_key_count sh s))"
| "bs_step H now (SCreate sh) s = map_prod id (res_map (\<lambda>_. AUnit)) (bs_create_shard H now sh s)"
| "bs_step H now (SDrop sh) s = map_prod id (res_map (\<lambda>_. AUnit)) (bs_drop_shard sh s)"
| "bs_step H now (SClear sh) s = map_prod id (res_map (\<lambda>_. AUnit)) (bs_clear H sh s)"
| "bs_step H now (SShardExists sh) s = (s, Ok (ABool (bs_shard_exists sh s)))"

definition trees :: "BTreeKeyValueStore \<Rightarrow> ShardId \<Rightarrow> BPlusTree option" where
  "trees s sh = map_option sd_tree (map_of (bs_shards s) sh)"

definition bs_view :: "BTreeKeyValueStore \<Rightarrow> shard_map" where
  "bs_view s sh = map_option tree_entries (trees s sh)"

definition bs_inv :: "BTreeKeyValueStore \<Rightarrow> bool" where
  "bs_inv s \<longleftrightarrow> config_ok (bs_config s) \<and> (\<forall>sh t. trees s sh = Some t \<longrightarrow> btree_inv t)"

text \<open>\<open>same_but_log\<close>: the stores differ at most in logs and counters.\<close>

definition same_but_log :: "BTreeKeyValueStore \<Rightarrow> BTreeKeyValueStore \<Rightarrow> bool" where
  "same_but_log s s' \<longleftrightarrow> trees s' = trees s \<and> bs_config s' = bs_config s \<and> bs_wal_enabled s' = bs_wal_enabled s"

lemma same_but_log_trans: "same_but_log s s' \<Longrightarrow> same_but_log s' s'' \<Longrightarrow> same_but_log s s''"
  by (simp add: same_but_log_def)

lemma same_but_log_refl [simp]: "same_but_log s s"
  by (simp add: same_but_log_def)

lemma trees_None: "trees s sh = None \<longleftrightarrow> map_of (bs_shards s) sh = None"
  by (simp add: trees_def)

lemma get_tree_trees: "bs_get_tree s sh = (case trees s sh of Some t \<Rightarrow> Ok t | None \<Rightarrow> Err (ShardNotFound sh))"
  by (simp add: bs_get_tree_def bs_get_shard_def trees_def split: option.split)

lemma trees_set_shard: "trees (set_shard sh d s) = (trees s)(sh \<mapsto> sd_tree d)"
  by (auto simp: trees_def set_shard_def)

lemma trees_set_tree: "trees s sh \<noteq> None \<Longrightarrow> trees (set_tree sh t s) = (trees s)(sh \<mapsto> t)"
  by (auto simp: trees_None set_tree_def trees_set_shard split: option.split)

lemma with_metrics_simps [simp]:
  "trees (with_metrics sh g s) = trees s" "bs_config (with_metrics sh g s) = bs_config s"
  "bs_wal_enabled (with_metrics sh g s) = bs_wal_enabled s" "bs_shards (with_metrics sh g s) = bs_shards s"
  by (simp_all add: with_metrics_def trees_def fun_eq_iff)

lemma set_tree_simps [simp]:
  "bs_config (set_tree sh t s) = bs_config s" "bs_wal_enabled (set_tree sh t s) = bs_wal_enabled s"
  by (simp_all add: set_tree_def set_shard_def split: option.split)

lemma wal_append_ok: "\<exists>m' lsn. wal_append H m kind payload = (m', Ok lsn)"
  by (simp add: wal_append_def writer_append_def walfile_append_def Let_def)

lemma wal_record_ok:
  assumes "map_of (bs_shards s) sh = Some d"
  shows "\<exists>s'. wal_record H msg sh d kind payload s = (s', Ok ()) \<and> same_but_log s s'"
proof -
  have "trees s sh = Some (sd_tree d)" using assms by (simp add: trees_def)
  then have "(trees s)(sh \<mapsto> sd_tree d) = trees s" by auto
  then show ?thesis
    using wal_append_ok [of H "the (sd_wal d)" kind payload]
    by (cases "sd_wal d") (auto simp: wal_record_def same_but_log_def trees_set_shard, auto simp: set_shard_def)
qed

lemma wal_writes_ok:
  assumes "trees s sh \<noteq> None"
  shows "\<exists>s'. wal_write_put H sh k v s = (s', Ok ()) \<and> same_but_log s s'"
    and "\<exists>s'. wal_write_delete H sh k s = (s', Ok ()) \<and> same_but_log s s'"
  using assms wal_record_ok [of s sh]
  by (auto simp: wal_write_put_def wal_write_delete_def bs_get_shard_def trees_None)

lemma wal_writes_missing:
  assumes "trees s sh = None"
  shows "wal_write_put H sh k v s = (s, if bs_wal_enabled s then Err (ShardNotFound sh) else Ok ())"
    "wal_write_delete H sh k s = (s, if bs_wal_enabled s then Err (ShardNotFound sh) else Ok ())"
  using assms by (simp_all add: wal_write_put_def wal_write_delete_def bs_get_shard_def trees_None)

text \<open>\<open>keeps\<close>: the new store satisfies the invariant and has the old settings.\<close>

definition keeps :: "BTreeKeyValueStore \<Rightarrow> BTreeKeyValueStore \<Rightarrow> bool" where
  "keeps s s' \<longleftrightarrow> bs_inv s' \<and> bs_config s' = bs_config s \<and> bs_wal_enabled s' = bs_wal_enabled s"

lemma keeps_trans: "keeps s s' \<Longrightarrow> keeps s' s'' \<Longrightarrow> keeps s s''"
  by (simp add: keeps_def)

lemma same_keeps: "same_but_log s s' \<Longrightarrow> bs_inv s \<Longrightarrow> keeps s s' \<and> bs_view s' = bs_view s"
  by (simp add: same_but_log_def keeps_def bs_inv_def bs_view_def fun_eq_iff)

lemma bs_view_tree: "bs_view s sh = Some es \<Longrightarrow> bs_inv s \<Longrightarrow>
  \<exists>t. trees s sh = Some t \<and> btree_inv t \<and> tree_entries t = es"
  by (auto simp: bs_view_def bs_inv_def)

lemma bs_view_data: "bs_view s sh = Some es \<Longrightarrow> \<exists>d. map_of (bs_shards s) sh = Some d \<and> tree_entries (sd_tree d) = es"
  by (auto simp: bs_view_def trees_def)

lemma set_tree_view:
  assumes "bs_inv s" "bs_view s sh \<noteq> None" "btree_inv t"
  shows "keeps s (with_metrics sh g (set_tree sh t s)) \<and>
    bs_view (with_metrics sh g (set_tree sh t s)) = (bs_view s)(sh \<mapsto> tree_entries t)"
proof -
  have "trees (set_tree sh t s) = (trees s)(sh \<mapsto> t)"
    by (rule trees_set_tree) (use assms(2) in \<open>auto simp: bs_view_def\<close>)
  with assms show ?thesis by (auto simp: keeps_def bs_inv_def bs_view_def fun_eq_iff)
qed

lemma with_metrics_view: "bs_inv s \<Longrightarrow> keeps s (with_metrics sh g s) \<and> bs_view (with_metrics sh g s) = bs_view s"
  by (simp add: keeps_def bs_inv_def bs_view_def fun_eq_iff)

lemma bs_get_ok:
  assumes "bs_inv s" "bs_view s sh = Some es"
  shows "\<exists>g. bs_get sh k s = (with_metrics sh g s, Ok (map_of es k))" "bs_exists sh k s = Ok (k \<in> fst ` set es)"
    "bs_key_count sh s = Ok (length es)"
proof -
  obtain t where t: "trees s sh = Some t" "btree_inv t" "tree_entries t = es" using bs_view_tree assms by blast
  then have "BPlusTree_get t k = Ok (map_of es k)" by (simp add: BPlusTree_get_correct)
  with t show "\<exists>g. bs_get sh k s = (with_metrics sh g s, Ok (map_of es k))" "bs_exists sh k s = Ok (k \<in> fst ` set es)"
    by (auto simp: bs_get_def bs_exists_def get_tree_trees map_of_present simp del: not_None_eq)
  obtain h bt where "tree_inv t h bt" using t(2) by (auto simp: btree_inv_def)
  from stats_exact [OF this] t show "bs_key_count sh s = Ok (length es)"
    by (simp add: bs_key_count_def get_tree_trees tree_stats_def)
qed

lemma tree_put_ok:
  assumes "bs_inv s" "bs_view s sh = Some es"
  shows "\<exists>s'. tree_put sh k v s = (s', Ok ()) \<and> keeps s s' \<and> bs_view s' = (bs_view s)(sh \<mapsto> al_put k v es)"
proof -
  obtain t where t: "trees s sh = Some t" "btree_inv t" "tree_entries t = es" using bs_view_tree assms by blast
  obtain t' where t': "BPlusTree_insert t k v = (t', Ok ())" "btree_inv t'" "tree_entries t' = al_put k v es"
    using BPlusTree_insert_correct [OF t(2)] t(3) by metis
  have "BPlusTree_get t k = Ok (map_of es k)" using t by (simp add: BPlusTree_get_correct)
  with t t' show ?thesis
    using set_tree_view [OF assms(1) _ t'(2), of sh] assms(2) by (simp add: tree_put_def get_tree_trees)
qed

lemma tree_delete_ok:
  assumes "bs_inv s" "bs_view s sh = Some es"
  shows "\<exists>s'. tree_delete sh k s = (s', Ok (k \<in> fst ` set es)) \<and> keeps s s' \<and>
    bs_view s' = (bs_view s)(sh \<mapsto> al_del k es)"
proof -
  obtain t where t: "trees s sh = Some t" "btree_inv t" "tree_entries t = es" using bs_view_tree assms by blast
  obtain t' where t': "BPlusTree_delete t k = (t', Ok (k \<in> fst ` set es))" "btree_inv t'" "tree_entries t' = al_del k es"
    using BPlusTree_delete_correct [OF t(2)] t(3) by metis
  with t show ?thesis
    using set_tree_view [OF assms(1) _ t'(2), of sh] assms(2) by (simp add: tree_delete_def get_tree_trees)
qed

lemma put_all_Cons: "put_all (p # ps) es = put_all ps (al_put (fst p) (snd p) es)"
  by (simp add: put_all_def case_prod_beta)

lemma put_loop_ok:
  assumes "bs_inv s" "bs_view s sh = Some es"
  shows "\<exists>s'. put_loop sh ps s = (s', Ok ()) \<and> keeps s s' \<and> bs_view s' = (bs_view s)(sh \<mapsto> put_all ps es)"
  using assms
proof (induction ps arbitrary: s es)
  case Nil
  then show ?case by (auto simp: put_all_def keeps_def)
next
  case (Cons p ps)
  obtain s1 where s1: "tree_put sh (fst p) (snd p) s = (s1, Ok ())" "keeps s s1"
    "bs_view s1 = (bs_view s)(sh \<mapsto> al_put (fst p) (snd p) es)"
    using tree_put_ok [OF Cons.prems] by metis
  have "bs_inv s1" "bs_view s1 sh = Some (al_put (fst p) (snd p) es)" using s1(2,3) by (simp_all add: keeps_def)
  from Cons.IH [OF this] obtain s2 where "put_loop sh ps s1 = (s2, Ok ())" "keeps s1 s2"
    "bs_view s2 = (bs_view s)(sh \<mapsto> put_all ps (al_put (fst p) (snd p) es))"
    unfolding s1(3) fun_upd_upd by blast
  with s1(1,2) show ?case
    by (intro exI [of _ s2]) (auto simp only: put_loop.simps and_then_simps put_all_Cons intro: keeps_trans)
qed

lemma delete_loop_ok:
  assumes "bs_inv s" "bs_view s sh = Some es"
  shows "\<exists>s'. delete_loop sh ks n s = (s', Ok (n + snd (del_all ks es))) \<and> keeps s s' \<and>
    bs_view s' = (bs_view s)(sh \<mapsto> fst (del_all ks es))"
  using assms
proof (induction ks arbitrary: s es n)
  case Nil
  then show ?case by (auto simp: keeps_def)
next
  case (Cons k ks)
  obtain s1 where s1: "tree_delete sh k s = (s1, Ok (k \<in> fst ` set es))" "keeps s s1"
    "bs_view s1 = (bs_view s)(sh \<mapsto> al_del k es)"
    using tree_delete_ok [OF Cons.prems] by metis
  have "bs_inv s1" "bs_view s1 sh = Some (al_del k es)" using s1(2,3) by (simp_all add: keeps_def)
  from Cons.IH [OF this, of "if k \<in> fst ` set es then n + 1 else n"] obtain s2 where
    "delete_loop sh ks (if k \<in> fst ` set es then n + 1 else n) s1 =
      (s2, Ok ((if k \<in> fst ` set es then n + 1 else n) + snd (del_all ks (al_del k es))))" "keeps s1 s2"
    "bs_view s2 = (bs_view s)(sh \<mapsto> fst (del_all ks (al_del k es)))"
    unfolding s1(3) fun_upd_upd by blast
  moreover have "(if k \<in> fst ` set es then n + 1 else n) + snd (del_all ks (al_del k es)) = n + snd (del_all (k # ks) es)"
    "fst (del_all ks (al_del k es)) = fst (del_all (k # ks) es)"
    by (simp_all add: case_prod_beta Let_def)
  ultimately show ?case using s1(1,2)
    by (intro exI [of _ s2]) (auto simp only: delete_loop.simps and_then_simps intro: keeps_trans)
qed

lemma get_loop_ok:
  assumes "btree_inv t"
  shows "\<exists>s'. get_loop sh t ks s = (s', Ok (map (map_of (tree_entries t)) ks)) \<and> same_but_log s s'"
proof (induction ks arbitrary: s)
  case (Cons k ks)
  obtain s' where s': "get_loop sh t ks (with_metrics sh (record_read (map_of (tree_entries t) k \<noteq> None)) s) =
      (s', Ok (map (map_of (tree_entries t)) ks))"
    "same_but_log (with_metrics sh (record_read (map_of (tree_entries t) k \<noteq> None)) s) s'"
    using Cons by blast
  with assms show ?case by (simp add: BPlusTree_get_correct same_but_log_def)
qed simp

lemma wal_loops_ok:
  assumes "trees s sh \<noteq> None"
  shows "\<exists>s'. wal_put_loop H sh ps s = (s', Ok ()) \<and> same_but_log s s'"
    and "\<exists>s'. wal_delete_loop H sh ks s = (s', Ok ()) \<and> same_but_log s s'"
proof -
  show "\<exists>s'. wal_put_loop H sh ps s = (s', Ok ()) \<and> same_but_log s s'" using assms
  proof (induction ps arbitrary: s)
    case (Cons p ps)
    obtain s1 where s1: "wal_write_put H sh (fst p) (snd p) s = (s1, Ok ())" "same_but_log s s1"
      using wal_writes_ok(1) [OF Cons.prems] by blast
    with Cons.IH [of s1] Cons.prems same_but_log_trans [OF s1(2)] show ?case by (auto simp: same_but_log_def)
  qed simp
  show "\<exists>s'. wal_delete_loop H sh ks s = (s', Ok ()) \<and> same_but_log s s'" using assms
  proof (induction ks arbitrary: s)
    case (Cons k ks)
    obtain s1 where s1: "wal_write_delete H sh k s = (s1, Ok ())" "same_but_log s s1"
      using wal_writes_ok(2) [OF Cons.prems] by blast
    with Cons.IH [of s1] Cons.prems same_but_log_trans [OF s1(2)] show ?case by (auto simp: same_but_log_def)
  qed simp
qed

lemma wal_loops_missing:
  assumes "trees s sh = None"
  shows "wal_put_loop H sh ps s = (s, if bs_wal_enabled s \<and> ps \<noteq> [] then Err (ShardNotFound sh) else Ok ())"
    "wal_delete_loop H sh ks s = (s, if bs_wal_enabled s \<and> ks \<noteq> [] then Err (ShardNotFound sh) else Ok ())"
proof -
  show "wal_put_loop H sh ps s = (s, if bs_wal_enabled s \<and> ps \<noteq> [] then Err (ShardNotFound sh) else Ok ())"
    by (induction ps) (auto simp: wal_writes_missing [OF assms])
  show "wal_delete_loop H sh ks s = (s, if bs_wal_enabled s \<and> ks \<noteq> [] then Err (ShardNotFound sh) else Ok ())"
    by (induction ks) (auto simp: wal_writes_missing [OF assms])
qed

section \<open>Replaying a log\<close>

text \<open>What a record of the log stands for, and what it does to the entries.\<close>

datatype log_op = LogPut bytes bytes | LogDelete bytes | LogCheckpoint | LogClear

fun op_record :: "log_op \<Rightarrow> WriteAheadLogRecord" where
  "op_record (LogPut k v) = \<lparr>wr_kind = kind_to_u16 WPut, wr_payload = btree_encode_put k v\<rparr>"
| "op_record (LogDelete k) = \<lparr>wr_kind = kind_to_u16 WDelete, wr_payload = btree_encode_delete k\<rparr>"
| "op_record LogCheckpoint = \<lparr>wr_kind = kind_to_u16 WCheckpoint, wr_payload = btree_encode_checkpoint\<rparr>"
| "op_record LogClear = \<lparr>wr_kind = kind_to_u16 WClear, wr_payload = btree_encode_clear\<rparr>"

fun op_effect :: "log_op \<Rightarrow> entry_list \<Rightarrow> entry_list" where
  "op_effect (LogPut k v) es = al_put k v es"
| "op_effect (LogDelete k) es = al_del k es"
| "op_effect LogCheckpoint es = es"
| "op_effect LogClear es = []"

text \<open>The lengths of the payload and of its parts fit into the 32-bit fields.\<close>

fun op_fits :: "log_op \<Rightarrow> bool" where
  "op_fits (LogPut k v) \<longleftrightarrow> 8 + length k + length v < 2 ^ 32"
| "op_fits (LogDelete k) \<longleftrightarrow> 4 + length k < 2 ^ 32"
| "op_fits _ \<longleftrightarrow> True"

lemma op_fits_readable: "op_fits op \<Longrightarrow> readable (op_record op)"
  by (cases op) (auto simp: readable_def btree_encode_put_def put_layout_def btree_encode_delete_def delete_layout_def
      btree_encode_checkpoint_def btree_encode_clear_def)

lemma kind_roundtrip: "kind_from_u16 (kind_to_u16 kind) = Some kind"
  by (cases kind) simp_all

lemma replay_entry_op:
  assumes "op_fits op" "btree_inv t"
  shows "\<exists>t'. replay_entry t (entry_of seg off (op_record op)) = (t', Ok ()) \<and> btree_inv t' \<and>
    tree_entries t' = op_effect op (tree_entries t) \<and> config t' = config t"
proof (cases op)
  case (LogPut k v)
  then have "btree_decode_put (btree_encode_put k v) = Ok (k, v)"
    using btree_put.decode_exact [of "(k, v)"] assms(1) by (simp add: short_def)
  with LogPut BPlusTree_insert_correct [OF assms(2), of k v] show ?thesis
    by (auto simp: replay_entry_def entry_of_def kind_roundtrip simp del: kind_from_u16.simps kind_to_u16.simps)
next
  case (LogDelete k)
  then have "btree_decode_delete (btree_encode_delete k) = Ok k"
    using btree_delete.decode_exact [of k] assms(1) by (simp add: short_def)
  with LogDelete BPlusTree_delete_correct [OF assms(2), of k] show ?thesis
    by (auto simp: replay_entry_def entry_of_def kind_roundtrip ignore_error_def simp del: kind_from_u16.simps kind_to_u16.simps)
next
  case LogCheckpoint
  with assms(2) show ?thesis
    by (auto simp: replay_entry_def entry_of_def kind_roundtrip simp del: kind_from_u16.simps kind_to_u16.simps)
next
  case LogClear
  obtain t' where "BPlusTree_clear t = (t', Ok ())" "t' = BPlusTree_new (config t)"
    using clear_is_new [of t] by (cases "BPlusTree_clear t") (auto simp: BPlusTree_clear_def)
  moreover have "config (BPlusTree_new c) = c" for c by (simp add: BPlusTree_new_def)
  ultimately show ?thesis
    using LogClear btree_inv_config [OF assms(2)]
    by (auto simp: replay_entry_def entry_of_def kind_roundtrip btree_inv_new tree_entries_new simp del: kind_from_u16.simps kind_to_u16.simps)
qed

lemma replay_loop_log:
  assumes "\<forall>op \<in> set ops. op_fits op" "btree_inv t" "rd_offset rd = length pre" "length ops < fuel"
    and "file = pre @ log_image H (rd_integrity rd) (map op_record ops)"
  shows "\<exists>t'. replay_loop fuel H file rd t = (t', Ok ()) \<and> btree_inv t' \<and>
    tree_entries t' = fold op_effect ops (tree_entries t) \<and> config t' = config t"
  using assms
proof (induction ops arbitrary: t rd pre fuel)
  case Nil
  then obtain n where "fuel = Suc n" by (cases fuel) auto
  with Nil show ?case by (simp add: reader_next_end log_image_def)
next
  case (Cons op ops)
  let ?img = "record_image H (rd_integrity rd) (op_record op)"
  let ?rd = "rd\<lparr>rd_offset := length (pre @ ?img)\<rparr>"
  obtain n where n: "fuel = Suc n" "length ops < n" using Cons.prems(4) by (cases fuel) auto
  have split: "file = pre @ ?img @ log_image H (rd_integrity rd) (map op_record ops)"
    using Cons.prems(5) by (simp add: log_image_def)
  have next_rec: "reader_next H file rd = (?rd, Ok (Some (entry_of (rd_segment_id rd) (length pre) (op_record op))))"
    using reader_next_record [OF split Cons.prems(3)] Cons.prems(1) op_fits_readable by simp
  obtain t1 where t1: "replay_entry t (entry_of (rd_segment_id rd) (length pre) (op_record op)) = (t1, Ok ())"
    "btree_inv t1" "tree_entries t1 = op_effect op (tree_entries t)" "config t1 = config t"
    using replay_entry_op [of op t] Cons.prems(1,2) by (metis list.set_intros(1))
  have "\<exists>t'. replay_loop n H file ?rd t1 = (t', Ok ()) \<and> btree_inv t' \<and>
      tree_entries t' = fold op_effect ops (tree_entries t1) \<and> config t' = config t1"
    by (rule Cons.IH [where pre = "pre @ ?img"]) (use Cons.prems(1) t1(2) n split in simp_all)
  with next_rec t1 n show ?case by auto
qed

definition log_holds :: "hash_lib \<Rightarrow> WriteAheadLogManager \<Rightarrow> log_op list \<Rightarrow> bool" where
  "log_holds H m ops \<longleftrightarrow>
     (\<exists>h. wal_holds H h (wm_active m) (map op_record ops) \<and> sh_segment_id h = 0) \<and> (\<forall>op \<in> set ops. op_fits op)"

lemma replay_wal_log:
  assumes "log_holds H m ops" "btree_inv t"
  shows "\<exists>t'. replay_wal H (Some m) t = (t', Ok ()) \<and> btree_inv t' \<and>
    tree_entries t' = fold op_effect ops (tree_entries t) \<and> config t' = config t"
proof -
  obtain h where h: "wal_holds H h (wm_active m) (map op_record ops)" "sh_segment_id h = 0" "\<forall>op \<in> set ops. op_fits op"
    using assms(1) by (auto simp: log_holds_def)
  let ?f = "wm_active m"
  let ?rd = "walfile_reader_from_offset ?f HEADER_SIZE"
  have "manager_reader_from m LSN_ZERO = Ok (wf_file ?f, ?rd)"
    using h(1,2) by (simp add: manager_reader_from_def LSN_ZERO_def wal_holds_def)
  moreover have layout: "wf_file ?f = header_image H h @ log_image H (rd_integrity ?rd) (map op_record ops)"
    using h(1) by (simp add: wal_holds_def)
  moreover have "length ops < length (wf_file ?f) + 1"
    using log_image_length [of "map op_record ops" H "rd_integrity ?rd"] unfolding layout by simp
  ultimately show ?thesis
    using replay_loop_log [OF h(3) assms(2), of ?rd "header_image H h" "length (wf_file ?f) + 1" "wf_file ?f" H]
    by (simp add: replay_wal_def del: replay_loop.simps)
qed

lemma new_log_holds:
  "\<exists>m. manager_new H now (\<lambda>_. None) root c = Ok m \<and> log_holds H m []"
proof -
  obtain f where "walfile_create H now [] (wc_shard_id c) 0 0 (wc_checksum c) (wc_compression c) (wc_encryption c) 0 = Ok f"
    "wal_holds H (new_header now (wc_shard_id c) 0 0 (wc_checksum c) (wc_compression c) (wc_encryption c) 0) f []"
    using create_holds by blast
  moreover have "sh_segment_id (new_header now i 0 0 a cp e 0) = 0" for i a cp e by (simp add: new_header_def)
  ultimately show ?thesis by (auto simp: manager_new_def log_holds_def)
qed

lemma reopened_log_holds:
  assumes "log_holds H m ops"
  shows "\<exists>m'. manager_new H now (\<lambda>_. Some (wf_file (wm_active m))) root c = Ok m' \<and> log_holds H m' ops"
  using assms open_existing_holds by (fastforce simp: log_holds_def manager_new_def)

lemma append_log_holds:
  assumes "log_holds H m ops" "op_fits op"
  shows "\<exists>f' lsn. writer_append H (wm_active m) (op_record op) Sync = (f', Ok lsn) \<and>
    log_holds H (m\<lparr>wm_active := f'\<rparr>) (ops @ [op])"
proof -
  obtain h where h: "wal_holds H h (wm_active m) (map op_record ops)" "sh_segment_id h = 0" "\<forall>op \<in> set ops. op_fits op"
    using assms(1) by (auto simp: log_holds_def)
  with append_holds [OF h(1), of "op_record op"] assms(2) show ?thesis
    by (auto simp: log_holds_def writer_append_def)
qed

section \<open>Every call follows the contract\<close>

lemma on_shard_Some: "m sh = Some es \<Longrightarrow> on_shard sh f m = (m(sh \<mapsto> fst (f es)), Ok (snd (f es)))"
  by (simp add: on_shard_def)

lemma on_shard_None: "m sh = None \<Longrightarrow> on_shard sh f m = (m, Err (ShardNotFound sh))"
  by (simp add: on_shard_def)

lemma view_same: "bs_view s sh = Some es \<Longrightarrow> (bs_view s)(sh \<mapsto> es) = bs_view s"
  by auto

lemma view_trees: "bs_view s sh = None \<longleftrightarrow> trees s sh = None"
  by (simp add: bs_view_def)

definition follows :: "BTreeKeyValueStore \<Rightarrow> store_answer store_result \<Rightarrow> shard_map \<times> (KeyValueError, store_answer) res \<Rightarrow> bool" where
  "follows s p q \<longleftrightarrow> keeps s (fst p) \<and> bs_view (fst p) = fst q \<and> snd p = snd q"

lemma keeps_refl: "bs_inv s \<Longrightarrow> keeps s s"
  by (simp add: keeps_def)

lemma keeps_inv: "keeps s s' \<Longrightarrow> bs_inv s'"
  by (simp add: keeps_def)

lemma missing_shard:
  assumes "bs_inv s" "bs_view s sh = None"
  shows "follows s (bs_step H now (SGet sh k) s) (spec_step (SGet sh k) (bs_view s))"
    "follows s (bs_step H now (SPut sh k v) s) (spec_step (SPut sh k v) (bs_view s))"
    "follows s (bs_step H now (SDelete sh k) s) (spec_step (SDelete sh k) (bs_view s))"
    "follows s (bs_step H now (SExists sh k) s) (spec_step (SExists sh k) (bs_view s))"
    "follows s (bs_step H now (SBatchGet sh ks) s) (spec_step (SBatchGet sh ks) (bs_view s))"
    "follows s (bs_step H now (SBatchPut sh kvs) s) (spec_step (SBatchPut sh kvs) (bs_view s))"
    "follows s (bs_step H now (SBatchDelete sh ks) s) (spec_step (SBatchDelete sh ks) (bs_view s))"
    "follows s (bs_step H now (SKeyCount sh) s) (spec_step (SKeyCount sh) (bs_view s))"
    "follows s (bs_step H now (SClear sh) s) (spec_step (SClear sh) (bs_view s))"
proof -
  have t: "trees s sh = None" using assms(2) by (simp add: view_trees)
  have "bs_get_shard s sh = Err (ShardNotFound sh)" using t by (simp add: bs_get_shard_def trees_None)
  then have g: "bs_get_tree s sh = Err (ShardNotFound sh)" "bs_get_shard s sh = Err (ShardNotFound sh)"
    by (simp_all add: bs_get_tree_def)
  note defs = follows_def on_shard_None [of "bs_view s" sh, OF assms(2)] keeps_refl [OF assms(1)] g
    wal_writes_missing [OF t] wal_loops_missing [OF t]
  show "follows s (bs_step H now (SGet sh k) s) (spec_step (SGet sh k) (bs_view s))"
    "follows s (bs_step H now (SPut sh k v) s) (spec_step (SPut sh k v) (bs_view s))"
    "follows s (bs_step H now (SDelete sh k) s) (spec_step (SDelete sh k) (bs_view s))"
    "follows s (bs_step H now (SExists sh k) s) (spec_step (SExists sh k) (bs_view s))"
    "follows s (bs_step H now (SBatchGet sh ks) s) (spec_step (SBatchGet sh ks) (bs_view s))"
    "follows s (bs_step H now (SBatchPut sh kvs) s) (spec_step (SBatchPut sh kvs) (bs_view s))"
    "follows s (bs_step H now (SBatchDelete sh ks) s) (spec_step (SBatchDelete sh ks) (bs_view s))"
    "follows s (bs_step H now (SKeyCount sh) s) (spec_step (SKeyCount sh) (bs_view s))"
    "follows s (bs_step H now (SClear sh) s) (spec_step (SClear sh) (bs_view s))"
    by (simp_all add: defs bs_get_def bs_put_def bs_delete_def bs_exists_def bs_batch_get_def bs_batch_put_def
        bs_batch_delete_def bs_key_count_def bs_clear_def tree_put_def tree_delete_def)
qed

lemma put_follows:
  assumes "bs_inv s" "bs_view s sh = Some es"
  shows "follows s (bs_step H now (SPut sh k v) s) (spec_step (SPut sh k v) (bs_view s))"
    "follows s (bs_step H now (SDelete sh k) s) (spec_step (SDelete sh k) (bs_view s))"
proof -
  have t: "trees s sh \<noteq> None" using assms(2) by (auto simp: bs_view_def)
  note spec = on_shard_Some [of "bs_view s" sh, OF assms(2)]
  obtain s1 where s1: "wal_write_put H sh k v s = (s1, Ok ())" "keeps s s1" "bs_view s1 = bs_view s"
    using wal_writes_ok(1) [OF t] same_keeps assms(1) by blast
  obtain s2 where s2: "tree_put sh k v s1 = (s2, Ok ())" "keeps s1 s2" "bs_view s2 = (bs_view s1)(sh \<mapsto> al_put k v es)"
    using tree_put_ok [OF keeps_inv [OF s1(2)], of sh es] s1(3) assms(2) by metis
  show "follows s (bs_step H now (SPut sh k v) s) (spec_step (SPut sh k v) (bs_view s))"
    using s1 s2 keeps_trans [OF s1(2) s2(2)] by (simp add: follows_def bs_put_def spec)
  obtain s3 where s3: "wal_write_delete H sh k s = (s3, Ok ())" "keeps s s3" "bs_view s3 = bs_view s"
    using wal_writes_ok(2) [OF t] same_keeps assms(1) by blast
  obtain s4 where s4: "tree_delete sh k s3 = (s4, Ok (k \<in> fst ` set es))" "keeps s3 s4"
    "bs_view s4 = (bs_view s3)(sh \<mapsto> al_del k es)"
    using tree_delete_ok [OF keeps_inv [OF s3(2)], of sh es] s3(3) assms(2) by metis
  show "follows s (bs_step H now (SDelete sh k) s) (spec_step (SDelete sh k) (bs_view s))"
    using s3 s4 keeps_trans [OF s3(2) s4(2)] by (simp add: follows_def bs_delete_def spec)
qed

lemma batch_follows:
  assumes "bs_inv s" "bs_view s sh = Some es"
  shows "follows s (bs_step H now (SBatchPut sh kvs) s) (spec_step (SBatchPut sh kvs) (bs_view s))"
    "follows s (bs_step H now (SBatchDelete sh ks) s) (spec_step (SBatchDelete sh ks) (bs_view s))"
proof -
  have t: "trees s sh \<noteq> None" using assms(2) by (auto simp: bs_view_def)
  note spec = on_shard_Some [of "bs_view s" sh, OF assms(2)]
  obtain s1 where s1: "wal_put_loop H sh kvs s = (s1, Ok ())" "same_but_log s s1"
    using wal_loops_ok(1) [OF t] by blast
  let ?s1 = "with_metrics sh id s1"
  have k1: "keeps s ?s1" "bs_view ?s1 = bs_view s" "\<exists>t. bs_get_tree s1 sh = Ok t"
    using same_keeps [OF s1(2) assms(1)] with_metrics_view [of s1 sh id] keeps_trans t s1(2)
    by (auto simp: keeps_def get_tree_trees same_but_log_def)
  obtain s2 where s2: "put_loop sh kvs ?s1 = (s2, Ok ())" "keeps ?s1 s2" "bs_view s2 = (bs_view ?s1)(sh \<mapsto> put_all kvs es)"
    using put_loop_ok [OF keeps_inv [OF k1(1)], of sh es] k1(2) assms(2) by metis
  show "follows s (bs_step H now (SBatchPut sh kvs) s) (spec_step (SBatchPut sh kvs) (bs_view s))"
    using s1 s2 k1 keeps_trans [OF k1(1) s2(2)] by (auto simp: follows_def bs_batch_put_def spec)
  obtain s3 where s3: "wal_delete_loop H sh ks s = (s3, Ok ())" "same_but_log s s3"
    using wal_loops_ok(2) [OF t] by blast
  let ?s3 = "with_metrics sh id s3"
  have k3: "keeps s ?s3" "bs_view ?s3 = bs_view s" "\<exists>t. bs_get_tree s3 sh = Ok t"
    using same_keeps [OF s3(2) assms(1)] with_metrics_view [of s3 sh id] keeps_trans t s3(2)
    by (auto simp: keeps_def get_tree_trees same_but_log_def)
  obtain s4 where s4: "delete_loop sh ks 0 ?s3 = (s4, Ok (0 + snd (del_all ks es)))" "keeps ?s3 s4"
    "bs_view s4 = (bs_view ?s3)(sh \<mapsto> fst (del_all ks es))"
    using delete_loop_ok [OF keeps_inv [OF k3(1)], of sh es] k3(2) assms(2) by metis
  show "follows s (bs_step H now (SBatchDelete sh ks) s) (spec_step (SBatchDelete sh ks) (bs_view s))"
    using s3 s4 k3 keeps_trans [OF k3(1) s4(2)] by (auto simp: follows_def bs_batch_delete_def spec)
qed

lemma read_follows:
  assumes "bs_inv s" "bs_view s sh = Some es"
  shows "follows s (bs_step H now (SGet sh k) s) (spec_step (SGet sh k) (bs_view s))"
    "follows s (bs_step H now (SExists sh k) s) (spec_step (SExists sh k) (bs_view s))"
    "follows s (bs_step H now (SBatchGet sh ks) s) (spec_step (SBatchGet sh ks) (bs_view s))"
    "follows s (bs_step H now (SKeyCount sh) s) (spec_step (SKeyCount sh) (bs_view s))"
proof -
  note spec = on_shard_Some [of "bs_view s" sh, OF assms(2)] view_same [OF assms(2)] follows_def
  obtain g where g: "bs_get sh k s = (with_metrics sh g s, Ok (map_of es k))" using bs_get_ok(1) [OF assms] by blast
  show "follows s (bs_step H now (SGet sh k) s) (spec_step (SGet sh k) (bs_view s))"
    using with_metrics_view [OF assms(1)] by (simp add: g spec)
  show "follows s (bs_step H now (SExists sh k) s) (spec_step (SExists sh k) (bs_view s))"
    "follows s (bs_step H now (SKeyCount sh) s) (spec_step (SKeyCount sh) (bs_view s))"
    using bs_get_ok(2,3) [OF assms] keeps_refl [OF assms(1)] by (simp_all add: spec)
  obtain t where t: "trees s sh = Some t" "btree_inv t" "tree_entries t = es" using bs_view_tree assms by blast
  obtain s' where s': "get_loop sh t ks (with_metrics sh id s) = (s', Ok (map (map_of es) ks))"
    "same_but_log (with_metrics sh id s) s'"
    using get_loop_ok [OF t(2), of sh ks "with_metrics sh id s"] t(3) by auto
  have "bs_inv (with_metrics sh id s)" "bs_view (with_metrics sh id s) = bs_view s"
    using with_metrics_view [OF assms(1)] by (auto simp: keeps_def)
  with same_keeps [OF s'(2)] s' t(1) with_metrics_view [OF assms(1), of sh id] keeps_trans
  show "follows s (bs_step H now (SBatchGet sh ks) s) (spec_step (SBatchGet sh ks) (bs_view s))"
    by (auto simp: spec bs_batch_get_def get_tree_trees)
qed

lemma clear_follows:
  assumes "bs_inv s" "bs_view s sh = Some es"
  shows "follows s (bs_step H now (SClear sh) s) (spec_step (SClear sh) (bs_view s))"
proof -
  obtain d where d: "map_of (bs_shards s) sh = Some d" "btree_inv (sd_tree d)"
    using assms by (auto simp: bs_view_def trees_def bs_inv_def)
  obtain t where t: "BPlusTree_clear (sd_tree d) = (t, Ok ())" "t = BPlusTree_new (config (sd_tree d))"
    using clear_is_new [of "sd_tree d"] by (cases "BPlusTree_clear (sd_tree d)") (auto simp: BPlusTree_clear_def)
  have inv: "btree_inv t" "tree_entries t = []"
    using btree_inv_config [OF d(2)] by (simp_all add: t(2) btree_inv_new tree_entries_new)
  let ?s = "set_tree sh t s"
  have "map_of (bs_shards ?s) sh = Some (d\<lparr>sd_tree := t\<rparr>)" by (simp add: set_tree_def d(1) set_shard_def)
  from wal_record_ok [OF this, of H "[]" WClear btree_encode_clear] obtain s1 where
    s1: "wal_record H [] sh (d\<lparr>sd_tree := t\<rparr>) WClear btree_encode_clear ?s = (s1, Ok ())" "same_but_log ?s s1" by blast
  have "trees ?s = (trees s)(sh \<mapsto> t)" by (rule trees_set_tree) (simp add: trees_def d(1))
  with s1(2) assms(1) inv have "keeps s (with_metrics sh metrics_reset s1)"
    "bs_view (with_metrics sh metrics_reset s1) = (bs_view s)(sh \<mapsto> [])"
    by (auto simp: same_but_log_def keeps_def bs_inv_def bs_view_def fun_eq_iff)
  with d(1) t(1) s1(1) assms(2) show ?thesis
    by (simp add: follows_def bs_clear_def bs_get_shard_def on_shard_Some)
qed

lemma trees_insert_shard: "trees (insert_shard sh t w s) = (trees s)(sh \<mapsto> t)"
  by (auto simp: trees_def insert_shard_def)

text \<open>A created shard has an empty tree and, if logging is on, an empty log.\<close>

lemma create_shard_ok:
  assumes "config_ok (bs_config s)"
  shows "\<exists>wal. bs_create_shard H now sh s = (insert_shard sh (BPlusTree_new (bs_config s)) wal s, Ok ()) \<and>
    (if bs_wal_enabled s then \<exists>m. wal = Some m \<and> log_holds H m [] else wal = None)"
proof -
  let ?t = "BPlusTree_new (bs_config s)"
  have set_same: "set_tree sh ?t (insert_shard sh ?t w s) = insert_shard sh ?t w s" for w
    by (simp add: set_tree_def insert_shard_def set_shard_def)
  show ?thesis
  proof (cases "bs_wal_enabled s")
    case True
    obtain m where m: "manager_new H now (\<lambda>_. None) (''/wal_'' @ nat_to_string (unat sh)) (WalConfig_new sh) = Ok m"
      "log_holds H m []" using new_log_holds by blast
    obtain h where h: "wal_holds H h (wm_active m) []" "sh_segment_id h = 0" using m(2) by (auto simp: log_holds_def)
    let ?rd = "walfile_reader_from_offset (wm_active m) HEADER_SIZE"
    have "manager_reader_from m LSN_ZERO = Ok (wf_file (wm_active m), ?rd)"
      using h by (simp add: manager_reader_from_def LSN_ZERO_def wal_holds_def)
    moreover have "reader_next H (wf_file (wm_active m)) ?rd = (?rd, Ok None)"
      by (rule reader_next_end) (use h(1) in \<open>simp add: wal_holds_def log_image_def\<close>)
    ultimately have "replay_wal H (Some m) ?t = (?t, Ok ())" by (simp add: replay_wal_def)
    moreover have "bs_get_shard (insert_shard sh ?t (Some m) s) sh =
        Ok \<lparr>sd_ref = bs_next_ref s, sd_tree = ?t, sd_wal = Some m, sd_flushed_lsn = None\<rparr>"
      by (simp add: bs_get_shard_def insert_shard_def)
    moreover have "bs_wal_enabled (insert_shard sh ?t (Some m) s)" using True by (simp add: insert_shard_def)
    ultimately show ?thesis
      using True m by (intro exI [of _ "Some m"]) (simp add: bs_create_shard_def Let_def recover_from_wal_def set_same)
  next
    case False
    then have "\<not> bs_wal_enabled (insert_shard sh ?t None s)" by (simp add: insert_shard_def)
    with False show ?thesis by (simp add: bs_create_shard_def Let_def recover_from_wal_def set_same)
  qed
qed

lemma shards_follow:
  assumes "bs_inv s"
  shows "follows s (bs_step H now (SCreate sh) s) (spec_step (SCreate sh) (bs_view s))"
    "follows s (bs_step H now (SDrop sh) s) (spec_step (SDrop sh) (bs_view s))"
    "follows s (bs_step H now (SShardExists sh) s) (spec_step (SShardExists sh) (bs_view s))"
proof -
  have cfg: "config_ok (bs_config s)" using assms by (simp add: bs_inv_def)
  obtain wal where "bs_create_shard H now sh s = (insert_shard sh (BPlusTree_new (bs_config s)) wal s, Ok ())"
    using create_shard_ok [OF cfg] by blast
  moreover have "keeps s (insert_shard sh (BPlusTree_new (bs_config s)) wal s)"
    "bs_view (insert_shard sh (BPlusTree_new (bs_config s)) wal s) = (bs_view s)(sh \<mapsto> [])"
    using assms cfg trees_insert_shard [of sh _ wal s]
    by (auto simp: keeps_def bs_inv_def bs_view_def fun_eq_iff btree_inv_new tree_entries_new)
      (simp_all add: insert_shard_def)
  ultimately show "follows s (bs_step H now (SCreate sh) s) (spec_step (SCreate sh) (bs_view s))"
    by (simp add: follows_def)
  have "trees (fst (bs_drop_shard sh s)) = (trees s)(sh := None)"
    by (auto simp: trees_def bs_drop_shard_def)
  with assms have "keeps s (fst (bs_drop_shard sh s))" "bs_view (fst (bs_drop_shard sh s)) = (bs_view s)(sh := None)"
    by (auto simp: keeps_def bs_inv_def bs_view_def fun_eq_iff) (simp_all add: bs_drop_shard_def)
  then show "follows s (bs_step H now (SDrop sh) s) (spec_step (SDrop sh) (bs_view s))"
    by (simp add: follows_def bs_drop_shard_def)
  show "follows s (bs_step H now (SShardExists sh) s) (spec_step (SShardExists sh) (bs_view s))"
    using keeps_refl [OF assms] by (simp add: follows_def bs_shard_exists_def bs_view_def trees_def)
qed

lemma bs_step_follows:
  assumes "bs_inv s"
  shows "follows s (bs_step H now c s) (spec_step c (bs_view s))"
proof (cases c)
  case (SGet sh k)
  then show ?thesis using missing_shard(1) read_follows(1) assms by (cases "bs_view s sh") blast+
next
  case (SPut sh k v)
  then show ?thesis using missing_shard(2) put_follows(1) assms by (cases "bs_view s sh") blast+
next
  case (SDelete sh k)
  then show ?thesis using missing_shard(3) put_follows(2) assms by (cases "bs_view s sh") blast+
next
  case (SExists sh k)
  then show ?thesis using missing_shard(4) read_follows(2) assms by (cases "bs_view s sh") blast+
next
  case (SBatchGet sh ks)
  then show ?thesis using missing_shard(5) read_follows(3) assms by (cases "bs_view s sh") blast+
next
  case (SBatchPut sh kvs)
  then show ?thesis using missing_shard(6) batch_follows(1) assms by (cases "bs_view s sh") blast+
next
  case (SBatchDelete sh ks)
  then show ?thesis using missing_shard(7) batch_follows(2) assms by (cases "bs_view s sh") blast+
next
  case (SKeyCount sh)
  then show ?thesis using missing_shard(8) read_follows(4) assms by (cases "bs_view s sh") blast+
next
  case (SClear sh)
  then show ?thesis using missing_shard(9) clear_follows assms by (cases "bs_view s sh") blast+
qed (use shards_follow [OF assms] in blast)+

interpretation bt: shard_store bs_inv bs_view "bs_step H now" for H now
  by unfold_locales (use bs_step_follows in \<open>auto simp: follows_def keeps_def\<close>)

interpretation bt_mem: two_stores bs_inv bs_view "bs_step H now" "\<lambda>_. True" mem_view mem_step for H now
  by unfold_locales

lemma bs_inv_new: "config_ok cfg \<Longrightarrow> bs_inv (BTreeStore_new cfg) \<and> bs_inv (BTreeStore_with_wal cfg)"
  by (simp add: bs_inv_def BTreeStore_new_def BTreeStore_with_wal_def trees_def)

lemma bs_view_new: "bs_view (BTreeStore_new cfg) = mem_view MemoryStore_new" "bs_view (BTreeStore_with_wal cfg) = mem_view MemoryStore_new"
  by (auto simp: bs_view_def trees_def BTreeStore_new_def BTreeStore_with_wal_def mem_view_def MemoryStore_new_def)

section \<open>The log mirrors the trees\<close>

definition wals :: "BTreeKeyValueStore \<Rightarrow> ShardId \<Rightarrow> WriteAheadLogManager option option" where
  "wals s sh = map_option sd_wal (map_of (bs_shards s) sh)"

definition log_view :: "hash_lib \<Rightarrow> BTreeKeyValueStore \<Rightarrow> ShardId \<Rightarrow> entry_list \<Rightarrow> bool" where
  "log_view H s sh es \<longleftrightarrow>
     (\<exists>m ops. wals s sh = Some (Some m) \<and> log_holds H m ops \<and> fold op_effect ops [] = es)"

definition wal_inv :: "hash_lib \<Rightarrow> BTreeKeyValueStore \<Rightarrow> bool" where
  "wal_inv H s \<longleftrightarrow> bs_wal_enabled s \<and> (\<forall>sh es. bs_view s sh = Some es \<longrightarrow> log_view H s sh es)"

lemma wals_simps [simp]:
  "wals (with_metrics sh g s) = wals s" "wals (set_tree sh t s) = wals s"
  "wals (set_shard sh d s) = (wals s)(sh \<mapsto> sd_wal d)"
  by (auto simp: wals_def with_metrics_def set_tree_def set_shard_def fun_eq_iff split: option.split)

lemma wals_tree_ops [simp]:
  "wals (fst (tree_put sh k v s)) = wals s" "wals (fst (tree_delete sh k s)) = wals s"
  by (auto simp: tree_put_def tree_delete_def split: sum.split prod.split)

lemma fst_and_then: "fst (and_then p k) = (case snd p of Inl _ \<Rightarrow> fst p | Inr a \<Rightarrow> fst (k (fst p) a))"
  by (simp add: and_then_def case_prod_beta split: sum.split)

lemma wals_loops [simp]:
  "wals (fst (put_loop sh ps s)) = wals s" "wals (fst (delete_loop sh ks n s)) = wals s"
  "wals (fst (get_loop sh t ks s)) = wals s"
proof -
  show "wals (fst (put_loop sh ps s)) = wals s"
    by (induction ps arbitrary: s) (auto simp: fst_and_then split: sum.split)
  show "wals (fst (delete_loop sh ks n s)) = wals s"
    by (induction ks arbitrary: s n) (auto simp: fst_and_then split: sum.split)
  show "wals (fst (get_loop sh t ks s)) = wals s"
    by (induction ks arbitrary: s) (auto simp: fst_and_then split: sum.split)
qed

definition logged :: "hash_lib \<Rightarrow> BTreeKeyValueStore \<Rightarrow> ShardId \<Rightarrow> BTreeKeyValueStore \<Rightarrow> entry_list \<Rightarrow> bool" where
  "logged H s sh s' es \<longleftrightarrow>
     log_view H s' sh es \<and> (\<forall>sh'. sh' \<noteq> sh \<longrightarrow> wals s' sh' = wals s sh') \<and> bs_wal_enabled s' = bs_wal_enabled s"

lemma logged_trans: "logged H s sh s1 es \<Longrightarrow> logged H s1 sh s2 es' \<Longrightarrow> logged H s sh s2 es'"
  by (simp add: logged_def)

lemma wal_record_logged:
  assumes "log_view H s sh es" "op_fits op" "op_record op = \<lparr>wr_kind = kind_to_u16 kind, wr_payload = payload\<rparr>"
    and "wals s sh = Some (sd_wal d)"
  shows "\<exists>s'. wal_record H msg sh d kind payload s = (s', Ok ()) \<and> logged H s sh s' (op_effect op es)"
proof -
  obtain m ops where m: "sd_wal d = Some m" "log_holds H m ops" "fold op_effect ops [] = es"
    using assms(1,4) by (auto simp: log_view_def)
  obtain f lsn where f: "writer_append H (wm_active m) (op_record op) Sync = (f, Ok lsn)"
    "log_holds H (m\<lparr>wm_active := f\<rparr>) (ops @ [op])"
    using append_log_holds [OF m(2) assms(2)] by blast
  let ?s = "set_shard sh (d\<lparr>sd_wal := Some (m\<lparr>wm_active := f\<rparr>)\<rparr>) s"
  have "bs_wal_enabled ?s = bs_wal_enabled s" by (simp add: set_shard_def)
  with f(2) m(3) have "logged H s sh ?s (op_effect op es)"
    by (auto simp: logged_def log_view_def intro!: exI [of _ "ops @ [op]"])
  with f(1) m(1) show ?thesis by (simp add: wal_record_def wal_append_def assms(3))
qed

lemma wal_write_logged:
  assumes "log_view H s sh es" "bs_wal_enabled s"
  shows "op_fits (LogPut k v) \<Longrightarrow> \<exists>s'. wal_write_put H sh k v s = (s', Ok ()) \<and> logged H s sh s' (al_put k v es)"
    and "op_fits (LogDelete k) \<Longrightarrow> \<exists>s'. wal_write_delete H sh k s = (s', Ok ()) \<and> logged H s sh s' (al_del k es)"
proof -
  obtain d where d: "map_of (bs_shards s) sh = Some d" using assms(1) by (auto simp: log_view_def wals_def)
  then have w: "wals s sh = Some (sd_wal d)" by (simp add: wals_def)
  show "op_fits (LogPut k v) \<Longrightarrow> \<exists>s'. wal_write_put H sh k v s = (s', Ok ()) \<and> logged H s sh s' (al_put k v es)"
    using wal_record_logged [OF assms(1) _ _ w, of "LogPut k v" WPut] d assms(2)
    by (simp add: wal_write_put_def bs_get_shard_def)
  show "op_fits (LogDelete k) \<Longrightarrow> \<exists>s'. wal_write_delete H sh k s = (s', Ok ()) \<and> logged H s sh s' (al_del k es)"
    using wal_record_logged [OF assms(1) _ _ w, of "LogDelete k" WDelete] d assms(2)
    by (simp add: wal_write_delete_def bs_get_shard_def)
qed

lemma wal_put_loop_logged:
  assumes "log_view H s sh es" "bs_wal_enabled s" "\<forall>(k, v) \<in> set ps. op_fits (LogPut k v)"
  shows "\<exists>s'. wal_put_loop H sh ps s = (s', Ok ()) \<and> logged H s sh s' (put_all ps es)"
  using assms
proof (induction ps arbitrary: s es)
  case Nil
  then show ?case by (simp add: logged_def put_all_def)
next
  case (Cons p ps)
  obtain s1 where s1: "wal_write_put H sh (fst p) (snd p) s = (s1, Ok ())" "logged H s sh s1 (al_put (fst p) (snd p) es)"
    using wal_write_logged(1) [OF Cons.prems(1,2), of "fst p" "snd p"] Cons.prems(3) by auto
  have "log_view H s1 sh (al_put (fst p) (snd p) es)" "bs_wal_enabled s1" using s1(2) Cons.prems(2) by (simp_all add: logged_def)
  from Cons.IH [OF this] Cons.prems(3) s1 logged_trans [OF s1(2)] show ?case by (auto simp: put_all_Cons)
qed

lemma wal_delete_loop_logged:
  assumes "log_view H s sh es" "bs_wal_enabled s" "\<forall>k \<in> set ks. op_fits (LogDelete k)"
  shows "\<exists>s'. wal_delete_loop H sh ks s = (s', Ok ()) \<and> logged H s sh s' (fst (del_all ks es))"
  using assms
proof (induction ks arbitrary: s es)
  case Nil
  then show ?case by (simp add: logged_def)
next
  case (Cons k ks)
  obtain s1 where s1: "wal_write_delete H sh k s = (s1, Ok ())" "logged H s sh s1 (al_del k es)"
    using wal_write_logged(2) [OF Cons.prems(1,2), of k] Cons.prems(3) by auto
  have "log_view H s1 sh (al_del k es)" "bs_wal_enabled s1" using s1(2) Cons.prems(2) by (simp_all add: logged_def)
  from Cons.IH [OF this] Cons.prems(3) s1 logged_trans [OF s1(2)] show ?case by (auto simp: case_prod_beta Let_def)
qed

text \<open>The calls whose keys and values fit into a log record.\<close>

fun call_fits :: "store_call \<Rightarrow> bool" where
  "call_fits (SPut sh k v) \<longleftrightarrow> op_fits (LogPut k v)"
| "call_fits (SDelete sh k) \<longleftrightarrow> op_fits (LogDelete k)"
| "call_fits (SBatchPut sh kvs) \<longleftrightarrow> (\<forall>(k, v) \<in> set kvs. op_fits (LogPut k v))"
| "call_fits (SBatchDelete sh ks) \<longleftrightarrow> (\<forall>k \<in> set ks. op_fits (LogDelete k))"
| "call_fits _ \<longleftrightarrow> True"

lemma log_view_wals: "wals s' sh = wals s sh \<Longrightarrow> log_view H s' sh es = log_view H s sh es"
  by (simp add: log_view_def)

lemma wal_inv_same: "wal_inv H s \<Longrightarrow> keeps s s' \<Longrightarrow> bs_view s' = bs_view s \<Longrightarrow> wals s' = wals s \<Longrightarrow> wal_inv H s'"
  by (simp add: wal_inv_def keeps_def log_view_def)

lemma wal_inv_logged:
  assumes "wal_inv H s" "logged H s sh s' es" "bs_view s' = (bs_view s)(sh \<mapsto> es)"
  shows "wal_inv H s'"
  using assms log_view_wals [of s' _ s H] by (auto simp: wal_inv_def logged_def split: if_splits)

lemma wal_inv_step:
  assumes "bs_inv s" "wal_inv H s" "logged H s sh s1 es"
    and "wals (fst (bs_step H now c s)) = wals s1" "fst (spec_step c (bs_view s)) = (bs_view s)(sh \<mapsto> es)"
  shows "wal_inv H (fst (bs_step H now c s))"
proof -
  define s' where "s' = fst (bs_step H now c s)"
  have k: "keeps s s'" "bs_view s' = (bs_view s)(sh \<mapsto> es)"
    using bs_step_follows [OF assms(1), of H now c] assms(5) by (simp_all add: follows_def s'_def)
  have "wals s' = wals s1" using assms(4) by (simp add: s'_def)
  with k(1) assms(3) have "logged H s sh s' es" by (simp add: logged_def log_view_def keeps_def)
  from wal_inv_logged [OF assms(2) this k(2)] show ?thesis by (simp add: s'_def)
qed

lemma wal_inv_unchanged:
  assumes "bs_inv s" "wal_inv H s" "wals (fst (bs_step H now c s)) = wals s" "fst (spec_step c (bs_view s)) = bs_view s"
  shows "wal_inv H (fst (bs_step H now c s))"
  using bs_step_follows [OF assms(1), of H now c] wal_inv_same [OF assms(2)] assms(3,4) by (simp add: follows_def)

lemma wal_step_write:
  assumes "bs_inv s" "wal_inv H s" "bs_view s sh = Some es"
  shows "op_fits (LogPut k v) \<Longrightarrow> wal_inv H (fst (bs_step H now (SPut sh k v) s))"
    and "op_fits (LogDelete k) \<Longrightarrow> wal_inv H (fst (bs_step H now (SDelete sh k) s))"
    and "\<forall>(k, v) \<in> set kvs. op_fits (LogPut k v) \<Longrightarrow> wal_inv H (fst (bs_step H now (SBatchPut sh kvs) s))"
    and "\<forall>k \<in> set ks. op_fits (LogDelete k) \<Longrightarrow> wal_inv H (fst (bs_step H now (SBatchDelete sh ks) s))"
proof -
  have l: "log_view H s sh es" "bs_wal_enabled s" using assms(2,3) by (auto simp: wal_inv_def)
  note spec = on_shard_Some [of "bs_view s" sh, OF assms(3)] and step = wal_inv_step [OF assms(1,2), of sh]
  show "wal_inv H (fst (bs_step H now (SPut sh k v) s))" if fits: "op_fits (LogPut k v)"
  proof -
    obtain s1 where s1: "wal_write_put H sh k v s = (s1, Ok ())" "logged H s sh s1 (al_put k v es)"
      using wal_write_logged(1) [OF l fits] by blast
    show ?thesis by (rule step [OF s1(2)]) (simp_all add: bs_put_def s1(1) spec)
  qed
  show "wal_inv H (fst (bs_step H now (SDelete sh k) s))" if fits: "op_fits (LogDelete k)"
  proof -
    obtain s1 where s1: "wal_write_delete H sh k s = (s1, Ok ())" "logged H s sh s1 (al_del k es)"
      using wal_write_logged(2) [OF l fits] by blast
    show ?thesis by (rule step [OF s1(2)]) (simp_all add: bs_delete_def s1(1) spec)
  qed
  show "wal_inv H (fst (bs_step H now (SBatchPut sh kvs) s))" if fits: "\<forall>(k, v) \<in> set kvs. op_fits (LogPut k v)"
  proof -
    obtain s1 where s1: "wal_put_loop H sh kvs s = (s1, Ok ())" "logged H s sh s1 (put_all kvs es)"
      using wal_put_loop_logged [OF l fits] by blast
    show ?thesis by (rule step [OF s1(2)]) (simp_all add: bs_batch_put_def s1(1) spec split: sum.split)
  qed
  show "wal_inv H (fst (bs_step H now (SBatchDelete sh ks) s))" if fits: "\<forall>k \<in> set ks. op_fits (LogDelete k)"
  proof -
    obtain s1 where s1: "wal_delete_loop H sh ks s = (s1, Ok ())" "logged H s sh s1 (fst (del_all ks es))"
      using wal_delete_loop_logged [OF l fits] by blast
    show ?thesis by (rule step [OF s1(2)]) (simp_all add: bs_batch_delete_def s1(1) spec split: sum.split)
  qed
qed

lemma wal_step_clear:
  assumes "bs_inv s" "wal_inv H s" "bs_view s sh = Some es"
  shows "wal_inv H (fst (bs_step H now (SClear sh) s))"
proof -
  obtain d where d: "map_of (bs_shards s) sh = Some d" using assms(3) by (auto simp: bs_view_def trees_def)
  obtain t where t: "BPlusTree_clear (sd_tree d) = (t, Ok ())" by (simp add: BPlusTree_clear_def)
  let ?s = "set_tree sh t s" and ?d = "d\<lparr>sd_tree := t\<rparr>"
  have w: "wals ?s sh = Some (sd_wal ?d)" using d by (simp add: wals_def [of s])
  have l: "log_view H ?s sh es" using assms(2,3) by (simp add: wal_inv_def log_view_def)
  from wal_record_logged [OF l _ _ w, of LogClear WClear btree_encode_clear "[]"] obtain s1 where
    s1: "wal_record H [] sh ?d WClear btree_encode_clear ?s = (s1, Ok ())" "logged H ?s sh s1 []" by auto
  have "logged H s sh s1 []" using s1(2) by (simp add: logged_def)
  then show ?thesis
    by (rule wal_inv_step [OF assms(1,2)])
      (simp_all add: bs_clear_def bs_get_shard_def d t s1(1) on_shard_Some [of "bs_view s" sh, OF assms(3)])
qed

lemma wal_step_create:
  assumes "bs_inv s" "wal_inv H s"
  shows "wal_inv H (fst (bs_step H now (SCreate sh) s))"
proof -
  let ?t = "BPlusTree_new (bs_config s)"
  have en: "bs_wal_enabled s" using assms(2) by (simp add: wal_inv_def)
  obtain m where m: "bs_create_shard H now sh s = (insert_shard sh ?t (Some m) s, Ok ())" "log_holds H m []"
    using create_shard_ok [of s H now sh] assms(1) en by (auto simp: bs_inv_def)
  have "wals (insert_shard sh ?t (Some m) s) = (wals s)(sh \<mapsto> Some m)"
    by (auto simp: wals_def insert_shard_def)
  then have "logged H s sh (insert_shard sh ?t (Some m) s) []"
    using m(2) en by (auto simp: logged_def log_view_def intro!: exI [of _ "[]"]) (simp add: insert_shard_def)
  then show ?thesis by (rule wal_inv_step [OF assms]) (simp_all add: m(1))
qed

lemma wal_step_drop:
  assumes "bs_inv s" "wal_inv H s"
  shows "wal_inv H (fst (bs_step H now (SDrop sh) s))"
proof -
  let ?s = "fst (bs_drop_shard sh s)"
  have "bs_view ?s = (bs_view s)(sh := None)" "keeps s ?s"
    using bs_step_follows [OF assms(1), of H now "SDrop sh"] by (simp_all add: follows_def)
  moreover have "wals ?s sh' = wals s sh'" if "sh' \<noteq> sh" for sh'
    using that by (simp add: wals_def bs_drop_shard_def)
  ultimately show ?thesis
    using assms(2) by (auto simp: wal_inv_def keeps_def log_view_def split: if_splits)
qed

lemma wal_step_missing:
  assumes "bs_view s sh = None"
  shows "fst (bs_step H now (SPut sh k v) s) = s" "fst (bs_step H now (SDelete sh k) s) = s"
    "fst (bs_step H now (SBatchPut sh kvs) s) = s" "fst (bs_step H now (SBatchDelete sh ks) s) = s"
    "fst (bs_step H now (SClear sh) s) = s"
proof -
  have t: "trees s sh = None" using assms by (simp add: view_trees)
  have g: "bs_get_shard s sh = Err (ShardNotFound sh)" using t by (simp add: bs_get_shard_def trees_None)
  then have "bs_get_tree s sh = Err (ShardNotFound sh)" by (simp add: bs_get_tree_def)
  with g show "fst (bs_step H now (SPut sh k v) s) = s" "fst (bs_step H now (SDelete sh k) s) = s"
    "fst (bs_step H now (SBatchPut sh kvs) s) = s" "fst (bs_step H now (SBatchDelete sh ks) s) = s"
    "fst (bs_step H now (SClear sh) s) = s"
    by (simp_all add: bs_put_def bs_delete_def bs_batch_put_def bs_batch_delete_def bs_clear_def
        tree_put_def tree_delete_def wal_writes_missing [OF t] wal_loops_missing [OF t])
qed

lemma wal_step:
  assumes "bs_inv s" "wal_inv H s" "call_fits c"
  shows "wal_inv H (fst (bs_step H now c s))"
proof (cases c)
  case (SPut sh k v)
  then show ?thesis using assms wal_step_missing(1) [of s sh] wal_step_write(1) [OF assms(1,2)]
    by (cases "bs_view s sh") (simp_all del: bs_step.simps op_fits.simps)
next
  case (SDelete sh k)
  then show ?thesis using assms wal_step_missing(2) [of s sh] wal_step_write(2) [OF assms(1,2)]
    by (cases "bs_view s sh") (simp_all del: bs_step.simps op_fits.simps)
next
  case (SBatchPut sh kvs)
  then show ?thesis using assms wal_step_missing(3) [of s sh] wal_step_write(3) [OF assms(1,2)]
    by (cases "bs_view s sh") (simp_all del: bs_step.simps op_fits.simps)
next
  case (SBatchDelete sh ks)
  then show ?thesis using assms wal_step_missing(4) [of s sh] wal_step_write(4) [OF assms(1,2)]
    by (cases "bs_view s sh") (simp_all del: bs_step.simps op_fits.simps)
next
  case (SClear sh)
  then show ?thesis using assms wal_step_missing(5) [of s sh] wal_step_clear [OF assms(1,2)]
    by (cases "bs_view s sh") (simp_all del: bs_step.simps op_fits.simps)
next
  case (SGet sh k)
  then show ?thesis
    by (intro wal_inv_unchanged [OF assms(1,2)]) (auto simp: bs_get_def on_shard_def split: sum.split option.split)
next
  case (SBatchGet sh ks)
  then show ?thesis
    by (intro wal_inv_unchanged [OF assms(1,2)]) (auto simp: bs_batch_get_def on_shard_def split: sum.split option.split)
next
  case (SCreate sh)
  with wal_step_create [OF assms(1,2)] show ?thesis by blast
next
  case (SDrop sh)
  with wal_step_drop [OF assms(1,2)] show ?thesis by blast
qed (use assms in auto)

lemma wal_run:
  assumes "bs_inv s" "wal_inv H s" "\<forall>c \<in> set cs. call_fits c"
  shows "wal_inv H (fst (run_calls (bs_step H now) cs s))"
  using assms
proof (induction cs arbitrary: s)
  case (Cons c cs)
  have "bs_inv (fst (bs_step H now c s))" using bs_step_follows [OF Cons.prems(1)] by (simp add: follows_def keeps_def)
  with Cons wal_step [OF Cons.prems(1,2), of c now] show ?case by (simp add: case_prod_beta Let_def del: bs_step.simps)
qed simp

lemma wal_inv_new: "wal_inv H (BTreeStore_with_wal cfg)"
  by (simp add: wal_inv_def bs_view_def trees_def BTreeStore_with_wal_def)

section \<open>Properties\<close>

text \<open>
  C3: The B+tree store is a faithful replacement of the in-memory store. Started empty, with or
  without the log, it answers every sequence of calls (reads, writes, batches, shard management) in which
  no existing shard is created again exactly as the in-memory store does, errors included, and holds the
  same shards with the same entries afterwards. (Creating an existing shard again keeps its entries in the
  in-memory store and drops them in the B+tree store.)
\<close>

theorem btree_store_equals_memory_store:
  assumes "config_ok cfg" "allowed_calls cs (\<lambda>_. None)" "s = BTreeStore_new cfg \<or> s = BTreeStore_with_wal cfg"
  shows "snd (run_calls (bs_step H now) cs s) = snd (run_calls mem_step cs MemoryStore_new) \<and>
    bs_view (fst (run_calls (bs_step H now) cs s)) = mem_view (fst (run_calls mem_step cs MemoryStore_new))"
proof -
  have "bs_inv s" "bs_view s = mem_view MemoryStore_new"
    using assms(3) bs_inv_new [OF assms(1)] bs_view_new by auto
  moreover have "mem_view MemoryStore_new = (\<lambda>_. None)" by (auto simp: mem_view_def MemoryStore_new_def)
  ultimately show ?thesis using bt_mem.same_answers [of s MemoryStore_new cs H now] assms(2) by simp
qed

definition demo_calls :: "store_call list" where
  "demo_calls = [SCreate 1, SPut 1 [1] [10], SPut 1 [2] [20], SDelete 1 [1], SGet 1 [2], SGet 3 [2]]"

theorem btree_store_equals_memory_store_witness:
  "snd (run_calls (bs_step demo_hash 0) demo_calls (BTreeStore_with_wal demo_tree_cfg)) =
     [Ok AUnit, Ok AUnit, Ok AUnit, Ok (ABool True), Ok (AValue (Some [20])), Err (ShardNotFound 3)]"
proof -
  have "config_ok demo_tree_cfg" by (simp add: config_ok_def demo_tree_cfg_def)
  moreover have "allowed_calls demo_calls (\<lambda>_. None)" by code_simp
  moreover have "snd (run_calls mem_step demo_calls MemoryStore_new) =
     [Ok AUnit, Ok AUnit, Ok AUnit, Ok (ABool True), Ok (AValue (Some [20])), Err (ShardNotFound 3)]" by code_simp
  ultimately show ?thesis
    using btree_store_equals_memory_store [of demo_tree_cfg demo_calls "BTreeStore_with_wal demo_tree_cfg" demo_hash 0] by simp
qed

text \<open>
  C2: Nothing acknowledged is lost. After any sequence of calls on a store with the log, reopening
  the log file of a shard and replaying it into a new tree succeeds and restores exactly the entries
  of the shard: puts, deletes, batches and clears. (Keys and values are below four gigabytes, the limit of
  the length fields. Commits of transactions are not among the calls: they write no log record.)
\<close>

theorem btree_wal_recovery:
  assumes "config_ok cfg" "\<forall>c \<in> set cs. call_fits c"
    and "s = fst (run_calls (bs_step H now) cs (BTreeStore_with_wal cfg))" "map_of (bs_shards s) sh = Some d"
  shows "\<exists>m m' t. sd_wal d = Some m \<and> manager_new H now' (\<lambda>_. Some (wf_file (wm_active m))) root c = Ok m' \<and>
    replay_wal H (Some m') (BPlusTree_new cfg) = (t, Ok ()) \<and> btree_inv t \<and> tree_entries t = tree_entries (sd_tree d)"
proof -
  have "wal_inv H s" using wal_run [OF _ wal_inv_new assms(2)] bs_inv_new [OF assms(1)] by (simp add: assms(3))
  moreover have "bs_view s sh = Some (tree_entries (sd_tree d))" using assms(4) by (simp add: bs_view_def trees_def)
  ultimately have "log_view H s sh (tree_entries (sd_tree d))" by (auto simp: wal_inv_def)
  then obtain m ops where m: "sd_wal d = Some m" "log_holds H m ops" "fold op_effect ops [] = tree_entries (sd_tree d)"
    using assms(4) by (auto simp: log_view_def wals_def)
  obtain m' where m': "manager_new H now' (\<lambda>_. Some (wf_file (wm_active m))) root c = Ok m'" "log_holds H m' ops"
    using reopened_log_holds [OF m(2)] by blast
  from replay_wal_log [OF m'(2) btree_inv_new [OF assms(1)]] m m'(1) show ?thesis
    by (auto simp: tree_entries_new [OF assms(1)])
qed

theorem btree_wal_recovery_witness:
  "\<exists>d m m' t. map_of (bs_shards (fst (run_calls (bs_step demo_hash 0) demo_calls (BTreeStore_with_wal demo_tree_cfg)))) 1 = Some d \<and>
     sd_wal d = Some m \<and> manager_new demo_hash 5 (\<lambda>_. Some (wf_file (wm_active m))) ''/wal'' (WalConfig_new 1) = Ok m' \<and>
     replay_wal demo_hash (Some m') (BPlusTree_new demo_tree_cfg) = (t, Ok ()) \<and> tree_entries t = [([2], [20])]"
proof -
  let ?s = "fst (run_calls (bs_step demo_hash 0) demo_calls (BTreeStore_with_wal demo_tree_cfg))"
  have cfg: "config_ok demo_tree_cfg" by (simp add: config_ok_def demo_tree_cfg_def)
  have fits: "\<forall>c \<in> set demo_calls. call_fits c" by (simp add: demo_calls_def)
  have demo_view: "bs_view (BTreeStore_with_wal demo_tree_cfg) = (\<lambda>_. None)" "allowed_calls demo_calls (\<lambda>_. None)"
    unfolding bs_view_new(2) by (simp add: mem_view_def MemoryStore_new_def fun_eq_iff) code_simp
  have "bs_view ?s = fst (run_calls spec_step demo_calls (\<lambda>_. None))"
    using bt.run_correct [of "BTreeStore_with_wal demo_tree_cfg" demo_calls demo_hash 0] bs_inv_new [OF cfg]
      demo_view by simp
  moreover have "fst (run_calls spec_step demo_calls (\<lambda>_. None)) 1 = Some [([2], [20])]" by code_simp
  ultimately obtain d where d: "map_of (bs_shards ?s) 1 = Some d" "tree_entries (sd_tree d) = [([2], [20])]"
    using bs_view_data by metis
  from btree_wal_recovery [OF cfg fits refl d(1), of 5 "''/wal''" "WalConfig_new 1"] d show ?thesis by auto
qed

text \<open>
  C13: A scan of the B+tree store agrees with the in-memory store: a forward scan yields the same
  entries in the same order, for any range the in-memory store accepts (it panics when the start lies
  after the end) and any limit.
\<close>

theorem btree_scan_equals_memory_scan:
  assumes "bs_inv s" "bs_view s = mem_view ms" "\<not> range_reverse r" "ms_scan ms sh r = Ok mi"
  shows "\<exists>it. snd (bs_scan sh r s) = Ok it \<and> drain (length (the (bs_view s sh)) + 1) it = mi_items mi"
proof -
  obtain es where es: "map_of (ms_shards ms) sh = Some es" "scan_data es r = Ok mi"
    using assms(4) by (auto simp: ms_scan_def ms_get_shard_def split: option.splits)
  then have "bs_view s sh = Some es" using assms(2) by (simp add: mem_view_def)
  with bs_view_tree [OF this assms(1)] obtain t where t: "trees s sh = Some t" "btree_inv t" "tree_entries t = es"
    "the (bs_view s sh) = es" by auto
  from forward_scan [OF t(2), of "length es + 1" "range_start r" "range_end r" "range_limit r"] t es(2) assms(3)
  show ?thesis
    by (auto simp: bs_scan_def get_tree_trees scan_data_def mi_new_def Let_def split: if_splits option.splits)
qed

theorem btree_scan_equals_memory_scan_witness:
  "\<exists>it. snd (bs_scan 1 (KeyRange_from_to [1] [9]) (fst (run_calls (bs_step demo_hash 0) demo_calls (BTreeStore_new demo_tree_cfg)))) = Ok it \<and>
     drain (Suc (Suc 0)) it = [([2], [20])]"
proof -
  let ?s = "fst (run_calls (bs_step demo_hash 0) demo_calls (BTreeStore_new demo_tree_cfg))"
  let ?ms = "fst (run_calls mem_step demo_calls MemoryStore_new)"
  have "config_ok demo_tree_cfg" by (simp add: config_ok_def demo_tree_cfg_def)
  note inv = bs_inv_new [OF this, THEN conjunct1]
  have allowed: "allowed_calls demo_calls (bs_view (BTreeStore_new demo_tree_cfg))" unfolding bs_view_new(1) by code_simp
  have view: "bs_view ?s = mem_view ?ms" "bs_inv ?s"
    using bt_mem.same_answers(2) [OF inv _ bs_view_new(1) allowed, of demo_hash 0]
      bt.run_correct [OF inv allowed, of demo_hash 0] by simp_all
  have "mem_view ?ms 1 = Some [([2], [20])]" by code_simp
  moreover have "\<not> range_reverse (KeyRange_from_to [1] [9])" "ms_scan ?ms 1 (KeyRange_from_to [1] [9]) = Ok (mi_new [([2], [20])])"
    by code_simp+
  ultimately show ?thesis
    using btree_scan_equals_memory_scan [OF view(2,1), of "KeyRange_from_to [1] [9]" 1 "mi_new [([2], [20])]"]
    by (simp add: view(1) mi_new_def del: drain.simps)
qed

text \<open>
  C38: A committed transaction is not durable. The commit changes trees but writes no log record, so
  replaying the log of any shard after a successful commit restores the entries from before it.
\<close>

theorem transaction_commit_not_logged:
  assumes "bs_inv s" "wal_inv H s" "map_of (bs_shards s) sh = Some d" "bs_tx_commit tx s = (tx', s', Ok ())"
  shows "\<exists>d' m t. map_of (bs_shards s') sh = Some d' \<and> sd_wal d' = Some m \<and>
    replay_wal H (Some m) (BPlusTree_new (bs_config s)) = (t, Ok ()) \<and> tree_entries t = tree_entries (sd_tree d)"
proof -
  have cfg: "config_ok (bs_config s)" using assms(1) by (simp add: bs_inv_def)
  have "log_view H s sh (tree_entries (sd_tree d))" using assms(2,3) by (simp add: wal_inv_def bs_view_def trees_def)
  then obtain m ops where m: "sd_wal d = Some m" "log_holds H m ops" "fold op_effect ops [] = tree_entries (sd_tree d)"
    using assms(3) by (auto simp: log_view_def wals_def)
  obtain t0 where "s' = store_tree (btx_tree tx) t0 s" using assms(4) by (auto simp: bs_tx_commit_def split: prod.splits)
  then obtain d' where "map_of (bs_shards s') sh = Some d'" "sd_wal d' = sd_wal d"
    using assms(3) by (cases t0) (auto simp: store_tree_def map_of_map)
  with replay_wal_log [OF m(2) btree_inv_new [OF cfg]] m show ?thesis by (auto simp: tree_entries_new [OF cfg])
qed

theorem transaction_commit_not_logged_witness:
  "\<exists>s tx' s' d' m t. s = fst (bs_step demo_hash 0 (SCreate 1) (BTreeStore_with_wal demo_tree_cfg)) \<and>
     bs_tx_commit (fst (btx_put (BTreeTransaction_new 1 1 0 0) 1 [7] [8])) s = (tx', s', Ok ()) \<and>
     map_of (bs_shards s') 1 = Some d' \<and> sd_wal d' = Some m \<and>
     replay_wal demo_hash (Some m) (BPlusTree_new demo_tree_cfg) = (t, Ok ()) \<and> tree_entries t = []"
proof -
  let ?init = "BTreeStore_with_wal demo_tree_cfg" and ?t = "BPlusTree_new demo_tree_cfg"
  let ?s = "fst (bs_step demo_hash 0 (SCreate 1) ?init)" and ?tx = "fst (btx_put (BTreeTransaction_new 1 1 0 0) 1 [7] [8])"
  have cfg: "config_ok demo_tree_cfg" by (simp add: config_ok_def demo_tree_cfg_def)
  note inv0 = bs_inv_new [OF cfg, THEN conjunct2]
  have "bs_inv ?s" using bs_step_follows [OF inv0, of demo_hash 0 "SCreate 1"] unfolding follows_def keeps_def by blast
  moreover have "wal_inv demo_hash ?s" by (rule wal_step [OF inv0 wal_inv_new]) simp
  moreover note inv = calculation
  obtain wal where s: "?s = insert_shard 1 ?t wal ?init"
    using create_shard_ok [of ?init demo_hash 0 1] cfg by (auto simp: BTreeStore_with_wal_def)
  let ?d = "\<lparr>sd_ref = 0, sd_tree = ?t, sd_wal = wal, sd_flushed_lsn = None\<rparr>"
  have shards: "bs_shards ?s = [(1, ?d)]" "bs_config ?s = demo_tree_cfg"
    unfolding s by (simp_all add: insert_shard_def BTreeStore_with_wal_def)
  have "btx_tree ?tx = 0" "btx_active ?tx" "get_writes ?tx = [BPut [7] [8]]" by code_simp+
  moreover obtain t' where "apply_ops ?t [BPut [7] [8]] = (t', Ok ())"
    using apply_ops_correct [OF btree_inv_new [OF cfg], of "[BPut [7] [8]]"] by auto
  ultimately have "\<exists>tx' s'. bs_tx_commit ?tx ?s = (tx', s', Ok ())"
    by (simp add: bs_tx_commit_def upgrade_def shards btx_commit_def upgraded_def del: bs_step.simps)
  then obtain tx' s' where c: "bs_tx_commit ?tx ?s = (tx', s', Ok ())" by blast
  have "map_of (bs_shards ?s) 1 = Some ?d" by (simp add: shards del: bs_step.simps)
  from transaction_commit_not_logged [OF inv this c] c show ?thesis
    unfolding shards by (auto simp: tree_entries_new [OF cfg] simp del: bs_step.simps)
qed

text \<open>
  C39: With the log enabled, creating a new shard on a given file system fails. The replay looks the
  shard up before it has been inserted: whatever the file system holds and even if every file
  operation succeeds, a new shard is refused with "shard not found" and the store is unchanged.
\<close>

theorem create_shard_with_config_fails:
  assumes "bs_wal_enabled s" "map_of (bs_shards s) sh = None" "\<forall>p. mkdir p = None"
    and "manager_new H now fs (bc_wal_dir c) (WalConfig_new sh) = Ok m"
  shows "create_shard_with_config H now mkdir fs sh c s = (s, Err (ShardNotFound sh))"
  using assms by (simp add: create_shard_with_config_def recover_from_wal_def bs_get_shard_def Let_def)

theorem create_shard_with_config_fails_witness:
  "create_shard_with_config demo_hash 0 (\<lambda>_. None) (\<lambda>_. None) 1
     \<lparr>bc_data_dir = ''/d'', bc_wal_dir = ''/w'', bc_order = 2, bc_cache_size_mb = 1\<rparr> (BTreeStore_with_wal demo_tree_cfg) =
   (BTreeStore_with_wal demo_tree_cfg, Err (ShardNotFound 1))"
proof -
  obtain m where "manager_new demo_hash 0 (\<lambda>_. None) ''/w'' (WalConfig_new 1) = Ok m" using new_log_holds by blast
  then show ?thesis by (intro create_shard_with_config_fails) (simp_all add: BTreeStore_with_wal_def)
qed

end
