(* ===== verification/Mvcc.thy ===== *)
theory Mvcc
  imports NG_Prelude
begin

text \<open>
  Multi-version values, \<open>nanograph-btree/src/mvcc.rs\<close> and \<open>mvcc_node.rs\<close>: versions, version
  chains, the timestamp manager and the versioned leaf. Timestamps are natural numbers: the
  counters of the code are 64-bit, start at one and count transactions, so they do not wrap around. The reference is a history of
  commits, newest first; a leaf implements a history when every read at every timestamp agrees.
\<close>

section \<open>Versions and chains\<close>

record VersionedValue =
  vv_value :: "bytes option"
  created_ts :: nat
  commit_ts :: nat

definition VersionedValue_new :: "bytes option \<Rightarrow> nat \<Rightarrow> VersionedValue" where
  "VersionedValue_new v c = \<lparr>vv_value = v, created_ts = c, commit_ts = 0\<rparr>"

definition version_commit :: "nat \<Rightarrow> VersionedValue \<Rightarrow> VersionedValue" where
  "version_commit ts v = v\<lparr>commit_ts := ts\<rparr>"

definition is_visible :: "VersionedValue \<Rightarrow> nat \<Rightarrow> bool" where
  "is_visible v snapshot \<longleftrightarrow> 0 < commit_ts v \<and> commit_ts v \<le> snapshot"

definition is_uncommitted :: "VersionedValue \<Rightarrow> bool" where
  "is_uncommitted v \<longleftrightarrow> commit_ts v = 0"

definition is_deletion :: "VersionedValue \<Rightarrow> bool" where
  "is_deletion v \<longleftrightarrow> vv_value v = None"

record VersionChain =
  versions :: "VersionedValue list"

definition VersionChain_new :: VersionChain where
  "VersionChain_new = \<lparr>versions = []\<rparr>"

definition with_version :: "bytes \<Rightarrow> nat \<Rightarrow> VersionChain" where
  "with_version v c = \<lparr>versions = [VersionedValue_new (Some v) c]\<rparr>"

definition add_version :: "VersionChain \<Rightarrow> bytes option \<Rightarrow> nat \<Rightarrow> VersionChain" where
  "add_version ch v c = ch\<lparr>versions := vec_insert 0 (VersionedValue_new v c) (versions ch)\<rparr>"

primrec first_such :: "(VersionedValue \<Rightarrow> bool) \<Rightarrow> VersionedValue list \<Rightarrow> VersionedValue option" where
  "first_such P [] = None"
| "first_such P (v # vs) = (if P v then Some v else first_such P vs)"

definition chain_get :: "VersionChain \<Rightarrow> nat \<Rightarrow> bytes option" where
  "chain_get ch snapshot =
     (case first_such (\<lambda>v. is_visible v snapshot) (versions ch) of Some v \<Rightarrow> vv_value v | None \<Rightarrow> None)"

definition chain_get_at :: "VersionChain \<Rightarrow> nat \<Rightarrow> bytes option" where
  "chain_get_at ch timestamp = chain_get ch timestamp"

definition exists_at :: "VersionChain \<Rightarrow> nat \<Rightarrow> bool" where
  "exists_at ch timestamp =
     (case first_such (\<lambda>v. is_visible v timestamp) (versions ch) of Some v \<Rightarrow> \<not> is_deletion v | None \<Rightarrow> False)"

definition chain_get_latest :: "VersionChain \<Rightarrow> bytes option" where
  "chain_get_latest ch =
     (case first_such (\<lambda>v. 0 < commit_ts v) (versions ch) of Some v \<Rightarrow> vv_value v | None \<Rightarrow> None)"

definition chain_commit_versions :: "nat \<Rightarrow> nat \<Rightarrow> VersionChain \<Rightarrow> VersionChain" where
  "chain_commit_versions c ts ch =
     ch\<lparr>versions := map (\<lambda>v. if created_ts v = c \<and> is_uncommitted v then version_commit ts v else v) (versions ch)\<rparr>"

definition chain_rollback_versions :: "nat \<Rightarrow> VersionChain \<Rightarrow> VersionChain" where
  "chain_rollback_versions c ch = ch\<lparr>versions := filter (\<lambda>v. created_ts v \<noteq> c) (versions ch)\<rparr>"

text \<open>\<open>retain\<close> with the counter the closure carries.\<close>

primrec gc_retain :: "nat \<Rightarrow> nat \<Rightarrow> nat \<Rightarrow> VersionedValue list \<Rightarrow> VersionedValue list" where
  "gc_retain min_snapshot max_versions keep [] = []"
| "gc_retain min_snapshot max_versions keep (v # vs) =
     (if keep = 0 \<or> min_snapshot < commit_ts v \<and> keep < max_versions
      then v # gc_retain min_snapshot max_versions (keep + 1) vs
      else gc_retain min_snapshot max_versions keep vs)"

definition chain_gc_versions :: "nat \<Rightarrow> nat \<Rightarrow> VersionChain \<Rightarrow> VersionChain" where
  "chain_gc_versions min_snapshot max_versions ch =
     ch\<lparr>versions := gc_retain min_snapshot max_versions 0 (versions ch)\<rparr>"

definition chain_is_empty :: "VersionChain \<Rightarrow> bool" where
  "chain_is_empty ch \<longleftrightarrow> versions ch = []"

definition chain_len :: "VersionChain \<Rightarrow> nat" where
  "chain_len ch = length (versions ch)"

definition latest_commit_ts :: "VersionChain \<Rightarrow> nat option" where
  "latest_commit_ts ch = map_option commit_ts (first_such (\<lambda>v. 0 < commit_ts v) (versions ch))"

definition chain_has_conflict :: "VersionChain \<Rightarrow> nat \<Rightarrow> bool" where
  "chain_has_conflict ch snapshot \<longleftrightarrow>
     (\<exists>v \<in> set (versions ch). is_uncommitted v \<or> snapshot < commit_ts v)"

section \<open>The timestamp manager\<close>

text \<open>The ordered map of active snapshots is a list with increasing keys.\<close>

record TimestampManager =
  tm_current :: nat
  tm_active_snapshots :: "(nat \<times> nat) list"

definition TimestampManager_new :: TimestampManager where
  "TimestampManager_new = \<lparr>tm_current = 1, tm_active_snapshots = []\<rparr>"

definition tm_next :: "TimestampManager \<Rightarrow> nat \<times> TimestampManager" where
  "tm_next m = (tm_current m, m\<lparr>tm_current := tm_current m + 1\<rparr>)"

definition register_snapshot :: "nat \<Rightarrow> TimestampManager \<Rightarrow> TimestampManager" where
  "register_snapshot ts m =
     (let n = (case map_of (tm_active_snapshots m) ts of Some n \<Rightarrow> n | None \<Rightarrow> 0)
      in m\<lparr>tm_active_snapshots := al_put ts (n + 1) (tm_active_snapshots m)\<rparr>)"

definition unregister_snapshot :: "nat \<Rightarrow> TimestampManager \<Rightarrow> TimestampManager" where
  "unregister_snapshot ts m =
     (case map_of (tm_active_snapshots m) ts of
        None \<Rightarrow> m
      | Some n \<Rightarrow>
          if n - 1 = 0 then m\<lparr>tm_active_snapshots := al_del ts (tm_active_snapshots m)\<rparr>
          else m\<lparr>tm_active_snapshots := al_put ts (n - 1) (tm_active_snapshots m)\<rparr>)"

definition min_active_snapshot :: "TimestampManager \<Rightarrow> nat option" where
  "min_active_snapshot m = (case tm_active_snapshots m of [] \<Rightarrow> None | (ts, _) # _ \<Rightarrow> Some ts)"

definition active_snapshot_count :: "TimestampManager \<Rightarrow> nat" where
  "active_snapshot_count m = length (tm_active_snapshots m)"

section \<open>The versioned leaf\<close>

record MvccLeafNode =
  ml_id :: nat
  ml_entries :: "(bytes \<times> VersionChain) list"
  ml_next :: "nat option"
  ml_prev :: "nat option"
  ml_parent :: "nat option"

definition MvccLeafNode_new :: "nat \<Rightarrow> MvccLeafNode" where
  "MvccLeafNode_new i = \<lparr>ml_id = i, ml_entries = [], ml_next = None, ml_prev = None, ml_parent = None\<rparr>"

definition ml_find_key_index :: "MvccLeafNode \<Rightarrow> bytes \<Rightarrow> nat + nat" where
  "ml_find_key_index n key = binary_search_by (\<lambda>e. cmp (fst e) key) (ml_entries n)"

definition ml_insert :: "MvccLeafNode \<Rightarrow> bytes \<Rightarrow> bytes \<Rightarrow> nat \<Rightarrow> bytes option \<times> MvccLeafNode" where
  "ml_insert n key val c =
     (case ml_find_key_index n key of
        Inr idx \<Rightarrow>
          let (k, ch) = ml_entries n ! idx
          in (chain_get_latest ch, n\<lparr>ml_entries := (ml_entries n)[idx := (k, add_version ch (Some val) c)]\<rparr>)
      | Inl idx \<Rightarrow> (None, n\<lparr>ml_entries := vec_insert idx (key, with_version val c) (ml_entries n)\<rparr>))"

definition ml_remove :: "MvccLeafNode \<Rightarrow> bytes \<Rightarrow> nat \<Rightarrow> bytes option \<times> MvccLeafNode" where
  "ml_remove n key c =
     (case ml_find_key_index n key of
        Inr idx \<Rightarrow>
          let (k, ch) = ml_entries n ! idx
          in (chain_get_latest ch, n\<lparr>ml_entries := (ml_entries n)[idx := (k, add_version ch None c)]\<rparr>)
      | Inl _ \<Rightarrow> (None, n))"

definition ml_get :: "MvccLeafNode \<Rightarrow> bytes \<Rightarrow> nat \<Rightarrow> bytes option" where
  "ml_get n key snapshot =
     (case ml_find_key_index n key of
        Inr idx \<Rightarrow> chain_get (snd (ml_entries n ! idx)) snapshot
      | Inl _ \<Rightarrow> None)"

definition ml_get_latest :: "MvccLeafNode \<Rightarrow> bytes \<Rightarrow> bytes option" where
  "ml_get_latest n key =
     (case ml_find_key_index n key of
        Inr idx \<Rightarrow> chain_get_latest (snd (ml_entries n ! idx))
      | Inl _ \<Rightarrow> None)"

definition ml_commit_versions :: "nat \<Rightarrow> nat \<Rightarrow> MvccLeafNode \<Rightarrow> MvccLeafNode" where
  "ml_commit_versions c ts n =
     n\<lparr>ml_entries := map (\<lambda>(k, ch). (k, chain_commit_versions c ts ch)) (ml_entries n)\<rparr>"

definition ml_rollback_versions :: "nat \<Rightarrow> MvccLeafNode \<Rightarrow> MvccLeafNode" where
  "ml_rollback_versions c n =
     n\<lparr>ml_entries := filter (\<lambda>(k, ch). \<not> chain_is_empty ch)
                      (map (\<lambda>(k, ch). (k, chain_rollback_versions c ch)) (ml_entries n))\<rparr>"

definition ml_gc_versions :: "nat \<Rightarrow> nat \<Rightarrow> MvccLeafNode \<Rightarrow> MvccLeafNode" where
  "ml_gc_versions min_snapshot max_versions n =
     n\<lparr>ml_entries := map (\<lambda>(k, ch). (k, chain_gc_versions min_snapshot max_versions ch)) (ml_entries n)\<rparr>"

definition ml_has_conflict :: "MvccLeafNode \<Rightarrow> bytes \<Rightarrow> nat \<Rightarrow> bool" where
  "ml_has_conflict n key snapshot =
     (case ml_find_key_index n key of
        Inr idx \<Rightarrow> chain_has_conflict (snd (ml_entries n ! idx)) snapshot
      | Inl _ \<Rightarrow> False)"

text \<open>\<open>right_entries[0]\<close> panics on an empty leaf.\<close>

definition ml_split :: "MvccLeafNode \<Rightarrow> (bytes \<times> MvccLeafNode \<times> MvccLeafNode) option" where
  "ml_split n =
     (let mid = length (ml_entries n) div 2; right = drop mid (ml_entries n)
      in case right of
           [] \<Rightarrow> None
         | e # _ \<Rightarrow> Some (fst e, n\<lparr>ml_entries := take mid (ml_entries n)\<rparr>,
                          n\<lparr>ml_entries := right, ml_prev := None\<rparr>))"

definition ml_is_underfull :: "MvccLeafNode \<Rightarrow> nat \<Rightarrow> bool" where
  "ml_is_underfull n min_entries \<longleftrightarrow> length (ml_entries n) < min_entries"

section \<open>Leaf operations as operations on maps of chains\<close>

named_theorems mvcc_simps \<open>versioned leaf operations as operations on sorted association lists\<close>

lemma ml_get_map [mvcc_simps]:
  assumes "ksorted (ml_entries n)"
  shows "ml_get n k ts = (case map_of (ml_entries n) k of Some ch \<Rightarrow> chain_get ch ts | None \<Rightarrow> None)"
  using assms
  by (cases rule: entry_search [where k = k]) (simp_all add: ml_get_def ml_find_key_index_def)

lemma ml_get_latest_map [mvcc_simps]:
  assumes "ksorted (ml_entries n)"
  shows "ml_get_latest n k = (case map_of (ml_entries n) k of Some ch \<Rightarrow> chain_get_latest ch | None \<Rightarrow> None)"
  using assms
  by (cases rule: entry_search [where k = k]) (simp_all add: ml_get_latest_def ml_find_key_index_def)

lemma ml_has_conflict_map [mvcc_simps]:
  assumes "ksorted (ml_entries n)"
  shows "ml_has_conflict n k ts = (case map_of (ml_entries n) k of Some ch \<Rightarrow> chain_has_conflict ch ts | None \<Rightarrow> False)"
  using assms
  by (cases rule: entry_search [where k = k]) (simp_all add: ml_has_conflict_def ml_find_key_index_def)

lemma ml_insert_put [mvcc_simps]:
  assumes "ksorted (ml_entries n)"
  shows "ml_insert n k v c =
    (case map_of (ml_entries n) k of
       Some ch \<Rightarrow> (chain_get_latest ch, n\<lparr>ml_entries := al_put k (add_version ch (Some v) c) (ml_entries n)\<rparr>)
     | None \<Rightarrow> (None, n\<lparr>ml_entries := al_put k (with_version v c) (ml_entries n)\<rparr>))"
  using assms
  by (cases rule: entry_search [where k = k]) (simp_all add: ml_insert_def ml_find_key_index_def)

lemma ml_remove_put [mvcc_simps]:
  assumes "ksorted (ml_entries n)"
  shows "ml_remove n k c =
    (case map_of (ml_entries n) k of
       Some ch \<Rightarrow> (chain_get_latest ch, n\<lparr>ml_entries := al_put k (add_version ch None c) (ml_entries n)\<rparr>)
     | None \<Rightarrow> (None, n))"
  using assms
  by (cases rule: entry_search [where k = k]) (simp_all add: ml_remove_def ml_find_key_index_def)

lemma map_of_map_chains: "map_of (map (\<lambda>(k, ch). (k, f ch)) es) = map_option f \<circ> map_of es"
  by (induction es) auto

lemma ksorted_map_chains: "ksorted (map (\<lambda>(k, ch). (k, f ch)) es) \<longleftrightarrow> ksorted es"
  by (simp add: comp_def case_prod_unfold)

section \<open>Committed chains and histories\<close>

text \<open>
  Between commits every version is committed, newest first, up to the last commit timestamp \<open>c\<close>;
  \<open>live\<close> are the transactions that have not ended and so own no version.
\<close>

definition chain_ok :: "nat \<Rightarrow> nat set \<Rightarrow> VersionChain \<Rightarrow> bool" where
  "chain_ok c live ch \<longleftrightarrow>
     sorted_wrt (\<lambda>v w. commit_ts w < commit_ts v) (versions ch) \<and>
     (\<forall>v \<in> set (versions ch). 0 < commit_ts v \<and> commit_ts v \<le> c \<and> created_ts v \<notin> live)"

definition leaf_ok :: "nat \<Rightarrow> nat set \<Rightarrow> MvccLeafNode \<Rightarrow> bool" where
  "leaf_ok c live n \<longleftrightarrow>
     ksorted (ml_entries n) \<and>
     (\<forall>k ch. map_of (ml_entries n) k = Some ch \<longrightarrow> versions ch \<noteq> [] \<and> chain_ok c live ch)"

type_synonym writes = "(bytes \<times> bytes option) list"
type_synonym history = "(nat \<times> writes) list"

text \<open>What a history says about a key at a timestamp.\<close>

fun db_at :: "history \<Rightarrow> nat \<Rightarrow> bytes \<Rightarrow> bytes option" where
  "db_at [] ts k = None"
| "db_at ((c, ws) # hs) ts k =
     (if c \<le> ts then (case map_of ws k of Some v \<Rightarrow> v | None \<Rightarrow> db_at hs ts k) else db_at hs ts k)"

definition implements :: "MvccLeafNode \<Rightarrow> history \<Rightarrow> bool" where
  "implements n hs \<longleftrightarrow> (\<forall>k ts. ml_get n k ts = db_at hs ts k)"

lemma chain_get_Cons:
  "0 < commit_ts v \<Longrightarrow>
   chain_get \<lparr>versions = v # vs\<rparr> ts = (if commit_ts v \<le> ts then vv_value v else chain_get \<lparr>versions = vs\<rparr> ts)"
  by (simp add: chain_get_def is_visible_def)

text \<open>Applying a list of writes and committing them, as \<open>atomic_commit\<close> does.\<close>

fun apply_write :: "nat \<Rightarrow> bytes \<times> bytes option \<Rightarrow> MvccLeafNode \<Rightarrow> MvccLeafNode" where
  "apply_write c (k, Some v) n = snd (ml_insert n k v c)"
| "apply_write c (k, None) n = snd (ml_remove n k c)"

definition apply_writes :: "nat \<Rightarrow> writes \<Rightarrow> MvccLeafNode \<Rightarrow> MvccLeafNode" where
  "apply_writes c ws n = fold (apply_write c) ws n"

text \<open>The chain of a key after the write \<open>w\<close> with commit timestamp \<open>ts\<close> (0 before the commit).\<close>

definition pushed :: "nat \<Rightarrow> nat \<Rightarrow> bytes option option \<Rightarrow> VersionChain option \<Rightarrow> VersionChain option" where
  "pushed c ts w old =
     (case w of
        None \<Rightarrow> old
      | Some v \<Rightarrow>
          (case old of
             Some ch \<Rightarrow> Some (ch\<lparr>versions := \<lparr>vv_value = v, created_ts = c, commit_ts = ts\<rparr> # versions ch\<rparr>)
           | None \<Rightarrow>
               (case v of None \<Rightarrow> None
                | Some x \<Rightarrow> Some \<lparr>versions = [\<lparr>vv_value = Some x, created_ts = c, commit_ts = ts\<rparr>]\<rparr>)))"

lemma apply_write_map:
  assumes "ksorted (ml_entries n)"
  shows "ksorted (ml_entries (apply_write c (k, v) n))"
    and "map_of (ml_entries (apply_write c (k, v) n)) x =
      (if x = k then pushed c 0 (Some v) (map_of (ml_entries n) k) else map_of (ml_entries n) x)"
  using assms
  by (cases v; cases "map_of (ml_entries n) k";
      simp add: mvcc_simps ksorted_al_put pushed_def add_version_def with_version_def VersionedValue_new_def vec_insert_def)+

lemma apply_writes_map:
  assumes "ksorted (ml_entries n)" "distinct (map fst ws)"
  shows "ksorted (ml_entries (apply_writes c ws n)) \<and>
    (\<forall>x. map_of (ml_entries (apply_writes c ws n)) x = pushed c 0 (map_of ws x) (map_of (ml_entries n) x))"
  using assms
proof (induction ws arbitrary: n)
  case Nil
  then show ?case by (simp add: apply_writes_def pushed_def)
next
  case (Cons w ws)
  obtain k v where w: "w = (k, v)" by (cases w)
  note step = apply_write_map [OF Cons.prems(1), of c k v]
  have "map_of ws k = None" using Cons.prems(2) by (auto simp: w map_of_eq_None_iff)
  then show ?case
    using Cons.IH [OF step(1)] Cons.prems(2) step(2)
    by (auto simp: apply_writes_def w pushed_def)
qed

lemma ksorted_map_of: "ksorted es \<Longrightarrow> map_of es k = Some v \<longleftrightarrow> (k, v) \<in> set es"
  by (rule map_of_eq_Some_iff) (simp add: strict_sorted_iff)

lemma commit_committed: "chain_ok c0 live ch \<Longrightarrow> chain_commit_versions c ts ch = ch"
  by (cases ch) (auto simp: chain_commit_versions_def chain_ok_def is_uncommitted_def intro!: map_idI)

lemma commit_pushed:
  assumes "\<And>ch. old = Some ch \<Longrightarrow> chain_ok c0 live ch"
  shows "map_option (chain_commit_versions c ts) (pushed c 0 w old) = pushed c ts w old"
proof (cases w)
  case None
  with assms show ?thesis by (cases old) (auto simp: pushed_def commit_committed)
next
  case (Some v)
  have "map (\<lambda>x. if created_ts x = c \<and> is_uncommitted x then version_commit ts x else x) (versions ch) = versions ch"
    if "old = Some ch" for ch
    using assms [OF that] by (auto simp: chain_ok_def is_uncommitted_def intro!: map_idI)
  then show ?thesis
    by (cases old; cases v) (auto simp: Some pushed_def chain_commit_versions_def version_commit_def is_uncommitted_def)
qed

lemma commit_writes_map:
  fixes c ts :: nat
  assumes "leaf_ok c0 live n" "distinct (map fst ws)"
  defines "n' \<equiv> ml_commit_versions c ts (apply_writes c ws n)"
  shows "ksorted (ml_entries n')"
    and "map_of (ml_entries n') x = pushed c ts (map_of ws x) (map_of (ml_entries n) x)"
proof -
  note ap = apply_writes_map [of n ws c]
  have n: "ksorted (ml_entries n)" using assms(1) by (simp add: leaf_ok_def)
  show "ksorted (ml_entries n')"
    using ap [OF n assms(2)] by (simp add: n'_def ml_commit_versions_def ksorted_map_chains del: map_map)
  have "map_of (ml_entries n') x = map_option (chain_commit_versions c ts) (pushed c 0 (map_of ws x) (map_of (ml_entries n) x))"
    using ap [OF n assms(2)] by (simp add: n'_def ml_commit_versions_def map_of_map_chains)
  also have "\<dots> = pushed c ts (map_of ws x) (map_of (ml_entries n) x)"
    by (rule commit_pushed [of _ c0 live]) (use assms(1) in \<open>simp add: leaf_ok_def\<close>)
  finally show "map_of (ml_entries n') x = pushed c ts (map_of ws x) (map_of (ml_entries n) x)" .
qed

lemma chain_ok_pushed:
  assumes "pushed c ts w old = Some ch" "c0 < ts" "c \<notin> live'" "live' \<subseteq> live"
    and "\<And>ch. old = Some ch \<Longrightarrow> versions ch \<noteq> [] \<and> chain_ok c0 live ch"
  shows "versions ch \<noteq> [] \<and> chain_ok ts live' ch"
  using assms by (fastforce simp: pushed_def chain_ok_def split: option.splits)

lemma commit_writes_ok:
  assumes "leaf_ok c0 live n" "distinct (map fst ws)" "c0 < ts" "c \<notin> live'" "live' \<subseteq> live"
  shows "leaf_ok ts live' (ml_commit_versions c ts (apply_writes c ws n))"
  unfolding leaf_ok_def
proof (intro conjI allI impI)
  note m = commit_writes_map [OF assms(1,2), of c ts]
  show "ksorted (ml_entries (ml_commit_versions c ts (apply_writes c ws n)))" by (rule m(1))
  fix k ch
  assume "map_of (ml_entries (ml_commit_versions c ts (apply_writes c ws n))) k = Some ch"
  then have "pushed c ts (map_of ws k) (map_of (ml_entries n) k) = Some ch" by (simp add: m(2))
  from chain_ok_pushed [OF this assms(3-5)] assms(1)
  show "versions ch \<noteq> []" "chain_ok ts live' ch" by (auto simp: leaf_ok_def)
qed

lemma commit_writes_implements:
  assumes "leaf_ok c0 live n" "distinct (map fst ws)" "c0 < ts" "implements n hs"
  shows "implements (ml_commit_versions c ts (apply_writes c ws n)) ((ts, ws) # hs)"
  unfolding implements_def
proof (intro allI)
  fix k t
  note m = commit_writes_map [OF assms(1,2), of c ts]
  have old: "ml_get n k t = (case map_of (ml_entries n) k of Some ch \<Rightarrow> chain_get ch t | None \<Rightarrow> None)"
    by (rule ml_get_map) (use assms(1) in \<open>simp add: leaf_ok_def\<close>)
  have "ml_get (ml_commit_versions c ts (apply_writes c ws n)) k t =
      (case pushed c ts (map_of ws k) (map_of (ml_entries n) k) of Some ch \<Rightarrow> chain_get ch t | None \<Rightarrow> None)"
    using m by (simp add: ml_get_map)
  also have "\<dots> = (case map_of ws k of
        None \<Rightarrow> ml_get n k t
      | Some v \<Rightarrow> if ts \<le> t then v else ml_get n k t)"
    using assms(3) unfolding old
    by (cases "map_of (ml_entries n) k" rule: option.exhaust)
       (auto simp: pushed_def chain_get_def is_visible_def split: option.splits)
  finally show "ml_get (ml_commit_versions c ts (apply_writes c ws n)) k t = db_at ((ts, ws) # hs) t k"
    using assms(4) by (auto simp: implements_def split: option.splits)
qed

lemma rollback_untouched:
  assumes "leaf_ok c0 live n" "c \<in> live"
  shows "ml_rollback_versions c n = n"
proof -
  have *: "versions ch \<noteq> []" "chain_rollback_versions c ch = ch" if "(k, ch) \<in> set (ml_entries n)" for k ch
  proof -
    have "map_of (ml_entries n) k = Some ch" using that assms(1) by (simp add: ksorted_map_of leaf_ok_def)
    with assms show "versions ch \<noteq> []" "chain_rollback_versions c ch = ch"
      by (cases ch; fastforce simp: leaf_ok_def chain_ok_def chain_rollback_versions_def intro: filter_True)+
  qed
  then have "map (\<lambda>(k, ch). (k, chain_rollback_versions c ch)) (ml_entries n) = ml_entries n"
    by (auto intro!: map_idI)
  moreover have "filter (\<lambda>(k, ch). \<not> chain_is_empty ch) (ml_entries n) = ml_entries n"
    using * by (auto simp: chain_is_empty_def intro!: filter_True)
  ultimately show ?thesis by (simp add: ml_rollback_versions_def)
qed

text \<open>A key is in conflict exactly when it was committed after the snapshot.\<close>

lemma conflict_iff:
  assumes "leaf_ok c0 live n"
  shows "ml_has_conflict n k ts \<longleftrightarrow>
    (\<exists>ch. map_of (ml_entries n) k = Some ch \<and> (\<exists>v \<in> set (versions ch). ts < commit_ts v))"
proof -
  have "ksorted (ml_entries n)" using assms by (simp add: leaf_ok_def)
  then show ?thesis
    using assms
    by (fastforce simp: mvcc_simps chain_has_conflict_def is_uncommitted_def leaf_ok_def chain_ok_def split: option.splits)
qed

section \<open>Garbage collection of chains\<close>

lemma gc_retain_kept: "\<forall>v \<in> set (gc_retain mn mx (Suc keep) vs). mn < commit_ts v"
  by (induction vs arbitrary: keep) auto

lemma gc_retain_Cons: "gc_retain mn mx 0 (v # vs) = v # gc_retain mn mx 1 vs"
  by simp

lemma first_such_None: "first_such P vs = None \<longleftrightarrow> (\<forall>v \<in> set vs. \<not> P v)"
  by (induction vs) auto

text \<open>The newest version always stays, so reads from its commit on are unaffected.\<close>

lemma gc_newest_kept:
  assumes "chain_ok c live ch" "versions ch = v # vs" "commit_ts v \<le> ts"
  shows "chain_get (chain_gc_versions mn mx ch) ts = chain_get ch ts"
  using assms by (simp add: chain_gc_versions_def chain_get_def is_visible_def chain_ok_def)

text \<open>Every version but the newest that a snapshot at \<open>mn\<close> could see is dropped.\<close>

lemma gc_forgets:
  assumes "versions ch = v # vs" "mn < commit_ts v"
  shows "chain_get (chain_gc_versions mn mx ch) mn = None"
proof -
  have "first_such (\<lambda>w. is_visible w mn) (gc_retain mn mx 0 (versions ch)) = None"
    using assms gc_retain_kept [of mn mx 0 vs]
    by (auto simp: first_such_None is_visible_def simp flip: One_nat_def)
  then show ?thesis by (simp add: chain_gc_versions_def chain_get_def)
qed

section \<open>Active snapshots\<close>

definition tm_ok :: "TimestampManager \<Rightarrow> bool" where
  "tm_ok m \<longleftrightarrow> ksorted (tm_active_snapshots m) \<and> (\<forall>(ts, n) \<in> set (tm_active_snapshots m). 0 < n)"

lemma tm_register_ok: "tm_ok m \<Longrightarrow> tm_ok (register_snapshot ts m)"
  by (auto simp: tm_ok_def register_snapshot_def ksorted_al_put Let_def dest: set_al_put [THEN subsetD])

lemma tm_unregister_ok: "tm_ok m \<Longrightarrow> tm_ok (unregister_snapshot ts m)"
  by (auto simp: tm_ok_def unregister_snapshot_def ksorted_al_put ksorted_al_del split: option.splits
      dest: set_al_put [THEN subsetD] set_al_del [THEN subsetD])

lemma unregister_register:
  assumes "tm_ok m"
  shows "unregister_snapshot ts (register_snapshot ts m) = m"
proof (cases "map_of (tm_active_snapshots m) ts")
  case None
  then show ?thesis
    using assms al_del_put [of "tm_active_snapshots m" ts]
    by (simp add: tm_ok_def register_snapshot_def unregister_snapshot_def)
next
  case (Some n)
  then have "0 < n" using assms by (auto simp: tm_ok_def dest!: map_of_SomeD)
  then show ?thesis
    using assms Some al_put_same [of "tm_active_snapshots m" ts n]
    by (simp add: tm_ok_def register_snapshot_def unregister_snapshot_def)
qed

lemma min_active_snapshot_Min:
  assumes "tm_ok m"
  shows "min_active_snapshot m =
    (if tm_active_snapshots m = [] then None else Some (Min (fst ` set (tm_active_snapshots m))))"
proof (cases "tm_active_snapshots m")
  case (Cons e es)
  with assms have "Min (insert (fst e) (fst ` set es)) = fst e"
    by (intro Min_eqI) (auto simp: tm_ok_def less_imp_le)
  with Cons show ?thesis by (cases e) (simp add: min_active_snapshot_def)
qed (simp add: min_active_snapshot_def)

end
