(* ===== verification/Mvcc_Txn.thy ===== *)
theory Mvcc_Txn
  imports Mvcc BTree_Tree
begin

text \<open>
  Transactions with snapshot isolation, \<open>nanograph-btree/src/mvcc_tree.rs\<close> and
  \<open>mvcc_transaction.rs\<close>. The tree of the source is a single versioned leaf. A transaction buffers
  its writes; the manager hands out snapshots and commit timestamps, commits atomically under the
  tree's write lock and collects garbage every so many commits. Of the transactions it keeps, the
  manager only reads the snapshot timestamp, so its table maps identifiers to snapshots. The write
  buffer is a hash map whose iteration order is unspecified; the model lists it in insertion order,
  and what is proved of a commit holds for every order.
\<close>

section \<open>The versioned tree\<close>

record MvccTreeConfig =
  mc_max_keys :: nat
  mc_min_keys :: nat
  max_versions_per_key :: nat

definition MvccTreeConfig_default :: MvccTreeConfig where
  "MvccTreeConfig_default = \<lparr>mc_max_keys = 128, mc_min_keys = 64, max_versions_per_key = 10\<rparr>"

record MvccBPlusTree =
  mt_config :: MvccTreeConfig
  mt_root :: MvccLeafNode
  mt_next_node_id :: nat
  mt_min_snapshot_ts :: nat

definition MvccBPlusTree_new :: "MvccTreeConfig \<Rightarrow> MvccBPlusTree" where
  "MvccBPlusTree_new cfg =
     \<lparr>mt_config = cfg, mt_root = MvccLeafNode_new 0, mt_next_node_id = 1, mt_min_snapshot_ts = 0\<rparr>"

definition mt_insert :: "MvccBPlusTree \<Rightarrow> bytes \<Rightarrow> bytes \<Rightarrow> nat \<Rightarrow> MvccBPlusTree \<times> (BTreeError, unit) res" where
  "mt_insert t key val c = (t\<lparr>mt_root := snd (ml_insert (mt_root t) key val c)\<rparr>, Ok ())"

definition mt_get :: "MvccBPlusTree \<Rightarrow> bytes \<Rightarrow> nat \<Rightarrow> (BTreeError, bytes option) res" where
  "mt_get t key snapshot = Ok (ml_get (mt_root t) key snapshot)"

definition mt_get_latest :: "MvccBPlusTree \<Rightarrow> bytes \<Rightarrow> (BTreeError, bytes option) res" where
  "mt_get_latest t key = Ok (ml_get_latest (mt_root t) key)"

definition mt_delete :: "MvccBPlusTree \<Rightarrow> bytes \<Rightarrow> nat \<Rightarrow> MvccBPlusTree \<times> (BTreeError, bool) res" where
  "mt_delete t key c =
     (let (old, root') = ml_remove (mt_root t) key c in (t\<lparr>mt_root := root'\<rparr>, Ok (old \<noteq> None)))"

definition mt_commit_versions :: "MvccBPlusTree \<Rightarrow> nat \<Rightarrow> nat \<Rightarrow> MvccBPlusTree \<times> (BTreeError, unit) res" where
  "mt_commit_versions t c ts = (t\<lparr>mt_root := ml_commit_versions c ts (mt_root t)\<rparr>, Ok ())"

definition mt_rollback_versions :: "MvccBPlusTree \<Rightarrow> nat \<Rightarrow> MvccBPlusTree \<times> (BTreeError, unit) res" where
  "mt_rollback_versions t c = (t\<lparr>mt_root := ml_rollback_versions c (mt_root t)\<rparr>, Ok ())"

definition mt_has_conflict :: "MvccBPlusTree \<Rightarrow> bytes \<Rightarrow> nat \<Rightarrow> bool" where
  "mt_has_conflict t key snapshot = ml_has_conflict (mt_root t) key snapshot"

text \<open>\<open>{:?}\<close> of a byte vector.\<close>

fun debug_elems :: "bytes \<Rightarrow> string" where
  "debug_elems [] = []"
| "debug_elems [b] = nat_to_string (unat b)"
| "debug_elems (b # bs) = nat_to_string (unat b) @ '', '' @ debug_elems bs"

definition debug_bytes :: "bytes \<Rightarrow> string" where
  "debug_bytes bs = ''['' @ debug_elems bs @ '']''"

definition conflict_error :: "bytes \<Rightarrow> BTreeError" where
  "conflict_error key = InternalError (''Write conflict detected for key: '' @ debug_bytes key)"

definition atomic_commit ::
  "MvccBPlusTree \<Rightarrow> writes \<Rightarrow> nat \<Rightarrow> nat \<Rightarrow> nat \<Rightarrow> MvccBPlusTree \<times> (BTreeError, unit) res" where
  "atomic_commit t ws snapshot c ts =
     (case find (\<lambda>w. ml_has_conflict (mt_root t) (fst w) snapshot) ws of
        Some w \<Rightarrow> (t\<lparr>mt_root := ml_rollback_versions c (mt_root t)\<rparr>, Err (conflict_error (fst w)))
      | None \<Rightarrow> (t\<lparr>mt_root := ml_commit_versions c ts (apply_writes c ws (mt_root t))\<rparr>, Ok ()))"

definition mt_update_min_snapshot_ts :: "MvccBPlusTree \<Rightarrow> nat \<Rightarrow> MvccBPlusTree" where
  "mt_update_min_snapshot_ts t ts = t\<lparr>mt_min_snapshot_ts := ts\<rparr>"

definition mt_gc_versions :: "MvccBPlusTree \<Rightarrow> MvccBPlusTree \<times> (BTreeError, unit) res" where
  "mt_gc_versions t =
     (t\<lparr>mt_root := ml_gc_versions (mt_min_snapshot_ts t) (max_versions_per_key (mt_config t)) (mt_root t)\<rparr>, Ok ())"

record MvccTreeStats =
  mvcc_key_count :: nat
  mvcc_node_count :: nat

definition mt_stats :: "MvccBPlusTree \<Rightarrow> MvccTreeStats" where
  "mt_stats t = \<lparr>mvcc_key_count = length (ml_entries (mt_root t)), mvcc_node_count = 1\<rparr>"

section \<open>Transactions\<close>

datatype WriteOp = Put bytes bytes | Delete bytes

record MvccTransaction =
  tx_id :: nat
  snapshot_ts :: nat
  write_buffer :: "(bytes \<times> WriteOp) list"
  tx_active :: bool

definition MvccTransaction_new :: "nat \<Rightarrow> nat \<Rightarrow> MvccTransaction" where
  "MvccTransaction_new i snapshot = \<lparr>tx_id = i, snapshot_ts = snapshot, write_buffer = [], tx_active = True\<rparr>"

definition not_active :: "BTreeError fault" where
  "not_active = Raised (InternalError ''Transaction is not active'')"

fun op_value :: "WriteOp \<Rightarrow> bytes option" where
  "op_value (Put _ v) = Some v"
| "op_value (Delete _) = None"

fun op_key :: "WriteOp \<Rightarrow> bytes" where
  "op_key (Put k _) = k"
| "op_key (Delete k) = k"

definition tx_get :: "MvccBPlusTree \<Rightarrow> MvccTransaction \<Rightarrow> bytes \<Rightarrow> (BTreeError, bytes option) res" where
  "tx_get t tx key =
     (if \<not> tx_active tx then Inl not_active
      else case map_of (write_buffer tx) key of
             Some op \<Rightarrow> Ok (op_value op)
           | None \<Rightarrow> mt_get t key (snapshot_ts tx))"

definition tx_put :: "MvccTransaction \<Rightarrow> bytes \<Rightarrow> bytes \<Rightarrow> MvccTransaction \<times> (BTreeError, unit) res" where
  "tx_put tx key val =
     (if \<not> tx_active tx then (tx, Inl not_active)
      else (tx\<lparr>write_buffer := hm_insert key (Put key val) (write_buffer tx)\<rparr>, Ok ()))"

definition tx_delete :: "MvccTransaction \<Rightarrow> bytes \<Rightarrow> MvccTransaction \<times> (BTreeError, unit) res" where
  "tx_delete tx key =
     (if \<not> tx_active tx then (tx, Inl not_active)
      else (tx\<lparr>write_buffer := hm_insert key (Delete key) (write_buffer tx)\<rparr>, Ok ()))"

definition tx_writes :: "MvccTransaction \<Rightarrow> writes" where
  "tx_writes tx = map (\<lambda>(_, op). (op_key op, op_value op)) (write_buffer tx)"

definition tx_commit ::
  "MvccBPlusTree \<Rightarrow> MvccTransaction \<Rightarrow> nat \<Rightarrow> MvccBPlusTree \<times> MvccTransaction \<times> (BTreeError, unit) res" where
  "tx_commit t tx ts =
     (if \<not> tx_active tx then (t, tx, Inl not_active)
      else let (t', r) = atomic_commit t (tx_writes tx) (snapshot_ts tx) (tx_id tx) ts
           in (t', tx\<lparr>tx_active := False\<rparr>, r))"

definition tx_rollback ::
  "MvccBPlusTree \<Rightarrow> MvccTransaction \<Rightarrow> MvccBPlusTree \<times> MvccTransaction \<times> (BTreeError, unit) res" where
  "tx_rollback t tx =
     (if \<not> tx_active tx then (t, tx, Inl not_active)
      else (t\<lparr>mt_root := ml_rollback_versions (tx_id tx) (mt_root t)\<rparr>,
            tx\<lparr>write_buffer := [], tx_active := False\<rparr>, Ok ()))"

section \<open>The transaction manager\<close>

record MvccTransactionManager =
  next_tx_id :: nat
  next_commit_ts :: nat
  active_transactions :: "(nat \<times> nat) list"
  mgr_tree :: MvccBPlusTree
  gc_counter :: nat
  gc_interval :: nat

definition MvccTransactionManager_new :: "MvccBPlusTree \<Rightarrow> MvccTransactionManager" where
  "MvccTransactionManager_new t =
     \<lparr>next_tx_id = 1, next_commit_ts = 1, active_transactions = [], mgr_tree = t, gc_counter = 0, gc_interval = 100\<rparr>"

definition update_min_snapshot_ts :: "MvccTransactionManager \<Rightarrow> MvccTransactionManager" where
  "update_min_snapshot_ts m =
     (let snapshots = map snd (active_transactions m);
          mn = (if snapshots = [] then next_commit_ts m else Min (set snapshots))
      in m\<lparr>mgr_tree := mt_update_min_snapshot_ts (mgr_tree m) mn\<rparr>)"

definition mgr_begin :: "MvccTransactionManager \<Rightarrow> MvccTransaction \<times> MvccTransactionManager" where
  "mgr_begin m =
     (let i = next_tx_id m;
          snapshot = (if 0 < next_commit_ts m then next_commit_ts m - 1 else 0);
          m1 = m\<lparr>next_tx_id := i + 1, active_transactions := hm_insert i snapshot (active_transactions m)\<rparr>
      in (MvccTransaction_new i snapshot, update_min_snapshot_ts m1))"

text \<open>
  \<open>commit\<close> takes the commit timestamp under one lock and commits under another; the two phases are
  separate definitions because other calls can run in between.
\<close>

definition take_commit_ts :: "MvccTransactionManager \<Rightarrow> nat \<times> MvccTransactionManager" where
  "take_commit_ts m = (next_commit_ts m, m\<lparr>next_commit_ts := next_commit_ts m + 1\<rparr>)"

definition finish_commit ::
  "MvccTransactionManager \<Rightarrow> MvccTransaction \<Rightarrow> nat \<Rightarrow>
   MvccTransactionManager \<times> MvccTransaction \<times> (BTreeError, unit) res" where
  "finish_commit m tx ts =
     (let (t, tx', r) = tx_commit (mgr_tree m) tx ts;
          m1 = update_min_snapshot_ts
                 (m\<lparr>mgr_tree := t, active_transactions := al_del (tx_id tx) (active_transactions m)\<rparr>);
          run_gc = gc_interval m1 \<le> gc_counter m1 + 1;
          m2 = m1\<lparr>gc_counter := (if run_gc then 0 else gc_counter m1 + 1)\<rparr>
      in (if run_gc then m2\<lparr>mgr_tree := fst (mt_gc_versions (mgr_tree m2))\<rparr> else m2, tx', r))"

definition mgr_commit ::
  "MvccTransactionManager \<Rightarrow> MvccTransaction \<Rightarrow> MvccTransactionManager \<times> MvccTransaction \<times> (BTreeError, unit) res" where
  "mgr_commit m tx = (let (ts, m1) = take_commit_ts m in finish_commit m1 tx ts)"

definition mgr_rollback ::
  "MvccTransactionManager \<Rightarrow> MvccTransaction \<Rightarrow> MvccTransactionManager \<times> MvccTransaction \<times> (BTreeError, unit) res" where
  "mgr_rollback m tx =
     (let (t, tx', r) = tx_rollback (mgr_tree m) tx
      in (update_min_snapshot_ts
            (m\<lparr>mgr_tree := t, active_transactions := al_del (tx_id tx) (active_transactions m)\<rparr>), tx', r))"

definition active_count :: "MvccTransactionManager \<Rightarrow> nat" where
  "active_count m = length (active_transactions m)"

definition mgr_gc :: "MvccTransactionManager \<Rightarrow> MvccTransactionManager \<times> (BTreeError, unit) res" where
  "mgr_gc m = (let (t, r) = mt_gc_versions (mgr_tree m) in (m\<lparr>mgr_tree := t\<rparr>, r))"

section \<open>Commits against a history\<close>

text \<open>
  The commit timestamps of the versions of a key that a history leaves, newest first. Deleting a key
  that was never written leaves nothing.
\<close>

fun touches :: "history \<Rightarrow> bytes \<Rightarrow> nat list" where
  "touches [] k = []"
| "touches ((c, ws) # hs) k =
     (case map_of ws k of
        None \<Rightarrow> touches hs k
      | Some None \<Rightarrow> (if touches hs k = [] then [] else c # touches hs k)
      | Some (Some v) \<Rightarrow> c # touches hs k)"

definition tracks :: "MvccLeafNode \<Rightarrow> history \<Rightarrow> bool" where
  "tracks n hs \<longleftrightarrow>
     (\<forall>k. (case map_of (ml_entries n) k of None \<Rightarrow> [] | Some ch \<Rightarrow> map commit_ts (versions ch)) = touches hs k)"

definition modified_since :: "history \<Rightarrow> nat \<Rightarrow> bytes \<Rightarrow> bool" where
  "modified_since hs ts k \<longleftrightarrow> (\<exists>c \<in> set (touches hs k). ts < c)"

lemma conflict_modified:
  assumes "leaf_ok c0 live n" "tracks n hs"
  shows "ml_has_conflict n k ts \<longleftrightarrow> modified_since hs ts k"
  using assms(2) unfolding conflict_iff [OF assms(1)] modified_since_def tracks_def
  by (cases "map_of (ml_entries n) k") (auto dest!: spec [of _ k] simp: eq_commute [of _ "touches hs k"])

lemma commit_writes_tracks:
  assumes "leaf_ok c0 live n" "distinct (map fst ws)" "tracks n hs"
  shows "tracks (ml_commit_versions c ts (apply_writes c ws n)) ((ts, ws) # hs)"
  unfolding tracks_def
proof
  fix k
  have "touches hs k = (case map_of (ml_entries n) k of None \<Rightarrow> [] | Some ch \<Rightarrow> map commit_ts (versions ch))"
    using assms(3) by (simp add: tracks_def)
  moreover have "versions ch \<noteq> []" if "map_of (ml_entries n) k = Some ch" for ch
    using assms(1) that by (simp add: leaf_ok_def)
  ultimately show "(case map_of (ml_entries (ml_commit_versions c ts (apply_writes c ws n))) k of
      None \<Rightarrow> [] | Some ch \<Rightarrow> map commit_ts (versions ch)) = touches ((ts, ws) # hs) k"
    unfolding commit_writes_map(2) [OF assms(1,2)] by (auto simp: pushed_def split: option.splits)
qed

definition tree_at :: "nat \<Rightarrow> nat set \<Rightarrow> MvccBPlusTree \<Rightarrow> history \<Rightarrow> bool" where
  "tree_at c live t hs \<longleftrightarrow>
     leaf_ok c live (mt_root t) \<and> implements (mt_root t) hs \<and> tracks (mt_root t) hs \<and>
     (\<forall>(c', ws) \<in> set hs. c' \<le> c)"

lemma tree_conflict:
  "tree_at c live t hs \<Longrightarrow> ml_has_conflict (mt_root t) k snapshot \<longleftrightarrow> modified_since hs snapshot k"
  unfolding tree_at_def by (blast intro: conflict_modified [THEN iffD1] conflict_modified [THEN iffD2])

lemma atomic_commit_conflict:
  assumes "tree_at c live t hs" "i \<in> live" "k \<in> fst ` set ws" "modified_since hs snapshot k"
  shows "\<exists>k' \<in> fst ` set ws. atomic_commit t ws snapshot i ts = (t, Err (conflict_error k'))"
proof -
  note conflict = tree_conflict [OF assms(1)]
  obtain w where w: "find (\<lambda>w. modified_since hs snapshot (fst w)) ws = Some w"
    using assms(3,4) by (cases "find (\<lambda>w. modified_since hs snapshot (fst w)) ws") (auto simp: find_None_iff)
  then have "w \<in> set ws" by (auto simp: find_Some_iff)
  moreover have "ml_rollback_versions i (mt_root t) = mt_root t"
    using assms(1,2) rollback_untouched by (auto simp: tree_at_def)
  ultimately show ?thesis using w by (auto simp: atomic_commit_def conflict)
qed

lemma atomic_commit_ok:
  assumes "tree_at c live t hs" "distinct (map fst ws)" "c < ts" "i \<notin> live'" "live' \<subseteq> live"
    and "\<And>k. k \<in> fst ` set ws \<Longrightarrow> \<not> modified_since hs snapshot k"
  shows "\<exists>t'. atomic_commit t ws snapshot i ts = (t', Ok ()) \<and> tree_at ts live' t' ((ts, ws) # hs) \<and>
    mt_config t' = mt_config t \<and> mt_min_snapshot_ts t' = mt_min_snapshot_ts t"
proof -
  have "find (\<lambda>w. ml_has_conflict (mt_root t) (fst w) snapshot) ws = None"
    using assms(6) by (force simp: find_None_iff tree_conflict [OF assms(1)])
  with assms(1-5) show ?thesis
    by (fastforce simp: atomic_commit_def tree_at_def
        intro: commit_writes_ok commit_writes_implements commit_writes_tracks)
qed

lemma ksorted_eqI:
  assumes "ksorted xs" "ksorted ys" "map_of xs = map_of ys"
  shows "xs = ys"
proof (rule map_sorted_distinct_set_unique)
  show "set xs = set ys" using assms by (auto simp: ksorted_map_of [symmetric])
  then show "inj_on fst (set xs \<union> set ys)" using assms(2) by (simp add: strict_sorted_iff distinct_map)
qed (use assms in \<open>auto simp: strict_sorted_iff\<close>)

lemma apply_writes_entries: "\<exists>es. apply_writes c ws n = n\<lparr>ml_entries := es\<rparr>"
proof (induction ws arbitrary: n)
  case Nil
  show ?case by (rule exI [of _ "ml_entries n"]) (simp add: apply_writes_def)
next
  case (Cons w ws)
  have "\<exists>es. apply_write c w n = n\<lparr>ml_entries := es\<rparr>"
    by (cases w; cases "snd w")
       (auto simp: ml_insert_def ml_remove_def split: sum.splits prod.splits intro: exI [of _ "ml_entries n"])
  with Cons.IH [of "apply_write c w n"] show ?case by (auto simp: apply_writes_def)
qed

text \<open>The order in which the write buffer is drained does not matter.\<close>

lemma commit_writes_order:
  assumes "leaf_ok c live n" "distinct (map fst ws)" "distinct (map fst ws')" "set ws' = set ws"
  shows "ml_commit_versions i ts (apply_writes i ws' n) = ml_commit_versions i ts (apply_writes i ws n)"
proof -
  have "map_of ws' = map_of ws" using assms(2-4) by (simp add: map_of_inject_set)
  then have "ml_entries (ml_commit_versions i ts (apply_writes i ws' n)) =
      ml_entries (ml_commit_versions i ts (apply_writes i ws n))"
    by (intro ksorted_eqI ext)
       (simp_all add: commit_writes_map [OF assms(1,3)] commit_writes_map [OF assms(1,2)])
  then show ?thesis
    using apply_writes_entries [of i ws n] apply_writes_entries [of i ws' n]
    by (auto simp: ml_commit_versions_def)
qed

lemma atomic_commit_order:
  assumes "leaf_ok c live (mt_root t)" "distinct (map fst ws)" "distinct (map fst ws')" "set ws' = set ws"
  shows "fst (atomic_commit t ws' snapshot i ts) = fst (atomic_commit t ws snapshot i ts)"
    and "snd (atomic_commit t ws' snapshot i ts) = Ok () \<longleftrightarrow> snd (atomic_commit t ws snapshot i ts) = Ok ()"
proof -
  let ?c = "\<lambda>w. ml_has_conflict (mt_root t) (fst w) snapshot"
  have "find ?c ws' = None \<longleftrightarrow> find ?c ws = None" by (simp add: find_None_iff assms(4))
  then show "fst (atomic_commit t ws' snapshot i ts) = fst (atomic_commit t ws snapshot i ts)"
    and "snd (atomic_commit t ws' snapshot i ts) = Ok () \<longleftrightarrow> snd (atomic_commit t ws snapshot i ts) = Ok ()"
    by (cases "find ?c ws'"; cases "find ?c ws"; simp add: atomic_commit_def commit_writes_order [OF assms])+
qed

section \<open>The manager and its clients\<close>

text \<open>
  The clients hold the transactions the manager returned. Every call of the manager is one step; the
  steps are those of the source between two runs of the garbage collector.
\<close>

record mvcc_system =
  sys_mgr :: MvccTransactionManager
  sys_txs :: "nat \<Rightarrow> MvccTransaction option"

definition mvcc_system_new :: "MvccTreeConfig \<Rightarrow> mvcc_system" where
  "mvcc_system_new cfg =
     \<lparr>sys_mgr = MvccTransactionManager_new (MvccBPlusTree_new cfg), sys_txs = (\<lambda>_. None)\<rparr>"

inductive mvcc_step :: "mvcc_system \<Rightarrow> mvcc_system \<Rightarrow> bool" where
  step_begin: "mgr_begin (sys_mgr s) = (tx, m) \<Longrightarrow>
    mvcc_step s \<lparr>sys_mgr = m, sys_txs = (sys_txs s)(tx_id tx \<mapsto> tx)\<rparr>"
| step_put: "sys_txs s i = Some tx \<Longrightarrow> tx_put tx k v = (tx', r) \<Longrightarrow>
    mvcc_step s (s\<lparr>sys_txs := (sys_txs s)(i \<mapsto> tx')\<rparr>)"
| step_delete: "sys_txs s i = Some tx \<Longrightarrow> tx_delete tx k = (tx', r) \<Longrightarrow>
    mvcc_step s (s\<lparr>sys_txs := (sys_txs s)(i \<mapsto> tx')\<rparr>)"
| step_commit: "sys_txs s i = Some tx \<Longrightarrow> gc_counter (sys_mgr s) + 1 < gc_interval (sys_mgr s) \<Longrightarrow>
    mgr_commit (sys_mgr s) tx = (m, tx', r) \<Longrightarrow>
    mvcc_step s \<lparr>sys_mgr = m, sys_txs = (sys_txs s)(i \<mapsto> tx')\<rparr>"
| step_rollback: "sys_txs s i = Some tx \<Longrightarrow> mgr_rollback (sys_mgr s) tx = (m, tx', r) \<Longrightarrow>
    mvcc_step s \<lparr>sys_mgr = m, sys_txs = (sys_txs s)(i \<mapsto> tx')\<rparr>"

definition live :: "mvcc_system \<Rightarrow> nat set" where
  "live s = {i. next_tx_id (sys_mgr s) \<le> i \<or> (\<exists>tx. sys_txs s i = Some tx \<and> tx_active tx)}"

definition buffer_ok :: "(bytes \<times> WriteOp) list \<Rightarrow> bool" where
  "buffer_ok buf \<longleftrightarrow> distinct (map fst buf) \<and> (\<forall>e \<in> set buf. op_key (snd e) = fst e)"

definition tx_ok :: "MvccTransactionManager \<Rightarrow> nat \<Rightarrow> MvccTransaction \<Rightarrow> bool" where
  "tx_ok m i tx \<longleftrightarrow>
     tx_id tx = i \<and> i < next_tx_id m \<and> snapshot_ts tx < next_commit_ts m \<and> buffer_ok (write_buffer tx)"

text \<open>The table of active transactions, and the horizon of the garbage collector below them.\<close>

definition table_ok :: "mvcc_system \<Rightarrow> bool" where
  "table_ok s \<longleftrightarrow>
     (\<forall>i. map_of (active_transactions (sys_mgr s)) i =
        (case sys_txs s i of Some tx \<Rightarrow> if tx_active tx then Some (snapshot_ts tx) else None | None \<Rightarrow> None)) \<and>
     (\<forall>i tx. sys_txs s i = Some tx \<and> tx_active tx \<longrightarrow>
        mt_min_snapshot_ts (mgr_tree (sys_mgr s)) \<le> snapshot_ts tx)"

definition sys_ok :: "mvcc_system \<Rightarrow> history \<Rightarrow> bool" where
  "sys_ok s hs \<longleftrightarrow>
     0 < next_commit_ts (sys_mgr s) \<and>
     tree_at (next_commit_ts (sys_mgr s) - 1) (live s) (mgr_tree (sys_mgr s)) hs \<and>
     (\<forall>i tx. sys_txs s i = Some tx \<longrightarrow> tx_ok (sys_mgr s) i tx) \<and> table_ok s"

lemma buffer_ok_insert: "buffer_ok buf \<Longrightarrow> op_key op = k \<Longrightarrow> buffer_ok (hm_insert k op buf)"
proof (induction buf)
  case (Cons e buf)
  have "fst e \<notin> fst ` set (hm_insert k op buf)" if "fst e \<noteq> k"
    using Cons.prems that by (auto simp: hm_insert_keys buffer_ok_def)
  with Cons show ?case by (cases "fst e = k") (force simp: buffer_ok_def)+
qed (simp add: buffer_ok_def)

lemma tx_writes_keys: "buffer_ok (write_buffer tx) \<Longrightarrow> map fst (tx_writes tx) = map fst (write_buffer tx)"
  by (auto simp: tx_writes_def buffer_ok_def)

lemma buffer_map_of:
  "buffer_ok buf \<Longrightarrow> map_of (map (\<lambda>(_, op). (op_key op, op_value op)) buf) k = map_option op_value (map_of buf k)"
  by (induction buf) (auto simp: buffer_ok_def)

lemma tx_writes_map_of:
  "buffer_ok (write_buffer tx) \<Longrightarrow> map_of (tx_writes tx) k = map_option op_value (map_of (write_buffer tx) k)"
  by (simp add: tx_writes_def buffer_map_of)

lemma tree_at_mono: "tree_at c l t hs \<Longrightarrow> c \<le> c' \<Longrightarrow> l' \<subseteq> l \<Longrightarrow> mt_root t' = mt_root t \<Longrightarrow> tree_at c' l' t' hs"
  by (fastforce simp: tree_at_def leaf_ok_def chain_ok_def)

lemma db_at_extend: "ts < c \<Longrightarrow> db_at ((c, ws) # hs) ts k = db_at hs ts k"
  by simp

lemma sys_ok_new: "sys_ok (mvcc_system_new cfg) []"
  by (simp add: sys_ok_def mvcc_system_new_def MvccTransactionManager_new_def MvccBPlusTree_new_def tree_at_def
      leaf_ok_def MvccLeafNode_new_def implements_def ml_get_map tracks_def table_ok_def)

text \<open>Recomputing the horizon.\<close>

lemma update_min_simps [simp]:
  "next_tx_id (update_min_snapshot_ts m) = next_tx_id m"
  "next_commit_ts (update_min_snapshot_ts m) = next_commit_ts m"
  "active_transactions (update_min_snapshot_ts m) = active_transactions m"
  "gc_counter (update_min_snapshot_ts m) = gc_counter m"
  "gc_interval (update_min_snapshot_ts m) = gc_interval m"
  "mt_root (mgr_tree (update_min_snapshot_ts m)) = mt_root (mgr_tree m)"
  by (simp_all add: update_min_snapshot_ts_def mt_update_min_snapshot_ts_def Let_def)

lemma update_min_horizon:
  assumes "map_of (active_transactions m) i = Some ts"
  shows "mt_min_snapshot_ts (mgr_tree (update_min_snapshot_ts m)) \<le> ts"
proof -
  have "ts \<in> set (map snd (active_transactions m))" using map_of_SomeD [OF assms] by force
  then show ?thesis
    by (auto simp: update_min_snapshot_ts_def mt_update_min_snapshot_ts_def Let_def simp del: set_map intro: Min_le)
qed

text \<open>A step that ends a transaction, and one that only touches its write buffer.\<close>

lemma end_tx_ok:
  assumes s: "sys_ok s hs" "sys_txs s i = Some tx"
    and tx': "tx_id tx' = tx_id tx" "snapshot_ts tx' = snapshot_ts tx" "buffer_ok (write_buffer tx')" "\<not> tx_active tx'"
    and m: "next_tx_id m = next_tx_id (sys_mgr s)" "next_commit_ts (sys_mgr s) \<le> next_commit_ts m"
      "active_transactions m = al_del i (active_transactions (sys_mgr s))"
      "\<And>j ts. map_of (active_transactions m) j = Some ts \<Longrightarrow> mt_min_snapshot_ts (mgr_tree m) \<le> ts"
      "tree_at (next_commit_ts m - 1) (live s - {i}) (mgr_tree m) hs'"
  shows "sys_ok \<lparr>sys_mgr = m, sys_txs = (sys_txs s)(i \<mapsto> tx')\<rparr> hs'" (is "sys_ok ?s _")
  unfolding sys_ok_def
proof (intro conjI)
  show "0 < next_commit_ts (sys_mgr ?s)" using s(1) m(2) by (auto simp: sys_ok_def)
  have txs: "tx_ok (sys_mgr s) j t" if "sys_txs s j = Some t" for j t using s(1) that by (simp add: sys_ok_def)
  have "live ?s \<subseteq> live s - {i}" using txs [OF s(2)] tx'(4) m(1) by (auto simp: live_def tx_ok_def)
  then show "tree_at (next_commit_ts (sys_mgr ?s) - 1) (live ?s) (mgr_tree (sys_mgr ?s)) hs'"
    using m(5) by (auto intro: tree_at_mono)
  have "tx_ok m j t" if "sys_txs s j = Some t" for j t using txs [OF that] m(1,2) by (auto simp: tx_ok_def)
  then show "\<forall>j t. sys_txs ?s j = Some t \<longrightarrow> tx_ok (sys_mgr ?s) j t"
    using txs [OF s(2)] tx' m(1,2) by (auto simp: tx_ok_def)
  have table: "map_of (active_transactions (sys_mgr s)) j =
      (case sys_txs s j of Some tx \<Rightarrow> if tx_active tx then Some (snapshot_ts tx) else None | None \<Rightarrow> None)" for j
    using s(1) by (simp add: sys_ok_def table_ok_def)
  have "mt_min_snapshot_ts (mgr_tree m) \<le> snapshot_ts t"
    if "j \<noteq> i" "sys_txs s j = Some t" "tx_active t" for j t
    using that m(4) [of j] by (simp add: m(3) table)
  then show "table_ok ?s" using tx'(4) by (auto simp: table_ok_def m(3) table)
qed

lemma buffer_step_ok:
  assumes "sys_ok s hs" "sys_txs s i = Some tx"
    and "tx_id tx' = tx_id tx" "snapshot_ts tx' = snapshot_ts tx" "buffer_ok (write_buffer tx')"
      "tx_active tx' = tx_active tx"
  shows "sys_ok (s\<lparr>sys_txs := (sys_txs s)(i \<mapsto> tx')\<rparr>) hs"
proof -
  have "live (s\<lparr>sys_txs := (sys_txs s)(i \<mapsto> tx')\<rparr>) = live s" using assms(2,6) by (auto simp: live_def)
  moreover have "table_ok (s\<lparr>sys_txs := (sys_txs s)(i \<mapsto> tx')\<rparr>)"
    using assms by (auto simp: sys_ok_def table_ok_def)
  ultimately show ?thesis using assms by (auto simp: sys_ok_def tx_ok_def)
qed

lemma buffer_write_ok:
  assumes "sys_ok s hs" "sys_txs s i = Some tx"
  shows "sys_ok (s\<lparr>sys_txs := (sys_txs s)(i \<mapsto> fst (tx_put tx k v))\<rparr>) hs"
    and "sys_ok (s\<lparr>sys_txs := (sys_txs s)(i \<mapsto> fst (tx_delete tx k))\<rparr>) hs"
proof -
  have "buffer_ok (write_buffer tx)" using assms by (auto simp: sys_ok_def tx_ok_def)
  then show "sys_ok (s\<lparr>sys_txs := (sys_txs s)(i \<mapsto> fst (tx_put tx k v))\<rparr>) hs"
    "sys_ok (s\<lparr>sys_txs := (sys_txs s)(i \<mapsto> fst (tx_delete tx k))\<rparr>) hs"
    by (intro buffer_step_ok [OF assms]; simp add: tx_put_def tx_delete_def buffer_ok_insert)+
qed

lemma begin_ok:
  assumes "sys_ok s hs" "mgr_begin (sys_mgr s) = (tx, m)"
  shows "sys_ok \<lparr>sys_mgr = m, sys_txs = (sys_txs s)(tx_id tx \<mapsto> tx)\<rparr> hs" (is "sys_ok ?s _")
    and "tx_id tx = next_tx_id (sys_mgr s)" "next_commit_ts m = next_commit_ts (sys_mgr s)"
proof -
  let ?m = "sys_mgr s"
  have tx: "tx = MvccTransaction_new (next_tx_id ?m) (next_commit_ts ?m - 1)"
    and m: "m = update_min_snapshot_ts (?m\<lparr>next_tx_id := next_tx_id ?m + 1, active_transactions :=
      hm_insert (next_tx_id ?m) (next_commit_ts ?m - 1) (active_transactions ?m)\<rparr>)"
    using assms by (auto simp: mgr_begin_def Let_def sys_ok_def)
  show "tx_id tx = next_tx_id ?m" and ts: "next_commit_ts m = next_commit_ts ?m"
    by (auto simp: tx m MvccTransaction_new_def)
  have txs: "tx_ok ?m j t" if "sys_txs s j = Some t" for j t using assms(1) that by (simp add: sys_ok_def)
  have fresh: "sys_txs s (next_tx_id ?m) = None" using txs [of "next_tx_id ?m"]
    by (cases "sys_txs s (next_tx_id ?m)") (auto simp: tx_ok_def)
  have "live ?s \<subseteq> live s" by (auto simp: live_def tx m MvccTransaction_new_def)
  then have "tree_at (next_commit_ts ?m - 1) (live ?s) (mgr_tree m) hs"
    using assms(1) by (auto simp: sys_ok_def m intro: tree_at_mono)
  moreover have table: "map_of (active_transactions m) j =
      (case sys_txs ?s j of Some tx \<Rightarrow> if tx_active tx then Some (snapshot_ts tx) else None | None \<Rightarrow> None)" for j
    using assms(1) by (auto simp: m tx MvccTransaction_new_def sys_ok_def table_ok_def)
  moreover have "mt_min_snapshot_ts (mgr_tree m) \<le> snapshot_ts t" if "sys_txs ?s j = Some t" "tx_active t" for j t
    unfolding m by (rule update_min_horizon [of _ j]) (use table [of j] that in \<open>simp add: m\<close>)
  moreover have "tx_ok m j t" if "sys_txs ?s j = Some t" for j t
    using that txs assms(1)
    by (fastforce simp: tx m MvccTransaction_new_def tx_ok_def buffer_ok_def sys_ok_def split: if_splits)
  ultimately show "sys_ok ?s hs" using assms(1) ts by (auto simp: sys_ok_def table_ok_def simp del: fun_upd_apply)
qed

lemma rollback_ok:
  assumes "sys_ok s hs" "sys_txs s i = Some tx" "mgr_rollback (sys_mgr s) tx = (m, tx', r)"
  shows "sys_ok \<lparr>sys_mgr = m, sys_txs = (sys_txs s)(i \<mapsto> tx')\<rparr> hs"
    and "next_commit_ts m = next_commit_ts (sys_mgr s)" "snapshot_ts tx' = snapshot_ts tx" "\<not> tx_active tx'"
proof -
  let ?m = "sys_mgr s"
  have tx: "tx_ok ?m i tx" using assms(1,2) by (simp add: sys_ok_def)
  have tree: "tree_at (next_commit_ts ?m - 1) (live s) (mgr_tree ?m) hs" using assms(1) by (simp add: sys_ok_def)
  have "ml_rollback_versions i (mt_root (mgr_tree ?m)) = mt_root (mgr_tree ?m)" if "tx_active tx"
    using tree assms(2) that by (auto simp: tree_at_def live_def intro!: rollback_untouched)
  then have m: "m = update_min_snapshot_ts (?m\<lparr>active_transactions := al_del i (active_transactions ?m)\<rparr>)"
    and tx': "tx' = (if tx_active tx then tx\<lparr>write_buffer := [], tx_active := False\<rparr> else tx)"
    using assms(3) tx by (auto simp: mgr_rollback_def tx_rollback_def tx_ok_def split: if_splits)
  show "next_commit_ts m = next_commit_ts ?m" "snapshot_ts tx' = snapshot_ts tx" "\<not> tx_active tx'"
    by (auto simp: m tx')
  show "sys_ok \<lparr>sys_mgr = m, sys_txs = (sys_txs s)(i \<mapsto> tx')\<rparr> hs"
  proof (rule end_tx_ok [OF assms(1,2)])
    show "buffer_ok (write_buffer tx')" using tx by (simp add: tx' tx_ok_def buffer_ok_def)
    show "tree_at (next_commit_ts m - 1) (live s - {i}) (mgr_tree m) hs"
      using tree by (auto simp: m intro: tree_at_mono)
    show "mt_min_snapshot_ts (mgr_tree m) \<le> ts" if "map_of (active_transactions m) j = Some ts" for j ts
      unfolding m by (rule update_min_horizon [of _ j]) (use that in \<open>simp add: m\<close>)
  qed (auto simp: m tx')
qed

text \<open>A commit before the next garbage collection, and what it leaves in the history.\<close>

definition committed :: "history \<Rightarrow> nat \<Rightarrow> MvccTransaction \<Rightarrow> history" where
  "committed hs ts tx =
     (if tx_active tx \<and> (\<forall>k \<in> fst ` set (write_buffer tx). \<not> modified_since hs (snapshot_ts tx) k)
      then (ts, tx_writes tx) # hs else hs)"

definition commit_outcome :: "history \<Rightarrow> MvccTransaction \<Rightarrow> (BTreeError, unit) res \<Rightarrow> bool" where
  "commit_outcome hs tx r \<longleftrightarrow>
     (if \<not> tx_active tx then r = Inl not_active
      else if \<forall>k \<in> fst ` set (write_buffer tx). \<not> modified_since hs (snapshot_ts tx) k then r = Ok ()
      else \<exists>k \<in> fst ` set (write_buffer tx). r = Err (conflict_error k))"

lemma tx_commit_ok:
  assumes "tree_at c l t hs" "c < ts" "buffer_ok (write_buffer tx)" "tx_active tx \<Longrightarrow> tx_id tx \<in> l"
  shows "\<exists>t' r. tx_commit t tx ts = (t', tx\<lparr>tx_active := False\<rparr>, r) \<and> commit_outcome hs tx r \<and>
    tree_at ts (l - {tx_id tx}) t' (committed hs ts tx)"
proof (cases "tx_active tx")
  case False
  then have "tx\<lparr>tx_active := False\<rparr> = tx" by simp
  with False assms(1,2) show ?thesis
    by (auto simp: tx_commit_def commit_outcome_def committed_def intro: tree_at_mono)
next
  case True
  have keys: "fst ` set (tx_writes tx) = fst ` set (write_buffer tx)" "distinct (map fst (tx_writes tx))"
    using tx_writes_keys [OF assms(3)] assms(3) by (auto simp: buffer_ok_def simp flip: set_map)
  show ?thesis
  proof (cases "\<forall>k \<in> fst ` set (write_buffer tx). \<not> modified_since hs (snapshot_ts tx) k")
    case free: True
    have "\<exists>t'. atomic_commit t (tx_writes tx) (snapshot_ts tx) (tx_id tx) ts = (t', Ok ()) \<and>
        tree_at ts (l - {tx_id tx}) t' ((ts, tx_writes tx) # hs) \<and>
        mt_config t' = mt_config t \<and> mt_min_snapshot_ts t' = mt_min_snapshot_ts t"
      using assms(1) keys(2) assms(2) by (rule atomic_commit_ok) (use free keys(1) in auto)
    with True free show ?thesis by (auto simp: tx_commit_def commit_outcome_def committed_def)
  next
    case False
    then obtain k where "k \<in> fst ` set (tx_writes tx)" "modified_since hs (snapshot_ts tx) k" by (auto simp: keys)
    from atomic_commit_conflict [OF assms(1) assms(4) [OF True] this]
    obtain k' where "k' \<in> fst ` set (write_buffer tx)"
      "atomic_commit t (tx_writes tx) (snapshot_ts tx) (tx_id tx) ts = (t, Err (conflict_error k'))"
      unfolding keys by blast
    moreover have "tree_at ts (l - {tx_id tx}) t hs" using assms(1,2) by (auto intro: tree_at_mono)
    ultimately show ?thesis using True False by (auto simp: tx_commit_def commit_outcome_def committed_def)
  qed
qed

lemma commit_ok:
  assumes "sys_ok s hs" "sys_txs s i = Some tx" "gc_counter (sys_mgr s) + 1 < gc_interval (sys_mgr s)"
    and "mgr_commit (sys_mgr s) tx = (m, tx', r)"
  shows "sys_ok \<lparr>sys_mgr = m, sys_txs = (sys_txs s)(i \<mapsto> tx')\<rparr> (committed hs (next_commit_ts (sys_mgr s)) tx)"
    and "next_commit_ts m = next_commit_ts (sys_mgr s) + 1" "snapshot_ts tx' = snapshot_ts tx" "\<not> tx_active tx'"
    and "commit_outcome hs tx r"
proof -
  let ?m = "sys_mgr s" let ?ts = "next_commit_ts (sys_mgr s)"
  have tx: "tx_ok ?m i tx" using assms(1,2) by (simp add: sys_ok_def)
  have "tree_at (?ts - 1) (live s) (mgr_tree ?m) hs" "?ts - 1 < ?ts" using assms(1) by (auto simp: sys_ok_def)
  from tx_commit_ok [OF this, of tx] obtain t r' where t: "tx_commit (mgr_tree ?m) tx ?ts = (t, tx\<lparr>tx_active := False\<rparr>, r')"
      "commit_outcome hs tx r'" "tree_at ?ts (live s - {i}) t (committed hs ?ts tx)"
    using tx assms(2) by (auto simp: tx_ok_def live_def)
  let ?m1 = "update_min_snapshot_ts (?m\<lparr>next_commit_ts := ?ts + 1, mgr_tree := t,
    active_transactions := al_del i (active_transactions ?m)\<rparr>)"
  have m: "m = ?m1\<lparr>gc_counter := gc_counter ?m + 1\<rparr>" and tx': "tx' = tx\<lparr>tx_active := False\<rparr>" and r: "r = r'"
    using assms(3,4) t(1) tx by (auto simp: mgr_commit_def take_commit_ts_def finish_commit_def Let_def tx_ok_def)
  show "next_commit_ts m = ?ts + 1" "snapshot_ts tx' = snapshot_ts tx" "\<not> tx_active tx'" "commit_outcome hs tx r"
    using t(2) by (auto simp: m tx' r)
  show "sys_ok \<lparr>sys_mgr = m, sys_txs = (sys_txs s)(i \<mapsto> tx')\<rparr> (committed hs ?ts tx)"
  proof (rule end_tx_ok [OF assms(1,2)])
    show "tree_at (next_commit_ts m - 1) (live s - {i}) (mgr_tree m) (committed hs ?ts tx)"
      using t(3) by (auto simp: m intro: tree_at_mono)
    show "mt_min_snapshot_ts (mgr_tree m) \<le> ts" if "map_of (active_transactions m) j = Some ts" for j ts
      using update_min_horizon [of _ j] that by (simp add: m)
  qed (use tx in \<open>auto simp: m tx' tx_ok_def\<close>)
qed

section \<open>Snapshot isolation\<close>

text \<open>What one step may change: later commits only, and a transaction keeps its snapshot.\<close>

definition keeps_past :: "mvcc_system \<Rightarrow> history \<Rightarrow> mvcc_system \<Rightarrow> history \<Rightarrow> bool" where
  "keeps_past s hs s' hs' \<longleftrightarrow>
     next_commit_ts (sys_mgr s) \<le> next_commit_ts (sys_mgr s') \<and>
     (\<forall>ts k. ts < next_commit_ts (sys_mgr s) \<longrightarrow> db_at hs' ts k = db_at hs ts k) \<and>
     (\<forall>i tx. sys_txs s i = Some tx \<longrightarrow>
        (\<exists>tx'. sys_txs s' i = Some tx' \<and> snapshot_ts tx' = snapshot_ts tx \<and> (tx_active tx' \<longrightarrow> tx_active tx)))"

lemma keeps_past_trans: "keeps_past s hs s' hs' \<Longrightarrow> keeps_past s' hs' s'' hs'' \<Longrightarrow> keeps_past s hs s'' hs''"
  by (fastforce simp: keeps_past_def)

lemma mvcc_step_ok:
  assumes "mvcc_step s s'" "sys_ok s hs"
  shows "\<exists>hs'. sys_ok s' hs' \<and> keeps_past s hs s' hs'"
  using assms
proof (cases rule: mvcc_step.cases)
  case (step_begin tx m)
  have "sys_txs s (tx_id tx) = None"
    using begin_ok(2) [OF assms(2) step_begin(2)] assms(2)
    by (cases "sys_txs s (tx_id tx)") (auto simp: sys_ok_def tx_ok_def)
  then show ?thesis
    using begin_ok [OF assms(2) step_begin(2)] by (intro exI [of _ hs]) (auto simp: keeps_past_def step_begin)
next
  case (step_put i tx k v tx' r)
  then show ?thesis
    using buffer_write_ok(1) [OF assms(2) step_put(2), of k v]
    by (intro exI [of _ hs]) (auto simp: keeps_past_def tx_put_def split: if_splits)
next
  case (step_delete i tx k tx' r)
  then show ?thesis
    using buffer_write_ok(2) [OF assms(2) step_delete(2), of k]
    by (intro exI [of _ hs]) (auto simp: keeps_past_def tx_delete_def split: if_splits)
next
  case (step_commit i tx m tx' r)
  show ?thesis
    using commit_ok [OF assms(2) step_commit(2-4)] step_commit(2)
    by (intro exI [of _ "committed hs (next_commit_ts (sys_mgr s)) tx"])
       (auto simp: keeps_past_def step_commit(1) committed_def)
next
  case (step_rollback i tx m tx' r)
  show ?thesis
    using rollback_ok [OF assms(2) step_rollback(2,3)] step_rollback(2)
    by (intro exI [of _ hs]) (auto simp: keeps_past_def step_rollback(1))
qed

lemma mvcc_steps_ok:
  assumes "mvcc_step\<^sup>*\<^sup>* s s'" "sys_ok s hs"
  shows "\<exists>hs'. sys_ok s' hs' \<and> keeps_past s hs s' hs'"
  using assms(1)
proof (induction rule: rtranclp_induct)
  case base
  show ?case using assms(2) by (auto simp: keeps_past_def)
next
  case (step s' s'')
  then show ?case using mvcc_step_ok keeps_past_trans by blast
qed

lemma tx_get_history:
  assumes "sys_ok s hs" "tx_active tx"
  shows "tx_get (mgr_tree (sys_mgr s)) tx k =
    Ok (case map_of (write_buffer tx) k of Some op \<Rightarrow> op_value op | None \<Rightarrow> db_at hs (snapshot_ts tx) k)"
  using assms by (auto simp: tx_get_def mt_get_def sys_ok_def tree_at_def implements_def split: option.split)

text \<open>Sequences of calls as a program that can be run.\<close>

datatype mvcc_call = CBegin | CPut nat bytes bytes | CDelete nat bytes | CCommit nat | CRollback nat

fun mvcc_do :: "mvcc_call \<Rightarrow> mvcc_system \<Rightarrow> mvcc_system" where
  "mvcc_do CBegin s =
     (let (tx, m) = mgr_begin (sys_mgr s) in \<lparr>sys_mgr = m, sys_txs = (sys_txs s)(tx_id tx \<mapsto> tx)\<rparr>)"
| "mvcc_do (CPut i k v) s =
     (case sys_txs s i of None \<Rightarrow> s
      | Some tx \<Rightarrow> s\<lparr>sys_txs := (sys_txs s)(i \<mapsto> fst (tx_put tx k v))\<rparr>)"
| "mvcc_do (CDelete i k) s =
     (case sys_txs s i of None \<Rightarrow> s
      | Some tx \<Rightarrow> s\<lparr>sys_txs := (sys_txs s)(i \<mapsto> fst (tx_delete tx k))\<rparr>)"
| "mvcc_do (CCommit i) s =
     (case sys_txs s i of None \<Rightarrow> s
      | Some tx \<Rightarrow> let (m, tx', r) = mgr_commit (sys_mgr s) tx
                   in \<lparr>sys_mgr = m, sys_txs = (sys_txs s)(i \<mapsto> tx')\<rparr>)"
| "mvcc_do (CRollback i) s =
     (case sys_txs s i of None \<Rightarrow> s
      | Some tx \<Rightarrow> let (m, tx', r) = mgr_rollback (sys_mgr s) tx
                   in \<lparr>sys_mgr = m, sys_txs = (sys_txs s)(i \<mapsto> tx')\<rparr>)"

definition mvcc_exec :: "mvcc_call list \<Rightarrow> mvcc_system \<Rightarrow> mvcc_system" where
  "mvcc_exec cs s = fold mvcc_do cs s"

lemma mvcc_do_step:
  assumes "gc_counter (sys_mgr s) + 1 < gc_interval (sys_mgr s)"
  shows "mvcc_step\<^sup>*\<^sup>* s (mvcc_do c s)"
proof (cases c)
  case CBegin
  then show ?thesis by (auto intro!: r_into_rtranclp step_begin split: prod.split)
next
  case (CPut i k v)
  then show ?thesis
    by (cases "sys_txs s i") (auto intro!: r_into_rtranclp step_put [OF _ prod.collapse [symmetric]])
next
  case (CDelete i k)
  then show ?thesis
    by (cases "sys_txs s i") (auto intro!: r_into_rtranclp step_delete [OF _ prod.collapse [symmetric]])
next
  case (CCommit i)
  then show ?thesis
    using assms by (cases "sys_txs s i") (auto intro!: r_into_rtranclp step_commit split: prod.split)
next
  case (CRollback i)
  then show ?thesis
    by (cases "sys_txs s i") (auto intro!: r_into_rtranclp step_rollback split: prod.split)
qed

lemma mvcc_do_gc:
  assumes "gc_counter (sys_mgr s) + 1 < gc_interval (sys_mgr s)"
  shows "gc_counter (sys_mgr (mvcc_do c s)) \<le> gc_counter (sys_mgr s) + 1"
    and "gc_interval (sys_mgr (mvcc_do c s)) = gc_interval (sys_mgr s)"
  using assms
  by (cases c; auto simp: mgr_begin_def mgr_commit_def take_commit_ts_def finish_commit_def mgr_rollback_def Let_def
      split: option.split prod.split)+

lemma mvcc_exec_steps:
  "gc_counter (sys_mgr s) + length cs < gc_interval (sys_mgr s) \<Longrightarrow> mvcc_step\<^sup>*\<^sup>* s (mvcc_exec cs s)"
proof (induction cs arbitrary: s)
  case (Cons c cs)
  have c: "gc_counter (sys_mgr s) + 1 < gc_interval (sys_mgr s)" using Cons.prems by (cases cs) auto
  from mvcc_do_step [OF c] have "mvcc_step\<^sup>*\<^sup>* s (mvcc_do c s)" .
  also have "mvcc_step\<^sup>*\<^sup>* (mvcc_do c s) (mvcc_exec cs (mvcc_do c s))"
    by (rule Cons.IH) (use mvcc_do_gc [OF c, of c] Cons.prems in simp)
  finally show ?case by (simp add: mvcc_exec_def)
qed (simp add: mvcc_exec_def)

text \<open>
  C4: Snapshot isolation between garbage collections. Let a transaction be open in a state the manager
  reaches by whole calls, each one step, before its first garbage collection (the manager collects at
  every hundredth commit), and still open after any further such calls by any clients: begins,
  writes, deletes, commits, rollbacks. Then reading a key the transaction has not written gives the
  same answer before and after. Both conditions are needed: a collection can drop the version the
  reader needs, and a commit whose two phases are interleaved with a begin can show up in an open
  snapshot.
\<close>

theorem snapshot_isolation:
  assumes "mvcc_step\<^sup>*\<^sup>* (mvcc_system_new cfg) s" "mvcc_step\<^sup>*\<^sup>* s s'"
    and "sys_txs s i = Some tx" "sys_txs s' i = Some tx'" "tx_active tx'"
    and "map_of (write_buffer tx) k = None" "map_of (write_buffer tx') k = None"
  shows "tx_get (mgr_tree (sys_mgr s')) tx' k = tx_get (mgr_tree (sys_mgr s)) tx k"
proof -
  obtain hs where hs: "sys_ok s hs" using mvcc_steps_ok [OF assms(1) sys_ok_new] by blast
  from mvcc_steps_ok [OF assms(2) hs] obtain hs' where hs': "sys_ok s' hs'" "keeps_past s hs s' hs'" by blast
  have "snapshot_ts tx < next_commit_ts (sys_mgr s)" using hs assms(3) by (auto simp: sys_ok_def tx_ok_def)
  moreover have "snapshot_ts tx' = snapshot_ts tx" "tx_active tx"
    using hs'(2) assms(3-5) by (fastforce simp: keeps_past_def)+
  ultimately show ?thesis
    using hs'(2) assms(5-7) by (simp add: tx_get_history [OF hs'(1)] tx_get_history [OF hs] keeps_past_def)
qed

text \<open>A run for the witnesses: key \<open>1\<close> is committed, a reader opens, and the key is committed again.\<close>

definition demo_open :: mvcc_system where
  "demo_open = mvcc_exec [CBegin, CPut 1 [1] [10], CCommit 1, CBegin] (mvcc_system_new MvccTreeConfig_default)"

definition demo_later :: mvcc_system where
  "demo_later = mvcc_exec [CBegin, CPut 3 [1] [20], CCommit 3] demo_open"

definition demo_reader :: MvccTransaction where
  "demo_reader = \<lparr>tx_id = 2, snapshot_ts = 1, write_buffer = [], tx_active = True\<rparr>"

lemma demo_steps: "mvcc_step\<^sup>*\<^sup>* (mvcc_system_new MvccTreeConfig_default) demo_open" "mvcc_step\<^sup>*\<^sup>* demo_open demo_later"
proof -
  show "mvcc_step\<^sup>*\<^sup>* (mvcc_system_new MvccTreeConfig_default) demo_open"
    unfolding demo_open_def by (rule mvcc_exec_steps) code_simp
  show "mvcc_step\<^sup>*\<^sup>* demo_open demo_later"
    unfolding demo_later_def by (rule mvcc_exec_steps) code_simp
qed

lemma demo_txs: "sys_txs demo_open 2 = Some demo_reader" "sys_txs demo_later 2 = Some demo_reader"
  by code_simp+

theorem snapshot_isolation_witness:
  "tx_get (mgr_tree (sys_mgr demo_later)) demo_reader [1] = tx_get (mgr_tree (sys_mgr demo_open)) demo_reader [1]"
  by (rule snapshot_isolation [OF demo_steps demo_txs]) (simp_all add: demo_reader_def)

text \<open>
  C5: First committer wins. When an open transaction commits, in one step and with no garbage
  collection due, the commit succeeds exactly when no key it wrote got a new version after its
  snapshot; the database is then the old one extended by its writes at the new timestamp. Otherwise
  the error names a written key and the database is unchanged. A transaction that has ended is
  refused. A committed put always leaves a version; a committed delete leaves one only where the key
  has a version already, so a delete of a key that was never written conflicts with nobody.
\<close>

theorem commit_first_committer_wins:
  assumes "sys_ok s hs" "sys_txs s i = Some tx" "gc_counter (sys_mgr s) + 1 < gc_interval (sys_mgr s)"
    and "mgr_commit (sys_mgr s) tx = (m, tx', r)"
  shows "commit_outcome hs tx r \<and> \<not> tx_active tx' \<and>
    sys_ok \<lparr>sys_mgr = m, sys_txs = (sys_txs s)(i \<mapsto> tx')\<rparr> (committed hs (next_commit_ts (sys_mgr s)) tx)"
  using commit_ok [OF assms] by auto

lemma surjective_pairing3: "p = (fst p, fst (snd p), snd (snd p))"
  by simp

definition demo_writer :: MvccTransaction where
  "demo_writer = MvccTransaction_new 1 0\<lparr>write_buffer := [([1], Put [1] [10])]\<rparr>"

definition demo_writing :: mvcc_system where
  "demo_writing = mvcc_exec [CBegin, CPut 1 [1] [10]] (mvcc_system_new MvccTreeConfig_default)"

lemma demo_writing_txs: "sys_txs demo_writing 1 = Some demo_writer"
  by code_simp

lemma do_begin_ok: "sys_ok s hs \<Longrightarrow> sys_ok (mvcc_do CBegin s) hs"
  using begin_ok(1) by (auto split: prod.split)

lemma do_put_ok: "sys_ok s hs \<Longrightarrow> sys_ok (mvcc_do (CPut i k v) s) hs"
  by (cases "sys_txs s i") (auto intro: buffer_write_ok)

lemma demo_writing_ok: "sys_ok demo_writing []"
  by (simp add: demo_writing_def mvcc_exec_def sys_ok_new do_begin_ok do_put_ok del: mvcc_do.simps)

lemma do_commit_ok:
  assumes "sys_ok s hs" "sys_txs s i = Some tx" "gc_counter (sys_mgr s) + 1 < gc_interval (sys_mgr s)"
  shows "sys_ok (mvcc_do (CCommit i) s) (committed hs (next_commit_ts (sys_mgr s)) tx)"
  using commit_ok(1) [OF assms] assms(2) by (auto split: prod.split)

definition demo_history :: history where
  "demo_history = [(2, [([1], Some [20])]), (1, [([1], Some [10])])]"

lemma demo_later_ok: "sys_ok demo_later demo_history"
  and demo_open_ok: "sys_ok demo_open [(1, [([1], Some [10])])]"
proof -
  let ?s1 = "mvcc_exec [CBegin, CPut 1 [1] [10]] (mvcc_system_new MvccTreeConfig_default)"
  let ?s2 = "mvcc_exec [CBegin, CPut 3 [1] [20]] demo_open"
  let ?w = "MvccTransaction_new 3 1\<lparr>write_buffer := [([1], Put [1] [20])]\<rparr>"
  have 1: "mvcc_do (CCommit 1) ?s1 = mvcc_exec [CBegin, CPut 1 [1] [10], CCommit 1] (mvcc_system_new MvccTreeConfig_default)"
    and 2: "mvcc_do (CCommit 3) ?s2 = demo_later" by (simp_all add: mvcc_exec_def demo_later_def del: mvcc_do.simps)
  have "sys_txs ?s1 1 = Some demo_writer" "gc_counter (sys_mgr ?s1) + 1 < gc_interval (sys_mgr ?s1)"
    "committed [] (next_commit_ts (sys_mgr ?s1)) demo_writer = [(1, [([1], Some [10])])]" by code_simp+
  with do_commit_ok [OF demo_writing_ok, of 1] have "sys_ok (mvcc_do (CCommit 1) ?s1) [(1, [([1], Some [10])])]"
    by (simp add: demo_writing_def del: mvcc_do.simps)
  then have "sys_ok demo_open [(1, [([1], Some [10])])]"
    unfolding 1 by (simp add: demo_open_def mvcc_exec_def do_begin_ok del: mvcc_do.simps)
  then show "sys_ok demo_open [(1, [([1], Some [10])])]" .
  then have "sys_ok ?s2 [(1, [([1], Some [10])])]"
    by (simp add: mvcc_exec_def do_begin_ok do_put_ok del: mvcc_do.simps)
  moreover have "sys_txs ?s2 3 = Some ?w" "gc_counter (sys_mgr ?s2) + 1 < gc_interval (sys_mgr ?s2)"
    "committed [(1, [([1], Some [10])])] (next_commit_ts (sys_mgr ?s2)) ?w = demo_history" by code_simp+
  ultimately show "sys_ok demo_later demo_history"
    using do_commit_ok [of ?s2 "[(1, [([1], Some [10])])]" 3 ?w] by (simp only: 2)
qed

definition demo_late_writer :: MvccTransaction where
  "demo_late_writer = demo_reader\<lparr>write_buffer := [([1], Put [1] [30])]\<rparr>"

definition demo_conflict :: mvcc_system where
  "demo_conflict = mvcc_do (CPut 2 [1] [30]) demo_later"

lemma demo_conflict_ok: "sys_ok demo_conflict demo_history"
  unfolding demo_conflict_def by (rule do_put_ok [OF demo_later_ok])

lemma demo_conflict_txs: "sys_txs demo_conflict 2 = Some demo_late_writer"
  by code_simp

theorem commit_first_committer_wins_witness:
  "snd (snd (mgr_commit (sys_mgr demo_writing) demo_writer)) = Ok () \<and>
   snd (snd (mgr_commit (sys_mgr demo_conflict) demo_late_writer)) = Err (conflict_error [1])"
proof
  have "gc_counter (sys_mgr demo_writing) + 1 < gc_interval (sys_mgr demo_writing)"
    "\<forall>k \<in> fst ` set (write_buffer demo_writer). \<not> modified_since [] (snapshot_ts demo_writer) k"
    "tx_active demo_writer" by code_simp+
  then show "snd (snd (mgr_commit (sys_mgr demo_writing) demo_writer)) = Ok ()"
    using commit_first_committer_wins [OF demo_writing_ok demo_writing_txs _ surjective_pairing3]
    by (simp add: commit_outcome_def)
  have "gc_counter (sys_mgr demo_conflict) + 1 < gc_interval (sys_mgr demo_conflict)"
    "\<not> (\<forall>k \<in> fst ` set (write_buffer demo_late_writer). \<not> modified_since demo_history (snapshot_ts demo_late_writer) k)"
    "tx_active demo_late_writer" "fst ` set (write_buffer demo_late_writer) = {[1]}" by code_simp+
  then show "snd (snd (mgr_commit (sys_mgr demo_conflict) demo_late_writer)) = Err (conflict_error [1])"
    using commit_first_committer_wins [OF demo_conflict_ok demo_conflict_txs _ surjective_pairing3]
    by (simp add: commit_outcome_def)
qed

text \<open>
  C22: A transaction reads its own writes and otherwise its snapshot. Let a transaction exist in a
  state with history \<open>hs\<close>, and still be open after any further calls of any clients, each one step and
  without a garbage collection. If it then puts a key it reads back that value, if it deletes a key it
  reads nothing; any other key reads as the transaction's latest buffered write to it or, without
  one, as the value the history \<open>hs\<close> has at the snapshot, whatever was committed since.
\<close>

theorem read_your_own_writes:
  assumes "sys_ok s hs" "mvcc_step\<^sup>*\<^sup>* s s'" "sys_txs s i = Some tx" "sys_txs s' i = Some tx'" "tx_active tx'"
  shows "tx_get (mgr_tree (sys_mgr s')) (fst (tx_put tx' k v)) k' =
      Ok (if k' = k then Some v
          else case map_of (write_buffer tx') k' of Some op \<Rightarrow> op_value op | None \<Rightarrow> db_at hs (snapshot_ts tx) k') \<and>
    tx_get (mgr_tree (sys_mgr s')) (fst (tx_delete tx' k)) k' =
      Ok (if k' = k then None
          else case map_of (write_buffer tx') k' of Some op \<Rightarrow> op_value op | None \<Rightarrow> db_at hs (snapshot_ts tx) k')"
proof -
  from mvcc_steps_ok [OF assms(2,1)] obtain hs' where hs': "sys_ok s' hs'" "keeps_past s hs s' hs'" by blast
  have "snapshot_ts tx < next_commit_ts (sys_mgr s)" using assms(1,3) by (auto simp: sys_ok_def tx_ok_def)
  with hs'(2) assms(3,4) have "db_at hs' (snapshot_ts tx') = db_at hs (snapshot_ts tx)"
    by (force simp: keeps_past_def)
  then show ?thesis using assms(5)
    by (auto simp: tx_get_history [OF hs'(1)] tx_put_def tx_delete_def split: option.split)
qed

theorem read_your_own_writes_witness:
  "tx_get (mgr_tree (sys_mgr demo_later)) (fst (tx_put demo_reader [2] [30])) [2] = Ok (Some [30]) \<and>
   tx_get (mgr_tree (sys_mgr demo_later)) (fst (tx_put demo_reader [2] [30])) [1] = Ok (Some [10]) \<and>
   tx_get (mgr_tree (sys_mgr demo_later)) (fst (tx_delete demo_reader [1])) [1] = Ok None"
proof -
  note read = read_your_own_writes [OF demo_open_ok demo_steps(2) demo_txs]
  have reader: "tx_active demo_reader" "write_buffer demo_reader = []" "snapshot_ts demo_reader = 1"
    by (simp_all add: demo_reader_def)
  show ?thesis using read [of "[2]" "[30]" "[2]"] read [of "[2]" "[30]" "[1]"] read [of "[1]" "[]" "[1]"]
    by (simp add: reader)
qed

text \<open>
  C23: The outcome of a commit does not depend on the order in which the write buffer, a hash map, is
  drained: any two listings of the same writes leave the same tree and agree on success.
\<close>

theorem commit_order_irrelevant:
  assumes "leaf_ok c l (mt_root t)" "distinct (map fst ws)" "distinct (map fst ws')" "set ws' = set ws"
  shows "fst (atomic_commit t ws' snapshot i ts) = fst (atomic_commit t ws snapshot i ts) \<and>
    (snd (atomic_commit t ws' snapshot i ts) = Ok () \<longleftrightarrow> snd (atomic_commit t ws snapshot i ts) = Ok ())"
  using atomic_commit_order [OF assms] by blast

theorem commit_order_irrelevant_witness:
  "fst (atomic_commit (MvccBPlusTree_new MvccTreeConfig_default) [([2], None), ([1], Some [7])] 0 1 1) =
   fst (atomic_commit (MvccBPlusTree_new MvccTreeConfig_default) [([1], Some [7]), ([2], None)] 0 1 1)"
proof -
  have "leaf_ok 0 {} (mt_root (MvccBPlusTree_new MvccTreeConfig_default))"
    by (simp add: leaf_ok_def MvccBPlusTree_new_def MvccLeafNode_new_def)
  from commit_order_irrelevant [OF this, of "[([1], Some [7]), ([2], None)]" "[([2], None), ([1], Some [7])]"]
  show ?thesis by auto
qed

section \<open>Garbage collection under readers\<close>

lemma gc_read:
  assumes "leaf_ok c l n"
  shows "ml_get (ml_gc_versions mn mx n) k ts =
    (case map_of (ml_entries n) k of None \<Rightarrow> None | Some ch \<Rightarrow> chain_get (chain_gc_versions mn mx ch) ts)"
  using assms
  by (simp add: ml_get_map ml_gc_versions_def ksorted_map_chains leaf_ok_def map_of_map_chains
      split: option.split del: map_map)

lemma newest_version:
  assumes "leaf_ok c l n" "map_of (ml_entries n) k = Some ch" "tracks n hs"
  obtains v vs where "versions ch = v # vs" "chain_ok c l ch" "modified_since hs ts k \<longleftrightarrow> ts < commit_ts v"
proof -
  have ok: "versions ch \<noteq> []" "chain_ok c l ch" using assms(1,2) by (auto simp: leaf_ok_def)
  then obtain v vs where v: "versions ch = v # vs" by (cases "versions ch") auto
  have "touches hs k = map commit_ts (versions ch)" using assms(2,3) by (auto simp: tracks_def dest: spec [of _ k])
  then have "modified_since hs ts k \<longleftrightarrow> ts < commit_ts v"
    using ok(2) by (fastforce simp: modified_since_def v chain_ok_def)
  with v ok(2) show thesis by (rule that)
qed

text \<open>
  C24: Garbage collection keeps what is current. If a key got no version after a timestamp, reading it
  at that timestamp gives the same answer before and after a collection, whatever the horizon.
\<close>

theorem gc_keeps_current:
  assumes "sys_ok s hs" "\<not> modified_since hs ts k"
  shows "mt_get (mgr_tree (fst (mgr_gc (sys_mgr s)))) k ts = mt_get (mgr_tree (sys_mgr s)) k ts"
proof -
  let ?n = "mt_root (mgr_tree (sys_mgr s))"
  have n: "leaf_ok (next_commit_ts (sys_mgr s) - 1) (live s) ?n" "tracks ?n hs"
    using assms(1) by (auto simp: sys_ok_def tree_at_def)
  have "ml_get (ml_gc_versions mn mx ?n) k ts = ml_get ?n k ts" for mn mx
  proof (cases "map_of (ml_entries ?n) k")
    case None
    with n(1) show ?thesis by (simp add: gc_read [OF n(1)] ml_get_map leaf_ok_def)
  next
    case (Some ch)
    from newest_version [OF n(1) this n(2), of ts] obtain v vs
      where "chain_ok (next_commit_ts (sys_mgr s) - 1) (live s) ch" "versions ch = v # vs" "commit_ts v \<le> ts"
      using assms(2) by (metis not_le)
    from gc_newest_kept [OF this] Some n(1) show ?thesis by (simp add: gc_read [OF n(1)] ml_get_map leaf_ok_def)
  qed
  then show ?thesis by (simp add: mgr_gc_def mt_gc_versions_def mt_get_def)
qed

text \<open>
  C33: Garbage collection loses versions a reader still needs. The horizon is the oldest open snapshot;
  if a key got a version after the horizon, then after a collection a read of that key at the
  horizon finds nothing, whatever value the reader saw before.
\<close>

theorem gc_loses_open_snapshot:
  assumes "sys_ok s hs" "modified_since hs (mt_min_snapshot_ts (mgr_tree (sys_mgr s))) k"
  shows "mt_get (mgr_tree (fst (mgr_gc (sys_mgr s)))) k (mt_min_snapshot_ts (mgr_tree (sys_mgr s))) = Ok None"
proof -
  let ?n = "mt_root (mgr_tree (sys_mgr s))" let ?mn = "mt_min_snapshot_ts (mgr_tree (sys_mgr s))"
  have n: "leaf_ok (next_commit_ts (sys_mgr s) - 1) (live s) ?n" "tracks ?n hs"
    using assms(1) by (auto simp: sys_ok_def tree_at_def)
  have "ml_get (ml_gc_versions ?mn mx ?n) k ?mn = None" for mx
  proof (cases "map_of (ml_entries ?n) k")
    case None
    then show ?thesis by (simp add: gc_read [OF n(1)])
  next
    case (Some ch)
    from newest_version [OF n(1) this n(2), of ?mn] obtain v vs where "versions ch = v # vs" "?mn < commit_ts v"
      using assms(2) by metis
    with Some show ?thesis by (simp add: gc_read [OF n(1)] gc_forgets)
  qed
  then show ?thesis by (simp add: mgr_gc_def mt_gc_versions_def mt_get_def)
qed

theorem gc_keeps_current_witness:
  "mt_get (mgr_tree (fst (mgr_gc (sys_mgr demo_later)))) [1] 2 = mt_get (mgr_tree (sys_mgr demo_later)) [1] 2"
  by (rule gc_keeps_current [OF demo_later_ok]) code_simp

theorem gc_loses_open_snapshot_witness:
  "tx_get (mgr_tree (sys_mgr demo_later)) demo_reader [1] = Ok (Some [10]) \<and>
   tx_get (mgr_tree (fst (mgr_gc (sys_mgr demo_later)))) demo_reader [1] = Ok None"
proof -
  have mn: "mt_min_snapshot_ts (mgr_tree (sys_mgr demo_later)) = 1" by code_simp
  have "modified_since demo_history 1 [1]" by code_simp
  from gc_loses_open_snapshot [OF demo_later_ok, unfolded mn, OF this]
  have "tx_get (mgr_tree (fst (mgr_gc (sys_mgr demo_later)))) demo_reader [1] = Ok None"
    by (simp add: tx_get_def demo_reader_def)
  moreover have "tx_get (mgr_tree (sys_mgr demo_later)) demo_reader [1] = Ok (Some [10])" by code_simp
  ultimately show ?thesis by blast
qed

section \<open>A begin between the two phases of a commit\<close>

text \<open>
  C34: A reader that begins after a commit took its timestamp and before the commit reached the tree
  does not have a stable snapshot: its read of a written key gives the value from before the commit
  first, and the committed value once the commit is through.
\<close>

theorem commit_window_unstable:
  assumes "sys_ok s hs" "sys_txs s i = Some tx" "tx_active tx" "map_of (write_buffer tx) k = Some op"
    and "\<forall>k \<in> fst ` set (write_buffer tx). \<not> modified_since hs (snapshot_ts tx) k"
    and "take_commit_ts (sys_mgr s) = (ts, m1)" "mgr_begin m1 = (reader, m2)" "finish_commit m2 tx ts = (m3, tx', r)"
    and "gc_counter m2 + 1 < gc_interval m2"
  shows "tx_get (mgr_tree m2) reader k = Ok (db_at hs ts k) \<and> tx_get (mgr_tree m3) reader k = Ok (op_value op)"
proof -
  let ?m = "sys_mgr s"
  have ts: "ts = next_commit_ts ?m" "m1 = ?m\<lparr>next_commit_ts := ts + 1\<rparr>" using assms(6) by (auto simp: take_commit_ts_def)
  have reader: "reader = MvccTransaction_new (next_tx_id ?m) ts" "mt_root (mgr_tree m2) = mt_root (mgr_tree ?m)"
    using assms(7) by (auto simp: mgr_begin_def Let_def ts)
  have tree: "tree_at (ts - 1) (live s) (mgr_tree ?m) hs" "0 < ts" and tx: "tx_ok ?m i tx"
    using assms(1,2) by (auto simp: sys_ok_def ts)
  from tree(1) have m2: "tree_at (ts - 1) (live s) (mgr_tree m2) hs" using reader(2) by (auto intro: tree_at_mono)
  have "tx_id tx \<in> live s" using assms(2,3) tx by (auto simp: live_def tx_ok_def)
  with tx_commit_ok [OF m2, of ts tx] tree(2) tx obtain t where
    t: "tx_commit (mgr_tree m2) tx ts = (t, tx\<lparr>tx_active := False\<rparr>, Ok ())"
      "tree_at ts (live s - {tx_id tx}) t ((ts, tx_writes tx) # hs)"
    using assms(3,5) by (auto simp: committed_def commit_outcome_def tx_ok_def)
  have m3: "mt_root (mgr_tree m3) = mt_root t"
    using assms(8,9) t(1) by (auto simp: finish_commit_def Let_def split: if_splits)
  have "map_of (tx_writes tx) k = Some (op_value op)"
    using assms(4) tx by (simp add: tx_writes_map_of tx_ok_def)
  then show ?thesis
    using m2 t(2) by (simp add: tx_get_def mt_get_def reader(1) MvccTransaction_new_def m3 tree_at_def implements_def)
qed

theorem commit_window_unstable_witness:
  "let (ts, m1) = take_commit_ts (sys_mgr demo_writing);
       (reader, m2) = mgr_begin m1;
       m3 = fst (finish_commit m2 demo_writer ts)
   in tx_get (mgr_tree m2) reader [1] = Ok None \<and> tx_get (mgr_tree m3) reader [1] = Ok (Some [10])"
proof -
  obtain ts m1 where 1: "take_commit_ts (sys_mgr demo_writing) = (ts, m1)" by fastforce
  obtain reader m2 where 2: "mgr_begin m1 = (reader, m2)" by fastforce
  obtain m3 tx' r where 3: "finish_commit m2 demo_writer ts = (m3, tx', r)" by (metis prod.exhaust)
  have "gc_counter (snd (mgr_begin (snd (take_commit_ts (sys_mgr demo_writing))))) + 1 <
      gc_interval (snd (mgr_begin (snd (take_commit_ts (sys_mgr demo_writing)))))" by code_simp
  then have "gc_counter m2 + 1 < gc_interval m2" by (simp add: 1 2)
  moreover have "tx_active demo_writer" "map_of (write_buffer demo_writer) [1] = Some (Put [1] [10])"
    "\<forall>k \<in> fst ` set (write_buffer demo_writer). \<not> modified_since [] (snapshot_ts demo_writer) k"
    by (simp_all add: demo_writer_def MvccTransaction_new_def modified_since_def)
  ultimately show ?thesis
    using commit_window_unstable [OF demo_writing_ok demo_writing_txs _ _ _ 1 2 3, of "[1]" "Put [1] [10]"]
    by (simp add: 1 2 3)
qed

end
