(* ===== verification/Art_Node.thy ===== *)
theory Art_Node
  imports Core_Shard
begin

text \<open>
  Nodes of the adaptive radix tree, \<open>nanograph-art/src/node.rs\<close>, and the operations of
  \<open>nanograph-art/src/tree.rs\<close> on one node: header updates, adding, replacing and removing a child, growing
  and shrinking between the four inner node types. A fixed-size array is a list; \<open>art_node_ok\<close> (theory \<open>Art_Inv\<close>)
  has the sizes its type gives, and under it no index of these operations is out of range.
\<close>

section \<open>Types\<close>

datatype ArtError =
    ArtInvalidKey string
  | NodeCapacityExceeded
  | ArtShardNotFound ShardId
  | ArtStorageCorruption string
  | ArtInternal string

record 'v NodeHeader =
  num_children :: nat
  partial_key :: bytes
  header_value :: "'v option"

datatype 'v Node =
    ArtLeaf bytes 'v
  | Node4 "'v NodeHeader" "u8 list" "'v Node option list"
  | Node16 "'v NodeHeader" "u8 list" "'v Node option list"
  | Node48 "'v NodeHeader" "u8 list" "'v Node option list"
  | Node256 "'v NodeHeader" "'v Node option list"

text \<open>\<open>children[i]\<close> of a fixed-size array.\<close>

definition child_at :: "'v Node option list \<Rightarrow> nat \<Rightarrow> 'v Node option" where
  "child_at cs i = (if i < length cs then cs ! i else None)"

definition art_new_header :: "bytes \<Rightarrow> 'v NodeHeader" where
  "art_new_header partial = \<lparr>num_children = 0, partial_key = partial, header_value = None\<rparr>"

definition new_node4 :: "bytes \<Rightarrow> 'v Node" where
  "new_node4 partial = Node4 (art_new_header partial) (replicate 4 0) (replicate 4 None)"

fun art_is_leaf :: "'v Node \<Rightarrow> bool" where
  "art_is_leaf (ArtLeaf k v) = True"
| "art_is_leaf _ = False"

fun header_of :: "'v Node \<Rightarrow> 'v NodeHeader option" where
  "header_of (ArtLeaf k v) = None"
| "header_of (Node4 h ks cs) = Some h"
| "header_of (Node16 h ks cs) = Some h"
| "header_of (Node48 h ix cs) = Some h"
| "header_of (Node256 h cs) = Some h"

definition art_partial :: "'v Node \<Rightarrow> bytes" where
  "art_partial n = (case header_of n of None \<Rightarrow> [] | Some h \<Rightarrow> partial_key h)"

definition art_num_children :: "'v Node \<Rightarrow> nat" where
  "art_num_children n = (case header_of n of None \<Rightarrow> 0 | Some h \<Rightarrow> num_children h)"

text \<open>\<open>n.header.value.clone()\<close> in each arm of the matches of \<open>tree.rs\<close>; a leaf is excluded there.\<close>

definition inner_value :: "'v Node \<Rightarrow> 'v option" where
  "inner_value n = (case header_of n of None \<Rightarrow> None | Some h \<Rightarrow> header_value h)"

section \<open>Finding a child\<close>

text \<open>The linear loop over the first \<open>num_children\<close> keys.\<close>

definition key_position :: "nat \<Rightarrow> u8 list \<Rightarrow> u8 \<Rightarrow> nat option" where
  "key_position n ks b = find (\<lambda>i. ks ! i = b) [0..<n]"

function n16_search :: "u8 list \<Rightarrow> u8 \<Rightarrow> nat \<Rightarrow> nat \<Rightarrow> nat option" where
  "n16_search ks b left right =
     (if left < right then
        let mid = (left + right) div 2 in
        if ks ! mid < b then n16_search ks b (mid + 1) right
        else if b < ks ! mid then n16_search ks b left mid
        else Some mid
      else None)"
  by pat_completeness auto
termination
  by (relation "measure (\<lambda>(ks, b, left, right). right - left)") auto

declare n16_search.simps [simp del]

fun find_child :: "'v Node \<Rightarrow> u8 \<Rightarrow> 'v Node option" where
  "find_child (ArtLeaf k v) b = None"
| "find_child (Node4 h ks cs) b =
     (case key_position (num_children h) ks b of None \<Rightarrow> None | Some i \<Rightarrow> child_at cs i)"
| "find_child (Node16 h ks cs) b =
     (case n16_search ks b 0 (num_children h) of None \<Rightarrow> None | Some i \<Rightarrow> child_at cs i)"
| "find_child (Node48 h ix cs) b =
     (let idx = ix ! unat b in if idx \<noteq> 255 then child_at cs (unat idx) else None)"
| "find_child (Node256 h cs) b = child_at cs (unat b)"

lemma size_child_at: "child_at cs i = Some c \<Longrightarrow> size c < Suc (size_list (size_option size) cs)"
proof -
  assume "child_at cs i = Some c"
  then have "Some c \<in> set cs" unfolding child_at_def by (metis nth_mem option.distinct(1))
  then show ?thesis by (intro less_Suc_eq_le [THEN iffD2] size_list_estimation') auto
qed

lemma size_find_child: "find_child n b = Some c \<Longrightarrow> size c < size n"
  by (cases n) (auto simp: Let_def split: option.splits if_splits dest: size_child_at)

section \<open>Changing a node\<close>

text \<open>A clone of the node with an updated header; a leaf is returned unchanged.\<close>

fun map_header :: "('v NodeHeader \<Rightarrow> 'v NodeHeader) \<Rightarrow> 'v Node \<Rightarrow> 'v Node" where
  "map_header f (ArtLeaf k v) = ArtLeaf k v"
| "map_header f (Node4 h ks cs) = Node4 (f h) ks cs"
| "map_header f (Node16 h ks cs) = Node16 (f h) ks cs"
| "map_header f (Node48 h ix cs) = Node48 (f h) ix cs"
| "map_header f (Node256 h cs) = Node256 (f h) cs"

definition set_node_value :: "'v Node \<Rightarrow> 'v \<Rightarrow> 'v Node" where
  "set_node_value n v = map_header (\<lambda>h. h\<lparr>header_value := Some v\<rparr>) n"

definition clear_node_value :: "'v Node \<Rightarrow> 'v Node" where
  "clear_node_value n = map_header (\<lambda>h. h\<lparr>header_value := None\<rparr>) n"

definition update_partial :: "'v Node \<Rightarrow> bytes \<Rightarrow> 'v Node" where
  "update_partial n p = map_header (\<lambda>h. h\<lparr>partial_key := p\<rparr>) n"

definition one_more :: "'v NodeHeader \<Rightarrow> 'v NodeHeader" where
  "one_more h = h\<lparr>num_children := num_children h + 1\<rparr>"

definition one_less :: "'v NodeHeader \<Rightarrow> 'v NodeHeader" where
  "one_less h = h\<lparr>num_children := num_children h - 1\<rparr>"

text \<open>The child is appended to the keys of a new node, wherever its byte belongs in their order.\<close>

fun add_child_unchecked :: "'v Node \<Rightarrow> u8 \<Rightarrow> 'v Node \<Rightarrow> 'v Node" where
  "add_child_unchecked (Node4 h ks cs) b c =
     Node4 (one_more h) (ks[num_children h := b]) (cs[num_children h := Some c])"
| "add_child_unchecked n b c = n"

text \<open>The loop \<open>for i in (pos..idx).rev()\<close> that moves the elements from \<open>pos\<close> on by one.\<close>

definition shift_right :: "nat \<Rightarrow> nat \<Rightarrow> 'a list \<Rightarrow> 'a list" where
  "shift_right pos idx xs = fold (\<lambda>i ys. ys[i + 1 := ys ! i]) (rev [pos..<idx]) xs"

definition insert_pos :: "u8 list \<Rightarrow> u8 \<Rightarrow> nat \<Rightarrow> nat" where
  "insert_pos ks b idx = (case find (\<lambda>i. b < ks ! i) [0..<idx] of Some i \<Rightarrow> i | None \<Rightarrow> idx)"

definition array_insert :: "nat \<Rightarrow> nat \<Rightarrow> 'a \<Rightarrow> 'a list \<Rightarrow> 'a list" where
  "array_insert pos idx x xs = (shift_right pos idx xs)[pos := x]"

definition add_child_to_node4 :: "'v NodeHeader \<Rightarrow> u8 list \<Rightarrow> 'v Node option list \<Rightarrow> u8 \<Rightarrow> 'v Node \<Rightarrow> 'v Node" where
  "add_child_to_node4 h ks cs b c =
     (let idx = num_children h; pos = insert_pos ks b idx
      in Node4 (one_more h) (array_insert pos idx b ks) (array_insert pos idx (Some c) cs))"

definition add_child_to_node16 :: "'v NodeHeader \<Rightarrow> u8 list \<Rightarrow> 'v Node option list \<Rightarrow> u8 \<Rightarrow> 'v Node \<Rightarrow> 'v Node" where
  "add_child_to_node16 h ks cs b c =
     (let idx = num_children h; pos = insert_pos ks b idx
      in Node16 (one_more h) (array_insert pos idx b ks) (array_insert pos idx (Some c) cs))"

definition add_child_to_node48 :: "'v NodeHeader \<Rightarrow> u8 list \<Rightarrow> 'v Node option list \<Rightarrow> u8 \<Rightarrow> 'v Node \<Rightarrow> 'v Node" where
  "add_child_to_node48 h ix cs b c =
     (let idx = num_children h
      in Node48 (one_more h) (ix[unat b := word_of_nat idx]) (cs[idx := Some c]))"

definition add_child_to_node256 :: "'v NodeHeader \<Rightarrow> 'v Node option list \<Rightarrow> u8 \<Rightarrow> 'v Node \<Rightarrow> 'v Node" where
  "add_child_to_node256 h cs b c = Node256 (one_more h) (cs[unat b := Some c])"

text \<open>The copying loops of the growing functions.\<close>

definition copy_prefix :: "nat \<Rightarrow> 'a list \<Rightarrow> 'a list \<Rightarrow> 'a list" where
  "copy_prefix n src dst = fold (\<lambda>i ds. ds[i := src ! i]) [0..<n] dst"

definition grow_keys :: "nat \<Rightarrow> u8 list \<Rightarrow> u8 list" where
  "grow_keys n ks = copy_prefix n ks (replicate 16 0)"

definition grow_children :: "nat \<Rightarrow> nat \<Rightarrow> 'v Node option list \<Rightarrow> 'v Node option list" where
  "grow_children cap n cs = copy_prefix n cs (replicate cap None)"

definition grow_index :: "nat \<Rightarrow> u8 list \<Rightarrow> u8 list" where
  "grow_index n ks = fold (\<lambda>i ix. ix[unat (ks ! i) := word_of_nat i]) [0..<n] (replicate 256 255)"

text \<open>The children of a \<open>Node48\<close> in the order of their bytes, the absent ones as \<open>None\<close>.\<close>

definition spread_children :: "u8 list \<Rightarrow> 'v Node option list \<Rightarrow> 'v Node option list" where
  "spread_children ix cs = map (\<lambda>b. let idx = ix ! b in if idx \<noteq> 255 then child_at cs (unat idx) else None) [0..<256]"

fun add_child :: "'v Node \<Rightarrow> u8 \<Rightarrow> 'v Node \<Rightarrow> (ArtError, 'v Node) res" where
  "add_child (ArtLeaf k v) b c = Err (ArtInternal ''Cannot add child to leaf'')"
| "add_child (Node4 h ks cs) b c =
     (let n = num_children h in
      if n < 4 then Ok (add_child_to_node4 h ks cs b c)
      else Ok (add_child_to_node16 h (grow_keys n ks) (grow_children 16 n cs) b c))"
| "add_child (Node16 h ks cs) b c =
     (let n = num_children h in
      if n < 16 then Ok (add_child_to_node16 h ks cs b c)
      else Ok (add_child_to_node48 h (grow_index n ks) (grow_children 48 n cs) b c))"
| "add_child (Node48 h ix cs) b c =
     (if num_children h < 48 then Ok (add_child_to_node48 h ix cs b c)
      else Ok (add_child_to_node256 h (spread_children ix cs) b c))"
| "add_child (Node256 h cs) b c =
     (if num_children h < 256 then Ok (add_child_to_node256 h cs b c) else Err NodeCapacityExceeded)"

fun replace_child :: "'v Node \<Rightarrow> u8 \<Rightarrow> 'v Node \<Rightarrow> 'v Node" where
  "replace_child (ArtLeaf k v) b c = ArtLeaf k v"
| "replace_child (Node4 h ks cs) b c =
     Node4 h ks (case key_position (num_children h) ks b of None \<Rightarrow> cs | Some i \<Rightarrow> cs[i := Some c])"
| "replace_child (Node16 h ks cs) b c =
     Node16 h ks (case key_position (num_children h) ks b of None \<Rightarrow> cs | Some i \<Rightarrow> cs[i := Some c])"
| "replace_child (Node48 h ix cs) b c =
     (let idx = ix ! unat b in Node48 h ix (if idx \<noteq> 255 then cs[unat idx := Some c] else cs))"
| "replace_child (Node256 h cs) b c = Node256 h (cs[unat b := Some c])"

section \<open>Removing a child\<close>

text \<open>The loop \<open>for j in i..num_children - 1\<close> that moves the elements after \<open>i\<close> back by one.\<close>

definition shift_left :: "nat \<Rightarrow> nat \<Rightarrow> 'a list \<Rightarrow> 'a list" where
  "shift_left i n xs = fold (\<lambda>j ys. ys[j := ys ! (j + 1)]) [i..<n - 1] xs"

text \<open>Both array nodes: header, keys and children after the removal.\<close>

definition remove_from_arrays ::
  "'v NodeHeader \<Rightarrow> u8 list \<Rightarrow> 'v Node option list \<Rightarrow> u8 \<Rightarrow> 'v NodeHeader \<times> u8 list \<times> 'v Node option list" where
  "remove_from_arrays h ks cs b =
     (let n = num_children h in
      case key_position n ks b of
        None \<Rightarrow> (h, ks, cs)
      | Some i \<Rightarrow> (one_less h, shift_left i n ks, (shift_left i n cs)[n - 1 := None]))"

definition remove_child_from_node48 ::
  "'v NodeHeader \<Rightarrow> u8 list \<Rightarrow> 'v Node option list \<Rightarrow> u8 \<Rightarrow> 'v NodeHeader \<times> u8 list \<times> 'v Node option list" where
  "remove_child_from_node48 h ix cs b =
     (let idx = ix ! unat b in
      if idx \<noteq> 255 then (one_less h, ix[unat b := 255], cs[unat idx := None]) else (h, ix, cs))"

definition remove_child_from_node256 ::
  "'v NodeHeader \<Rightarrow> 'v Node option list \<Rightarrow> u8 \<Rightarrow> 'v NodeHeader \<times> 'v Node option list" where
  "remove_child_from_node256 h cs b =
     (if child_at cs (unat b) \<noteq> None then (one_less h, cs[unat b := None]) else (h, cs))"

text \<open>
  The shrinking loops write the present children, in order, to the front of the new arrays. The
  pairs are the bytes and children they copy.
\<close>

definition pack :: "nat \<Rightarrow> (u8 \<times> 'v Node option) list \<Rightarrow> u8 list \<times> 'v Node option list" where
  "pack cap ps = (map fst ps @ replicate (cap - length ps) 0, map snd ps @ replicate (cap - length ps) None)"

definition shrink_node16_to_node4 :: "'v NodeHeader \<Rightarrow> u8 list \<Rightarrow> 'v Node option list \<Rightarrow> 'v Node" where
  "shrink_node16_to_node4 h ks cs =
     (case pack 4 [(ks ! i, child_at cs i). i \<leftarrow> [0..<num_children h], child_at cs i \<noteq> None] of
        (ks', cs') \<Rightarrow> Node4 h ks' cs')"

definition shrink_node48_to_node16 :: "'v NodeHeader \<Rightarrow> u8 list \<Rightarrow> 'v Node option list \<Rightarrow> 'v Node" where
  "shrink_node48_to_node16 h ix cs =
     (case pack 16 [(word_of_nat b, child_at cs (unat (ix ! b))). b \<leftarrow> [0..<256], ix ! b \<noteq> 255] of
        (ks', cs') \<Rightarrow> Node16 h ks' cs')"

text \<open>The index array is written with the running counter \<open>j\<close>, the children with it.\<close>

definition shrink_node256_to_node48 :: "'v NodeHeader \<Rightarrow> 'v Node option list \<Rightarrow> 'v Node" where
  "shrink_node256_to_node48 h cs =
     (let bs = filter (\<lambda>b. child_at cs b \<noteq> None) [0..<256] in
      Node48 h (fold (\<lambda>(j, b) ix. ix[b := word_of_nat j]) (List.enumerate 0 bs) (replicate 256 255))
        (map (child_at cs) bs @ replicate (48 - length bs) None))"

text \<open>\<open>compress_node\<close> merges a node that has one child and no value with the child.\<close>

fun compress_node :: "'v Node \<Rightarrow> 'v Node" where
  "compress_node (Node4 h ks cs) =
     (if num_children h = 1 \<and> header_value h = None then
        (case child_at cs 0 of
           Some child \<Rightarrow> update_partial child (partial_key h @ [ks ! 0] @ art_partial child)
         | None \<Rightarrow> Node4 h ks cs)
      else Node4 h ks cs)"
| "compress_node n = n"

fun art_remove_child :: "'v Node \<Rightarrow> u8 \<Rightarrow> (ArtError, 'v Node option) res" where
  "art_remove_child (ArtLeaf k v) b = Err (ArtInternal ''Cannot remove child from leaf'')"
| "art_remove_child (Node4 h ks cs) b =
     (case remove_from_arrays h ks cs b of (h', ks', cs') \<Rightarrow>
        if num_children h' = 1 then Ok (Some (compress_node (Node4 h' ks' cs')))
        else if num_children h' = 0 then
          (if header_value h' \<noteq> None then Ok (Some (Node4 h' ks' cs')) else Ok None)
        else Ok (Some (Node4 h' ks' cs')))"
| "art_remove_child (Node16 h ks cs) b =
     (case remove_from_arrays h ks cs b of (h', ks', cs') \<Rightarrow>
        if num_children h' \<le> 4 then Ok (Some (shrink_node16_to_node4 h' ks' cs'))
        else Ok (Some (Node16 h' ks' cs')))"
| "art_remove_child (Node48 h ix cs) b =
     (case remove_child_from_node48 h ix cs b of (h', ix', cs') \<Rightarrow>
        if num_children h' \<le> 16 then Ok (Some (shrink_node48_to_node16 h' ix' cs'))
        else Ok (Some (Node48 h' ix' cs')))"
| "art_remove_child (Node256 h cs) b =
     (case remove_child_from_node256 h cs b of (h', cs') \<Rightarrow>
        if num_children h' \<le> 48 then Ok (Some (shrink_node256_to_node48 h' cs'))
        else Ok (Some (Node256 h' cs')))"

end
