(* ===== verification/Art_Tree.thy ===== *)
theory Art_Tree
  imports Art_Node
begin

text \<open>
  The adaptive radix tree, \<open>nanograph-art/src/tree.rs\<close>: lookup, insertion and removal. Inner nodes compress
  paths (\<open>partial_key\<close>) and hold the value of a key that ends at them; leaves hold whole keys. The
  recursion follows \<open>find_child\<close>, which returns a smaller node. An index past the end of a key is a
  panic. \<open>insert\<close> and \<open>remove\<close> take the root out of the tree before they recurse, so an error or a panic
  leaves an empty root behind.
\<close>

record 'v AdaptiveRadixTree =
  art_root :: "'v Node option"
  art_size :: nat

definition art_new :: "'v AdaptiveRadixTree" where
  "art_new = \<lparr>art_root = None, art_size = 0\<rparr>"

definition art_clear :: "'v AdaptiveRadixTree \<Rightarrow> 'v AdaptiveRadixTree" where
  "art_clear t = t\<lparr>art_root := None, art_size := 0\<rparr>"

definition art_is_empty :: "'v AdaptiveRadixTree \<Rightarrow> bool" where
  "art_is_empty t \<longleftrightarrow> art_size t = 0"

section \<open>Lookup\<close>

fun leaf_match :: "'v Node \<Rightarrow> bytes \<Rightarrow> 'v option" where
  "leaf_match (ArtLeaf k v) key = (if k = key then Some v else None)"
| "leaf_match _ key = None"

function art_get_loop :: "'v Node \<Rightarrow> bytes \<Rightarrow> nat \<Rightarrow> 'v option" where
  "art_get_loop n key depth =
     (let p = art_partial n; d = depth + length p in
      if length key < d then None
      else if take (length p) (drop depth key) \<noteq> p then None
      else if art_is_leaf n then leaf_match n key
      else if length key \<le> d then inner_value n
      else case find_child n (key ! d) of None \<Rightarrow> None | Some c \<Rightarrow> art_get_loop c key (d + 1))"
  by pat_completeness auto
termination
  by (relation "measure (\<lambda>(n, key, depth). size n)") (auto dest: size_find_child)

declare art_get_loop.simps [simp del]

definition art_get :: "'v AdaptiveRadixTree \<Rightarrow> bytes \<Rightarrow> 'v option" where
  "art_get t key =
     (if key = [] then None
      else case art_root t of None \<Rightarrow> None | Some n \<Rightarrow> art_get_loop n key 0)"

definition art_contains_key :: "'v AdaptiveRadixTree \<Rightarrow> bytes \<Rightarrow> bool" where
  "art_contains_key t key \<longleftrightarrow> art_get t key \<noteq> None"

section \<open>Insertion\<close>

text \<open>The loop over the bytes of the partial key that the rest of the key can be compared with.\<close>

definition check_prefix :: "bytes \<Rightarrow> bytes \<Rightarrow> nat \<Rightarrow> nat" where
  "check_prefix partial key depth =
     (let max_cmp = min (length partial) (length key - depth) in
      case find (\<lambda>i. partial ! i \<noteq> key ! (depth + i)) [0..<max_cmp] of Some i \<Rightarrow> i | None \<Rightarrow> max_cmp)"

text \<open>\<open>key[depth + mismatch_idx]\<close> is read without a check.\<close>

definition split_node :: "'v Node \<Rightarrow> bytes \<Rightarrow> nat \<Rightarrow> nat \<Rightarrow> 'v \<Rightarrow> (ArtError, 'v Node \<times> 'v option) res" where
  "split_node n key depth m value =
     (let partial = art_partial n;
          updated_old = update_partial n (drop (m + 1) partial) in
      if depth + m < length key then
        Ok (add_child_unchecked
              (add_child_unchecked (new_node4 (take m partial)) (partial ! m) updated_old)
              (key ! (depth + m)) (ArtLeaf key value), None)
      else Inl Panicked)"

text \<open>The loop that counts the common bytes of two keys from a position on.\<close>

fun common_len :: "bytes \<Rightarrow> bytes \<Rightarrow> nat" where
  "common_len (x # xs) (y # ys) = (if x = y then Suc (common_len xs ys) else 0)"
| "common_len _ _ = 0"

definition create_inner_node_from_leaves ::
  "bytes \<Rightarrow> 'v \<Rightarrow> bytes \<Rightarrow> nat \<Rightarrow> 'v \<Rightarrow> (ArtError, 'v Node \<times> 'v option) res" where
  "create_inner_node_from_leaves existing_key existing_value new_key depth new_value =
     (let c = common_len (drop depth existing_key) (drop depth new_key);
          d = depth + c;
          common = take c (drop depth existing_key);
          existing = ArtLeaf existing_key existing_value;
          new_leaf = ArtLeaf new_key new_value in
      if length existing_key < depth then Inl Panicked
      else if length existing_key \<le> d then
        (if d < length new_key then
           Ok (add_child_unchecked (set_node_value (new_node4 common) existing_value) (new_key ! d) new_leaf, None)
         else Inl Panicked)
      else if length new_key \<le> d then
        Ok (add_child_unchecked (set_node_value (new_node4 common) new_value) (existing_key ! d) existing, None)
      else Ok (add_child_unchecked
                 (add_child_unchecked (new_node4 common) (existing_key ! d) existing)
                 (new_key ! d) new_leaf, None))"

function insert_recursive :: "'v Node \<Rightarrow> bytes \<Rightarrow> nat \<Rightarrow> 'v \<Rightarrow> (ArtError, 'v Node \<times> 'v option) res" where
  "insert_recursive n key depth value =
     (let partial = art_partial n; m = check_prefix partial key depth; d = depth + length partial in
      if m < length partial then split_node n key depth m value
      else if art_is_leaf n then
        (case n of
           ArtLeaf k v \<Rightarrow>
             if k = key then Ok (ArtLeaf key value, Some v)
             else create_inner_node_from_leaves k v key d value
         | _ \<Rightarrow> Inl Panicked)
      else if length key \<le> d then Ok (set_node_value n value, inner_value n)
      else case find_child n (key ! d) of
             Some c \<Rightarrow>
               (case insert_recursive c key (d + 1) value of
                  Inl f \<Rightarrow> Inl f
                | Inr (c', old) \<Rightarrow> Ok (replace_child n (key ! d) c', old))
           | None \<Rightarrow>
               (case add_child n (key ! d) (ArtLeaf key value) of
                  Inl f \<Rightarrow> Inl f
                | Inr n' \<Rightarrow> Ok (n', None)))"
  by pat_completeness auto
termination
  by (relation "measure (\<lambda>(n, key, depth, value). size n)") (auto dest: size_find_child)

declare insert_recursive.simps [simp del]

definition art_insert ::
  "'v AdaptiveRadixTree \<Rightarrow> bytes \<Rightarrow> 'v \<Rightarrow> 'v AdaptiveRadixTree \<times> (ArtError, 'v option) res" where
  "art_insert t key value =
     (if key = [] then (t, Err (ArtInvalidKey ''Key cannot be empty''))
      else case (case art_root t of
                   Some root \<Rightarrow> insert_recursive root key 0 value
                 | None \<Rightarrow> Ok (ArtLeaf key value, None)) of
             Inl f \<Rightarrow> (t\<lparr>art_root := None\<rparr>, Inl f)
           | Inr (root', old) \<Rightarrow>
               (t\<lparr>art_root := Some root', art_size := art_size t + (if old = None then 1 else 0)\<rparr>, Ok old))"

section \<open>Removal\<close>

function remove_recursive :: "'v Node \<Rightarrow> bytes \<Rightarrow> nat \<Rightarrow> (ArtError, 'v Node option \<times> 'v option) res" where
  "remove_recursive n key depth =
     (let partial = art_partial n; m = check_prefix partial key depth; d = depth + length partial in
      if m < length partial then Ok (Some n, None)
      else if art_is_leaf n then
        (case leaf_match n key of Some v \<Rightarrow> Ok (None, Some v) | None \<Rightarrow> Ok (Some n, None))
      else if length key \<le> d then
        (case inner_value n of
           Some v \<Rightarrow> Ok (Some (clear_node_value n), Some v)
         | None \<Rightarrow> Ok (Some n, None))
      else case find_child n (key ! d) of
             Some c \<Rightarrow>
               (case remove_recursive c key (d + 1) of
                  Inl f \<Rightarrow> Inl f
                | Inr (Some c', old) \<Rightarrow> Ok (Some (replace_child n (key ! d) c'), old)
                | Inr (None, old) \<Rightarrow>
                    (case art_remove_child n (key ! d) of Inl f \<Rightarrow> Inl f | Inr n' \<Rightarrow> Ok (n', old)))
           | None \<Rightarrow> Ok (Some n, None))"
  by pat_completeness auto
termination
  by (relation "measure (\<lambda>(n, key, depth). size n)") (auto dest: size_find_child)

declare remove_recursive.simps [simp del]

text \<open>\<open>self.size -= 1\<close>; that the size is positive when a value is removed is part of the invariant.\<close>

definition art_remove :: "'v AdaptiveRadixTree \<Rightarrow> bytes \<Rightarrow> 'v AdaptiveRadixTree \<times> (ArtError, 'v option) res" where
  "art_remove t key =
     (if key = [] then (t, Err (ArtInvalidKey ''Key cannot be empty''))
      else case art_root t of
        None \<Rightarrow> (t, Ok None)
      | Some root \<Rightarrow>
          (case remove_recursive root key 0 of
             Inl f \<Rightarrow> (t\<lparr>art_root := None\<rparr>, Inl f)
           | Inr (root', old) \<Rightarrow>
               (t\<lparr>art_root := root', art_size := art_size t - (if old = None then 0 else 1)\<rparr>, Ok old)))"

end
