(* ===== verification/Art_Inv.thy ===== *)
theory Art_Inv
  imports Art_Tree
begin

text \<open>
  The invariant of a radix tree node (\<open>art_node_ok\<close>) and what each operation on a node does to the map from
  bytes to children that \<open>find_child\<close> describes. The four node types differ only in how they represent
  that map: the lemmas of this theory are all the tree layer needs to know of them.
\<close>

section \<open>Arrays\<close>

lemma length_shift_right [simp]: "length (shift_right pos idx xs) = length xs"
proof -
  have "length (fold (\<lambda>i ys. ys[i + 1 := ys ! i]) is xs) = length xs" for "is"
    by (induction "is" arbitrary: xs) auto
  then show ?thesis by (simp add: shift_right_def)
qed

lemma shift_right_step:
  "pos \<le> idx \<Longrightarrow> shift_right pos (Suc idx) xs = shift_right pos idx (xs[idx + 1 := xs ! idx])"
  by (simp add: shift_right_def)

lemma nth_shift_right:
  "pos \<le> idx \<Longrightarrow> idx < length xs \<Longrightarrow> i < length xs \<Longrightarrow>
   shift_right pos idx xs ! i = (if pos < i \<and> i \<le> idx then xs ! (i - 1) else xs ! i)"
proof (induction "idx - pos" arbitrary: idx xs)
  case 0
  then show ?case by (auto simp: shift_right_def)
next
  case (Suc n)
  then obtain j where j: "idx = Suc j" "pos \<le> j" by (cases idx) auto
  with Suc.hyps(1) [of j "xs[j + 1 := xs ! j]"] Suc show ?case
    by (auto simp: shift_right_step nth_list_update)
qed

lemma array_insert_eq:
  assumes "pos \<le> idx" "idx < length xs"
  shows "array_insert pos idx x xs = take pos xs @ x # take (idx - pos) (drop pos xs) @ drop (Suc idx) xs"
proof (rule nth_equalityI)
  show "length (array_insert pos idx x xs) =
    length (take pos xs @ x # take (idx - pos) (drop pos xs) @ drop (Suc idx) xs)"
    using assms by (simp add: array_insert_def)
next
  fix i assume "i < length (array_insert pos idx x xs)"
  then have i: "i < length xs" by (simp add: array_insert_def)
  have "array_insert pos idx x xs ! i =
    (if i = pos then x else if pos < i \<and> i \<le> idx then xs ! (i - 1) else xs ! i)"
    using assms i by (auto simp: array_insert_def nth_list_update nth_shift_right)
  also have "\<dots> = (take pos xs @ x # take (idx - pos) (drop pos xs) @ drop (Suc idx) xs) ! i"
    using assms i by (auto simp: nth_append nth_Cons' min_def)
  finally show "array_insert pos idx x xs ! i =
    (take pos xs @ x # take (idx - pos) (drop pos xs) @ drop (Suc idx) xs) ! i" .
qed

lemma take_array_insert:
  assumes "pos \<le> idx" "idx < length xs"
  shows "take (Suc idx) (array_insert pos idx x xs) = take pos (take idx xs) @ x # drop pos (take idx xs)"
proof -
  have "take (Suc idx - pos) (x # drop pos (take idx xs) @ drop (Suc idx) xs) = x # drop pos (take idx xs)"
    using assms by (simp add: Suc_diff_le)
  with assms show ?thesis by (simp add: array_insert_eq min_def take_drop)
qed

lemma length_array_insert [simp]: "length (array_insert pos idx x xs) = length xs"
  by (simp add: array_insert_def)

lemma copy_prefix_eq: "n \<le> length src \<Longrightarrow> n \<le> length dst \<Longrightarrow> copy_prefix n src dst = take n src @ drop n dst"
proof (induction n)
  case (Suc n)
  then have "copy_prefix (Suc n) src dst = (take n src @ drop n dst)[n := src ! n]"
    by (simp add: copy_prefix_def)
  also have "\<dots> = take (Suc n) src @ drop (Suc n) dst"
    using Suc.prems by (simp add: list_update_append take_Suc_conv_app_nth Cons_nth_drop_Suc [symmetric])
  finally show ?case .
qed (simp add: copy_prefix_def)

lemma length_shift_left [simp]: "length (shift_left i n xs) = length xs"
proof -
  have "length (fold (\<lambda>j ys. ys[j := ys ! (j + 1)]) js xs) = length xs" for js
    by (induction js arbitrary: xs) auto
  then show ?thesis by (simp add: shift_left_def)
qed

lemma shift_left_step: "i \<le> m \<Longrightarrow> shift_left i (Suc (Suc m)) xs =
    (let ys = shift_left i (Suc m) xs in ys[m := ys ! (m + 1)])"
  by (simp add: shift_left_def Let_def)

lemma nth_shift_left:
  "i \<le> m \<Longrightarrow> m < length xs \<Longrightarrow> k < length xs \<Longrightarrow>
   shift_left i (Suc m) xs ! k = (if i \<le> k \<and> k < m then xs ! (k + 1) else xs ! k)"
proof (induction m arbitrary: k)
  case (Suc m)
  show ?case
  proof (cases "i \<le> m")
    case True
    with Suc show ?thesis by (auto simp: shift_left_step Let_def nth_list_update less_Suc_eq)
  next
    case False
    with Suc.prems show ?thesis by (auto simp: le_Suc_eq shift_left_def)
  qed
qed (auto simp: shift_left_def)

lemma take_shift_left:
  assumes "i < n" "n \<le> length xs"
  shows "take (n - 1) (shift_left i n xs) = take i (take n xs) @ drop (Suc i) (take n xs)"
proof (rule nth_equalityI)
  fix k assume "k < length (take (n - 1) (shift_left i n xs))"
  moreover obtain m where "n = Suc m" using assms(1) by (cases n) auto
  ultimately show "take (n - 1) (shift_left i n xs) ! k = (take i (take n xs) @ drop (Suc i) (take n xs)) ! k"
    using assms by (auto simp: nth_shift_left nth_append min_def)
qed (use assms in auto)

section \<open>Children of the array nodes\<close>

abbreviation kids_of :: "nat \<Rightarrow> u8 list \<Rightarrow> 'v Node option list \<Rightarrow> (u8 \<times> 'v Node option) list" where
  "kids_of n ks cs \<equiv> zip (take n ks) (take n cs)"

lemma key_position_Some: "key_position n ks b = Some i \<Longrightarrow> i < n \<and> ks ! i = b"
  by (auto simp: key_position_def find_Some_iff)

lemma key_position_None: "key_position n ks b = None \<longleftrightarrow> (\<forall>i < n. ks ! i \<noteq> b)"
  by (auto simp: key_position_def find_None_iff)

lemma key_position_unique:
  assumes "distinct (take n ks)" "n \<le> length ks" "i < n"
  shows "key_position n ks (ks ! i) = Some i"
proof (cases "key_position n ks (ks ! i)")
  case None
  with assms show ?thesis by (auto simp: key_position_None)
next
  case (Some j)
  from key_position_Some [OF this] have "j < n" "ks ! j = ks ! i" by auto
  with assms have "j = i" by (auto simp: distinct_conv_nth)
  with Some show ?thesis by simp
qed

lemma n16_search_correct:
  assumes "sorted_wrt (<) (take n ks)" "n \<le> length ks" "right \<le> n"
    and "\<forall>i < left. ks ! i < b" "\<forall>i. right \<le> i \<and> i < n \<longrightarrow> b < ks ! i"
  shows "n16_search ks b left right = key_position n ks b"
  using assms
proof (induction ks b left right rule: n16_search.induct)
  case (1 ks b left right)
  have mono: "i < j \<Longrightarrow> j < n \<Longrightarrow> ks ! i < ks ! j" for i j
    using sorted_wrt_nth_less [OF "1.prems"(1), of i j] "1.prems"(2) by simp
  show ?case
  proof (cases "left < right")
    case False
    then have "key_position n ks b = None" using "1.prems"(4,5) unfolding key_position_None
      by (metis less_irrefl linorder_not_less order.strict_trans2)
    with False show ?thesis by (simp add: n16_search.simps)
  next
    case True
    define mid where "mid = (left + right) div 2"
    have mid: "mid < right" "left \<le> mid" "mid < n" using True "1.prems"(3) by (auto simp: mid_def)
    consider "ks ! mid < b" | "b < ks ! mid" | "ks ! mid = b" by (metis linorder_neqE)
    then show ?thesis
    proof cases
      case 1
      have "\<forall>i < mid + 1. ks ! i < b"
      proof (intro allI impI)
        fix i assume "i < mid + 1"
        with 1 mono [of i mid] mid show "ks ! i < b" by (cases "i = mid") auto
      qed
      with "1.IH"(1) [OF True mid_def 1] "1.prems" True 1 show ?thesis
        by (subst n16_search.simps) (simp add: Let_def mid_def [symmetric])
    next
      case 2
      have "\<forall>i. mid \<le> i \<and> i < n \<longrightarrow> b < ks ! i"
      proof (intro allI impI)
        fix i assume "mid \<le> i \<and> i < n"
        with 2 mono [of mid i] show "b < ks ! i" by (cases "i = mid") auto
      qed
      moreover have nb: "\<not> ks ! mid < b" using 2 by simp
      ultimately show ?thesis using "1.IH"(2) [OF True mid_def nb 2] "1.prems" True 2 mid
        by (subst n16_search.simps) (simp add: Let_def mid_def [symmetric])
    next
      case 3
      have "distinct (take n ks)" using "1.prems"(1) strict_sorted_iff by blast
      then have "key_position n ks b = Some mid"
        using key_position_unique [of n ks mid] "1.prems"(2) mid(3) 3 by simp
      with True 3 show ?thesis by (subst n16_search.simps) (simp add: Let_def mid_def [symmetric])
    qed
  qed
qed

section \<open>The node invariant\<close>

definition arrays_ok :: "nat \<Rightarrow> nat \<Rightarrow> u8 list \<Rightarrow> 'v Node option list \<Rightarrow> bool" where
  "arrays_ok cap n ks cs \<longleftrightarrow>
     length ks = cap \<and> length cs = cap \<and> n \<le> cap \<and> distinct (take n ks) \<and> None \<notin> set (take n cs)"

definition index_ok :: "u8 list \<Rightarrow> 'v Node option list \<Rightarrow> bool" where
  "index_ok ix cs \<longleftrightarrow>
     length ix = 256 \<and> length cs = 48 \<and>
     (\<forall>b :: u8. ix ! unat b \<noteq> 255 \<longrightarrow> unat (ix ! unat b) < 48 \<and> cs ! unat (ix ! unat b) \<noteq> None) \<and>
     (\<forall>b b' :: u8. ix ! unat b = ix ! unat b' \<and> ix ! unat b \<noteq> 255 \<longrightarrow> b = b')"

fun art_node_ok :: "'v Node \<Rightarrow> bool" where
  "art_node_ok (ArtLeaf k v) \<longleftrightarrow> True"
| "art_node_ok (Node4 h ks cs) \<longleftrightarrow> arrays_ok 4 (num_children h) ks cs"
| "art_node_ok (Node16 h ks cs) \<longleftrightarrow>
     arrays_ok 16 (num_children h) ks cs \<and> sorted_wrt (<) (take (num_children h) ks)"
| "art_node_ok (Node48 h ix cs) \<longleftrightarrow> index_ok ix cs \<and> num_children h = card {b :: u8. ix ! unat b \<noteq> 255}"
| "art_node_ok (Node256 h cs) \<longleftrightarrow> length cs = 256 \<and> num_children h = card {b :: u8. cs ! unat b \<noteq> None}"

text \<open>Where a new child may go: a full \<open>Node4\<close> must be sorted, and the next slot of a \<open>Node48\<close> free.\<close>

fun room_ok :: "'v Node \<Rightarrow> bool" where
  "room_ok (Node4 h ks cs) \<longleftrightarrow> num_children h < 4 \<or> sorted_wrt (<) ks"
| "room_ok (Node48 h ix cs) \<longleftrightarrow> (num_children h < 48 \<longrightarrow> cs ! num_children h = None)"
| "room_ok _ \<longleftrightarrow> True"

definition like :: "'v Node \<Rightarrow> 'v Node \<Rightarrow> bool" where
  "like n n' \<longleftrightarrow> art_partial n' = art_partial n \<and> inner_value n' = inner_value n \<and> \<not> art_is_leaf n' \<and> art_node_ok n'"

lemmas head_defs = like_def art_partial_def inner_value_def

lemma one_more_simps [simp]:
  "num_children (one_more h) = Suc (num_children h)" "partial_key (one_more h) = partial_key h"
  "header_value (one_more h) = header_value h"
  by (simp_all add: one_more_def)

lemma one_less_simps [simp]:
  "num_children (one_less h) = num_children h - 1" "partial_key (one_less h) = partial_key h"
  "header_value (one_less h) = header_value h"
  by (simp_all add: one_less_def)

text \<open>The array nodes look children up in their list of pairs.\<close>

abbreviation join :: "'a option option \<Rightarrow> 'a option" where
  "join x \<equiv> Option.bind x (\<lambda>y. y)"

lemma arrays_lookup:
  assumes "arrays_ok cap n ks cs"
  shows "(case key_position n ks b of None \<Rightarrow> None | Some i \<Rightarrow> child_at cs i) = join (map_of (kids_of n ks cs) b)"
proof (cases "key_position n ks b")
  case None
  then have "b \<notin> set (take n ks)"
    using assms by (auto simp: key_position_None arrays_ok_def in_set_conv_nth)
  then have "map_of (kids_of n ks cs) b = None"
    by (auto simp: map_of_eq_None_iff dest: set_zip_leftD)
  with None show ?thesis by simp
next
  case (Some i)
  with key_position_Some have i: "i < n" "ks ! i = b" by auto
  with assms map_of_zip_nth [of "take n ks" "take n cs" i]
  have "map_of (kids_of n ks cs) b = Some (cs ! i)" by (auto simp: arrays_ok_def)
  with Some i assms show ?thesis by (auto simp: arrays_ok_def child_at_def)
qed

lemma arrays_present:
  assumes "arrays_ok cap n ks cs" "(b, oc) \<in> set (kids_of n ks cs)"
  obtains c where "oc = Some c"
  using assms by (cases oc) (auto simp: arrays_ok_def dest: set_zip_rightD)

lemma find_child_node4: "art_node_ok (Node4 h ks cs) \<Longrightarrow> find_child (Node4 h ks cs) b = join (map_of (kids_of (num_children h) ks cs) b)"
  using arrays_lookup by (simp del: bind_eq_None_conv) blast

lemma find_child_node16: "art_node_ok (Node16 h ks cs) \<Longrightarrow> find_child (Node16 h ks cs) b = join (map_of (kids_of (num_children h) ks cs) b)"
proof -
  assume ok: "art_node_ok (Node16 h ks cs)"
  then have "n16_search ks b 0 (num_children h) = key_position (num_children h) ks b"
    by (intro n16_search_correct) (auto simp: arrays_ok_def)
  with ok show ?thesis using arrays_lookup [of 16 "num_children h" ks cs b] by simp
qed

section \<open>Adding a child\<close>

lemma kids_insert:
  assumes "arrays_ok cap n ks cs" "n < cap" "pos \<le> n"
  shows "kids_of (Suc n) (array_insert pos n b ks) (array_insert pos n oc cs) =
    take pos (kids_of n ks cs) @ (b, oc) # drop pos (kids_of n ks cs)"
  using assms by (simp add: take_array_insert arrays_ok_def zip_append take_zip drop_zip min_def)

lemma map_of_insert_mid: "b \<notin> fst ` set xs \<Longrightarrow> map_of (xs @ (b, x) # ys) = (map_of (xs @ ys))(b \<mapsto> x)"
  by (induction xs) (auto simp: fun_upd_twist)

lemma kids_absent:
  assumes "arrays_ok cap n ks cs" "join (map_of (kids_of n ks cs) b) = None"
  shows "b \<notin> fst ` set (kids_of n ks cs)" "b \<notin> set (take n ks)"
proof -
  show "b \<notin> fst ` set (kids_of n ks cs)"
  proof
    assume "b \<in> fst ` set (kids_of n ks cs)"
    then obtain oc where "map_of (kids_of n ks cs) b = Some oc"
      by (metis map_of_eq_None_iff not_None_eq)
    moreover with arrays_present [OF assms(1)] obtain c where "oc = Some c" by (metis map_of_SomeD)
    ultimately show False using assms(2) by simp
  qed
  moreover have "map fst (kids_of n ks cs) = take n ks" using assms(1) by (simp add: arrays_ok_def)
  ultimately show "b \<notin> set (take n ks)" by (metis list.set_map)
qed

lemma insert_pos_le: "insert_pos ks b n \<le> n"
  by (auto simp: insert_pos_def find_Some_iff split: option.splits)

lemma insert_mid:
  "distinct (take p xs @ b # drop p xs) \<longleftrightarrow> b \<notin> set xs \<and> distinct xs"
  "set (take p xs @ b # drop p xs) = insert b (set xs)"
proof -
  obtain ys zs where "take p xs = ys" "drop p xs = zs" "xs = ys @ zs" by (metis append_take_drop_id)
  then show "distinct (take p xs @ b # drop p xs) \<longleftrightarrow> b \<notin> set xs \<and> distinct xs"
    "set (take p xs @ b # drop p xs) = insert b (set xs)" by auto
qed

lemma arrays_insert:
  assumes ok: "arrays_ok cap n ks cs" and "n < cap" "pos \<le> n" and b: "b \<notin> set (take n ks)"
  shows "arrays_ok cap (Suc n) (array_insert pos n b ks) (array_insert pos n (Some c) cs)"
    and "map_of (kids_of (Suc n) (array_insert pos n b ks) (array_insert pos n (Some c) cs)) =
      (map_of (kids_of n ks cs))(b \<mapsto> Some c)"
proof -
  show "arrays_ok cap (Suc n) (array_insert pos n b ks) (array_insert pos n (Some c) cs)"
  proof -
    have "distinct (take pos (take n ks) @ b # drop pos (take n ks))"
      unfolding insert_mid using ok b by (simp add: arrays_ok_def)
    moreover have "None \<notin> set (take pos (take n cs) @ Some c # drop pos (take n cs))"
      unfolding insert_mid using ok by (simp add: arrays_ok_def)
    ultimately show ?thesis
      using assms(1-3) unfolding arrays_ok_def by (simp only: take_array_insert length_array_insert Suc_le_eq) simp
  qed
  have "b \<notin> fst ` set (take pos (kids_of n ks cs))"
    using b by (auto dest!: in_set_takeD dest: set_zip_leftD)
  then show "map_of (kids_of (Suc n) (array_insert pos n b ks) (array_insert pos n (Some c) cs)) =
      (map_of (kids_of n ks cs))(b \<mapsto> Some c)"
    using map_of_insert_mid [of b "take pos (kids_of n ks cs)" "Some c" "drop pos (kids_of n ks cs)"]
      kids_insert [OF ok assms(2,3)] append_take_drop_id [of pos "kids_of n ks cs"] by metis
qed

lemma insert_pos_sorted:
  assumes "sorted_wrt (<) (take n ks)" "n < length ks" "b \<notin> set (take n ks)"
  shows "sorted_wrt (<) (take (Suc n) (array_insert (insert_pos ks b n) n b ks))"
proof -
  let ?p = "insert_pos ks b n"
  have below: "x < b" if x: "x \<in> set (take ?p (take n ks))" for x
  proof -
    from x assms(2) obtain i where i: "i < ?p" "i < n" "x = ks ! i"
      by (auto simp: in_set_conv_nth)
    then have "\<not> b < ks ! i"
      by (auto simp: insert_pos_def find_Some_iff find_None_iff split: option.splits)
    moreover from i assms(2,3) have "ks ! i \<noteq> b" by (metis in_set_conv_nth length_take min.absorb4 nth_take)
    ultimately show ?thesis using i by simp
  qed
  have above: "b < x" if x: "x \<in> set (drop ?p (take n ks))" for x
  proof -
    from x obtain j where "j < n - ?p" "x = ks ! (?p + j)"
      using assms(2) by (auto simp: in_set_conv_nth)
    then obtain i where i: "?p \<le> i" "i < n" "x = ks ! i" by (metis add.commute le_add1 less_diff_conv)
    then have p: "?p < n" by simp
    then obtain q where q: "find (\<lambda>i. b < ks ! i) [0..<n] = Some q"
      by (auto simp: insert_pos_def split: option.splits)
    then have "?p = q" "b < ks ! q" by (simp add: insert_pos_def, auto simp: find_Some_iff)
    with i p sorted_wrt_nth_less [OF assms(1), of ?p i] assms(2) show ?thesis
      by (cases "i = ?p") auto
  qed
  have "sorted_wrt (<) (take ?p (take n ks) @ b # drop ?p (take n ks))"
    using assms(1) below above
    by (auto simp: sorted_wrt_append sorted_wrt_take sorted_wrt_drop simp del: take_take dest: order.strict_trans)
  with insert_pos_le assms(2) show ?thesis by (simp add: take_array_insert)
qed

lemma add_to_arrays:
  fixes h :: "'v NodeHeader"
  assumes ok: "arrays_ok cap (num_children h) ks cs" "num_children h < cap"
    and b: "join (map_of (kids_of (num_children h) ks cs) b) = None"
  defines "pos \<equiv> insert_pos ks b (num_children h)"
  shows "arrays_ok cap (Suc (num_children h)) (array_insert pos (num_children h) b ks)
      (array_insert pos (num_children h) (Some c) cs)"
    and "join (map_of (kids_of (Suc (num_children h)) (array_insert pos (num_children h) b ks)
        (array_insert pos (num_children h) (Some c) cs)) x) =
      ((\<lambda>y. join (map_of (kids_of (num_children h) ks cs) y))(b \<mapsto> c)) x"
proof -
  have pos: "pos \<le> num_children h" by (simp add: pos_def insert_pos_le)
  note ins = arrays_insert [OF ok pos kids_absent(2) [OF ok(1) b], of c]
  show "arrays_ok cap (Suc (num_children h)) (array_insert pos (num_children h) b ks)
      (array_insert pos (num_children h) (Some c) cs)" by (rule ins(1))
  show "join (map_of (kids_of (Suc (num_children h)) (array_insert pos (num_children h) b ks)
        (array_insert pos (num_children h) (Some c) cs)) x) =
      ((\<lambda>y. join (map_of (kids_of (num_children h) ks cs) y))(b \<mapsto> c)) x"
    by (simp only: ins(2)) auto
qed

lemma add_node4:
  assumes "art_node_ok (Node4 h ks cs)" "num_children h < 4" "find_child (Node4 h ks cs) b = None"
  shows "like (Node4 h ks cs) (add_child_to_node4 h ks cs b c) \<and>
    find_child (add_child_to_node4 h ks cs b c) = (find_child (Node4 h ks cs))(b \<mapsto> c)"
proof -
  have b: "join (map_of (kids_of (num_children h) ks cs) b) = None"
    using assms(1,3) find_child_node4 by metis
  have ok: "arrays_ok 4 (num_children h) ks cs" using assms(1) by simp
  note new = add_to_arrays [OF ok assms(2) b, of c]
  have "art_node_ok (add_child_to_node4 h ks cs b c)"
    using new(1) by (simp add: add_child_to_node4_def Let_def)
  moreover have "find_child (add_child_to_node4 h ks cs b c) x = ((find_child (Node4 h ks cs))(b \<mapsto> c)) x" for x
    using new(1) new(2) [of x] find_child_node4 [OF assms(1)]
    by (simp add: add_child_to_node4_def Let_def find_child_node4 del: find_child.simps)
  ultimately show ?thesis by (auto simp: head_defs add_child_to_node4_def Let_def)
qed

lemma add_node16:
  assumes "art_node_ok (Node16 h ks cs)" "num_children h < 16" "find_child (Node16 h ks cs) b = None"
  shows "like (Node16 h ks cs) (add_child_to_node16 h ks cs b c) \<and>
    find_child (add_child_to_node16 h ks cs b c) = (find_child (Node16 h ks cs))(b \<mapsto> c)"
proof -
  have b: "join (map_of (kids_of (num_children h) ks cs) b) = None"
    using assms(1,3) find_child_node16 by metis
  have ok: "arrays_ok 16 (num_children h) ks cs" using assms(1) by simp
  note new = add_to_arrays [OF ok assms(2) b, of c]
  have "sorted_wrt (<) (take (Suc (num_children h)) (array_insert (insert_pos ks b (num_children h)) (num_children h) b ks))"
    using assms(1,2) kids_absent(2) [OF ok b] by (intro insert_pos_sorted) (auto simp: arrays_ok_def)
  then have "art_node_ok (add_child_to_node16 h ks cs b c)"
    using new(1) by (simp add: add_child_to_node16_def Let_def)
  moreover from this have "find_child (add_child_to_node16 h ks cs b c) x = ((find_child (Node16 h ks cs))(b \<mapsto> c)) x" for x
    using new(2) [of x] find_child_node16 [OF assms(1)]
    by (simp add: add_child_to_node16_def Let_def find_child_node16 del: find_child.simps)
  ultimately show ?thesis by (auto simp: head_defs add_child_to_node16_def Let_def)
qed

text \<open>A \<open>Node4\<close> whose keys are sorted becomes a \<open>Node16\<close> with the same children.\<close>

lemma grow_node16:
  assumes ok: "art_node_ok (Node4 h ks cs)" and full: "num_children h = 4" and "sorted_wrt (<) ks"
  defines "n16 \<equiv> Node16 h (grow_keys (num_children h) ks) (grow_children 16 (num_children h) cs)"
  shows "like (Node4 h ks cs) n16 \<and> find_child n16 = find_child (Node4 h ks cs)"
proof -
  have arr: "take 4 (grow_keys 4 ks) = take 4 ks" "take 4 (grow_children 16 4 cs) = take 4 cs"
    "length (grow_keys 4 ks) = 16" "length (grow_children 16 4 cs) = 16"
    using assms by (simp_all add: grow_keys_def grow_children_def copy_prefix_eq arrays_ok_def)
  with assms have ok16: "art_node_ok n16" by (auto simp: arrays_ok_def)
  have "find_child n16 x = find_child (Node4 h ks cs) x" for x
    using ok16 ok full arr by (simp add: n16_def find_child_node4 find_child_node16 del: find_child.simps)
  with ok16 show ?thesis by (auto simp: head_defs n16_def)
qed

lemma unat_less_u8 [simp]: "unat (b :: u8) < 256"
  using unsigned_less [of b] by simp

lemma byte_update [simp]:
  "length xs = 256 \<Longrightarrow> xs[unat (b :: u8) := x] ! unat b' = (if b' = b then x else xs ! unat b')"
  by (auto simp: nth_list_update word_unat_eq_iff)

lemma unat_small [simp]: "i < 255 \<Longrightarrow> unat (word_of_nat i :: u8) = i" "i < 255 \<Longrightarrow> (word_of_nat i :: u8) \<noteq> 255"
proof -
  show *: "unat (word_of_nat i :: u8) = i" if "i < 255" for i
    using that by (simp add: unat_of_nat)
  show "i < 255 \<Longrightarrow> (word_of_nat i :: u8) \<noteq> 255"
  proof
    assume "i < 255" "(word_of_nat i :: u8) = 255"
    with * [of i] have "unat (255 :: u8) = i" by metis
    with \<open>i < 255\<close> show False by simp
  qed
qed

lemma index_okD:
  fixes b b' :: u8
  assumes "index_ok ix cs"
  shows "length ix = 256" "length cs = 48"
    and "ix ! unat b \<noteq> 255 \<Longrightarrow> unat (ix ! unat b) < 48"
    and "ix ! unat b \<noteq> 255 \<Longrightarrow> cs ! unat (ix ! unat b) \<noteq> None"
    and "ix ! unat b = ix ! unat b' \<Longrightarrow> ix ! unat b \<noteq> 255 \<Longrightarrow> b = b'"
  using assms unfolding index_ok_def by blast+

lemma index_okI:
  assumes "length ix = 256" "length cs = 48"
    and "\<And>b :: u8. ix ! unat b \<noteq> 255 \<Longrightarrow> unat (ix ! unat b) < 48 \<and> cs ! unat (ix ! unat b) \<noteq> None"
    and "\<And>b b' :: u8. ix ! unat b = ix ! unat b' \<Longrightarrow> ix ! unat b \<noteq> 255 \<Longrightarrow> b = b'"
  shows "index_ok ix cs"
  using assms unfolding index_ok_def by blast

lemma find_child_node48:
  assumes "index_ok ix cs"
  shows "find_child (Node48 h ix cs) b = (if ix ! unat b = 255 then None else cs ! unat (ix ! unat b))"
  using index_okD(2,3) [OF assms] by (simp add: child_at_def Let_def)

lemma card_byte_insert:
  fixes b :: u8
  assumes "length xs = 256" "xs ! unat b = none" "x \<noteq> none"
  shows "card {b' :: u8. xs[unat b := x] ! unat b' \<noteq> none} = Suc (card {b' :: u8. xs ! unat b' \<noteq> none})"
proof -
  have "{b' :: u8. xs[unat b := x] ! unat b' \<noteq> none} = insert b {b' :: u8. xs ! unat b' \<noteq> none}"
    using assms by auto
  with assms show ?thesis by simp
qed

lemma card_byte_remove:
  fixes b :: u8
  assumes "length xs = 256" "xs ! unat b \<noteq> none"
  shows "card {b' :: u8. xs[unat b := none] ! unat b' \<noteq> none} = card {b' :: u8. xs ! unat b' \<noteq> none} - 1"
proof -
  have "{b' :: u8. xs[unat b := none] ! unat b' \<noteq> none} = {b' :: u8. xs ! unat b' \<noteq> none} - {b}"
    using assms by auto
  with assms show ?thesis by simp
qed

lemma add_node48:
  assumes "art_node_ok (Node48 h ix cs)" "num_children h < 48" "cs ! num_children h = None"
    "find_child (Node48 h ix cs) b = None"
  shows "like (Node48 h ix cs) (add_child_to_node48 h ix cs b c) \<and>
    find_child (add_child_to_node48 h ix cs b c) = (find_child (Node48 h ix cs))(b \<mapsto> c)"
proof -
  let ?n = "num_children h" and ?w = "word_of_nat (num_children h) :: u8"
  let ?ix = "ix[unat b := ?w]" and ?cs = "cs[num_children h := Some c]"
  have ix: "index_ok ix cs" using assms(1) by simp
  note ixD = index_okD [OF ix]
  have free: "ix ! unat b = 255"
    using assms(4) ixD(4) [of b] unfolding find_child_node48 [OF ix] by (simp split: if_splits)
  have n: "?w \<noteq> 255" "unat ?w = ?n" using assms(2) by simp_all
  have unused: "ix ! unat b' \<noteq> ?w" for b' :: u8
    using ixD(4) [of b'] assms(3) n by metis
  then have slot: "unat (ix ! unat b') \<noteq> ?n" for b' :: u8
    using n(2) by (metis word_unat_eq_iff)
  have ix': "index_ok ?ix ?cs"
  proof (rule index_okI)
    fix b' :: u8 assume "?ix ! unat b' \<noteq> 255"
    then show "unat (?ix ! unat b') < 48 \<and> ?cs ! unat (?ix ! unat b') \<noteq> None"
      using ixD(1,2) ixD(3,4) [of b'] slot [of b'] n assms(2) by (auto simp: nth_list_update)
  next
    fix b1 b2 :: u8 assume "?ix ! unat b1 = ?ix ! unat b2" "?ix ! unat b1 \<noteq> 255"
    then show "b1 = b2" using ixD(1) ixD(5) [of b1 b2] unused [of b1] unused [of b2] by (auto split: if_splits)
  qed (use ixD in simp_all)
  have "card {b' :: u8. ?ix ! unat b' \<noteq> 255} = Suc ?n"
    using assms(1) free n(1) ixD(1) by (subst card_byte_insert) auto
  with ix' have ok': "art_node_ok (add_child_to_node48 h ix cs b c)"
    by (simp add: add_child_to_node48_def Let_def)
  have "find_child (Node48 (one_more h) ?ix ?cs) x = ((find_child (Node48 h ix cs))(b \<mapsto> c)) x" for x
    unfolding find_child_node48 [OF ix'] fun_upd_apply find_child_node48 [OF ix]
    using ixD(1,2) slot [of x, symmetric] n assms(2) by simp
  with ok' show ?thesis by (auto simp: head_defs add_child_to_node48_def Let_def simp del: find_child.simps)
qed

lemma find_snoc: "find P (xs @ [x]) = (case find P xs of Some y \<Rightarrow> Some y | None \<Rightarrow> if P x then Some x else None)"
  by (induction xs) auto

lemma grow_index_nth:
  fixes b :: u8
  assumes "distinct (take n ks)" "n \<le> length ks" "n < 255"
  shows "length (grow_index n ks) = 256 \<and>
    grow_index n ks ! unat b = (case key_position n ks b of Some i \<Rightarrow> word_of_nat i | None \<Rightarrow> 255)"
  using assms
proof (induction n)
  case (Suc n)
  have pos: "key_position (Suc n) ks b = (if b = ks ! n then Some n else key_position n ks b)"
  proof (cases "b = ks ! n")
    case True
    then show ?thesis using key_position_unique [OF Suc.prems(1,2), of n] by simp
  next
    case False
    then show ?thesis by (auto simp: key_position_def find_snoc split: option.splits)
  qed
  have "distinct (take n ks)" using distinct_take [OF Suc.prems(1), of n] by simp
  with Suc have "length (grow_index n ks) = 256"
    "grow_index n ks ! unat b = (case key_position n ks b of Some i \<Rightarrow> word_of_nat i | None \<Rightarrow> 255)"
    by auto
  moreover have "grow_index (Suc n) ks = (grow_index n ks)[unat (ks ! n) := word_of_nat n]"
    by (simp add: grow_index_def)
  ultimately show ?case by (simp add: pos)
qed (simp add: grow_index_def key_position_def)

lemma grow_node48:
  assumes ok: "art_node_ok (Node16 h ks cs)" and full: "num_children h = 16"
  defines "n48 \<equiv> Node48 h (grow_index (num_children h) ks) (grow_children 48 (num_children h) cs)"
  shows "like (Node16 h ks cs) n48 \<and> find_child n48 = find_child (Node16 h ks cs) \<and>
    grow_children 48 (num_children h) cs ! 16 = None"
proof -
  let ?ix = "grow_index 16 ks" and ?cs = "grow_children 48 16 cs"
  have arr: "length ks = 16" "length cs = 16" "distinct ks" "None \<notin> set cs"
    using ok full by (auto simp: arrays_ok_def)
  have ixn: "length ?ix = 256" "?ix ! unat b = (case key_position 16 ks b of Some i \<Rightarrow> word_of_nat i | None \<Rightarrow> 255)"
    for b :: u8
    using grow_index_nth [of 16 ks b] arr by simp_all
  have cs: "?cs = cs @ replicate 32 None" using arr by (simp add: grow_children_def copy_prefix_eq)
  have kp: "key_position 16 ks b = Some i \<Longrightarrow> i < 16 \<and> ks ! i = b \<and> cs ! i \<noteq> None" for b i
    using key_position_Some [of 16 ks b i] arr by (metis nth_mem)
  have hit: "?ix ! unat b \<noteq> 255 \<Longrightarrow> \<exists>i < 16. key_position 16 ks b = Some i \<and> ?ix ! unat b = word_of_nat i" for b :: u8
    using kp [of b] by (auto simp: ixn split: option.splits)
  have index: "index_ok ?ix ?cs"
  proof (rule index_okI)
    fix b :: u8 assume "?ix ! unat b \<noteq> 255"
    with hit obtain i where "i < 16" "key_position 16 ks b = Some i" "?ix ! unat b = word_of_nat i" by blast
    with kp [of b i] arr show "unat (?ix ! unat b) < 48 \<and> ?cs ! unat (?ix ! unat b) \<noteq> None"
      by (simp add: cs nth_append)
  next
    fix b1 b2 :: u8 assume eq: "?ix ! unat b1 = ?ix ! unat b2" "?ix ! unat b1 \<noteq> 255"
    with hit [of b1] hit [of b2] obtain i j where
      ij: "i < 16" "key_position 16 ks b1 = Some i" "?ix ! unat b1 = word_of_nat i"
      "j < 16" "key_position 16 ks b2 = Some j" "?ix ! unat b2 = word_of_nat j" by auto
    with eq(1) have "unat (word_of_nat i :: u8) = unat (word_of_nat j :: u8)" by metis
    with ij(1,4) have "i = j" by simp
    with ij kp [of b1 i] kp [of b2 j] show "b1 = b2" by auto
  qed (use ixn cs arr in simp_all)
  have "{b :: u8. ?ix ! unat b \<noteq> 255} = set ks"
  proof (intro set_eqI iffI; unfold mem_Collect_eq)
    fix b :: u8 assume "?ix ! unat b \<noteq> 255"
    with hit kp arr show "b \<in> set ks" by (metis nth_mem)
  next
    fix b :: u8 assume "b \<in> set ks"
    then obtain i where "i < 16" "b = ks ! i" using arr by (auto simp: in_set_conv_nth)
    with arr key_position_unique [of 16 ks i] show "?ix ! unat b \<noteq> 255" by (simp add: ixn)
  qed
  then have ok48: "art_node_ok n48"
    using index arr full distinct_card [of ks] by (simp add: n48_def)
  have "find_child n48 b = find_child (Node16 h ks cs) b" for b
    unfolding n48_def full find_child_node48 [OF index] find_child_node16 [OF ok]
    using arrays_lookup [of 16 16 ks cs b] kp [of b] arr
    by (auto simp: full ixn cs arrays_ok_def child_at_def nth_append split: option.splits)
  with ok48 show ?thesis using arr full by (auto simp: head_defs n48_def cs nth_append)
qed

lemma find_child_node256: "length cs = 256 \<Longrightarrow> find_child (Node256 h cs) b = cs ! unat b"
  by (simp add: child_at_def)

lemma add_node256:
  assumes "art_node_ok (Node256 h cs)" "find_child (Node256 h cs) b = None"
  shows "like (Node256 h cs) (add_child_to_node256 h cs b c) \<and>
    find_child (add_child_to_node256 h cs b c) = (find_child (Node256 h cs))(b \<mapsto> c)"
proof -
  have len: "length cs = 256" and free: "cs ! unat b = None"
    using assms by (simp_all add: find_child_node256 del: find_child.simps)
  have "art_node_ok (add_child_to_node256 h cs b c)"
    using assms(1) card_byte_insert [OF len free, of "Some c"] by (simp add: add_child_to_node256_def len)
  moreover have "find_child (add_child_to_node256 h cs b c) x = ((find_child (Node256 h cs))(b \<mapsto> c)) x" for x
    using len by (simp add: add_child_to_node256_def find_child_node256 del: find_child.simps)
  ultimately show ?thesis by (auto simp: head_defs add_child_to_node256_def)
qed

lemma grow_node256:
  assumes ok: "art_node_ok (Node48 h ix cs)"
  defines "n256 \<equiv> Node256 h (spread_children ix cs)"
  shows "like (Node48 h ix cs) n256 \<and> find_child n256 = find_child (Node48 h ix cs)"
proof -
  have len: "length (spread_children ix cs) = 256" by (simp add: spread_children_def)
  have nth: "spread_children ix cs ! unat b = find_child (Node48 h ix cs) b" for b :: u8
    by (simp add: spread_children_def)
  have ix: "index_ok ix cs" using ok by simp
  have "(spread_children ix cs ! unat b \<noteq> None) = (ix ! unat b \<noteq> 255)" for b :: u8
    unfolding nth find_child_node48 [OF ix] using index_okD(4) [OF ix, of b] by simp
  then have "art_node_ok n256" using ok len by (simp add: n256_def)
  moreover have "find_child n256 x = find_child (Node48 h ix cs) x" for x
    unfolding n256_def find_child_node256 [OF len] nth ..
  ultimately show ?thesis by (auto simp: head_defs n256_def)
qed

lemma like_trans: "like m n \<Longrightarrow> like n p \<Longrightarrow> like m p"
  by (simp add: like_def)

theorem add_child_correct:
  assumes "art_node_ok n" "\<not> art_is_leaf n" "find_child n b = None" "room_ok n"
  obtains n' where "add_child n b c = Ok n'" "like n n'" "find_child n' = (find_child n)(b \<mapsto> c)"
proof (cases n)
  case (Node4 h ks cs)
  show thesis
  proof (cases "num_children h < 4")
    case True
    with add_node4 [of h ks cs b c] assms Node4 that show thesis
      by (simp add: Let_def del: find_child.simps art_node_ok.simps)
  next
    case False
    then have full: "num_children h = 4" using assms(1) Node4 by (simp add: arrays_ok_def)
    let ?n16 = "Node16 h (grow_keys (num_children h) ks) (grow_children 16 (num_children h) cs)"
    have g: "like n ?n16" "find_child ?n16 = find_child n"
      using grow_node16 [of h ks cs] assms full Node4 by auto
    have "like ?n16 (add_child_to_node16 h (grow_keys 4 ks) (grow_children 16 4 cs) b c) \<and>
      find_child (add_child_to_node16 h (grow_keys 4 ks) (grow_children 16 4 cs) b c) = (find_child ?n16)(b \<mapsto> c)"
      using add_node16 [of h "grow_keys 4 ks" "grow_children 16 4 cs" b c] g assms(3) full
      by (simp add: like_def del: find_child.simps art_node_ok.simps)
    note added = this
    show thesis
    proof (rule that)
      show "add_child n b c = Ok (add_child_to_node16 h (grow_keys 4 ks) (grow_children 16 4 cs) b c)"
        using Node4 full by (simp add: Let_def)
    qed (use added g like_trans in auto)
  qed
next
  case (Node16 h ks cs)
  show thesis
  proof (cases "num_children h < 16")
    case True
    with add_node16 [of h ks cs b c] assms Node16 that show thesis
      by (simp add: Let_def del: find_child.simps art_node_ok.simps)
  next
    case False
    then have full: "num_children h = 16" using assms(1) Node16 by (simp add: arrays_ok_def)
    let ?n48 = "Node48 h (grow_index (num_children h) ks) (grow_children 48 (num_children h) cs)"
    have g: "like n ?n48" "find_child ?n48 = find_child n" "grow_children 48 (num_children h) cs ! 16 = None"
      using grow_node48 [of h ks cs] assms full Node16 by auto
    have "like ?n48 (add_child_to_node48 h (grow_index 16 ks) (grow_children 48 16 cs) b c) \<and>
      find_child (add_child_to_node48 h (grow_index 16 ks) (grow_children 48 16 cs) b c) = (find_child ?n48)(b \<mapsto> c)"
      using add_node48 [of h "grow_index 16 ks" "grow_children 48 16 cs" b c] g assms(3) full
      by (simp add: like_def del: find_child.simps art_node_ok.simps)
    note added = this
    show thesis
    proof (rule that)
      show "add_child n b c = Ok (add_child_to_node48 h (grow_index 16 ks) (grow_children 48 16 cs) b c)"
        using Node16 full by (simp add: Let_def)
    qed (use added g like_trans in auto)
  qed
next
  case (Node48 h ix cs)
  show thesis
  proof (cases "num_children h < 48")
    case True
    with add_node48 [of h ix cs b c] assms Node48 that show thesis
      by (simp del: find_child.simps art_node_ok.simps)
  next
    case False
    let ?n256 = "Node256 h (spread_children ix cs)"
    have g: "like n ?n256" "find_child ?n256 = find_child n"
      using grow_node256 [of h ix cs] assms Node48 by auto
    with add_node256 [of h "spread_children ix cs" b c] assms(3)
    have "like ?n256 (add_child_to_node256 h (spread_children ix cs) b c) \<and>
      find_child (add_child_to_node256 h (spread_children ix cs) b c) = (find_child ?n256)(b \<mapsto> c)"
      by (simp add: like_def del: find_child.simps art_node_ok.simps)
    note added = this
    show thesis
    proof (rule that)
      show "add_child n b c = Ok (add_child_to_node256 h (spread_children ix cs) b c)"
        using Node48 False by simp
    qed (use added g like_trans in auto)
  qed
next
  case (Node256 h cs)
  have len: "length cs = 256" using assms(1) Node256 by simp
  have "b \<notin> {b :: u8. cs ! unat b \<noteq> None}" using assms(3) Node256 len by (simp add: child_at_def)
  then have "{b :: u8. cs ! unat b \<noteq> None} \<subset> UNIV" by blast
  then have "card {b :: u8. cs ! unat b \<noteq> None} < card (UNIV :: u8 set)"
    by (intro psubset_card_mono) simp_all
  then have "num_children h < 256" using assms(1) Node256 by (simp add: card_word)
  with add_node256 [of h cs b c] assms Node256 that show thesis
    by (simp del: find_child.simps art_node_ok.simps)
qed (use assms in simp)

section \<open>Replacing a child\<close>

lemma arrays_replace:
  assumes ok: "arrays_ok cap n ks cs" and b: "key_position n ks b = Some i"
  shows "arrays_ok cap n ks (cs[i := Some c])"
    and "join (map_of (kids_of n ks (cs[i := Some c])) x) = ((\<lambda>y. join (map_of (kids_of n ks cs) y))(b \<mapsto> c)) x"
proof -
  have i: "i < n" "ks ! i = b" "n \<le> length cs" using key_position_Some [OF b] ok by (auto simp: arrays_ok_def)
  show ok': "arrays_ok cap n ks (cs[i := Some c])"
    using ok i(1) by (auto simp: arrays_ok_def take_update_swap dest!: set_update_subset_insert [THEN subsetD])
  show "join (map_of (kids_of n ks (cs[i := Some c])) x) = ((\<lambda>y. join (map_of (kids_of n ks cs) y))(b \<mapsto> c)) x"
  proof (cases "x = b")
    case True
    with arrays_lookup [OF ok', of b] b i show ?thesis by (simp add: child_at_def)
  next
    case False
    have "key_position n ks x \<noteq> Some i" using key_position_Some [of n ks x i] i False by auto
    with False arrays_lookup [OF ok', of x] arrays_lookup [OF ok, of x] show ?thesis
      by (auto simp: child_at_def nth_list_update split: option.splits if_splits)
  qed
qed

theorem replace_child_correct:
  assumes "art_node_ok n" "find_child n b \<noteq> None"
  shows "like n (replace_child n b c)" "find_child (replace_child n b c) = (find_child n)(b \<mapsto> c)"
proof -
  have "like n (replace_child n b c) \<and> find_child (replace_child n b c) = (find_child n)(b \<mapsto> c)"
  proof (cases n)
    case (Node4 h ks cs)
    then obtain i where i: "key_position (num_children h) ks b = Some i"
      using assms(2) by (auto split: option.splits)
    have ok: "arrays_ok 4 (num_children h) ks cs" using assms(1) Node4 by simp
    from arrays_replace [OF ok i, of c] have "art_node_ok (replace_child n b c)"
      "find_child (replace_child n b c) x = ((find_child n)(b \<mapsto> c)) x" for x
      using i Node4 assms(1) by (simp_all add: find_child_node4 del: find_child.simps)
    with Node4 show ?thesis by (auto simp: head_defs)
  next
    case (Node16 h ks cs)
    have ok: "arrays_ok 16 (num_children h) ks cs" using assms(1) Node16 by simp
    have "n16_search ks b 0 (num_children h) = key_position (num_children h) ks b"
      using assms(1) Node16 by (intro n16_search_correct) (auto simp: arrays_ok_def)
    then obtain i where i: "key_position (num_children h) ks b = Some i"
      using assms(2) Node16 by (auto split: option.splits)
    from arrays_replace [OF ok i, of c] have "art_node_ok (replace_child n b c)"
      "find_child (replace_child n b c) x = ((find_child n)(b \<mapsto> c)) x" for x
      using i Node16 assms(1) by (simp_all add: find_child_node16 del: find_child.simps)
    with Node16 show ?thesis by (auto simp: head_defs)
  next
    case (Node48 h ix cs)
    have ix: "index_ok ix cs" using assms(1) Node48 by simp
    have used: "ix ! unat b \<noteq> 255" using assms(2) unfolding Node48 find_child_node48 [OF ix] by (simp split: if_splits)
    let ?cs = "cs[unat (ix ! unat b) := Some c]"
    note ixD = index_okD [OF ix]
    have ix': "index_ok ix ?cs"
    proof (rule index_okI)
      fix b1 :: u8 assume "ix ! unat b1 \<noteq> 255"
      with ixD(2) ixD(3,4) [of b1] ixD(3) [of b] used show "unat (ix ! unat b1) < 48 \<and> ?cs ! unat (ix ! unat b1) \<noteq> None"
        by (simp add: nth_list_update)
    next
      fix b1 b2 :: u8 assume "ix ! unat b1 = ix ! unat b2" "ix ! unat b1 \<noteq> 255"
      then show "b1 = b2" by (rule ixD(5))
    qed (use ixD(1,2) in simp_all)
    have "x \<noteq> b \<Longrightarrow> ix ! unat x \<noteq> 255 \<Longrightarrow> unat (ix ! unat b) \<noteq> unat (ix ! unat x)" for x
      using ixD(5) [of b x] used by (metis word_unat_eq_iff)
    then have "find_child (Node48 h ix ?cs) x = ((find_child (Node48 h ix cs))(b \<mapsto> c)) x" for x
      unfolding find_child_node48 [OF ix'] fun_upd_apply find_child_node48 [OF ix]
      using used ixD(2) ixD(3) [of b] by simp
    with Node48 ix' used assms(1) show ?thesis by (auto simp: head_defs Let_def simp del: find_child.simps)
  next
    case (Node256 h cs)
    have len: "length cs = 256" and used: "cs ! unat b \<noteq> None"
      using assms Node256 by (simp_all add: child_at_def)
    have "{b' :: u8. cs[unat b := Some c] ! unat b' \<noteq> None} = {b' :: u8. cs ! unat b' \<noteq> None}"
      using len used by auto
    then have "art_node_ok (replace_child n b c)" using assms(1) Node256 by simp
    moreover have "find_child (replace_child n b c) x = ((find_child n)(b \<mapsto> c)) x" for x
      using len Node256 by (simp add: find_child_node256 del: find_child.simps)
    ultimately show ?thesis using Node256 by (auto simp: head_defs)
  qed (use assms in simp)
  then show "like n (replace_child n b c)" "find_child (replace_child n b c) = (find_child n)(b \<mapsto> c)" by auto
qed

section \<open>Headers and new nodes\<close>

lemma map_header_simps [simp]:
  "art_is_leaf (map_header f n) = art_is_leaf n" "header_of (map_header f n) = map_option f (header_of n)"
  by (cases n; simp)+

lemma find_child_map_header: "(\<And>h. num_children (f h) = num_children h) \<Longrightarrow> find_child (map_header f n) = find_child n"
  by (cases n) (auto intro!: ext)

lemma node_ok_map_header: "(\<And>h. num_children (f h) = num_children h) \<Longrightarrow> art_node_ok (map_header f n) = art_node_ok n"
  by (cases n) auto

lemmas header_ops = set_node_value_def clear_node_value_def update_partial_def

lemma header_op_facts [simp]:
  "find_child (set_node_value n v) = find_child n" "find_child (clear_node_value n) = find_child n"
  "find_child (update_partial n p) = find_child n"
  "art_node_ok (set_node_value n v) = art_node_ok n" "art_node_ok (clear_node_value n) = art_node_ok n"
  "art_node_ok (update_partial n p) = art_node_ok n"
  "art_is_leaf (set_node_value n v) = art_is_leaf n" "art_is_leaf (clear_node_value n) = art_is_leaf n"
  "art_is_leaf (update_partial n p) = art_is_leaf n"
  by (simp_all add: header_ops find_child_map_header node_ok_map_header)

lemma header_of_inner: "\<not> art_is_leaf n \<Longrightarrow> \<exists>h. header_of n = Some h"
  by (cases n) auto

lemma header_op_heads:
  "art_partial (set_node_value n v) = art_partial n" "art_partial (clear_node_value n) = art_partial n"
  "inner_value (update_partial n p) = inner_value n" "inner_value (clear_node_value n) = None"
  "\<not> art_is_leaf n \<Longrightarrow> inner_value (set_node_value n v) = Some v"
  "\<not> art_is_leaf n \<Longrightarrow> art_partial (update_partial n p) = p"
  using header_of_inner [of n]
  by (auto simp: header_ops art_partial_def inner_value_def split: option.splits)

lemma new_node4_facts:
  "find_child (new_node4 p) = Map.empty" "art_partial (new_node4 p) = p" "inner_value (new_node4 p) = None"
  by (auto simp: new_node4_def art_new_header_def key_position_def head_defs intro!: ext)

text \<open>The inner nodes that an insertion creates, with one child and a value or with two children.\<close>

lemma new_node_one:
  fixes p :: bytes and v :: 'v and b :: u8 and c :: "'v Node"
  defines "n \<equiv> add_child_unchecked (set_node_value (new_node4 p) v) b c"
  shows "art_node_ok n" "\<not> art_is_leaf n" "art_partial n = p" "inner_value n = Some v" "find_child n = [b \<mapsto> c]"
  by (auto simp: n_def new_node4_def art_new_header_def set_node_value_def one_more_def arrays_ok_def head_defs
      key_position_def child_at_def numeral_eq_Suc intro!: ext)

lemma new_node_two:
  fixes p :: bytes and b b' :: u8 and c c' :: "'v Node"
  assumes "b \<noteq> b'"
  defines "n \<equiv> add_child_unchecked (add_child_unchecked (new_node4 p) b c) b' c'"
  shows "art_node_ok n" "\<not> art_is_leaf n" "art_partial n = p" "inner_value n = None" "find_child n = [b \<mapsto> c, b' \<mapsto> c']"
  using assms(1)
  by (auto simp: n_def new_node4_def art_new_header_def one_more_def arrays_ok_def head_defs
      key_position_def child_at_def numeral_eq_Suc intro!: ext)

section \<open>Removing a child\<close>

lemma map_of_remove_nth:
  assumes "distinct (map fst ps)" "i < length ps" "fst (ps ! i) = b"
  shows "map_of (take i ps @ drop (Suc i) ps) = (map_of ps)(b := None)"
proof -
  obtain x where "ps ! i = (b, x)" using assms(3) by (cases "ps ! i") auto
  with assms(2) have ps: "ps = take i ps @ (b, x) # drop (Suc i) ps"
    by (metis id_take_nth_drop)
  let ?a = "take i ps" and ?z = "drop (Suc i) ps"
  have "distinct (map fst (?a @ (b, x) # ?z))" using assms(1) ps by metis
  then have absent: "b \<notin> fst ` set ?a" "b \<notin> fst ` set ?z" by auto
  have "map_of ps = (map_of (?a @ ?z))(b \<mapsto> x)"
    using map_of_insert_mid [OF absent(1), of x ?z] ps by metis
  moreover have "map_of (?a @ ?z) b = None" using absent by (auto simp: map_of_eq_None_iff)
  ultimately show ?thesis by (metis fun_upd_triv fun_upd_upd)
qed

lemma sorted_wrt_remove_nth: "sorted_wrt P xs \<Longrightarrow> sorted_wrt P (take i xs @ drop (Suc i) xs)"
proof -
  assume "sorted_wrt P xs"
  then have "sorted_wrt P (take i xs @ drop i xs)" by simp
  moreover have "set (drop (Suc i) xs) \<subseteq> set (drop i xs)" by (simp add: set_drop_subset_set_drop)
  moreover have "sorted_wrt P (drop (Suc i) xs)" using \<open>sorted_wrt P xs\<close> by (rule sorted_wrt_drop)
  ultimately show ?thesis unfolding sorted_wrt_append by blast
qed

lemma arrays_remove:
  assumes ok: "arrays_ok cap n ks cs" and b: "key_position n ks b = Some i"
  defines "ks' \<equiv> shift_left i n ks" and "cs' \<equiv> (shift_left i n cs)[n - 1 := None]"
  shows "arrays_ok cap (n - 1) ks' cs'"
    and "map_of (kids_of (n - 1) ks' cs') = (map_of (kids_of n ks cs))(b := None)"
    and "sorted_wrt (<) (take n ks) \<Longrightarrow> sorted_wrt (<) (take (n - 1) ks')"
proof -
  have i: "i < n" "ks ! i = b" using key_position_Some [OF b] by auto
  have len: "length ks = cap" "length cs = cap" "n \<le> cap" using ok by (auto simp: arrays_ok_def)
  have ks': "take (n - 1) ks' = take i (take n ks) @ drop (Suc i) (take n ks)"
    using take_shift_left [OF i(1), of ks] len by (simp add: ks'_def)
  have cs': "take (n - 1) cs' = take i (take n cs) @ drop (Suc i) (take n cs)"
    using take_shift_left [OF i(1), of cs] len by (simp add: cs'_def)
  have "distinct (take n ks)" "None \<notin> set (take n cs)" using ok by (auto simp: arrays_ok_def)
  then have "distinct (take i (take n ks) @ drop (Suc i) (take n ks))"
    and "None \<notin> set (take i (take n cs) @ drop (Suc i) (take n cs))"
    by (auto simp: set_take_disj_set_drop_if_distinct simp del: take_take dest: in_set_takeD in_set_dropD)
  then show "arrays_ok cap (n - 1) ks' cs'"
    unfolding arrays_ok_def ks' cs' using len by (simp add: ks'_def cs'_def)
  let ?ps = "kids_of n ks cs"
  have "kids_of (n - 1) ks' cs' = take i ?ps @ drop (Suc i) ?ps"
    unfolding ks' cs' using len by (simp add: zip_append take_zip drop_zip)
  moreover have "map_of (take i ?ps @ drop (Suc i) ?ps) = (map_of ?ps)(b := None)"
    using \<open>distinct (take n ks)\<close> i len by (intro map_of_remove_nth) (auto simp: map_fst_zip)
  ultimately show "map_of (kids_of (n - 1) ks' cs') = (map_of ?ps)(b := None)" by simp
  show "sorted_wrt (<) (take n ks) \<Longrightarrow> sorted_wrt (<) (take (n - 1) ks')"
    unfolding ks' by (rule sorted_wrt_remove_nth)
qed

end
