(* ===== verification/Art_Remove.thy ===== *)
theory Art_Remove
  imports Art_Inv
begin

text \<open>
  Removing a child keeps the node invariant: \<open>art_remove_child\<close> deletes the byte from the map of children,
  whatever node type the result shrinks to, returns no node when nothing is left, and merges a node
  that has one child and no value with that child.
\<close>

section \<open>Shrinking\<close>

lemma pack_facts:
  assumes "distinct (map fst ps)" "length ps \<le> cap" "\<forall>p \<in> set ps. snd p \<noteq> None" "pack cap ps = (ks, cs)"
  shows "arrays_ok cap (length ps) ks cs" "kids_of (length ps) ks cs = ps" "take (length ps) ks = map fst ps"
proof -
  have "ks = map fst ps @ replicate (cap - length ps) 0" "cs = map snd ps @ replicate (cap - length ps) None"
    using assms(4) by (simp_all add: pack_def)
  then show "arrays_ok cap (length ps) ks cs" "kids_of (length ps) ks cs = ps" "take (length ps) ks = map fst ps"
    using assms(1-3) by (auto simp: arrays_ok_def zip_map_fst_snd image_iff)
qed

lemma concat_if_map: "concat (map (\<lambda>x. if P x then [f x] else []) xs) = map f (filter P xs)"
  by (induction xs) auto

lemma shrink_node4:
  assumes ok: "art_node_ok (Node16 h ks cs)" and small: "num_children h \<le> 4"
  shows "like (Node16 h ks cs) (shrink_node16_to_node4 h ks cs)"
    "find_child (shrink_node16_to_node4 h ks cs) = find_child (Node16 h ks cs)"
proof -
  let ?n = "num_children h"
  let ?ps = "[(ks ! i, child_at cs i). i \<leftarrow> [0..<?n], child_at cs i \<noteq> None]"
  have arr: "length ks = 16" "length cs = 16" "distinct (take ?n ks)" "None \<notin> set (take ?n cs)"
    using ok by (auto simp: arrays_ok_def)
  have "cs ! i \<noteq> None" if "i < ?n" for i
    using arr small that by (metis in_set_conv_nth length_take min_def nth_take le_trans numeral_le_iff semiring_norm(68,69,71))
  then have "filter (\<lambda>i. child_at cs i \<noteq> None) [0..<?n] = [0..<?n]"
    using arr small by (intro filter_True) (auto simp: child_at_def)
  then have ps: "?ps = kids_of ?n ks cs"
    using arr small by (auto simp: concat_if_map child_at_def intro!: nth_equalityI)
  obtain ks' cs' where p: "pack 4 ?ps = (ks', cs')" by fastforce
  have present: "\<forall>p \<in> set (kids_of ?n ks cs). snd p \<noteq> None"
    using arr(4) by (metis prod.collapse set_zip_rightD)
  have len: "length (kids_of ?n ks cs) = ?n" "map fst (kids_of ?n ks cs) = take ?n ks"
    using arr small by auto
  have facts: "arrays_ok 4 ?n ks' cs'" "kids_of ?n ks' cs' = kids_of ?n ks cs"
    using pack_facts(1,2) [OF _ _ present p [unfolded ps], unfolded len] arr(3) small by blast+
  have eq: "shrink_node16_to_node4 h ks cs = Node4 h ks' cs'"
    unfolding shrink_node16_to_node4_def p by simp
  have ok': "art_node_ok (Node4 h ks' cs')" using facts(1) by simp
  show "like (Node16 h ks cs) (shrink_node16_to_node4 h ks cs)" using ok' eq by (simp add: head_defs)
  show "find_child (shrink_node16_to_node4 h ks cs) = find_child (Node16 h ks cs)"
    unfolding eq by (rule ext, unfold find_child_node4 [OF ok'] find_child_node16 [OF ok] facts(2)) (rule refl)
qed

text \<open>Counting bytes by their numbers.\<close>

lemma card_bytes: "card {b :: u8. P (unat b)} = length (filter P [0..<256])"
proof -
  have "unat ` {b :: u8. P (unat b)} = set (filter P [0..<256])"
  proof (intro equalityI subsetI)
    fix n assume n: "n \<in> set (filter P [0..<256])"
    then have "unat (word_of_nat n :: u8) = n" by (simp add: unat_of_nat)
    with n show "n \<in> unat ` {b :: u8. P (unat b)}" by (intro image_eqI [of _ _ "word_of_nat n"]) auto
  qed auto
  moreover have "inj_on unat {b :: u8. P (unat b)}" by (simp add: inj_on_def word_unat_eq_iff)
  ultimately have "card {b :: u8. P (unat b)} = card (set (filter P [0..<256]))" by (metis card_image)
  then show ?thesis by (metis distinct_card distinct_filter distinct_upt)
qed

lemma map_of_bytes:
  fixes x :: u8
  assumes "set bs \<subseteq> {..<256}"
  shows "map_of (map (\<lambda>b. (word_of_nat b, f b)) bs) x = (if unat x \<in> set bs then Some (f (unat x)) else None)"
  using assms by (induction bs) (auto simp: word_unat_eq_iff unat_of_nat)

lemma shrink_node16:
  assumes ok: "art_node_ok (Node48 h ix cs)" and small: "num_children h \<le> 16"
  shows "like (Node48 h ix cs) (shrink_node48_to_node16 h ix cs)"
    "find_child (shrink_node48_to_node16 h ix cs) = find_child (Node48 h ix cs)"
proof -
  let ?bs = "filter (\<lambda>b. ix ! b \<noteq> 255) [0..<256]"
  let ?ps = "map (\<lambda>b. (word_of_nat b :: u8, child_at cs (unat (ix ! b)))) ?bs"
  have ix: "index_ok ix cs" using ok by simp
  have len: "length ?ps = num_children h" using ok card_bytes [of "\<lambda>b. ix ! b \<noteq> 255"] by simp
  have less: "(word_of_nat a :: u8) < word_of_nat b" if "a < b" "b < 256" for a b
    using that by (simp add: word_less_nat_alt unat_of_nat)
  have "sorted_wrt (\<lambda>a b. a < b \<and> b < 256) ?bs"
    by (intro sorted_wrt_filter) (auto simp: sorted_wrt_iff_nth_less)
  then have sorted: "sorted_wrt (<) (map fst ?ps)"
    unfolding map_map sorted_wrt_map by (rule sorted_wrt_mono_rel [rotated]) (auto intro: less)
  have present: "\<forall>p \<in> set ?ps. snd p \<noteq> None"
  proof
    fix p assume "p \<in> set ?ps"
    then obtain b where b: "b < 256" "ix ! b \<noteq> 255" "snd p = child_at cs (unat (ix ! b))" by auto
    have "unat (word_of_nat b :: u8) = b" using b(1) by (simp add: unat_of_nat)
    with b index_okD(2) [OF ix] index_okD(3,4) [OF ix, of "word_of_nat b"] show "snd p \<noteq> None" by (simp add: child_at_def)
  qed
  obtain ks' cs' where p: "pack 16 ?ps = (ks', cs')" by fastforce
  note facts = pack_facts [OF _ _ present p, unfolded len]
  have dist: "distinct (map fst ?ps)" using sorted strict_sorted_iff by blast
  have ok': "art_node_ok (Node16 h ks' cs')" using facts(1,3) dist small sorted by simp
  have eq: "shrink_node48_to_node16 h ix cs = Node16 h ks' cs'"
    unfolding shrink_node48_to_node16_def concat_if_map p by simp
  show "like (Node48 h ix cs) (shrink_node48_to_node16 h ix cs)" using ok' eq by (simp add: head_defs)
  have "find_child (Node16 h ks' cs') x = find_child (Node48 h ix cs) x" for x
    unfolding find_child_node16 [OF ok'] facts(2) [OF dist small] find_child_node48 [OF ix]
    using index_okD(2) [OF ix] index_okD(3) [OF ix, of x] by (simp add: map_of_bytes child_at_def subset_eq)
  then show "find_child (shrink_node48_to_node16 h ix cs) = find_child (Node48 h ix cs)" by (auto simp: eq simp del: find_child.simps)
qed

lemma fold_index_length:
  "length (fold (\<lambda>(j, b) ix. ix[b := f j]) (List.enumerate m bs) ix) = length ix"
  by (induction bs arbitrary: m ix) auto

lemma fold_index_miss:
  "k \<notin> set bs \<Longrightarrow> fold (\<lambda>(j, b) ix. ix[b := f j]) (List.enumerate m bs) ix ! k = ix ! k"
  by (induction bs arbitrary: m ix) auto

lemma fold_index_hit:
  "distinct bs \<Longrightarrow> set bs \<subseteq> {..<length ix} \<Longrightarrow> j < length bs \<Longrightarrow>
   fold (\<lambda>(j, b) ix. ix[b := f j]) (List.enumerate m bs) ix ! (bs ! j) = f (m + j)"
proof (induction bs arbitrary: m ix j)
  case (Cons b bs)
  then show ?case by (cases j) (auto simp: fold_index_miss)
qed simp

lemma shrink_node48:
  assumes ok: "art_node_ok (Node256 h cs)" and small: "num_children h \<le> 48"
  shows "like (Node256 h cs) (shrink_node256_to_node48 h cs)"
    "find_child (shrink_node256_to_node48 h cs) = find_child (Node256 h cs)"
proof -
  let ?bs = "filter (\<lambda>b. child_at cs b \<noteq> None) [0..<256]"
  define ix :: "u8 list" where
    "ix = fold (\<lambda>(j, b) ix. ix[b := word_of_nat j]) (List.enumerate 0 ?bs) (replicate 256 255)"
  define cs' where "cs' = map (child_at cs) ?bs @ replicate (48 - length ?bs) None"
  have len: "length cs = 256" using ok by simp
  have n: "length ?bs = num_children h"
    using ok card_bytes [of "\<lambda>b. child_at cs b \<noteq> None"] by (simp add: child_at_def)
  have bs: "distinct ?bs" "set ?bs \<subseteq> {..<length (replicate 256 (255 :: u8))}" by auto
  have ix_len: "length ix = 256" by (simp add: ix_def fold_index_length)
  have ix_hit: "ix ! (?bs ! j) = word_of_nat j" if "j < length ?bs" for j
    using fold_index_hit [OF bs that, where m = 0] by (simp add: ix_def)
  have ix_miss: "k < 256 \<Longrightarrow> k \<notin> set ?bs \<Longrightarrow> ix ! k = 255" for k
    by (simp add: ix_def fold_index_miss)
  have used: "\<exists>j < 48. j < length ?bs \<and> unat b = ?bs ! j \<and> ix ! unat b = word_of_nat j \<and>
      cs' ! j = child_at cs (unat b) \<and> child_at cs (unat b) \<noteq> None" if "unat b \<in> set ?bs" for b :: u8
  proof -
    from that obtain j where j: "j < length ?bs" "?bs ! j = unat b" by (metis in_set_conv_nth)
    with ix_hit [of j] small n that show ?thesis
      by (intro exI [of _ j]) (auto simp: cs'_def nth_append)
  qed
  have set_iff: "ix ! unat b \<noteq> 255 \<longleftrightarrow> unat b \<in> set ?bs" for b :: u8
  proof
    show "ix ! unat b \<noteq> 255 \<Longrightarrow> unat b \<in> set ?bs" using ix_miss [of "unat b"] by auto
    show "unat b \<in> set ?bs \<Longrightarrow> ix ! unat b \<noteq> 255" using used [of b] by auto
  qed
  have index: "index_ok ix cs'"
  proof (rule index_okI)
    show "length cs' = 48" using n small by (simp add: cs'_def)
  next
    fix b :: u8 assume "ix ! unat b \<noteq> 255"
    with used [of b] set_iff show "unat (ix ! unat b) < 48 \<and> cs' ! unat (ix ! unat b) \<noteq> None" by auto
  next
    fix b1 b2 :: u8 assume eq: "ix ! unat b1 = ix ! unat b2" "ix ! unat b1 \<noteq> 255"
    have "unat b1 \<in> set ?bs" "unat b2 \<in> set ?bs" using eq set_iff by metis+
    from used [OF this(1)] used [OF this(2)] obtain i j where i: "i < 48" "unat b1 = ?bs ! i" "ix ! unat b1 = word_of_nat i"
      and j: "j < 48" "unat b2 = ?bs ! j" "ix ! unat b2 = word_of_nat j" by blast
    have "unat (word_of_nat i :: u8) = unat (word_of_nat j :: u8)" using eq(1) i(3) j(3) by simp
    with i(1) j(1) have "i = j" by simp
    with i(2) j(2) show "b1 = b2" by (simp only: word_unat_eq_iff)
  qed (rule ix_len)
  have eq: "shrink_node256_to_node48 h cs = Node48 h ix cs'"
    by (simp only: shrink_node256_to_node48_def Let_def ix_def cs'_def)
  have "card {b :: u8. ix ! unat b \<noteq> 255} = num_children h"
  proof -
    have "filter (\<lambda>k. k \<in> set ?bs) [0..<256] = ?bs" by (rule filter_cong) auto
    with n card_bytes [of "\<lambda>k. k \<in> set ?bs"] show ?thesis by (simp only: set_iff)
  qed
  with index eq have "art_node_ok (shrink_node256_to_node48 h cs)" by simp
  with eq show "like (Node256 h cs) (shrink_node256_to_node48 h cs)" by (simp add: head_defs)
  have "find_child (Node48 h ix cs') b = find_child (Node256 h cs) b" for b
    unfolding find_child_node48 [OF index] find_child.simps(5)
    using used [of b] set_iff [of b] by auto
  then show "find_child (shrink_node256_to_node48 h cs) = find_child (Node256 h cs)"
    by (auto simp: eq simp del: find_child.simps)
qed

section \<open>The three outcomes of a removal\<close>

definition removed :: "'v Node \<Rightarrow> u8 \<Rightarrow> 'v Node option \<Rightarrow> bool" where
  "removed n b r \<longleftrightarrow>
     (\<exists>n'. r = Some n' \<and> like n n' \<and> find_child n' = (find_child n)(b := None)) \<or>
     (r = None \<and> inner_value n = None \<and> (find_child n)(b := None) = Map.empty) \<or>
     (\<exists>b' c. inner_value n = None \<and> (find_child n)(b := None) = [b' \<mapsto> c] \<and>
        r = Some (update_partial c (art_partial n @ [b'] @ art_partial c)))"

lemma removed_same: "like n n' \<Longrightarrow> find_child n' = (find_child n)(b := None) \<Longrightarrow> removed n b (Some n')"
  by (auto simp: removed_def)

lemma remove_node4:
  assumes ok: "art_node_ok (Node4 h ks cs)" and b: "find_child (Node4 h ks cs) b \<noteq> None"
  shows "\<exists>r. art_remove_child (Node4 h ks cs) b = Ok r \<and> removed (Node4 h ks cs) b r"
proof -
  let ?n = "Node4 h ks cs"
  obtain i where i: "key_position (num_children h) ks b = Some i" using b by (auto split: option.splits)
  define h' ks' cs' where "h' = one_less h" and "ks' = shift_left i (num_children h) ks"
    and "cs' = (shift_left i (num_children h) cs)[num_children h - 1 := None]"
  have arr: "remove_from_arrays h ks cs b = (h', ks', cs')"
    by (simp add: remove_from_arrays_def i h'_def ks'_def cs'_def Let_def)
  have "arrays_ok 4 (num_children h) ks cs" using ok by simp
  note rem = arrays_remove [OF this i, folded ks'_def cs'_def]
  have ok': "art_node_ok (Node4 h' ks' cs')" using rem(1) by (simp add: h'_def)
  have kids: "find_child (Node4 h' ks' cs') x = ((find_child ?n)(b := None)) x" for x
    using find_child_node4 [OF ok', of x] find_child_node4 [OF ok, of x] rem(2) by (simp add: h'_def del: find_child.simps)
  then have kids': "find_child (Node4 h' ks' cs') = (find_child ?n)(b := None)" by blast
  have like': "like ?n (Node4 h' ks' cs')" using ok' by (simp add: head_defs h'_def)
  have val: "inner_value ?n = header_value h'" "art_partial ?n = partial_key h'"
    by (simp_all add: head_defs h'_def)
  consider "num_children h' = 1" "header_value h' = None" | "num_children h' = 0" "header_value h' = None"
    | "num_children h' \<noteq> 1" "num_children h' \<noteq> 0" | "header_value h' \<noteq> None" by blast
  then show ?thesis
  proof cases
    case 1
    have "None \<noteq> cs' ! 0" "length cs' = 4" using ok' 1(1) by (auto simp: arrays_ok_def take_Suc_conv_app_nth)
    then obtain c where c: "child_at cs' 0 = Some c" by (cases "cs' ! 0") (auto simp: child_at_def)
    have "find_child (Node4 h' ks' cs') x = [ks' ! 0 \<mapsto> c] x" for x
      using c 1(1) by (simp add: key_position_def)
    then have "(find_child ?n)(b := None) = [ks' ! 0 \<mapsto> c]" using kids' by (metis ext)
    with 1 c val show ?thesis by (auto simp: arr removed_def)
  next
    case 2
    have "find_child (Node4 h' ks' cs') x = None" for x using 2(1) by (simp add: key_position_def)
    then have "(find_child ?n)(b := None) = Map.empty" using kids' by (metis ext)
    with 2 val show ?thesis by (simp add: arr removed_def)
  next
    case 3
    then show ?thesis using removed_same [OF like' kids'] by (simp add: arr)
  next
    case 4
    then show ?thesis using removed_same [OF like' kids'] by (auto simp: arr)
  qed
qed

lemma remove_node16:
  assumes ok: "art_node_ok (Node16 h ks cs)" and b: "find_child (Node16 h ks cs) b \<noteq> None"
  shows "\<exists>r. art_remove_child (Node16 h ks cs) b = Ok r \<and> removed (Node16 h ks cs) b r"
proof -
  let ?n = "Node16 h ks cs"
  have "n16_search ks b 0 (num_children h) = key_position (num_children h) ks b"
    using ok by (intro n16_search_correct) (auto simp: arrays_ok_def)
  then obtain i where i: "key_position (num_children h) ks b = Some i" using b by (auto split: option.splits)
  define h' ks' cs' where "h' = one_less h" and "ks' = shift_left i (num_children h) ks"
    and "cs' = (shift_left i (num_children h) cs)[num_children h - 1 := None]"
  have arr: "remove_from_arrays h ks cs b = (h', ks', cs')"
    by (simp add: remove_from_arrays_def i h'_def ks'_def cs'_def Let_def)
  have "arrays_ok 16 (num_children h) ks cs" using ok by simp
  note rem = arrays_remove [OF this i, folded ks'_def cs'_def]
  have ok': "art_node_ok (Node16 h' ks' cs')" using rem(1,3) ok by (simp add: h'_def)
  have "find_child (Node16 h' ks' cs') x = ((find_child ?n)(b := None)) x" for x
    using find_child_node16 [OF ok', of x] find_child_node16 [OF ok, of x] rem(2) by (simp add: h'_def del: find_child.simps)
  then have kids': "find_child (Node16 h' ks' cs') = (find_child ?n)(b := None)" by blast
  have like': "like ?n (Node16 h' ks' cs')" using ok' by (simp add: head_defs h'_def)
  show ?thesis
  proof (cases "num_children h' \<le> 4")
    case True
    note sh = shrink_node4 [OF ok' True]
    have "removed ?n b (Some (shrink_node16_to_node4 h' ks' cs'))"
      using like_trans [OF like' sh(1)] sh(2) kids' by (intro removed_same) simp_all
    with True show ?thesis by (simp add: arr)
  next
    case False
    with removed_same [OF like' kids'] show ?thesis by (simp add: arr)
  qed
qed

lemma remove_node48:
  assumes ok: "art_node_ok (Node48 h ix cs)" and b: "find_child (Node48 h ix cs) b \<noteq> None"
  shows "\<exists>r. art_remove_child (Node48 h ix cs) b = Ok r \<and> removed (Node48 h ix cs) b r"
proof -
  let ?n = "Node48 h ix cs"
  have ix: "index_ok ix cs" using ok by simp
  note ixD = index_okD [OF ix]
  have used: "ix ! unat b \<noteq> 255" using b unfolding find_child_node48 [OF ix] by (simp split: if_splits)
  define h' ix' cs' where "h' = one_less h" and "ix' = ix[unat b := 255]" and "cs' = cs[unat (ix ! unat b) := None]"
  have arr: "remove_child_from_node48 h ix cs b = (h', ix', cs')"
    using used by (simp add: remove_child_from_node48_def h'_def ix'_def cs'_def Let_def)
  have other: "unat (ix ! unat b) \<noteq> unat (ix ! unat x)" if "x \<noteq> b" "ix ! unat x \<noteq> 255" for x
    using ixD(5) [of b x] used that by (metis word_unat_eq_iff)
  have index: "index_ok ix' cs'"
  proof (rule index_okI)
    fix x :: u8 assume "ix' ! unat x \<noteq> 255"
    then have "x \<noteq> b" "ix ! unat x \<noteq> 255" using ixD(1) by (auto simp: ix'_def split: if_splits)
    with ixD(1-2) ixD(3,4) [of x] other [of x] show "unat (ix' ! unat x) < 48 \<and> cs' ! unat (ix' ! unat x) \<noteq> None"
      by (simp add: ix'_def cs'_def)
  next
    fix x y :: u8 assume "ix' ! unat x = ix' ! unat y" "ix' ! unat x \<noteq> 255"
    with ixD(1) ixD(5) [of x y] show "x = y" by (auto simp: ix'_def split: if_splits)
  qed (use ixD(1,2) in \<open>simp_all add: ix'_def cs'_def\<close>)
  have "card {x :: u8. ix' ! unat x \<noteq> 255} = num_children h'"
    using card_byte_remove [OF ixD(1) used] ok by (simp add: ix'_def h'_def)
  with index have ok': "art_node_ok (Node48 h' ix' cs')" by simp
  have "find_child (Node48 h' ix' cs') x = ((find_child ?n)(b := None)) x" for x
    unfolding find_child_node48 [OF index] fun_upd_apply find_child_node48 [OF ix]
    using ixD(1) other [of x] by (simp add: ix'_def cs'_def)
  then have kids': "find_child (Node48 h' ix' cs') = (find_child ?n)(b := None)" by blast
  have like': "like ?n (Node48 h' ix' cs')" using ok' by (simp add: head_defs h'_def)
  show ?thesis
  proof (cases "num_children h' \<le> 16")
    case True
    note sh = shrink_node16 [OF ok' True]
    have "removed ?n b (Some (shrink_node48_to_node16 h' ix' cs'))"
      using like_trans [OF like' sh(1)] sh(2) kids' by (intro removed_same) simp_all
    with True show ?thesis by (simp add: arr)
  next
    case False
    with removed_same [OF like' kids'] show ?thesis by (simp add: arr)
  qed
qed

lemma remove_node256:
  assumes ok: "art_node_ok (Node256 h cs)" and b: "find_child (Node256 h cs) b \<noteq> None"
  shows "\<exists>r. art_remove_child (Node256 h cs) b = Ok r \<and> removed (Node256 h cs) b r"
proof -
  let ?n = "Node256 h cs"
  have len: "length cs = 256" and used: "cs ! unat b \<noteq> None" using assms by (auto simp: child_at_def)
  define h' cs' where "h' = one_less h" and "cs' = cs[unat b := None]"
  have arr: "remove_child_from_node256 h cs b = (h', cs')"
    using len used by (simp add: remove_child_from_node256_def child_at_def h'_def cs'_def)
  have len': "length cs' = 256" using len by (simp add: cs'_def)
  have ok': "art_node_ok (Node256 h' cs')"
    using card_byte_remove [OF len used] ok len by (simp add: h'_def cs'_def)
  have "find_child (Node256 h' cs') x = ((find_child ?n)(b := None)) x" for x
    unfolding find_child_node256 [OF len'] fun_upd_apply find_child_node256 [OF len] using len by (simp add: cs'_def)
  then have kids': "find_child (Node256 h' cs') = (find_child ?n)(b := None)" by blast
  have like': "like ?n (Node256 h' cs')" using ok' by (simp add: head_defs h'_def)
  show ?thesis
  proof (cases "num_children h' \<le> 48")
    case True
    note sh = shrink_node48 [OF ok' True]
    have "removed ?n b (Some (shrink_node256_to_node48 h' cs'))"
      using like_trans [OF like' sh(1)] sh(2) kids' by (intro removed_same) simp_all
    with True show ?thesis by (simp add: arr)
  next
    case False
    with removed_same [OF like' kids'] show ?thesis by (simp add: arr)
  qed
qed

theorem remove_child_correct:
  assumes "art_node_ok n" "find_child n b \<noteq> None"
  obtains r where "art_remove_child n b = Ok r" "removed n b r"
proof -
  have "\<exists>r. art_remove_child n b = Ok r \<and> removed n b r"
  proof (cases n)
    case (ArtLeaf k v)
    with assms show ?thesis by simp
  next
    case (Node4 h ks cs)
    with remove_node4 assms show ?thesis by blast
  next
    case (Node16 h ks cs)
    with remove_node16 assms show ?thesis by blast
  next
    case (Node48 h ix cs)
    with remove_node48 assms show ?thesis by blast
  next
    case (Node256 h cs)
    with remove_node256 assms show ?thesis by blast
  qed
  with that show thesis by blast
qed

end
