(* ===== verification/Art_Map.thy ===== *)
theory Art_Map
  imports Art_Remove "HOL-Library.Sublist"
begin

text \<open>
  The radix tree as a map. \<open>content pre n\<close> is the map a subtree represents, from what remains of a key
  after the bytes \<open>pre\<close> on the path to the subtree. An insertion that the code handles (\<open>insert_safe\<close>)
  updates that map at one key, a removal deletes one key, and both keep the invariant \<open>art_wf\<close>.
\<close>

section \<open>The invariant and the content of a subtree\<close>

inductive art_wf :: "bytes \<Rightarrow> 'v Node \<Rightarrow> bool" where
  wf_leaf: "prefix pre k \<Longrightarrow> art_wf pre (ArtLeaf k v)"
| wf_inner: "\<not> art_is_leaf n \<Longrightarrow> art_node_ok n \<Longrightarrow>
     (\<And>b c. find_child n b = Some c \<Longrightarrow> art_wf (pre @ art_partial n @ [b]) c) \<Longrightarrow> art_wf pre n"

inductive_cases art_wf_leafE: "art_wf pre (ArtLeaf k v)"

lemma art_wf_inner: "art_wf pre n \<Longrightarrow> \<not> art_is_leaf n \<Longrightarrow>
  art_node_ok n \<and> (\<forall>b c. find_child n b = Some c \<longrightarrow> art_wf (pre @ art_partial n @ [b]) c)"
  by (auto elim: art_wf.cases)

definition content :: "bytes \<Rightarrow> 'v Node \<Rightarrow> bytes \<Rightarrow> 'v option" where
  "content pre n r = art_get_loop n (pre @ r) (length pre)"

lemma content_leaf: "content pre (ArtLeaf (pre @ r) v) = [r \<mapsto> v]"
  by (auto simp: content_def art_get_loop.simps art_partial_def intro!: ext)

lemma content_end: "\<not> art_is_leaf n \<Longrightarrow> content pre n (art_partial n) = inner_value n"
  by (simp add: content_def art_get_loop.simps)

lemma content_child:
  "\<not> art_is_leaf n \<Longrightarrow> content pre n (art_partial n @ b # r) =
   (case find_child n b of None \<Rightarrow> None | Some c \<Rightarrow> content (pre @ art_partial n @ [b]) c r)"
  by (subst content_def, subst art_get_loop.simps) (simp add: nth_append content_def Let_def split: option.splits)

lemma content_other: "\<not> prefix (art_partial n) r \<Longrightarrow> content pre n r = None"
proof -
  assume "\<not> prefix (art_partial n) r"
  then have "take (length (art_partial n)) r \<noteq> art_partial n" by (metis take_is_prefix)
  then show ?thesis by (subst content_def, subst art_get_loop.simps) (simp add: Let_def)
qed

text \<open>Every remaining key falls under one of the three equations.\<close>

lemma rest_cases:
  obtains (other) "\<not> prefix p r" | (stop) "r = p" | (child) b r' where "r = p @ b # r'"
  by (metis append_Nil2 list.exhaust prefixE)

lemma content_eqI:
  assumes "\<not> art_is_leaf n" "content pre m (art_partial n) = inner_value n"
    and "\<And>r. \<not> prefix (art_partial n) r \<Longrightarrow> content pre m r = None"
    and "\<And>b r. content pre m (art_partial n @ b # r) =
      (case find_child n b of None \<Rightarrow> None | Some c \<Rightarrow> content (pre @ art_partial n @ [b]) c r)"
  shows "content pre m = content pre n"
proof
  fix r
  show "content pre m r = content pre n r"
    by (cases r rule: rest_cases [of "art_partial n"]) (use assms in \<open>simp_all add: content_other content_end content_child\<close>)
qed

text \<open>Moving bytes between the path and the compressed part of a node.\<close>

lemma content_update_partial:
  assumes "\<not> art_is_leaf n" "art_partial n = a @ q"
  shows "content pre n (a @ r) = content (pre @ a) (update_partial n q) r"
proof -
  have p: "art_partial (update_partial n q) = q" "inner_value (update_partial n q) = inner_value n"
    using assms(1) by (simp_all add: header_op_heads)
  have inner: "\<not> art_is_leaf (update_partial n q)" using assms(1) by simp
  show ?thesis
  proof (cases r rule: rest_cases [of q])
    case other
    then have "\<not> prefix (art_partial n) (a @ r)" using assms(2) by simp
    then have "content pre n (a @ r) = None" by (rule content_other)
    moreover have "content (pre @ a) (update_partial n q) r = None" using other by (intro content_other) (simp add: p)
    ultimately show ?thesis by simp
  next
    case stop
    then show ?thesis using content_end [OF assms(1), of pre] content_end [OF inner, of "pre @ a"] by (simp add: p assms(2))
  next
    case (child b r')
    then show ?thesis
      using content_child [OF assms(1), of pre b r'] content_child [OF inner, of "pre @ a" b r']
      by (simp add: p assms(2) cong: option.case_cong)
  qed
qed

lemma wf_update_partial:
  assumes "art_wf pre n" "\<not> art_is_leaf n" "art_partial n = a @ q"
  shows "art_wf (pre @ a) (update_partial n q)"
proof (rule wf_inner)
  fix b c assume "find_child (update_partial n q) b = Some c"
  with art_wf_inner [OF assms(1,2)] assms(3) show "art_wf ((pre @ a) @ art_partial (update_partial n q) @ [b]) c"
    using assms(2) by (simp add: header_op_heads)
qed (use art_wf_inner [OF assms(1,2)] assms(2) in simp_all)

text \<open>A node that differs from another in one child.\<close>

lemma content_upd:
  assumes "like n n'" "\<not> art_is_leaf n" "find_child n' = (find_child n)(b := x)"
  shows "content pre n' r =
    (if prefix (art_partial n @ [b]) r
     then case x of None \<Rightarrow> None | Some c \<Rightarrow> content (pre @ art_partial n @ [b]) c (drop (length (art_partial n) + 1) r)
     else content pre n r)"
proof -
  have head: "art_partial n' = art_partial n" "inner_value n' = inner_value n" "\<not> art_is_leaf n'"
    using assms(1) by (auto simp: like_def)
  show ?thesis
  proof (cases r rule: rest_cases [of "art_partial n"])
    case other
    moreover from this have "\<not> prefix (art_partial n @ [b]) r" by (meson append_prefixD)
    ultimately show ?thesis using head(1) by (simp add: content_other)
  next
    case stop
    with content_end [OF head(3), of pre] content_end [OF assms(2), of pre] head show ?thesis by simp
  next
    case (child b' r')
    with content_child [OF head(3), of pre b' r'] content_child [OF assms(2), of pre b' r'] head assms(3)
    show ?thesis by (auto cong: option.case_cong)
  qed
qed

lemma content_head:
  assumes "\<not> art_is_leaf n" "\<not> art_is_leaf n'" "art_partial n' = art_partial n" "find_child n' = find_child n"
  shows "content pre n' = (content pre n)(art_partial n := inner_value n')"
proof
  fix r
  show "content pre n' r = ((content pre n)(art_partial n := inner_value n')) r"
  proof (cases r rule: rest_cases [of "art_partial n"])
    case other
    with assms(3) content_other [of n r pre] content_other [of n' r pre] show ?thesis by auto
  next
    case stop
    with content_end [OF assms(2), of pre] assms(3) show ?thesis by simp
  next
    case (child b r')
    with content_child [OF assms(1), of pre b r'] content_child [OF assms(2), of pre b r'] assms(3,4)
    show ?thesis by (simp cong: option.case_cong)
  qed
qed

lemma wf_upd:
  assumes "like n n'" "art_wf pre n" "\<not> art_is_leaf n" "find_child n' = (find_child n)(b := x)"
    and "\<And>c. x = Some c \<Longrightarrow> art_wf (pre @ art_partial n @ [b]) c"
  shows "art_wf pre n'"
proof (rule wf_inner)
  fix b' c assume "find_child n' b' = Some c"
  with assms art_wf_inner [OF assms(2,3)] show "art_wf (pre @ art_partial n' @ [b']) c"
    by (auto simp: like_def split: if_splits)
qed (use assms(1) in \<open>simp_all add: like_def\<close>)

section \<open>Common prefixes\<close>

lemma find_map_Suc: "find P (map Suc xs) = map_option Suc (find (\<lambda>i. P (Suc i)) xs)"
  by (induction xs) auto

lemma common_len_find:
  "common_len p r = (case find (\<lambda>i. p ! i \<noteq> r ! i) [0..<min (length p) (length r)] of
     Some i \<Rightarrow> i | None \<Rightarrow> min (length p) (length r))"
proof (induction p r rule: common_len.induct)
  case (1 x xs y ys)
  have "[0..<Suc n] = 0 # map Suc [0..<n]" for n by (simp add: upt_conv_Cons map_Suc_upt del: upt_Suc)
  with 1 show ?case by (auto simp: find_map_Suc simp del: upt_Suc split: option.splits)
qed auto

lemma check_prefix_common: "check_prefix p (pre @ r) (length pre) = common_len p r"
proof -
  have "find (\<lambda>i. p ! i \<noteq> (pre @ r) ! (length pre + i)) [0..<min (length p) (length r)] =
    find (\<lambda>i. p ! i \<noteq> r ! i) [0..<min (length p) (length r)]" by (simp add: nth_append)
  then show ?thesis by (simp add: check_prefix_def common_len_find Let_def)
qed

lemma common_len_split:
  obtains x p' r' where "p = x @ p'" "r = x @ r'" "length x = common_len p r"
    "p' = [] \<or> r' = [] \<or> hd p' \<noteq> hd r'"
proof (induction p r arbitrary: thesis rule: common_len.induct)
  case (1 a p b r)
  show ?case
  proof (cases "a = b")
    case True
    from "1.IH" [OF True] obtain x p' r' where "p = x @ p'" "r = x @ r'" "length x = common_len p r"
      "p' = [] \<or> r' = [] \<or> hd p' \<noteq> hd r'" by blast
    with True "1.prems" [of "a # x" p' r'] show ?thesis by simp
  next
    case False
    with "1.prems" [of "[]" "a # p" "b # r"] show ?thesis by simp
  qed
qed auto

lemma common_len_prefix: "common_len p r < length p \<longleftrightarrow> \<not> prefix p r"
proof -
  obtain x p' r' where x: "p = x @ p'" "r = x @ r'" "length x = common_len p r"
    "p' = [] \<or> r' = [] \<or> hd p' \<noteq> hd r'" by (rule common_len_split)
  show ?thesis
  proof (cases p')
    case Nil
    with x show ?thesis by auto
  next
    case (Cons a p'')
    with x show ?thesis by (cases r') auto
  qed
qed

section \<open>Insertion\<close>

text \<open>
  The insertions that the code handles: the key does not end inside a compressed path, and the node
  that gets a new child has room for it in the sense of \<open>room_ok\<close>.
\<close>

function insert_safe :: "'v Node \<Rightarrow> bytes \<Rightarrow> nat \<Rightarrow> bool" where
  "insert_safe n key depth =
     (let partial = art_partial n; m = check_prefix partial key depth; d = depth + length partial in
      if m < length partial then depth + m < length key
      else if art_is_leaf n \<or> length key \<le> d then True
      else case find_child n (key ! d) of Some c \<Rightarrow> insert_safe c key (d + 1) | None \<Rightarrow> room_ok n)"
  by pat_completeness auto
termination
  by (relation "measure (\<lambda>(n, key, depth). size n)") (auto dest: size_find_child)

declare insert_safe.simps [simp del]

lemma content_two:
  assumes "\<not> art_is_leaf n" "art_partial n = p" "find_child n = [b1 \<mapsto> c1, b2 \<mapsto> c2]" "b1 \<noteq> b2"
  shows "content pre n r =
    (if r = p then inner_value n
     else if prefix (p @ [b1]) r then content (pre @ p @ [b1]) c1 (drop (length p + 1) r)
     else if prefix (p @ [b2]) r then content (pre @ p @ [b2]) c2 (drop (length p + 1) r)
     else None)"
proof (cases r rule: rest_cases [of p])
  case other
  moreover from this have "\<not> prefix (p @ [b1]) r" "\<not> prefix (p @ [b2]) r" "r \<noteq> p" by (auto dest: append_prefixD)
  ultimately show ?thesis using assms(2) content_other [of n r pre] by simp
next
  case stop
  with content_end [OF assms(1), of pre] assms(2) show ?thesis by simp
next
  case (child b r')
  with content_child [OF assms(1), of pre b r'] assms show ?thesis by auto
qed

lemma content_one:
  assumes "\<not> art_is_leaf n" "art_partial n = p" "find_child n = [b \<mapsto> c]"
  shows "content pre n r =
    (if r = p then inner_value n
     else if prefix (p @ [b]) r then content (pre @ p @ [b]) c (drop (length p + 1) r) else None)"
proof (cases r rule: rest_cases [of p])
  case other
  moreover from this have "\<not> prefix (p @ [b]) r" "r \<noteq> p" by (auto dest: append_prefixD)
  ultimately show ?thesis using assms(2) content_other [of n r pre] by simp
next
  case stop
  with content_end [OF assms(1), of pre] assms(2) show ?thesis by simp
next
  case (child b' r')
  with content_child [OF assms(1), of pre b' r'] assms show ?thesis by auto
qed

lemma leaves_correct:
  assumes "k \<noteq> r"
  shows "\<exists>n'. create_inner_node_from_leaves (pre @ k) w (pre @ r) (length pre) v = Ok (n', None) \<and>
    art_wf pre n' \<and> content pre n' = [k \<mapsto> w, r \<mapsto> v]"
proof -
  obtain x k' r' where x: "k = x @ k'" "r = x @ r'" "length x = common_len k r"
    "k' = [] \<or> r' = [] \<or> hd k' \<noteq> hd r'" by (rule common_len_split)
  have leaf: "content (pre @ x @ [b]) (ArtLeaf (pre @ x @ b # s) u) = [s \<mapsto> u]" for b s u
    using content_leaf [of "pre @ x @ [b]" s u] by simp
  have leaf_wf: "art_wf (pre @ x @ [b]) (ArtLeaf (pre @ x @ b # s) u)" for b s u
    by (rule wf_leaf) simp
  consider b s where "k' = []" "r' = b # s" | b s where "r' = []" "k' = b # s"
    | a s b t where "k' = a # s" "r' = b # t" "a \<noteq> b"
    using x assms by (cases k'; cases r') auto
  then show ?thesis
  proof cases
    case 1
    let ?n = "add_child_unchecked (set_node_value (new_node4 x) w) b (ArtLeaf (pre @ r) v)"
    note f = new_node_one [of x w b "ArtLeaf (pre @ r) v"]
    have "create_inner_node_from_leaves (pre @ k) w (pre @ r) (length pre) v = Ok (?n, None)"
      using x 1 by (simp add: create_inner_node_from_leaves_def Let_def nth_append)
    moreover have "art_wf pre ?n"
      by (rule wf_inner [OF f(2,1)]) (use f(3,5) leaf_wf [of b s] x 1 in \<open>auto split: if_splits\<close>)
    moreover have "content pre ?n q = [k \<mapsto> w, r \<mapsto> v] q" for q
      using content_one [OF f(2,3,5), of pre q] f(4) leaf [of b s v] x 1 by (auto simp: prefix_def)
    ultimately show ?thesis by blast
  next
    case 2
    let ?n = "add_child_unchecked (set_node_value (new_node4 x) v) b (ArtLeaf (pre @ k) w)"
    note f = new_node_one [of x v b "ArtLeaf (pre @ k) w"]
    have "create_inner_node_from_leaves (pre @ k) w (pre @ r) (length pre) v = Ok (?n, None)"
      using x 2 by (simp add: create_inner_node_from_leaves_def Let_def nth_append)
    moreover have "art_wf pre ?n"
      by (rule wf_inner [OF f(2,1)]) (use f(3,5) leaf_wf [of b s] x 2 in \<open>auto split: if_splits\<close>)
    moreover have "content pre ?n q = [k \<mapsto> w, r \<mapsto> v] q" for q
      using content_one [OF f(2,3,5), of pre q] f(4) leaf [of b s w] x 2 by (auto simp: prefix_def)
    ultimately show ?thesis by blast
  next
    case 3
    let ?n = "add_child_unchecked (add_child_unchecked (new_node4 x) a (ArtLeaf (pre @ k) w)) b (ArtLeaf (pre @ r) v)"
    note f = new_node_two [OF 3(3), of x "ArtLeaf (pre @ k) w" "ArtLeaf (pre @ r) v"]
    have "create_inner_node_from_leaves (pre @ k) w (pre @ r) (length pre) v = Ok (?n, None)"
      using x 3 by (simp add: create_inner_node_from_leaves_def Let_def nth_append)
    moreover have "art_wf pre ?n"
      by (rule wf_inner [OF f(2,1)]) (use f(3,5) leaf_wf [of a s] leaf_wf [of b t] x 3 in \<open>auto split: if_splits\<close>)
    moreover have "content pre ?n q = [k \<mapsto> w, r \<mapsto> v] q" for q
      using content_two [OF f(2,3,5) 3(3), of pre q] f(4) leaf [of a s w] leaf [of b t v] x 3 by (auto simp: prefix_def)
    ultimately show ?thesis by blast
  qed
qed

lemma split_correct:
  assumes wf: "art_wf pre n" "\<not> art_is_leaf n" and p: "art_partial n = x @ a # p'" and r: "r = x @ b # r'" and "a \<noteq> b"
  shows "\<exists>n'. split_node n (pre @ r) (length pre) (length x) v = Ok (n', content pre n r) \<and>
    art_wf pre n' \<and> content pre n' = (content pre n)(r \<mapsto> v)"
proof -
  let ?old = "update_partial n p'" and ?leaf = "ArtLeaf (pre @ r) v"
  let ?n = "add_child_unchecked (add_child_unchecked (new_node4 x) a ?old) b ?leaf"
  note f = new_node_two [OF assms(5), of x ?old ?leaf]
  have p2: "art_partial n = (x @ [a]) @ p'" using p by simp
  have none: "content pre n r = None"
    by (rule content_other) (use p r assms(5) in auto)
  have old: "content pre n ((x @ [a]) @ q) = content (pre @ x @ [a]) ?old q" for q
    using content_update_partial [OF wf(2) p2, of pre q] by simp
  have "split_node n (pre @ r) (length pre) (length x) v = Ok (?n, None)"
    using r p by (simp add: split_node_def Let_def nth_append)
  moreover have "art_wf pre ?n"
  proof (rule wf_inner [OF f(2,1)])
    fix b' c assume "find_child ?n b' = Some c"
    then have "b' = a \<and> c = ?old \<or> b' = b \<and> c = ?leaf" using f(5) assms(5) by (auto split: if_splits)
    moreover have "art_wf (pre @ x @ [a]) ?old" using wf_update_partial [OF wf p2] by simp
    moreover have "art_wf (pre @ x @ [b]) ?leaf" by (rule wf_leaf) (simp add: r)
    ultimately show "art_wf (pre @ art_partial ?n @ [b']) c" using f(3) by auto
  qed
  moreover have "content pre ?n q = ((content pre n)(r \<mapsto> v)) q" for q
  proof (cases q rule: rest_cases [of x])
    case other
    then have "\<not> prefix (art_partial n) q" "q \<noteq> r" using p r by (auto dest: append_prefixD)
    with other content_other [of n q pre] content_other [of ?n q pre] f(3) show ?thesis by simp
  next
    case stop
    then have "\<not> prefix (art_partial n) q" "q \<noteq> r" using p r by auto
    with stop content_other [of n q pre] content_two [OF f(2,3,5) assms(5), of pre q] f(4) show ?thesis by simp
  next
    case (child c q')
    have leaf: "content (pre @ x @ [b]) ?leaf q' = (if q' = r' then Some v else None)"
      using content_leaf [of "pre @ x @ [b]" r' v] r by simp
    consider "c = a" | "c = b" | "c \<noteq> a" "c \<noteq> b" by blast
    then show ?thesis
    proof cases
      case 1
      with child content_two [OF f(2,3,5) assms(5), of pre q] old [of q'] r assms(5) show ?thesis by simp
    next
      case 2
      have "\<not> prefix (art_partial n) q" using child 2 p assms(5) by auto
      with 2 child content_two [OF f(2,3,5) assms(5), of pre q] leaf r assms(5) content_other [of n q pre] show ?thesis by simp
    next
      case 3
      have "\<not> prefix (art_partial n) q" using child 3 p by auto
      with 3 child content_two [OF f(2,3,5) assms(5), of pre q] r content_other [of n q pre] show ?thesis by simp
    qed
  qed
  ultimately show ?thesis using none by auto
qed

definition inserted :: "bytes \<Rightarrow> bytes \<Rightarrow> 'v \<Rightarrow> 'v Node \<Rightarrow> 'v Node \<Rightarrow> bool" where
  "inserted pre r v n n' \<longleftrightarrow> art_wf pre n' \<and> content pre n' = (content pre n)(r \<mapsto> v)"

lemma insert_correct:
  "art_wf pre n \<Longrightarrow> insert_safe n (pre @ r) (length pre) \<Longrightarrow>
   \<exists>n'. insert_recursive n (pre @ r) (length pre) v = Ok (n', content pre n r) \<and> inserted pre r v n n'"
proof (induction arbitrary: r rule: art_wf.induct)
  case (wf_leaf pre k w)
  then obtain s where k: "k = pre @ s" by (auto elim: prefixE)
  show ?case
  proof (cases "s = r")
    case True
    then show ?thesis
      using k content_leaf [of pre r w] content_leaf [of pre r v] art_wf.wf_leaf [of pre "pre @ r" v]
      by (simp add: insert_recursive.simps art_partial_def check_prefix_def inserted_def)
  next
    case False
    from leaves_correct [OF this, of pre w v] obtain n' where
      "create_inner_node_from_leaves (pre @ s) w (pre @ r) (length pre) v = Ok (n', None)"
      "art_wf pre n'" "content pre n' = [s \<mapsto> w, r \<mapsto> v]" by blast
    with False k content_leaf [of pre s w] show ?thesis
      by (simp add: insert_recursive.simps art_partial_def check_prefix_def inserted_def)
  qed
next
  case (wf_inner n pre)
  let ?p = "art_partial n"
  have wf: "art_wf pre n" using wf_inner.hyps by (auto intro: art_wf.wf_inner)
  note safe = wf_inner.prems [unfolded insert_safe.simps [of n] check_prefix_common]
  note rec = insert_recursive.simps [of n "pre @ r" "length pre" v, unfolded check_prefix_common]
  show ?case
  proof (cases r rule: rest_cases [of ?p])
    case other
    obtain x p' r' where x: "?p = x @ p'" "r = x @ r'" "length x = common_len ?p r"
      "p' = [] \<or> r' = [] \<or> hd p' \<noteq> hd r'" by (rule common_len_split)
    from other have lt: "common_len ?p r < length ?p" by (simp add: common_len_prefix)
    with x(1,3) obtain a p'' where a: "p' = a # p''" by (cases p') auto
    from lt safe x(2,3) obtain b r'' where b: "r' = b # r''" by (cases r') (auto simp: Let_def)
    have "a \<noteq> b" using x(4) a b by simp
    with split_correct [OF wf wf_inner.hyps(1), of x a p'' r b r'' v] x a b
    have "\<exists>n'. split_node n (pre @ r) (length pre) (common_len ?p r) v = Ok (n', content pre n r) \<and>
      inserted pre r v n n'" by (simp add: inserted_def)
    moreover have "insert_recursive n (pre @ r) (length pre) v = split_node n (pre @ r) (length pre) (common_len ?p r) v"
      using lt by (simp add: rec Let_def)
    ultimately show ?thesis by simp
  next
    case stop
    have no: "\<not> common_len ?p r < length ?p" using stop by (simp add: common_len_prefix)
    have "content pre (set_node_value n v) = (content pre n)(r \<mapsto> v)"
      using content_head [of n "set_node_value n v" pre] wf_inner.hyps(1) stop by (simp add: header_op_heads)
    moreover have "art_wf pre (set_node_value n v)"
      by (rule art_wf.wf_inner) (use wf_inner.hyps in \<open>auto simp: header_op_heads\<close>)
    ultimately have "inserted pre r v n (set_node_value n v)" by (auto simp: inserted_def)
    moreover have "insert_recursive n (pre @ r) (length pre) v = Ok (set_node_value n v, content pre n r)"
      unfolding rec using stop no wf_inner.hyps(1) content_end [OF wf_inner.hyps(1), of pre] by (simp add: Let_def)
    ultimately show ?thesis by blast
  next
    case (child b r')
    have no: "\<not> common_len ?p r < length ?p" using child by (simp add: common_len_prefix)
    have key: "(pre @ r) ! (length pre + length ?p) = b" "\<not> length (pre @ r) \<le> length pre + length ?p"
      using child by (simp_all add: nth_append)
    let ?pre = "pre @ ?p @ [b]"
    have split: "pre @ r = ?pre @ r'" "length ?pre = length pre + length ?p + 1" using child by simp_all
    have get: "content pre n r = (case find_child n b of None \<Rightarrow> None | Some c \<Rightarrow> content ?pre c r')"
      using content_child [OF wf_inner.hyps(1), of pre b r'] child by simp
    show ?thesis
    proof (cases "find_child n b")
      case None
      with safe no key wf_inner.hyps(1) have "room_ok n" by (simp add: Let_def)
      then obtain n' where n': "add_child n b (ArtLeaf (pre @ r) v) = Ok n'" "like n n'"
        "find_child n' = (find_child n)(b \<mapsto> ArtLeaf (pre @ r) v)"
        using add_child_correct [OF wf_inner.hyps(2,1) None] by metis
      have "content ?pre (ArtLeaf (pre @ r) v) = [r' \<mapsto> v]"
        unfolding split(1) by (rule content_leaf)
      then have "content pre n' q = ((content pre n)(r \<mapsto> v)) q" for q
        using content_upd [OF n'(2) wf_inner.hyps(1) n'(3), of pre q] content_child [OF wf_inner.hyps(1), of pre b] None child
        by (auto simp: prefix_def)
      moreover have "art_wf pre n'"
        using wf_upd [OF n'(2) wf wf_inner.hyps(1) n'(3)] art_wf.wf_leaf [of ?pre "pre @ r" v] split(1) by simp
      ultimately have "inserted pre r v n n'" by (auto simp: inserted_def)
      moreover have "insert_recursive n (pre @ r) (length pre) v = Ok (n', content pre n r)"
        unfolding rec Let_def key using n'(1) None no key(2) wf_inner.hyps(1) get by simp
      ultimately show ?thesis by blast
    next
      case (Some c)
      with safe no key wf_inner.hyps(1) split(2) have "insert_safe c (?pre @ r') (length ?pre)"
        unfolding split(1) by (simp add: Let_def)
      from wf_inner.IH [OF Some this] obtain c' where c':
        "insert_recursive c (?pre @ r') (length ?pre) v = Ok (c', content ?pre c r')"
        "art_wf ?pre c'" "content ?pre c' = (content ?pre c)(r' \<mapsto> v)" unfolding inserted_def by blast
      note rep = replace_child_correct [OF wf_inner.hyps(2), of b c']
      have "content pre (replace_child n b c') q = ((content pre n)(r \<mapsto> v)) q" for q
        using content_upd [OF rep(1) wf_inner.hyps(1) rep(2), of pre q] content_child [OF wf_inner.hyps(1), of pre b]
          Some child c'(3) by (auto simp: prefix_def)
      moreover have "art_wf pre (replace_child n b c')"
        using wf_upd [OF rep(1) wf wf_inner.hyps(1) rep(2)] Some c'(2) by simp
      ultimately have "inserted pre r v n (replace_child n b c')" by (auto simp: inserted_def)
      moreover have "insert_recursive n (pre @ r) (length pre) v = Ok (replace_child n b c', content pre n r)"
        unfolding rec Let_def key using c'(1) Some no key(2) wf_inner.hyps(1) get
        unfolding split(2) split(1) [symmetric] by simp
      ultimately show ?thesis by blast
    qed
  qed
qed

section \<open>Removal\<close>

lemma update_partial_back: "update_partial (update_partial n x) (art_partial n) = n"
  by (cases n) (simp_all add: update_partial_def art_partial_def)

text \<open>What merging a node with its only child does: the child takes over the path to it.\<close>

lemma merge_correct:
  assumes "art_wf (pre @ a) c"
  defines "m \<equiv> update_partial c (a @ art_partial c)"
  shows "art_wf pre m" "content pre m q = (if prefix a q then content (pre @ a) c (drop (length a) q) else None)"
proof -
  have "art_wf pre m \<and> content pre m q = (if prefix a q then content (pre @ a) c (drop (length a) q) else None)"
  proof (cases "art_is_leaf c")
    case True
    then obtain k v where c: "c = ArtLeaf k v" by (cases c) auto
    with assms(1) obtain s where k: "k = pre @ a @ s" by (auto elim!: art_wf_leafE simp: prefix_def)
    have "m = ArtLeaf k v" by (simp add: m_def c update_partial_def)
    moreover have "art_wf pre (ArtLeaf k v)" by (rule wf_leaf) (simp add: k)
    ultimately show ?thesis
      using content_leaf [of pre "a @ s" v] content_leaf [of "pre @ a" s v] by (auto simp: c k prefix_def)
  next
    case False
    have m: "\<not> art_is_leaf m" "art_partial m = a @ art_partial c" "update_partial m (art_partial c) = c"
      using False by (simp_all add: m_def header_op_heads update_partial_back)
    have "art_wf pre m"
    proof (rule wf_inner)
      fix b d assume "find_child m b = Some d"
      then have "art_wf ((pre @ a) @ art_partial c @ [b]) d"
        using art_wf_inner [OF assms(1) False] by (simp add: m_def)
      then show "art_wf (pre @ art_partial m @ [b]) d" by (simp add: m(2))
    qed (use m(1) art_wf_inner [OF assms(1) False] in \<open>simp_all add: m_def\<close>)
    moreover have "content pre m q = (if prefix a q then content (pre @ a) c (drop (length a) q) else None)"
    proof (cases "prefix a q")
      case True
      then obtain s where "q = a @ s" by (auto elim: prefixE)
      with content_update_partial [OF m(1,2), of pre s] m(3) show ?thesis by simp
    next
      case no: False
      then have "\<not> prefix (art_partial m) q" using m(2) by (metis append_prefixD)
      with no content_other [of m q pre] show ?thesis by simp
    qed
    ultimately show ?thesis by blast
  qed
  then show "art_wf pre m" "content pre m q = (if prefix a q then content (pre @ a) c (drop (length a) q) else None)"
    by auto
qed

definition deleted :: "bytes \<Rightarrow> bytes \<Rightarrow> 'v Node \<Rightarrow> 'v Node option \<Rightarrow> bool" where
  "deleted pre r n x \<longleftrightarrow>
     (case x of None \<Rightarrow> (content pre n)(r := None) = Map.empty
      | Some n' \<Rightarrow> art_wf pre n' \<and> content pre n' = (content pre n)(r := None))"

text \<open>Removing the child through which the key was found, once the child has nothing left.\<close>

lemma removed_deleted:
  assumes wf: "art_wf pre n" and inner: "\<not> art_is_leaf n" and c: "find_child n b = Some c"
    and gone: "(content (pre @ art_partial n @ [b]) c)(r := None) = Map.empty" and x: "removed n b x"
  shows "deleted pre (art_partial n @ b # r) n x"
proof -
  let ?p = "art_partial n"
  have old: "content pre n (?p @ b # q) = None" if "q \<noteq> r" for q
    using content_child [OF inner, of pre b q] c fun_cong [OF gone, of q] that by simp
  have child: "content pre n (?p @ b' # q) = (case ((find_child n)(b := None)) b' of None \<Rightarrow> None
      | Some c \<Rightarrow> content (pre @ ?p @ [b']) c q)" if "b' # q \<noteq> b # r" for b' q
    using content_child [OF inner, of pre b' q] old [of q] that by auto
  consider (same) n' where "x = Some n'" "like n n'" "find_child n' = (find_child n)(b := None)"
    | (empty) "x = None" "inner_value n = None" "(find_child n)(b := None) = Map.empty"
    | (merge) b' d where "inner_value n = None" "(find_child n)(b := None) = [b' \<mapsto> d]"
        "x = Some (update_partial d ((?p @ [b']) @ art_partial d))"
    using x by (auto simp: removed_def)
  then show ?thesis
  proof cases
    case same
    have "content pre n' q = ((content pre n)(?p @ b # r := None)) q" for q
      using content_upd [OF same(2) inner same(3), of pre q] old by (auto simp: prefix_def) metis
    moreover have "art_wf pre n'" using wf_upd [OF same(2) wf inner same(3)] by simp
    ultimately show ?thesis using same(1) by (auto simp: deleted_def)
  next
    case empty
    have "((content pre n)(?p @ b # r := None)) q = None" for q
      by (cases q rule: rest_cases [of ?p])
        (use child content_other [of n q pre] content_end [OF inner, of pre] empty in auto)
    then show ?thesis using empty(1) by (auto simp: deleted_def)
  next
    case merge
    have d: "find_child n b' = Some d" "b' \<noteq> b"
      using merge(2) by (metis fun_upd_same fun_upd_apply option.distinct(1))+
    then have "art_wf (pre @ (?p @ [b'])) d" using art_wf_inner [OF wf inner] by simp
    note m = merge_correct [OF this]
    have "content pre (update_partial d ((?p @ [b']) @ art_partial d)) q = ((content pre n)(?p @ b # r := None)) q" for q
      unfolding m(2)
      by (cases q rule: rest_cases [of ?p])
        (use d merge child content_other [of n q pre] content_end [OF inner, of pre] in \<open>auto dest: append_prefixD\<close>)
    with m(1) show ?thesis using merge(3) by (auto simp: deleted_def)
  qed
qed

lemma remove_correct:
  "art_wf pre n \<Longrightarrow> \<exists>x. remove_recursive n (pre @ r) (length pre) = Ok (x, content pre n r) \<and> deleted pre r n x"
proof (induction arbitrary: r rule: art_wf.induct)
  case (wf_leaf pre k w)
  then obtain s where k: "k = pre @ s" by (auto elim: prefixE)
  have "art_wf pre (ArtLeaf k w)" using wf_leaf by (rule art_wf.wf_leaf)
  with k content_leaf [of pre s w] show ?case
    by (auto simp: remove_recursive.simps art_partial_def check_prefix_def deleted_def fun_eq_iff)
next
  case (wf_inner n pre)
  let ?p = "art_partial n"
  have wf: "art_wf pre n" using wf_inner.hyps by (auto intro: art_wf.wf_inner)
  note rec = remove_recursive.simps [of n "pre @ r" "length pre", unfolded check_prefix_common]
  have keep: "deleted pre r n (Some n)" if "content pre n r = None"
    using that wf by (auto simp: deleted_def fun_eq_iff)
  show ?case
  proof (cases r rule: rest_cases [of ?p])
    case other
    have "remove_recursive n (pre @ r) (length pre) = Ok (Some n, None)"
      unfolding rec Let_def using other common_len_prefix [of ?p r] by simp
    with keep content_other [OF other, of pre] show ?thesis by simp
  next
    case stop
    have no: "\<not> common_len ?p r < length ?p" using stop by (simp add: common_len_prefix)
    have get: "content pre n r = inner_value n" using stop content_end [OF wf_inner.hyps(1), of pre] by simp
    have "content pre (clear_node_value n) = (content pre n)(r := None)"
      using content_head [of n "clear_node_value n" pre] wf_inner.hyps(1) stop by (simp add: header_op_heads)
    moreover have "art_wf pre (clear_node_value n)"
      by (rule art_wf.wf_inner) (use wf_inner.hyps in \<open>auto simp: header_op_heads\<close>)
    ultimately have clear: "deleted pre r n (Some (clear_node_value n))" by (simp add: deleted_def)
    have "remove_recursive n (pre @ r) (length pre) =
      (case inner_value n of Some v \<Rightarrow> Ok (Some (clear_node_value n), Some v) | None \<Rightarrow> Ok (Some n, None))"
      unfolding rec Let_def using stop no wf_inner.hyps(1) by simp
    with clear keep get show ?thesis by (cases "inner_value n") simp_all
  next
    case (child b r')
    have no: "\<not> common_len ?p r < length ?p" using child by (simp add: common_len_prefix)
    have key: "(pre @ r) ! (length pre + length ?p) = b" "\<not> length (pre @ r) \<le> length pre + length ?p"
      using child by (simp_all add: nth_append)
    let ?pre = "pre @ ?p @ [b]"
    have split: "pre @ r = ?pre @ r'" "length ?pre = length pre + length ?p + 1" using child by simp_all
    have get: "content pre n r = (case find_child n b of None \<Rightarrow> None | Some c \<Rightarrow> content ?pre c r')"
      using content_child [OF wf_inner.hyps(1), of pre b r'] child by simp
    show ?thesis
    proof (cases "find_child n b")
      case None
      have "remove_recursive n (pre @ r) (length pre) = Ok (Some n, None)"
        unfolding rec Let_def key using None no key(2) wf_inner.hyps(1) by simp
      with keep get None show ?thesis by simp
    next
      case (Some c)
      from wf_inner.IH [OF Some, of r'] obtain x where x:
        "remove_recursive c (?pre @ r') (length ?pre) = Ok (x, content ?pre c r')" "deleted ?pre r' c x" by blast
      then have sub: "remove_recursive c (pre @ r) (length pre + length ?p + 1) = Ok (x, content pre n r)"
        using get Some unfolding split(2) split(1) [symmetric] by simp
      show ?thesis
      proof (cases x)
        case gone: None
        obtain y where y: "art_remove_child n b = Ok y" "removed n b y"
          using remove_child_correct [OF wf_inner.hyps(2), of b] Some by blast
        have "deleted pre r n y"
          using removed_deleted [OF wf wf_inner.hyps(1) Some _ y(2)] x(2) gone child by (simp add: deleted_def)
        moreover have "remove_recursive n (pre @ r) (length pre) = Ok (y, content pre n r)"
          unfolding rec Let_def key using sub Some no key(2) wf_inner.hyps(1) gone y(1) by simp
        ultimately show ?thesis by blast
      next
        case kept: (Some c')
        note rep = replace_child_correct [OF wf_inner.hyps(2), of b c']
        have c': "art_wf ?pre c'" "content ?pre c' = (content ?pre c)(r' := None)"
          using x(2) kept by (simp_all add: deleted_def)
        have "content pre (replace_child n b c') q = ((content pre n)(r := None)) q" for q
          using content_upd [OF rep(1) wf_inner.hyps(1) rep(2), of pre q] content_child [OF wf_inner.hyps(1), of pre b]
            Some child c'(2) by (auto simp: prefix_def)
        moreover have "art_wf pre (replace_child n b c')"
          using wf_upd [OF rep(1) wf wf_inner.hyps(1) rep(2)] Some c'(1) by simp
        ultimately have "deleted pre r n (Some (replace_child n b c'))" by (auto simp: deleted_def)
        moreover have "remove_recursive n (pre @ r) (length pre) = Ok (Some (replace_child n b c'), content pre n r)"
          unfolding rec Let_def key using sub Some no key(2) wf_inner.hyps(1) kept by simp
        ultimately show ?thesis by blast
      qed
    qed
  qed
qed

end
