(* ===== verification/Art_Iter.thy ===== *)
theory Art_Iter
  imports Art_Map
begin

text \<open>
  Iteration over the radix tree, \<open>nanograph-art/src/iterator.rs\<close>. An iterator is a stack of frames, the
  top first. Its loop may in principle run forever, so \<open>art_next\<close> is a partial function; the lemmas show
  that on a well-formed tree each call returns, and that the calls return the entries held by leaves in
  the order of the child arrays. Entries held by inner nodes are not visited.
\<close>

section \<open>Children in array order\<close>

fun get_first_child :: "'v Node \<Rightarrow> 'v Node option" where
  "get_first_child (ArtLeaf k v) = None"
| "get_first_child (Node4 h ks cs) = (if 0 < num_children h then child_at cs 0 else None)"
| "get_first_child (Node16 h ks cs) = (if 0 < num_children h then child_at cs 0 else None)"
| "get_first_child (Node48 h ix cs) =
     (case find (\<lambda>b. ix ! b \<noteq> 255) [0..<256] of None \<Rightarrow> None | Some b \<Rightarrow> child_at cs (unat (ix ! b)))"
| "get_first_child (Node256 h cs) =
     (case find (\<lambda>i. child_at cs i \<noteq> None) [0..<length cs] of None \<Rightarrow> None | Some i \<Rightarrow> child_at cs i)"

text \<open>The loop that finds the byte of the child with a number, \<open>0\<close> if there is none.\<close>

definition nth_used :: "(nat \<Rightarrow> bool) \<Rightarrow> nat \<Rightarrow> nat" where
  "nth_used used i = (case drop i (filter used [0..<256]) of [] \<Rightarrow> 0 | b # _ \<Rightarrow> b)"

fun get_next_child :: "'v Node \<Rightarrow> nat \<Rightarrow> ('v Node \<times> nat) option" where
  "get_next_child (ArtLeaf k v) i = None"
| "get_next_child (Node4 h ks cs) i =
     (if i + 1 < num_children h then map_option (\<lambda>c. (c, i + 1)) (child_at cs (i + 1)) else None)"
| "get_next_child (Node16 h ks cs) i =
     (if i + 1 < num_children h then map_option (\<lambda>c. (c, i + 1)) (child_at cs (i + 1)) else None)"
| "get_next_child (Node48 h ix cs) i =
     (let current_key = nth_used (\<lambda>b. ix ! b \<noteq> 255) i in
      case find (\<lambda>b. ix ! b \<noteq> 255) [current_key + 1..<256] of
        None \<Rightarrow> None
      | Some b \<Rightarrow> map_option (\<lambda>c. (c, i + 1)) (child_at cs (unat (ix ! b))))"
| "get_next_child (Node256 h cs) i =
     (let current_key = nth_used (\<lambda>b. child_at cs b \<noteq> None) i in
      case find (\<lambda>b. child_at cs b \<noteq> None) [current_key + 1..<256] of
        None \<Rightarrow> None
      | Some b \<Rightarrow> map_option (\<lambda>c. (c, i + 1)) (child_at cs b))"

lemma size_get_first_child: "get_first_child n = Some c \<Longrightarrow> size c < size n"
  by (cases n) (auto split: option.splits if_splits dest: size_child_at)

section \<open>The iterators\<close>

type_synonym 'v frames = "('v Node \<times> nat) list"

function descend_leftmost :: "'v Node \<Rightarrow> 'v frames \<Rightarrow> 'v frames" where
  "descend_leftmost n st =
     (if art_is_leaf n then (n, 0) # st
      else case get_first_child n of
             Some c \<Rightarrow> descend_leftmost c ((n, 0) # st)
           | None \<Rightarrow> (n, 0) # st)"
  by pat_completeness auto
termination
  by (relation "measure (\<lambda>(n, st). size n)") (auto dest: size_get_first_child)

declare descend_leftmost.simps [simp del]

definition iter_new :: "'v Node option \<Rightarrow> 'v frames" where
  "iter_new root = (case root of None \<Rightarrow> [] | Some n \<Rightarrow> descend_leftmost n [])"

definition art_iter :: "'v AdaptiveRadixTree \<Rightarrow> 'v frames" where
  "art_iter t = iter_new (art_root t)"

partial_function (option) art_next :: "'v frames \<Rightarrow> ('v frames \<times> (bytes \<times> 'v) option) option" where
  "art_next st =
     (case st of
        [] \<Rightarrow> Some ([], None)
      | (ArtLeaf k v, _) # rest \<Rightarrow> Some (rest, Some (k, v))
      | (n, i) # rest \<Rightarrow>
          (case get_next_child n i of
             Some (c, j) \<Rightarrow> art_next (descend_leftmost c ((n, j) # rest))
           | None \<Rightarrow> art_next rest))"

declare art_next.simps [code]

record 'v ArtRangeIterator =
  inner_iter :: "'v frames"
  end_key :: "bytes option"
  inclusive :: bool

text \<open>The loop that skips to the start key: the entry that stops it has been consumed.\<close>

partial_function (option) skip_to :: "bytes \<Rightarrow> 'v frames \<Rightarrow> 'v frames option" where
  "skip_to start st =
     (case art_next st of
        None \<Rightarrow> None
      | Some (st', None) \<Rightarrow> Some st'
      | Some (st', Some (k, v)) \<Rightarrow> if start \<le> k then Some st' else skip_to start st')"

declare skip_to.simps [code]

definition range_new ::
  "'v Node option \<Rightarrow> bytes option \<Rightarrow> bytes option \<Rightarrow> bool \<Rightarrow> 'v ArtRangeIterator option" where
  "range_new root start_key e incl =
     map_option (\<lambda>st. \<lparr>inner_iter = st, end_key = e, inclusive = incl\<rparr>)
       (case start_key of None \<Rightarrow> Some (iter_new root) | Some start \<Rightarrow> skip_to start (iter_new root))"

definition art_range ::
  "'v AdaptiveRadixTree \<Rightarrow> bytes option \<Rightarrow> bytes option \<Rightarrow> bool \<Rightarrow> 'v ArtRangeIterator option" where
  "art_range t start_key e incl = range_new (art_root t) start_key e incl"

definition range_next :: "'v ArtRangeIterator \<Rightarrow> ('v ArtRangeIterator \<times> (bytes \<times> 'v) option) option" where
  "range_next it =
     map_option (\<lambda>(st, item).
       (it\<lparr>inner_iter := st\<rparr>,
        case (item, end_key it) of
          (Some (k, v), Some e) \<Rightarrow> if (if inclusive it then e < k else e \<le> k) then None else Some (k, v)
        | _ \<Rightarrow> item))
       (art_next (inner_iter it))"

section \<open>What a call returns\<close>

text \<open>The children of a node in the order of its arrays.\<close>

fun kids :: "'v Node \<Rightarrow> 'v Node list" where
  "kids (ArtLeaf k v) = []"
| "kids (Node4 h ks cs) = List.map_filter (\<lambda>c. c) (take (num_children h) cs)"
| "kids (Node16 h ks cs) = List.map_filter (\<lambda>c. c) (take (num_children h) cs)"
| "kids (Node48 h ix cs) =
     List.map_filter (\<lambda>b. child_at cs (unat (ix ! b))) (filter (\<lambda>b. ix ! b \<noteq> 255) [0..<256])"
| "kids (Node256 h cs) = List.map_filter (child_at cs) [0..<256]"

lemma set_map_filter: "set (List.map_filter f xs) = {y. \<exists>x \<in> set xs. f x = Some y}"
  by (force simp: map_filter_def)

lemma map_filter_the: "(\<And>x. x \<in> set xs \<Longrightarrow> f x \<noteq> None) \<Longrightarrow> List.map_filter f xs = map (the \<circ> f) xs"
  by (induction xs) (auto split: option.split)

lemma size_kids: "c \<in> set (kids n) \<Longrightarrow> size c < size n"
proof (cases n)
  case (Node4 h ks cs)
  moreover assume "c \<in> set (kids n)"
  ultimately have "Some c \<in> set cs" by (auto simp: set_map_filter dest: in_set_takeD)
  then show ?thesis using Node4 by (auto intro!: less_Suc_eq_le [THEN iffD2] size_list_estimation')
next
  case (Node16 h ks cs)
  moreover assume "c \<in> set (kids n)"
  ultimately have "Some c \<in> set cs" by (auto simp: set_map_filter dest: in_set_takeD)
  then show ?thesis using Node16 by (auto intro!: less_Suc_eq_le [THEN iffD2] size_list_estimation')
qed (auto simp: set_map_filter dest: size_child_at)

function leaf_items :: "'v Node \<Rightarrow> (bytes \<times> 'v) list" where
  "leaf_items n = (case n of ArtLeaf k v \<Rightarrow> [(k, v)] | _ \<Rightarrow> concat (map leaf_items (kids n)))"
  by pat_completeness auto
termination
  by (relation "measure size") (auto simp del: kids.simps dest: size_kids)

declare leaf_items.simps [simp del]

lemma leaves_leaf [simp]: "leaf_items (ArtLeaf k v) = [(k, v)]"
  by (simp add: leaf_items.simps)

lemma leaves_inner: "\<not> art_is_leaf n \<Longrightarrow> leaf_items n = concat (map leaf_items (kids n))"
  by (subst leaf_items.simps) (cases n; simp)

text \<open>The frames an iterator can still push.\<close>

function pushes :: "'v Node \<Rightarrow> nat" where
  "pushes n = 1 + (\<Sum>c \<leftarrow> kids n. 1 + pushes c)"
  by pat_completeness auto
termination
  by (relation "measure size") (auto simp del: kids.simps dest: size_kids)

declare pushes.simps [simp del]

lemma find_first: "find P xs = (case filter P xs of [] \<Rightarrow> None | x # _ \<Rightarrow> Some x)"
  by (induction xs) auto

lemma filter_after:
  assumes "i < length (filter P [0..<n])"
  shows "filter P [filter P [0..<n] ! i + 1..<n] = drop (i + 1) (filter P [0..<n])"
proof -
  let ?us = "filter P [0..<n]"
  let ?m = "?us ! i"
  have m: "?m < n" "P ?m" using nth_mem [OF assms] by auto
  then have "[0..<n] = [0..<?m] @ ?m # [?m + 1..<n]"
    using upt_add_eq_append [of 0 ?m "n - ?m"] upt_conv_Cons [of ?m n] by simp
  then have us: "?us = filter P [0..<?m] @ ?m # filter P [?m + 1..<n]" using m(2) by (metis filter.simps(2) filter_append)
  then have "?us ! length (filter P [0..<?m]) = ?m" by (metis nth_append_length)
  moreover have "length (filter P [0..<?m]) < length ?us" by (subst (2) us) simp
  moreover have "distinct ?us" by simp
  ultimately have "i = length (filter P [0..<?m])" using assms by (metis nth_eq_iff_index_eq)
  then show ?thesis by (subst (2) us) simp
qed

lemma next_used:
  assumes "i < length (filter used [0..<256]) \<or> filter used [0..<256] = []"
  shows "find used [nth_used used i + 1..<256] =
    (if i + 1 < length (filter used [0..<256]) then Some (filter used [0..<256] ! (i + 1)) else None)"
proof (cases "filter used [0..<256] = []")
  case True
  then have "filter used [nth_used used i + 1..<256] = []" by (auto simp: filter_empty_conv)
  with True show ?thesis by (simp add: find_first)
next
  case False
  with assms have i: "i < length (filter used [0..<256])" by blast
  then have "nth_used used i = filter used [0..<256] ! i" by (simp add: nth_used_def Cons_nth_drop_Suc [symmetric])
  with filter_after [OF i] have "filter used [nth_used used i + 1..<256] = drop (i + 1) (filter used [0..<256])" by simp
  then show ?thesis by (simp add: find_first Cons_nth_drop_Suc [symmetric] split: list.split)
qed

lemma kids_node48:
  assumes "index_ok ix cs"
  shows "kids (Node48 h ix cs) = map (\<lambda>b. the (child_at cs (unat (ix ! b)))) (filter (\<lambda>b. ix ! b \<noteq> 255) [0..<256])"
    and "b < 256 \<Longrightarrow> ix ! b \<noteq> 255 \<Longrightarrow> child_at cs (unat (ix ! b)) = Some (the (child_at cs (unat (ix ! b))))"
proof -
  have *: "child_at cs (unat (ix ! b)) \<noteq> None" if "b < 256" "ix ! b \<noteq> 255" for b
  proof -
    have "unat (of_nat b :: u8) = b" using that(1) by (simp add: unat_of_nat)
    with index_okD(2) [OF assms] index_okD(3,4) [OF assms, of "of_nat b"] that(2) show ?thesis by (simp add: child_at_def)
  qed
  then show "kids (Node48 h ix cs) = map (\<lambda>b. the (child_at cs (unat (ix ! b)))) (filter (\<lambda>b. ix ! b \<noteq> 255) [0..<256])"
    by (subst kids.simps, subst map_filter_the) auto
  show "b < 256 \<Longrightarrow> ix ! b \<noteq> 255 \<Longrightarrow> child_at cs (unat (ix ! b)) = Some (the (child_at cs (unat (ix ! b))))"
    using * by auto
qed

lemma kids_node256: "kids (Node256 h cs) = map (\<lambda>b. the (child_at cs b)) (filter (\<lambda>b. child_at cs b \<noteq> None) [0..<256])"
  by (simp add: map_filter_def comp_def)

lemma kids_arrays:
  assumes "arrays_ok cap n ks cs"
  shows "List.map_filter (\<lambda>c. c) (take n cs) = map the (take n cs)" "length (take n cs) = n"
    and "i < n \<Longrightarrow> child_at cs i = Some (the (take n cs ! i))"
proof -
  have some: "c \<noteq> None" if "c \<in> set (take n cs)" for c using assms that unfolding arrays_ok_def by metis
  then show "List.map_filter (\<lambda>c. c) (take n cs) = map the (take n cs)"
    by (subst map_filter_the) (auto simp: comp_def)
  show len: "length (take n cs) = n" using assms by (simp add: arrays_ok_def)
  show "i < n \<Longrightarrow> child_at cs i = Some (the (take n cs ! i))"
    using some [OF nth_mem [of i "take n cs"]] len assms by (auto simp: arrays_ok_def child_at_def)
qed

lemma kids_arrays_first:
  assumes "arrays_ok cap n ks cs"
  shows "(if 0 < n then child_at cs 0 else None) =
    (case List.map_filter (\<lambda>c. c) (take n cs) of [] \<Rightarrow> None | c # _ \<Rightarrow> Some c)"
  using kids_arrays(2) [OF assms] kids_arrays(3) [OF assms, of 0] unfolding kids_arrays(1) [OF assms]
  by (cases "take n cs") auto

lemma kids_first:
  "art_node_ok n \<Longrightarrow> get_first_child n = (case kids n of [] \<Rightarrow> None | c # _ \<Rightarrow> Some c)"
proof (induction n rule: get_first_child.induct)
  case (2 h ks cs)
  then show ?case using kids_arrays_first [of 4] by (simp only: art_node_ok.simps get_first_child.simps kids.simps) blast
next
  case (3 h ks cs)
  then show ?case using kids_arrays_first [of 16] by (simp only: art_node_ok.simps get_first_child.simps kids.simps) blast
next
  case (4 h ix cs)
  then have ix: "index_ok ix cs" by simp
  show ?case
  proof (cases "filter (\<lambda>b. ix ! b \<noteq> 255) [0..<256]")
    case (Cons b bs)
    have "b \<in> set (b # bs)" by simp
    then have "b < 256" "ix ! b \<noteq> 255" unfolding Cons [symmetric] by auto
    from kids_node48(2) [OF ix this] Cons show ?thesis unfolding kids_node48(1) [OF ix] by (simp add: find_first)
  qed (simp only: kids_node48(1) [OF ix] get_first_child.simps find_first list.simps option.simps)
next
  case (5 h cs)
  then have len: "length cs = 256" by simp
  show ?case
  proof (cases "filter (\<lambda>b. child_at cs b \<noteq> None) [0..<256]")
    case (Cons b bs)
    have "b \<in> set (b # bs)" by simp
    then have "child_at cs b \<noteq> None" unfolding Cons [symmetric] by simp
    with Cons len show ?thesis unfolding kids_node256 by (auto simp: find_first)
  qed (simp only: kids_node256 len get_first_child.simps find_first list.simps option.simps)
qed simp

lemma kids_arrays_next:
  assumes "arrays_ok cap n ks cs"
  shows "(if i + 1 < n then map_option (\<lambda>c. (c, i + 1)) (child_at cs (i + 1)) else None) =
    (if i + 1 < length (List.map_filter (\<lambda>c. c) (take n cs))
     then Some (List.map_filter (\<lambda>c. c) (take n cs) ! (i + 1), i + 1) else None)"
  using kids_arrays(2) [OF assms] kids_arrays(3) [OF assms, of "i + 1"] unfolding kids_arrays(1) [OF assms]
  by simp

lemma kids_next:
  "art_node_ok n \<Longrightarrow> \<not> art_is_leaf n \<Longrightarrow> i < length (kids n) \<or> kids n = [] \<Longrightarrow>
   get_next_child n i = (if i + 1 < length (kids n) then Some (kids n ! (i + 1), i + 1) else None)"
proof (induction n i rule: get_next_child.induct)
  case (2 h ks cs i)
  then show ?case using kids_arrays_next [of 4] by (simp only: art_node_ok.simps get_next_child.simps kids.simps) blast
next
  case (3 h ks cs i)
  then show ?case using kids_arrays_next [of 16] by (simp only: art_node_ok.simps get_next_child.simps kids.simps) blast
next
  case (4 h ix cs i)
  let ?us = "filter (\<lambda>b. ix ! b \<noteq> 255) [0..<256]"
  from 4 have ix: "index_ok ix cs" by simp
  have i: "i < length ?us \<or> ?us = []" using 4(3) unfolding kids_node48(1) [OF ix] by simp
  show ?case
  proof (cases "i + 1 < length ?us")
    case True
    then have "?us ! (i + 1) \<in> set ?us" by (rule nth_mem)
    then have "?us ! (i + 1) < 256" "ix ! (?us ! (i + 1)) \<noteq> 255" by simp_all
    then obtain c where "child_at cs (unat (ix ! (?us ! (i + 1)))) = Some c"
      using kids_node48(2) [OF ix] by blast
    then show ?thesis
      unfolding get_next_child.simps Let_def next_used [OF i] kids_node48(1) [OF ix] using True
      by (simp only: length_map nth_map if_True option.simps option.sel)
  qed (unfold get_next_child.simps Let_def next_used [OF i] kids_node48(1) [OF ix], simp)
next
  case (5 h cs i)
  let ?us = "filter (\<lambda>b. child_at cs b \<noteq> None) [0..<256]"
  have i: "i < length ?us \<or> ?us = []" using 5(3) unfolding kids_node256 by simp
  show ?case
  proof (cases "i + 1 < length ?us")
    case True
    then have "?us ! (i + 1) \<in> set ?us" by (rule nth_mem)
    then obtain c where "child_at cs (?us ! (i + 1)) = Some c" by auto
    then show ?thesis
      unfolding get_next_child.simps Let_def next_used [OF i] kids_node256 using True
      by (simp only: length_map nth_map if_True option.simps option.sel)
  qed (unfold get_next_child.simps Let_def next_used [OF i] kids_node256, simp)
qed simp

lemma kids_found:
  assumes "art_node_ok n" "c \<in> set (kids n)"
  obtains b where "find_child n b = Some c"
proof -
  have arrays: "\<exists>b. join (map_of (kids_of m ks cs) b) = Some c"
    if "arrays_ok cap m ks cs" "c \<in> set (List.map_filter (\<lambda>c. c) (take m cs))" for cap m ks cs
  proof -
    from that(2) obtain i where i: "i < length (take m cs)" "take m cs ! i = Some c"
      by (auto simp: set_map_filter in_set_conv_nth)
    then have "(ks ! i, Some c) \<in> set (kids_of m ks cs)"
      using that(1) by (auto simp: set_zip arrays_ok_def intro!: exI [of _ i])
    moreover have "distinct (map fst (kids_of m ks cs))"
      using that(1) by (simp add: arrays_ok_def map_fst_zip_take)
    ultimately have "map_of (kids_of m ks cs) (ks ! i) = Some (Some c)" by simp
    then show ?thesis by (intro exI [of _ "ks ! i"]) simp
  qed
  have byte: "unat (of_nat b :: u8) = b" if "b < 256" for b using that by (simp add: unat_of_nat)
  have "\<exists>b. find_child n b = Some c"
  proof (cases n)
    case (Node4 h ks cs)
    with assms arrays [of 4 "num_children h" ks cs] find_child_node4 [of h ks cs] show ?thesis by (auto simp del: find_child.simps)
  next
    case (Node16 h ks cs)
    with assms arrays [of 16 "num_children h" ks cs] find_child_node16 [of h ks cs] show ?thesis by (auto simp del: find_child.simps)
  next
    case (Node48 h ix cs)
    with assms(2) obtain b where "b < 256" "ix ! b \<noteq> 255" "child_at cs (unat (ix ! b)) = Some c"
      by (auto simp: set_map_filter)
    with Node48 byte show ?thesis by (intro exI [of _ "of_nat b"]) simp
  next
    case (Node256 h cs)
    with assms(2) obtain b where "b < 256" "child_at cs b = Some c" by (auto simp: set_map_filter)
    with Node256 byte show ?thesis by (intro exI [of _ "of_nat b"]) simp
  qed (use assms in simp)
  with that show thesis by blast
qed

section \<open>The stack of an iterator\<close>

definition frame_ok :: "'v Node \<times> nat \<Rightarrow> bool" where
  "frame_ok = (\<lambda>(n, i). (\<exists>pre. art_wf pre n) \<and> (i < length (kids n) \<or> kids n = []))"

definition frame_rest :: "'v Node \<times> nat \<Rightarrow> (bytes \<times> 'v) list" where
  "frame_rest = (\<lambda>(n, i). if art_is_leaf n then leaf_items n else concat (map leaf_items (drop (i + 1) (kids n))))"

definition frame_work :: "'v Node \<times> nat \<Rightarrow> nat" where
  "frame_work = (\<lambda>(n, i). 1 + (\<Sum>c \<leftarrow> drop (i + 1) (kids n). 1 + pushes c))"

abbreviation stack_ok :: "'v frames \<Rightarrow> bool" where
  "stack_ok st \<equiv> list_all frame_ok st"

abbreviation stack_rest :: "'v frames \<Rightarrow> (bytes \<times> 'v) list" where
  "stack_rest st \<equiv> concat (map frame_rest st)"

abbreviation stack_work :: "'v frames \<Rightarrow> nat" where
  "stack_work st \<equiv> sum_list (map frame_work st)"

lemma wf_kid: "art_wf pre n \<Longrightarrow> c \<in> set (kids n) \<Longrightarrow> \<exists>pre'. art_wf pre' c"
  by (cases "art_is_leaf n") (use art_wf_inner kids_found in \<open>metis art_is_leaf.elims(2) empty_iff empty_set kids.simps(1)\<close>)+

lemma wf_node_ok: "art_wf pre n \<Longrightarrow> art_node_ok n"
  by (induction rule: art_wf.induct) auto

lemma descend_correct:
  "art_wf pre n \<Longrightarrow> stack_ok st \<Longrightarrow>
   stack_ok (descend_leftmost n st) \<and> stack_rest (descend_leftmost n st) = leaf_items n @ stack_rest st \<and>
   stack_work (descend_leftmost n st) \<le> pushes n + stack_work st"
proof (induction n st arbitrary: pre rule: descend_leftmost.induct)
  case (1 n st)
  have first: "get_first_child n = (case kids n of [] \<Rightarrow> None | c # _ \<Rightarrow> Some c)"
    by (rule kids_first [OF wf_node_ok [OF 1(2)]])
  have ok: "stack_ok ((n, 0) # st)" using 1(2,3) by (auto simp: frame_ok_def)
  show ?case
  proof (cases "\<not> art_is_leaf n \<and> kids n \<noteq> []")
    case True
    then obtain c cs where kids: "kids n = c # cs" by (cases "kids n") auto
    with first have c: "get_first_child n = Some c" by simp
    from wf_kid [OF 1(2)] kids obtain pre' where "art_wf pre' c" by auto
    from 1(1) [OF _ c this ok] True have IH: "stack_ok (descend_leftmost c ((n, 0) # st)) \<and>
      stack_rest (descend_leftmost c ((n, 0) # st)) = leaf_items c @ stack_rest ((n, 0) # st) \<and>
      stack_work (descend_leftmost c ((n, 0) # st)) \<le> pushes c + stack_work ((n, 0) # st)" by blast
    have "descend_leftmost n st = descend_leftmost c ((n, 0) # st)"
      using True c by (subst descend_leftmost.simps) simp
    with IH True kids show ?thesis
      by (auto simp: leaves_inner frame_rest_def frame_work_def pushes.simps [of n])
  next
    case False
    with first have "descend_leftmost n st = (n, 0) # st" by (subst descend_leftmost.simps) auto
    moreover have "art_is_leaf n \<Longrightarrow> kids n = []" by (cases n) auto
    ultimately show ?thesis using ok False by (auto simp: leaves_inner frame_rest_def frame_work_def pushes.simps [of n])
  qed
qed

lemma next_leaf [simp]: "art_next ((ArtLeaf k v, i) # rest) = Some (rest, Some (k, v))"
  by (subst art_next.simps) simp

lemma next_inner: "\<not> art_is_leaf n \<Longrightarrow> art_next ((n, i) # rest) =
   (case get_next_child n i of Some (c, j) \<Rightarrow> art_next (descend_leftmost c ((n, j) # rest)) | None \<Rightarrow> art_next rest)"
  by (cases n; hypsubst_thin; subst art_next.simps) (simp_all del: get_next_child.simps)

lemma next_correct:
  "stack_ok st \<Longrightarrow> \<exists>st'. stack_ok st' \<and>
     (case stack_rest st of
        [] \<Rightarrow> art_next st = Some (st', None) \<and> stack_rest st' = []
      | x # xs \<Rightarrow> art_next st = Some (st', Some x) \<and> stack_rest st' = xs)"
proof (induction "stack_work st" arbitrary: st rule: less_induct)
  case less
  show ?case
  proof (cases st)
    case Nil
    then show ?thesis by (intro exI [of _ "[]"]) (simp add: art_next.simps)
  next
    case (Cons f rest)
    obtain n i where f: "f = (n, i)" by (cases f)
    from less.prems Cons f obtain pre where n: "art_wf pre n" "i < length (kids n) \<or> kids n = []" "stack_ok rest"
      by (auto simp: frame_ok_def)
    consider k v where "n = ArtLeaf k v" | "\<not> art_is_leaf n" "i + 1 < length (kids n)" | "\<not> art_is_leaf n" "\<not> i + 1 < length (kids n)"
      by (cases n) auto
    then show ?thesis
    proof cases
      case 1
      with Cons f n(3) show ?thesis by (intro exI [of _ rest]) (simp add: frame_rest_def)
    next
      case 2
      let ?c = "kids n ! (i + 1)" and ?st = "(n, i + 1) # rest"
      have step: "art_next st = art_next (descend_leftmost ?c ?st)"
        using kids_next [OF wf_node_ok [OF n(1)] 2(1) n(2)] 2 Cons f by (simp add: next_inner)
      have drop: "drop (i + 1) (kids n) = ?c # drop (i + 2) (kids n)"
        using 2(2) by (simp add: Cons_nth_drop_Suc [symmetric])
      have ok: "stack_ok ?st" using 2(2) n(1,3) by (auto simp: frame_ok_def)
      from wf_kid [OF n(1) nth_mem [OF 2(2)]] obtain pre' where "art_wf pre' ?c" by blast
      note d = descend_correct [OF this ok]
      have work: "stack_work (descend_leftmost ?c ?st) < stack_work st"
        using d drop Cons f by (simp add: frame_work_def)
      have rest: "stack_rest (descend_leftmost ?c ?st) = stack_rest st"
        using d drop Cons f 2(1) by (simp add: frame_rest_def)
      from less.hyps [OF work conjunct1 [OF d]] show ?thesis unfolding rest step .
    next
      case 3
      have step: "art_next st = art_next rest"
        using kids_next [OF wf_node_ok [OF n(1)] 3(1) n(2)] 3 Cons f by (simp add: next_inner)
      have rest: "stack_rest rest = stack_rest st" and work: "stack_work rest < stack_work st"
        using 3 Cons f by (simp_all add: frame_rest_def frame_work_def)
      from less.hyps [OF work n(3)] show ?thesis unfolding rest step .
    qed
  qed
qed

text \<open>The results of so many calls.\<close>

primrec next_calls :: "nat \<Rightarrow> 'v frames \<Rightarrow> (bytes \<times> 'v) option list option" where
  "next_calls 0 st = Some []"
| "next_calls (Suc m) st =
     (case art_next st of
        None \<Rightarrow> None
      | Some (st', item) \<Rightarrow> map_option ((#) item) (next_calls m st'))"

lemma next_calls_correct:
  "stack_ok st \<Longrightarrow> next_calls m st =
     Some (map (\<lambda>i. if i < length (stack_rest st) then Some (stack_rest st ! i) else None) [0..<m])"
proof (induction m arbitrary: st)
  case (Suc m)
  have upt: "[0..<Suc m] = 0 # map Suc [0..<m]" by (simp only: upt_conv_Cons zero_less_Suc map_Suc_upt)
  from next_correct [OF Suc.prems] obtain st' where st': "stack_ok st'"
    "case stack_rest st of [] \<Rightarrow> art_next st = Some (st', None) \<and> stack_rest st' = []
      | x # xs \<Rightarrow> art_next st = Some (st', Some x) \<and> stack_rest st' = xs" by blast
  then show ?case
    unfolding upt using Suc.IH [OF st'(1)] by (cases "stack_rest st") (simp_all add: comp_def del: concat_eq_Nil_conv)
qed simp

lemma iter_new_correct:
  assumes "\<forall>n. root = Some n \<longrightarrow> art_wf [] n"
  shows "stack_ok (iter_new root)" "stack_rest (iter_new root) = (case root of None \<Rightarrow> [] | Some n \<Rightarrow> leaf_items n)"
  using assms descend_correct [of "[]" _ "[]"] by (auto simp: iter_new_def split: option.split)

lemma skip_correct:
  "stack_ok st \<Longrightarrow> \<exists>st'. skip_to start st = Some st' \<and> stack_ok st' \<and>
     stack_rest st' = tl (dropWhile (\<lambda>(k, v). k < start) (stack_rest st))"
proof (induction "length (stack_rest st)" arbitrary: st rule: less_induct)
  case less
  from next_correct [OF less.prems] obtain st' where st': "stack_ok st'"
    "case stack_rest st of [] \<Rightarrow> art_next st = Some (st', None) \<and> stack_rest st' = []
      | x # xs \<Rightarrow> art_next st = Some (st', Some x) \<and> stack_rest st' = xs" by blast
  show ?case
  proof (cases "stack_rest st")
    case Nil
    with st' show ?thesis by (subst skip_to.simps) (auto simp del: concat_eq_Nil_conv)
  next
    case (Cons x xs)
    obtain k v where x: "x = (k, v)" by (cases x)
    show ?thesis
    proof (cases "start \<le> k")
      case True
      with Cons st' x show ?thesis by (subst skip_to.simps) auto
    next
      case False
      from less.hyps [OF _ st'(1)] st'(2) Cons obtain st2 where "skip_to start st' = Some st2" "stack_ok st2"
        "stack_rest st2 = tl (dropWhile (\<lambda>(k, v). k < start) xs)" by auto
      with Cons st' x False show ?thesis by (subst skip_to.simps) auto
    qed
  qed
qed

text \<open>What the leaves hold is held by the tree.\<close>

lemma leaves_content:
  "art_wf pre n \<Longrightarrow> (k, v) \<in> set (leaf_items n) \<Longrightarrow> \<exists>r. k = pre @ r \<and> content pre n r = Some v"
proof (induction rule: art_wf.induct)
  case (wf_leaf pre k' v')
  then show ?case using content_leaf [of pre _ v'] by (auto simp: prefix_def)
next
  case (wf_inner n pre)
  from wf_inner.prems obtain c where c: "c \<in> set (kids n)" "(k, v) \<in> set (leaf_items c)"
    by (auto simp: leaves_inner [OF wf_inner.hyps(1)])
  from kids_found [OF wf_inner.hyps(2) c(1)] obtain b where b: "find_child n b = Some c" .
  from wf_inner.IH [OF b c(2)] obtain r where "k = (pre @ art_partial n @ [b]) @ r"
    "content (pre @ art_partial n @ [b]) c r = Some v" by blast
  with content_child [OF wf_inner.hyps(1), of pre b r] b show ?case
    by (intro exI [of _ "art_partial n @ b # r"]) simp
qed

end
