(* ===== verification/Art_Scan.thy ===== *)
theory Art_Scan
  imports Art_Iter
begin

text \<open>
  Which entries iteration over a radix tree returns: exactly those whose lookup ends at a leaf, each
  once. The entries held by inner nodes are left out; among them are all whose key is a proper prefix
  of another key. A range iterator with a start key returns the same entries from the second one in
  the range on.
\<close>

section \<open>The bytes of the children\<close>

lemma zip_bytes:
  assumes "distinct xs" "length xs = length ys" "None \<notin> set ys"
  shows "map (\<lambda>b. the (join (map_of (zip xs ys) b))) xs = map the ys"
    and "{b. join (map_of (zip xs ys) b) \<noteq> None} = set xs"
proof -
  have hit: "map_of (zip xs ys) (xs ! i) = Some (ys ! i)" "ys ! i \<noteq> None" if "i < length xs" for i
    using that assms map_of_zip_nth [of xs ys i] by (simp, metis nth_mem)
  then show "map (\<lambda>b. the (join (map_of (zip xs ys) b))) xs = map the ys"
    using assms(2) by (intro nth_equalityI) auto
  have "join (map_of (zip xs ys) b) \<noteq> None \<longleftrightarrow> b \<in> set xs" for b
  proof
    assume "b \<in> set xs"
    with hit show "join (map_of (zip xs ys) b) \<noteq> None" by (auto simp: in_set_conv_nth)
  qed (auto simp: map_of_zip_is_None assms(2) split: bind_splits dest!: map_of_SomeD set_zip_leftD)
  then show "{b. join (map_of (zip xs ys) b) \<noteq> None} = set xs" by blast
qed

lemma of_nat_bytes:
  "distinct (map of_nat (filter P [0..<256]) :: u8 list)"
  "set (map of_nat (filter P [0..<256]) :: u8 list) = {b. P (unat b)}"
proof -
  have "inj_on (of_nat :: nat \<Rightarrow> u8) (set (filter P [0..<256]))"
    by (rule inj_on_inverseI [of _ unat]) (simp add: unat_of_nat)
  then show "distinct (map of_nat (filter P [0..<256]) :: u8 list)" by (simp add: distinct_map)
  have "b \<in> of_nat ` {i. i < 256 \<and> P i}" if "P (unat b)" for b :: u8
    using that by (intro image_eqI [of _ _ "unat b"]) simp_all
  then show "set (map of_nat (filter P [0..<256]) :: u8 list) = {b. P (unat b)}"
    by (auto simp: unat_of_nat)
qed

lemma kids_bytes:
  assumes "art_node_ok n"
  shows "\<exists>bs. distinct bs \<and> kids n = map (\<lambda>b. the (find_child n b)) bs \<and> set bs = {b. find_child n b \<noteq> None}"
proof -
  have arrays: "\<exists>bs. distinct bs \<and> List.map_filter (\<lambda>c. c) (take m cs) = map (\<lambda>b. the (f b)) bs \<and> set bs = {b. f b \<noteq> None}"
    if ok: "arrays_ok cap m ks cs" and f: "\<And>b. f b = join (map_of (kids_of m ks cs) b)" for cap m ks cs and f :: "u8 \<Rightarrow> 'a Node option"
  proof -
    have "distinct (take m ks)" "length (take m ks) = length (take m cs)" "None \<notin> set (take m cs)"
      using ok by (simp_all add: arrays_ok_def)
    from zip_bytes [OF this] this(1) show ?thesis
      unfolding f kids_arrays(1) [OF ok] by (intro exI [of _ "take m ks"]) simp
  qed
  show ?thesis
  proof (cases n)
    case (Node4 h ks cs)
    with assms arrays [of 4 "num_children h" ks cs "find_child n"] find_child_node4 [of h ks cs] show ?thesis
      by (simp del: find_child.simps bind_eq_None_conv)
  next
    case (Node16 h ks cs)
    with assms arrays [of 16 "num_children h" ks cs "find_child n"] find_child_node16 [of h ks cs] show ?thesis
      by (simp del: find_child.simps bind_eq_None_conv)
  next
    case (Node48 h ix cs)
    let ?P = "\<lambda>b. ix ! b \<noteq> 255"
    from Node48 assms have ix: "index_ok ix cs" by simp
    have some: "child_at cs (unat (ix ! b)) = Some (the (child_at cs (unat (ix ! b))))" if "b < 256" "?P b" for b
      by (rule kids_node48(2) [OF ix that])
    have "{b. find_child n b \<noteq> None} = {b. ?P (unat b)}"
      unfolding Node48 find_child.simps Let_def using some [OF unat_less_u8] by (auto split: if_splits)
    moreover have "kids n = map (\<lambda>b. the (find_child n b)) (map of_nat (filter ?P [0..<256]))"
      unfolding Node48 kids_node48(1) [OF ix] map_map
      by (rule map_cong [OF refl]) (simp add: unat_of_nat)
    ultimately show ?thesis using of_nat_bytes [of ?P] by blast
  next
    case (Node256 h cs)
    let ?P = "\<lambda>b. child_at cs b \<noteq> None"
    have "{b. find_child n b \<noteq> None} = {b. ?P (unat b)}" using Node256 by simp
    moreover have "kids n = map (\<lambda>b. the (find_child n b)) (map of_nat (filter ?P [0..<256]))"
      unfolding Node256 kids_node256 map_map
      by (rule map_cong [OF refl]) (simp add: unat_of_nat)
    ultimately show ?thesis using of_nat_bytes [of ?P] by blast
  qed simp
qed

lemma kids_find: "art_node_ok n \<Longrightarrow> set (kids n) = {c. \<exists>b. find_child n b = Some c}"
  using kids_bytes [of n] by (force simp: image_iff)

section \<open>Entries held by leaves\<close>

text \<open>Whether the lookup of a key, as \<open>get\<close> walks down, ends at a leaf.\<close>

function ends_at_leaf :: "'v Node \<Rightarrow> bytes \<Rightarrow> nat \<Rightarrow> bool" where
  "ends_at_leaf n key depth =
     (let d = depth + length (art_partial n) in
      if art_is_leaf n then True
      else if length key \<le> d then False
      else case find_child n (key ! d) of None \<Rightarrow> False | Some c \<Rightarrow> ends_at_leaf c key (d + 1))"
  by pat_completeness auto
termination
  by (relation "measure (\<lambda>(n, key, depth). size n)") (auto dest: size_find_child)

declare ends_at_leaf.simps [simp del]

definition held_by_leaf :: "'v AdaptiveRadixTree \<Rightarrow> bytes \<Rightarrow> bool" where
  "held_by_leaf t key \<longleftrightarrow> (case art_root t of None \<Rightarrow> False | Some n \<Rightarrow> ends_at_leaf n key 0)"

lemma ends_child:
  assumes "\<not> art_is_leaf n"
  shows "ends_at_leaf n (pre @ art_partial n @ b # r) (length pre) \<longleftrightarrow>
      (\<exists>c. find_child n b = Some c \<and>
        ends_at_leaf c ((pre @ art_partial n @ [b]) @ r) (length (pre @ art_partial n @ [b])))"
    and "\<not> ends_at_leaf n (pre @ art_partial n) (length pre)"
  using assms by (auto simp: ends_at_leaf.simps [of n] Let_def nth_append split: option.split)

lemma leaf_items_exact:
  "art_wf pre n \<Longrightarrow> (pre @ r, v) \<in> set (leaf_items n) \<longleftrightarrow>
     content pre n r = Some v \<and> ends_at_leaf n (pre @ r) (length pre)"
proof (induction arbitrary: r rule: art_wf.induct)
  case (wf_leaf pre k w)
  then obtain s where "k = pre @ s" by (auto elim: prefixE)
  with content_leaf [of pre s w] show ?case by (auto simp: ends_at_leaf.simps)
next
  case (wf_inner n pre)
  have wf: "art_wf pre n" using wf_inner.hyps by (auto intro: art_wf.wf_inner)
  have kid: "(pre @ art_partial n @ b # r', v) \<in> set (leaf_items c) \<longleftrightarrow>
      content (pre @ art_partial n @ [b]) c r' = Some v \<and>
      ends_at_leaf c ((pre @ art_partial n @ [b]) @ r') (length (pre @ art_partial n @ [b]))"
    if "find_child n b = Some c" for b c r' using wf_inner.IH [OF that, of r'] by simp
  have start: "\<exists>r'. k = pre @ art_partial n @ b # r'" if "find_child n b = Some c" "(k, w) \<in> set (leaf_items c)" for b c k w
    using leaves_content [OF wf_inner.hyps(3) [OF that(1)] that(2)] by auto
  have mem: "(k, w) \<in> set (leaf_items n) \<longleftrightarrow> (\<exists>b c. find_child n b = Some c \<and> (k, w) \<in> set (leaf_items c))" for k w
    using kids_find [OF wf_inner.hyps(2)] by (auto simp: leaves_inner [OF wf_inner.hyps(1)])
  show ?case
  proof (cases r rule: rest_cases [of "art_partial n"])
    case other
    then have "(pre @ r, v) \<notin> set (leaf_items n)" unfolding mem using start by (fastforce simp: prefix_def)
    with other content_other [of n r pre] show ?thesis by simp
  next
    case stop
    then have "(pre @ r, v) \<notin> set (leaf_items n)" unfolding mem using start by fastforce
    with stop ends_child(2) [OF wf_inner.hyps(1)] show ?thesis by simp
  next
    case (child b r')
    have "(pre @ r, v) \<in> set (leaf_items n) \<longleftrightarrow>
        (\<exists>c. find_child n b = Some c \<and> (pre @ art_partial n @ b # r', v) \<in> set (leaf_items c))"
      unfolding mem child using start by fastforce
    also have "\<dots> \<longleftrightarrow> content pre n r = Some v \<and> ends_at_leaf n (pre @ r) (length pre)"
      unfolding child ends_child(1) [OF wf_inner.hyps(1)] content_child [OF wf_inner.hyps(1)]
      using kid [of b _ r'] by (auto split: option.splits)
    finally show ?thesis .
  qed
qed

lemma leaf_items_distinct: "art_wf pre n \<Longrightarrow> distinct (map fst (leaf_items n))"
proof (induction rule: art_wf.induct)
  case (wf_inner n pre)
  from kids_bytes [OF wf_inner.hyps(2)] obtain bs where bs: "distinct bs"
    "kids n = map (\<lambda>b. the (find_child n b)) bs" "set bs = {b. find_child n b \<noteq> None}" by blast
  have start: "\<exists>r'. k = pre @ art_partial n @ b # r'" if "find_child n b = Some c" "(k, w) \<in> set (leaf_items c)" for b c k w
    using leaves_content [OF wf_inner.hyps(3) [OF that(1)] that(2)] by auto
  have "distinct (concat (map (\<lambda>b. map fst (leaf_items (the (find_child n b)))) xs))"
    if "distinct xs" "set xs \<subseteq> {b. find_child n b \<noteq> None}" for xs
    using that
  proof (induction xs)
    case (Cons b xs)
    then obtain c where c: "find_child n b = Some c" by auto
    have "fst e \<noteq> fst e'" if e: "e \<in> set (leaf_items c)" "b' \<in> set xs" "e' \<in> set (leaf_items (the (find_child n b')))" for e e' b'
    proof -
      obtain c' where "find_child n b' = Some c'" using e(2) Cons.prems(2) by auto
      moreover have "b' \<noteq> b" using e(2) Cons.prems(1) by auto
      ultimately show ?thesis using start [OF c, of "fst e" "snd e"] start [of b' c' "fst e'" "snd e'"] e(1,3) by auto
    qed
    with Cons c wf_inner.IH [OF c] show ?case by fastforce
  qed simp
  from this [OF bs(1)] bs(3) show ?case
    by (simp add: leaves_inner [OF wf_inner.hyps(1)] bs(2) map_concat comp_def)
qed simp

lemma prefix_not_leaf:
  "art_wf pre n \<Longrightarrow> content pre n r \<noteq> None \<Longrightarrow> content pre n r' \<noteq> None \<Longrightarrow> strict_prefix r r' \<Longrightarrow>
   \<not> ends_at_leaf n (pre @ r) (length pre)"
proof (induction arbitrary: r r' rule: art_wf.induct)
  case (wf_leaf pre k w)
  then obtain s where "k = pre @ s" by (auto elim: prefixE)
  with wf_leaf content_leaf [of pre s w] show ?case by (auto split: if_splits)
next
  case (wf_inner n pre)
  show ?case
  proof (cases r rule: rest_cases [of "art_partial n"])
    case other
    with wf_inner.prems(1) content_other [of n r pre] show ?thesis by simp
  next
    case stop
    with ends_child(2) [OF wf_inner.hyps(1)] show ?thesis by simp
  next
    case (child b q)
    from wf_inner.prems(3) child obtain q' where r': "r' = art_partial n @ b # q'" "strict_prefix q q'"
      by (auto simp: strict_prefix_def prefix_def)
    from wf_inner.prems(1) child content_child [OF wf_inner.hyps(1), of pre b q] obtain c
      where c: "find_child n b = Some c" "content (pre @ art_partial n @ [b]) c q \<noteq> None"
      by (auto split: option.splits)
    moreover have "content (pre @ art_partial n @ [b]) c q' \<noteq> None"
      using wf_inner.prems(2) r'(1) c(1) content_child [OF wf_inner.hyps(1), of pre b q'] by simp
    ultimately show ?thesis
      using wf_inner.IH [OF c(1) _ _ r'(2)] unfolding child ends_child(1) [OF wf_inner.hyps(1)] by auto
  qed
qed

section \<open>Range iterators\<close>

text \<open>The results of so many calls of the range iterator's \<open>next\<close>.\<close>

primrec range_calls :: "nat \<Rightarrow> 'v ArtRangeIterator \<Rightarrow> (bytes \<times> 'v) option list option" where
  "range_calls 0 it = Some []"
| "range_calls (Suc m) it =
     (case range_next it of
        None \<Rightarrow> None
      | Some (it', item) \<Rightarrow> map_option ((#) item) (range_calls m it'))"

definition past_end :: "bytes option \<Rightarrow> bool \<Rightarrow> bytes \<Rightarrow> bool" where
  "past_end e incl k = (case e of None \<Rightarrow> False | Some e \<Rightarrow> if incl then e < k else e \<le> k)"

definition cut_end :: "bytes option \<Rightarrow> bool \<Rightarrow> (bytes \<times> 'v) option \<Rightarrow> (bytes \<times> 'v) option" where
  "cut_end e incl item = (case item of None \<Rightarrow> None | Some (k, v) \<Rightarrow> if past_end e incl k then None else Some (k, v))"

lemma range_next_cut:
  "range_next it = map_option (\<lambda>(st, item). (it\<lparr>inner_iter := st\<rparr>, cut_end (end_key it) (inclusive it) item)) (art_next (inner_iter it))"
  unfolding range_next_def cut_end_def past_end_def
  by (rule arg_cong [of _ _ "\<lambda>f. map_option f _"]) (auto intro!: ext split: option.split)

lemma range_calls_cut:
  "range_calls m it = map_option (map (cut_end (end_key it) (inclusive it))) (next_calls m (inner_iter it))"
proof (induction m arbitrary: it)
  case (Suc m)
  show ?case
  proof (cases "art_next (inner_iter it)")
    case (Some p)
    obtain st item where p: "p = (st, item)" by (cases p)
    show ?thesis using Some p Suc [of "it\<lparr>inner_iter := st\<rparr>"]
      by (simp add: range_next_cut option.map_comp comp_def)
  qed (simp add: range_next_cut)
qed simp

lemma range_from_start:
  assumes "\<forall>n. art_root t = Some n \<longrightarrow> art_wf [] n"
  defines "items \<equiv> case art_root t of None \<Rightarrow> [] | Some n \<Rightarrow> leaf_items n"
  shows "\<exists>it. art_range t (Some start) e incl = Some it \<and>
    (\<forall>m. range_calls m it = Some (map (\<lambda>i.
       let rest = tl (dropWhile (\<lambda>(k, v). k < start) items)
       in cut_end e incl (if i < length rest then Some (rest ! i) else None)) [0..<m]))"
proof -
  note new = iter_new_correct [OF assms(1)]
  from skip_correct [OF new(1), of start] obtain st where st: "skip_to start (iter_new (art_root t)) = Some st"
    "stack_ok st" "stack_rest st = tl (dropWhile (\<lambda>(k, v). k < start) items)"
    unfolding new(2) items_def by blast
  show ?thesis
    using next_calls_correct [OF st(2)]
    by (auto simp: art_range_def range_new_def st(1,3) range_calls_cut Let_def)
qed

end
