(* ===== verification/Art_Loss.thy ===== *)
theory Art_Loss
  imports Art_Scan
begin

text \<open>
  Insertions that lose a key. Two nodes cannot take another child: a full \<open>Node4\<close> whose keys are not
  sorted, since the \<open>Node16\<close> it grows into is searched by bisection, and a \<open>Node48\<close> in which the slot with
  the number of its children is in use. The lemmas show that adding a child there hides or replaces
  a child, and that an insertion that ends at such a node succeeds and loses a key.
\<close>

section \<open>Bisection of unsorted keys\<close>

lemma n16_search_Some: "n16_search ks b left right = Some i \<Longrightarrow> left \<le> i \<and> i < right \<and> ks ! i = b"
proof (induction ks b left right rule: n16_search.induct)
  case (1 ks b left right)
  define mid where "mid = (left + right) div 2"
  have lt: "left < right" using "1.prems" by (subst (asm) n16_search.simps) (auto split: if_splits)
  then have mid: "left \<le> mid" "mid < right" by (auto simp: mid_def)
  consider "ks ! mid < b" | "b < ks ! mid" | "ks ! mid = b" by (metis linorder_neqE)
  then show ?case
  proof cases
    case less: 1
    with "1.prems" lt have "n16_search ks b (mid + 1) right = Some i"
      by (subst (asm) n16_search.simps) (simp add: Let_def mid_def [symmetric])
    with "1.IH"(1) [OF lt mid_def less] mid show ?thesis by simp
  next
    case greater: 2
    then have "\<not> ks ! mid < b" by simp
    moreover with greater "1.prems" lt have "n16_search ks b left mid = Some i"
      by (subst (asm) n16_search.simps) (simp add: Let_def mid_def [symmetric])
    ultimately show ?thesis using "1.IH"(2) [OF lt mid_def _ greater] mid by simp
  next
    case 3
    with "1.prems" lt have "i = mid" by (subst (asm) n16_search.simps) (simp add: Let_def mid_def [symmetric])
    with 3 mid show ?thesis by simp
  qed
qed

text \<open>Bisection finds every element only if the elements are sorted.\<close>

lemma n16_search_sorted:
  assumes "\<forall>i. left \<le> i \<and> i < right \<longrightarrow> n16_search ks (ks ! i) left right = Some i"
  shows "\<forall>i j. left \<le> i \<and> i < j \<and> j < right \<longrightarrow> ks ! i < ks ! j"
  using assms
proof (induction "right - left" arbitrary: left right rule: less_induct)
  case less
  show ?case
  proof (cases "left < right")
    case True
    define mid where "mid = (left + right) div 2"
    have mid: "left \<le> mid" "mid < right" using True by (auto simp: mid_def)
    have step: "n16_search ks b left right =
        (if ks ! mid < b then n16_search ks b (mid + 1) right
         else if b < ks ! mid then n16_search ks b left mid else Some mid)" for b
      using True by (subst n16_search.simps) (simp add: Let_def mid_def [symmetric])
    have low: "ks ! i < ks ! mid \<and> n16_search ks (ks ! i) left mid = Some i" if "left \<le> i" "i < mid" for i
    proof -
      have "n16_search ks (ks ! i) left right = Some i" using less.prems that mid by simp
      with that show ?thesis unfolding step by (auto split: if_splits dest: n16_search_Some)
    qed
    have high: "ks ! mid < ks ! i \<and> n16_search ks (ks ! i) (mid + 1) right = Some i" if "mid < i" "i < right" for i
    proof -
      have "n16_search ks (ks ! i) left right = Some i" using less.prems that mid by simp
      with that show ?thesis unfolding step by (auto split: if_splits dest: n16_search_Some)
    qed
    have L: "\<forall>i j. left \<le> i \<and> i < j \<and> j < mid \<longrightarrow> ks ! i < ks ! j"
      by (rule less.hyps) (use low mid in auto)
    have R: "\<forall>i j. mid + 1 \<le> i \<and> i < j \<and> j < right \<longrightarrow> ks ! i < ks ! j"
      by (rule less.hyps) (use high mid True in auto)
    show ?thesis
    proof (intro allI impI, elim conjE)
      fix i j assume ij: "left \<le> i" "i < j" "j < right"
      consider "j < mid" | "j = mid" | "i = mid" | "mid < i" | "i < mid" "mid < j" using ij by linarith
      then show "ks ! i < ks ! j"
      proof cases
        case 5
        with low [of i] high [of j] ij show ?thesis by (meson less_trans)
      qed (use L R low high ij in auto)
    qed
  qed auto
qed

lemma n16_misses:
  assumes "distinct (take n ks)" "n \<le> length ks" "\<not> sorted_wrt (<) (take n ks)"
  shows "\<exists>i < n. n16_search ks (ks ! i) 0 n = None"
proof (rule ccontr)
  assume found: "\<not> (\<exists>i < n. n16_search ks (ks ! i) 0 n = None)"
  have "n16_search ks (ks ! i) 0 n = Some i" if i: "i < n" for i
  proof -
    from found i obtain j where j: "n16_search ks (ks ! i) 0 n = Some j" by auto
    from n16_search_Some [OF this] have "j < n" "ks ! j = ks ! i" by auto
    with assms(1,2) i have "j = i" by (auto simp: distinct_conv_nth)
    with j show ?thesis by simp
  qed
  with n16_search_sorted [of 0 n ks] have "ks ! i < ks ! j" if "i < j" "j < n" for i j using that by simp
  with assms(2,3) show False by (auto simp: sorted_wrt_iff_nth_less)
qed

section \<open>Nodes without room\<close>

fun no_room :: "'v Node \<Rightarrow> bool" where
  "no_room (Node4 h ks cs) \<longleftrightarrow> num_children h = 4 \<and> \<not> sorted_wrt (<) ks"
| "no_room (Node48 h ix cs) \<longleftrightarrow> num_children h < 48 \<and> word_of_nat (num_children h) \<in> set ix"
| "no_room _ \<longleftrightarrow> False"

lemma grow_unsorted:
  assumes ok: "arrays_ok 4 (num_children h) ks cs" and full: "num_children h = 4" and "\<not> sorted_wrt (<) ks"
    and b: "join (map_of (kids_of 4 ks cs) b) = None"
  shows "\<exists>b0. (b0 = b \<or> join (map_of (kids_of 4 ks cs) b0) \<noteq> None) \<and>
    find_child (add_child_to_node16 h (grow_keys 4 ks) (grow_children 16 4 cs) b c) b0 = None"
proof -
  let ?ks = "grow_keys 4 ks" and ?cs = "grow_children 16 4 cs"
  have arr: "take 4 ?ks = ks" "take 4 ?cs = cs" "length ?ks = 16" "length ?cs = 16" "length ks = 4" "length cs = 4"
    using ok full by (simp_all add: grow_keys_def grow_children_def copy_prefix_eq arrays_ok_def)
  let ?p = "insert_pos ?ks b 4"
  let ?ks' = "array_insert ?p 4 b ?ks"
  have take5: "take 5 ?ks' = take ?p ks @ b # drop ?p ks"
    using take_array_insert [of ?p 4 ?ks b] insert_pos_le [of ?ks b 4] arr by (simp del: take_take)
  have "\<not> sorted_wrt (<) (take ?p ks @ b # drop ?p ks)"
    using assms(3) append_take_drop_id [of ?p ks]
    by (metis (no_types, lifting) list.set_intros(2) sorted_wrt.simps(2) sorted_wrt_append)
  moreover have "distinct (take ?p ks @ b # drop ?p ks)"
    unfolding insert_mid using kids_absent(2) [OF ok] b full ok arr by (auto simp: arrays_ok_def)
  ultimately obtain i where i: "i < 5" "n16_search ?ks' (?ks' ! i) 0 5 = None"
    using n16_misses [of 5 ?ks'] unfolding take5 by (auto simp: arr)
  have "?ks' ! i \<in> set (take 5 ?ks')" using i(1) arr(3) by (auto simp: in_set_conv_nth)
  then have "?ks' ! i \<in> insert b (set ks)" unfolding take5 insert_mid .
  moreover have "join (map_of (kids_of 4 ks cs) b0) \<noteq> None" if "b0 \<in> set ks" for b0
    using kids_absent(2) [OF ok, of b0] that full arr by auto
  moreover have "find_child (add_child_to_node16 h ?ks ?cs b c) (?ks' ! i) = None"
    using i(2) full by (simp add: add_child_to_node16_def Let_def)
  ultimately show ?thesis by blast
qed

lemma add_child_loses:
  assumes "art_node_ok n" "no_room n" "find_child n b = None"
  shows "\<exists>n' b0. add_child n b c = Ok n' \<and> \<not> art_is_leaf n' \<and> art_partial n' = art_partial n \<and>
    (b0 = b \<or> find_child n b0 \<noteq> None) \<and> (find_child n' b0 = None \<or> b0 \<noteq> b \<and> find_child n' b0 = Some c)"
proof (cases n)
  case (Node4 h ks cs)
  let ?n' = "add_child_to_node16 h (grow_keys 4 ks) (grow_children 16 4 cs) b c"
  have full: "num_children h = 4" "\<not> sorted_wrt (<) ks" using assms(2) Node4 by simp_all
  have find: "find_child n x = join (map_of (kids_of 4 ks cs) x)" for x
    using find_child_node4 [of h ks cs x] assms(1) Node4 full by (simp del: find_child.simps)
  obtain b0 where "b0 = b \<or> find_child n b0 \<noteq> None" "find_child ?n' b0 = None"
    using grow_unsorted [of h ks cs b c] assms(1,3) Node4 full unfolding find by auto
  moreover have "add_child n b c = Ok ?n'" "\<not> art_is_leaf ?n'" "art_partial ?n' = art_partial n"
    using Node4 full by (simp_all add: add_child_to_node16_def Let_def art_partial_def)
  ultimately show ?thesis by blast
next
  case (Node48 h ix cs)
  let ?n' = "add_child_to_node48 h ix cs b c" and ?i = "num_children h"
  have ix: "index_ok ix cs" and i: "?i < 48" "word_of_nat ?i \<in> set ix" using assms(1,2) Node48 by simp_all
  note len = index_okD(1,2) [OF ix]
  from i(2) obtain j where "j < 256" "ix ! j = word_of_nat ?i" by (auto simp: in_set_conv_nth len)
  moreover from this have "unat (word_of_nat j :: u8) = j" by (simp add: unat_of_nat)
  ultimately obtain b0 :: u8 where b0: "ix ! unat b0 = word_of_nat ?i" by metis
  have "ix ! unat b = 255"
    using assms(3) index_okD(4) [OF ix, of b] unfolding Node48 find_child_node48 [OF ix] by (auto split: if_splits)
  with b0 i(1) have ne: "b0 \<noteq> b" by auto
  have "find_child n b0 \<noteq> None"
    using b0 i(1) index_okD(4) [OF ix, of b0] unfolding Node48 find_child_node48 [OF ix] by auto
  moreover have "find_child ?n' b0 = Some c"
    using b0 i(1) ne len by (simp add: add_child_to_node48_def Let_def child_at_def)
  moreover have "add_child n b c = Ok ?n'" "\<not> art_is_leaf ?n'" "art_partial ?n' = art_partial n"
    using Node48 i(1) by (simp_all add: add_child_to_node48_def Let_def art_partial_def)
  ultimately show ?thesis using ne by blast
qed (use assms in simp_all)

section \<open>Insertions that end at such a node\<close>

text \<open>Whether the key is to be added, as a new child, to a node without room.\<close>

function insert_collides :: "'v Node \<Rightarrow> bytes \<Rightarrow> nat \<Rightarrow> bool" where
  "insert_collides n key depth =
     (let partial = art_partial n; m = check_prefix partial key depth; d = depth + length partial in
      if m < length partial \<or> art_is_leaf n \<or> length key \<le> d then False
      else case find_child n (key ! d) of Some c \<Rightarrow> insert_collides c key (d + 1) | None \<Rightarrow> no_room n)"
  by pat_completeness auto
termination
  by (relation "measure (\<lambda>(n, key, depth). size n)") (auto dest: size_find_child)

declare insert_collides.simps [simp del]

text \<open>Every subtree holds a key. (Removing the value of an inner node without children leaves an empty node.)\<close>

function no_empty :: "'v Node \<Rightarrow> bool" where
  "no_empty n \<longleftrightarrow>
     (art_is_leaf n \<or> inner_value n \<noteq> None \<or> kids n \<noteq> []) \<and> (\<forall>c \<in> set (kids n). no_empty c)"
  by pat_completeness auto
termination
  by (relation "measure size") (auto simp del: kids.simps dest: size_kids)

declare no_empty.simps [simp del]

lemma no_empty_content: "art_wf pre n \<Longrightarrow> no_empty n \<Longrightarrow> \<exists>r. content pre n r \<noteq> None"
proof (induction rule: art_wf.induct)
  case (wf_leaf pre k v)
  then show ?case using content_leaf [of pre _ v] by (auto simp: prefix_def)
next
  case (wf_inner n pre)
  show ?case
  proof (cases "inner_value n")
    case (Some v)
    with content_end [OF wf_inner.hyps(1), of pre] show ?thesis by auto
  next
    case None
    with wf_inner.prems wf_inner.hyps(1) obtain c where "c \<in> set (kids n)" "no_empty c"
      by (subst (asm) no_empty.simps) (cases "kids n"; auto)
    moreover from this kids_find [OF wf_inner.hyps(2)] obtain b where b: "find_child n b = Some c" by auto
    ultimately obtain r where "content (pre @ art_partial n @ [b]) c r \<noteq> None" using wf_inner.IH by blast
    with b content_child [OF wf_inner.hyps(1), of pre b r] show ?thesis
      by (intro exI [of _ "art_partial n @ b # r"]) simp
  qed
qed

lemma no_empty_child: "art_node_ok n \<Longrightarrow> no_empty n \<Longrightarrow> find_child n b = Some c \<Longrightarrow> no_empty c"
  using kids_find [of n] by (subst (asm) no_empty.simps) blast

lemma content_foreign_leaf:
  assumes "b0 \<noteq> b"
  shows "content (pre @ [b0]) (ArtLeaf (pre @ b # r) v) q = None"
  using assms by (simp add: content_def art_get_loop.simps art_partial_def)

lemma collision_loses:
  "art_wf pre n \<Longrightarrow> no_empty n \<Longrightarrow> insert_collides n (pre @ r) (length pre) \<Longrightarrow>
   \<exists>n' r0. insert_recursive n (pre @ r) (length pre) v = Ok (n', None) \<and> r0 \<noteq> [] \<and>
     (r0 = r \<or> content pre n r0 \<noteq> None) \<and> content pre n' r0 = None"
proof (induction arbitrary: r rule: art_wf.induct)
  case (wf_leaf pre k w)
  then show ?case by (simp add: insert_collides.simps)
next
  case (wf_inner n pre)
  let ?p = "art_partial n"
  note coll = wf_inner.prems(2) [unfolded insert_collides.simps [of n] check_prefix_common]
  note rec = insert_recursive.simps [of n "pre @ r" "length pre" v, unfolded check_prefix_common]
  have no: "\<not> common_len ?p r < length ?p" and "length ?p < length r"
    using coll by (auto simp: Let_def split: if_splits)
  then obtain b r' where r: "r = ?p @ b # r'" using rest_cases [of ?p r] by (metis common_len_prefix less_irrefl)
  let ?pre = "pre @ ?p @ [b]"
  have key: "(pre @ r) ! (length pre + length ?p) = b" "\<not> length (pre @ r) \<le> length pre + length ?p"
    using r by (simp_all add: nth_append)
  have split: "pre @ r = ?pre @ r'" "length ?pre = length pre + length ?p + 1" using r by simp_all
  show ?case
  proof (cases "find_child n b")
    case None
    let ?leaf = "ArtLeaf (pre @ r) v"
    from None coll no key wf_inner.hyps(1) have "no_room n" by (simp add: Let_def)
    from add_child_loses [OF wf_inner.hyps(2) this None, of ?leaf] obtain n' b0 where n':
      "add_child n b ?leaf = Ok n'" "\<not> art_is_leaf n'" "art_partial n' = ?p"
      "b0 = b \<or> find_child n b0 \<noteq> None" "find_child n' b0 = None \<or> b0 \<noteq> b \<and> find_child n' b0 = Some ?leaf" by blast
    have ins: "insert_recursive n (pre @ r) (length pre) v = Ok (n', None)"
      unfolding rec Let_def key using n'(1) None no key(2) wf_inner.hyps(1) by simp
    have gone: "content pre n' (?p @ b0 # q) = None" for q
      using n'(5) content_child [OF n'(2), of pre b0 q] content_foreign_leaf [of b0 b "pre @ ?p" r' v q] r n'(3) by auto
    show ?thesis
    proof (cases "b0 = b")
      case True
      with ins gone r show ?thesis by (intro exI [of _ n'] exI [of _ r]) simp
    next
      case False
      with n'(4) obtain c where c: "find_child n b0 = Some c" by auto
      from no_empty_content [OF wf_inner.hyps(3) [OF c] no_empty_child [OF wf_inner.hyps(2) wf_inner.prems(1) c]]
      obtain q where "content (pre @ ?p @ [b0]) c q \<noteq> None" by blast
      with c content_child [OF wf_inner.hyps(1), of pre b0 q] have "content pre n (?p @ b0 # q) \<noteq> None" by simp
      with ins gone show ?thesis by (intro exI [of _ n'] exI [of _ "?p @ b0 # q"]) simp
    qed
  next
    case (Some c)
    with coll no key wf_inner.hyps(1) split(2) have "insert_collides c (?pre @ r') (length ?pre)"
      unfolding split(1) by (simp add: Let_def)
    from wf_inner.IH [OF Some no_empty_child [OF wf_inner.hyps(2) wf_inner.prems(1) Some] this] obtain c' q where c':
      "insert_recursive c (?pre @ r') (length ?pre) v = Ok (c', None)"
      "q = r' \<or> content ?pre c q \<noteq> None" "content ?pre c' q = None" by blast
    note rep = replace_child_correct [OF wf_inner.hyps(2), of b c']
    have "content pre (replace_child n b c') (?p @ b # q) = None"
      using content_upd [OF rep(1) wf_inner.hyps(1) rep(2), of pre "?p @ b # q"] c'(3) Some by (simp add: prefix_def)
    moreover have "?p @ b # q = r \<or> content pre n (?p @ b # q) \<noteq> None"
      using c'(2) Some r content_child [OF wf_inner.hyps(1), of pre b q] by auto
    moreover have "insert_recursive n (pre @ r) (length pre) v = Ok (replace_child n b c', None)"
      unfolding rec Let_def key using c'(1) Some no key(2) wf_inner.hyps(1)
      unfolding split(2) split(1) [symmetric] by simp
    ultimately show ?thesis by (intro exI [of _ "replace_child n b c'"] exI [of _ "?p @ b # q"]) simp
  qed
qed

end
