(* ===== verification/Simulation.thy ===== *)
theory Simulation
  imports Main
begin

text \<open>
  Functional refinement of a sequence of calls. A component implements a specification if every call
  allowed in the current state keeps its invariant, changes its abstract view as the specification
  says and gives the same answer; then every sequence of allowed calls does.
\<close>

primrec run :: "('c \<Rightarrow> 's \<Rightarrow> 's \<times> 'r) \<Rightarrow> 'c list \<Rightarrow> 's \<Rightarrow> 's \<times> 'r list" where
  "run step [] s = (s, [])"
| "run step (c # cs) s = (let (s', r) = step c s; (s'', rs) = run step cs s' in (s'', r # rs))"

primrec allowed_run :: "('c \<Rightarrow> 's \<Rightarrow> bool) \<Rightarrow> ('c \<Rightarrow> 's \<Rightarrow> 's \<times> 'r) \<Rightarrow> 'c list \<Rightarrow> 's \<Rightarrow> bool" where
  "allowed_run guard step [] s \<longleftrightarrow> True"
| "allowed_run guard step (c # cs) s \<longleftrightarrow> guard c s \<and> allowed_run guard step cs (fst (step c s))"

locale simulation =
  fixes inv :: "'s \<Rightarrow> bool" and view :: "'s \<Rightarrow> 'm" and guard :: "'c \<Rightarrow> 's \<Rightarrow> bool"
    and step :: "'c \<Rightarrow> 's \<Rightarrow> 's \<times> 'r" and spec :: "'c \<Rightarrow> 'm \<Rightarrow> 'm \<times> 'r"
  assumes step_inv: "inv s \<Longrightarrow> guard c s \<Longrightarrow> inv (fst (step c s))"
    and step_view: "inv s \<Longrightarrow> guard c s \<Longrightarrow> view (fst (step c s)) = fst (spec c (view s))"
    and step_answer: "inv s \<Longrightarrow> guard c s \<Longrightarrow> snd (step c s) = snd (spec c (view s))"
begin

lemma run_refines:
  assumes "inv s" "allowed_run guard step cs s"
  shows "inv (fst (run step cs s)) \<and> view (fst (run step cs s)) = fst (run spec cs (view s)) \<and>
    snd (run step cs s) = snd (run spec cs (view s))"
  using assms
proof (induction cs arbitrary: s)
  case (Cons c cs)
  have g: "guard c s" and al: "allowed_run guard step cs (fst (step c s))" using Cons.prems(2) by auto
  show ?case
    using Cons.IH [OF step_inv [OF Cons.prems(1) g] al] step_view [OF Cons.prems(1) g] step_answer [OF Cons.prems(1) g]
    by (simp add: split_beta Let_def)
qed simp

end

end
