(* ===== verification/Art_Props.thy ===== *)
theory Art_Props
  imports Art_Loss Simulation
begin

text \<open>
  The properties of the radix tree as a whole: while insertions stay within what the code handles, the
  tree is a map with an exact entry count; outside, an insertion panics or loses a key. Iteration
  returns the entries held by leaves.
\<close>

definition art_inv :: "'v AdaptiveRadixTree \<Rightarrow> bool" where
  "art_inv t \<longleftrightarrow>
     (\<forall>n. art_root t = Some n \<longrightarrow> art_wf [] n \<and> content [] n [] = None) \<and> finite (dom (art_get t)) \<and> art_size t = card (dom (art_get t))"

lemma art_get_content:
  "art_root t = Some n \<Longrightarrow> art_get t = (content [] n)([] := None)"
  by (auto simp: art_get_def content_def)

lemma art_get_empty: "art_root t = None \<Longrightarrow> art_get t = Map.empty"
  by (auto simp: art_get_def)

lemma card_map_upd:
  "finite (dom m) \<Longrightarrow> card (insert k (dom m)) = card (dom m) + (if m k = None then 1 else 0)"
  by (auto simp: card_insert_if insert_absorb domIff)

lemma card_map_del:
  "finite (dom m) \<Longrightarrow> card (dom m - {k}) = card (dom m) - (if m k = None then 0 else 1)"
  by (auto simp: domIff)

definition art_insert_safe :: "'v AdaptiveRadixTree \<Rightarrow> bytes \<Rightarrow> bool" where
  "art_insert_safe t key \<longleftrightarrow> key = [] \<or> (case art_root t of None \<Rightarrow> True | Some n \<Rightarrow> insert_safe n key 0)"

lemma art_insert_correct:
  assumes inv: "art_inv t" and safe: "art_insert_safe t key" and key: "key \<noteq> []"
  obtains t' where "art_insert t key v = (t', Ok (art_get t key))" "art_inv t'" "art_get t' = (art_get t)(key \<mapsto> v)"
proof -
  have "\<exists>n. (case art_root t of Some root \<Rightarrow> insert_recursive root key 0 v | None \<Rightarrow> Ok (ArtLeaf key v, None)) =
      Ok (n, art_get t key) \<and> art_wf [] n \<and> content [] n [] = None \<and> (content [] n)([] := None) = (art_get t)(key \<mapsto> v)"
  proof (cases "art_root t")
    case None
    have "art_wf [] (ArtLeaf key v)" by (rule wf_leaf) simp
    with None key content_leaf [of "[]" key v] show ?thesis by (simp add: art_get_empty fun_upd_twist)
  next
    case (Some n)
    then have "art_wf [] n" "insert_safe n key 0" and none: "content [] n [] = None" using inv safe key by (simp_all add: art_inv_def art_insert_safe_def)
    with insert_correct [of "[]" n key v] obtain n' where
      n': "insert_recursive n key 0 v = Ok (n', content [] n key)" "inserted [] key v n n'" by auto
    with Some none key art_get_content [OF Some] show ?thesis
      by (auto simp: inserted_def fun_upd_twist)
  qed
  then obtain n where n: "(case art_root t of Some root \<Rightarrow> insert_recursive root key 0 v | None \<Rightarrow> Ok (ArtLeaf key v, None)) =
      Ok (n, art_get t key)" "art_wf [] n" "content [] n [] = None" "(content [] n)([] := None) = (art_get t)(key \<mapsto> v)" by blast
  let ?t = "t\<lparr>art_root := Some n, art_size := art_size t + (if art_get t key = None then 1 else 0)\<rparr>"
  have get: "art_get ?t = (art_get t)(key \<mapsto> v)" using n(4) art_get_content [of ?t n] by simp
  show thesis
  proof (rule that)
    show "art_insert t key v = (?t, Ok (art_get t key))" using n(1) key by (simp add: art_insert_def)
    show "art_inv ?t" unfolding art_inv_def get using inv n(2,3) by (simp add: art_inv_def card_map_upd)
  qed (rule get)
qed

lemma art_remove_correct:
  assumes inv: "art_inv t" and key: "key \<noteq> []"
  obtains t' where "art_remove t key = (t', Ok (art_get t key))" "art_inv t'" "art_get t' = (art_get t)(key := None)"
proof (cases "art_root t")
  case None
  then show thesis using that [of t] inv key by (simp add: art_remove_def art_get_empty)
next
  case (Some n)
  then have "art_wf [] n" and none: "content [] n [] = None" using inv by (simp_all add: art_inv_def)
  with remove_correct [of "[]" n key] obtain x where
    x: "remove_recursive n key 0 = Ok (x, content [] n key)" "deleted [] key n x" by auto
  have key': "content [] n key = art_get t key" using art_get_content [OF Some] key by simp
  let ?t = "t\<lparr>art_root := x, art_size := art_size t - (if art_get t key = None then 0 else 1)\<rparr>"
  have get: "art_get ?t = (art_get t)(key := None)"
  proof (cases x)
    case gone: None
    with x(2) have "(content [] n)(key := None) = Map.empty" by (simp add: deleted_def)
    then have "(art_get t)(key := None) = Map.empty"
      unfolding art_get_content [OF Some] by (metis fun_upd_triv fun_upd_twist fun_upd_upd)
    with gone show ?thesis using art_get_empty [of ?t] by simp
  next
    case kept: (Some m)
    with x(2) have "content [] m = (content [] n)(key := None)" by (simp add: deleted_def)
    with kept art_get_content [OF Some] art_get_content [of ?t m] key show ?thesis
      by (simp add: fun_upd_twist)
  qed
  show thesis
  proof (rule that)
    show "art_remove t key = (?t, Ok (art_get t key))" using x(1) key Some key' by (simp add: art_remove_def)
    have "\<forall>m. x = Some m \<longrightarrow> art_wf [] m \<and> content [] m [] = None" using x(2) none by (auto simp: deleted_def)
    then show "art_inv ?t" unfolding art_inv_def get using inv by (simp add: art_inv_def card_map_del)
  qed (rule get)
qed

section \<open>Sequences of calls\<close>

datatype 'v art_call = AGet bytes | AInsert bytes 'v | ARemove bytes | AClear | ALen

datatype 'v art_answer = AFound "'v option" | ADone | ACount nat

fun art_do :: "'v art_call \<Rightarrow> 'v AdaptiveRadixTree \<Rightarrow> 'v AdaptiveRadixTree \<times> (ArtError, 'v art_answer) res" where
  "art_do (AGet k) t = (t, Ok (AFound (art_get t k)))"
| "art_do (AInsert k v) t = and_then (art_insert t k v) (\<lambda>t' old. (t', Ok (AFound old)))"
| "art_do (ARemove k) t = and_then (art_remove t k) (\<lambda>t' old. (t', Ok (AFound old)))"
| "art_do AClear t = (art_clear t, Ok ADone)"
| "art_do ALen t = (t, Ok (ACount (art_size t)))"

text \<open>A map, which refuses the empty key.\<close>

fun art_spec :: "'v art_call \<Rightarrow> (bytes \<Rightarrow> 'v option) \<Rightarrow> (bytes \<Rightarrow> 'v option) \<times> (ArtError, 'v art_answer) res" where
  "art_spec (AGet k) m = (m, Ok (AFound (m k)))"
| "art_spec (AInsert k v) m =
     (if k = [] then (m, Err (ArtInvalidKey ''Key cannot be empty'')) else (m(k \<mapsto> v), Ok (AFound (m k))))"
| "art_spec (ARemove k) m =
     (if k = [] then (m, Err (ArtInvalidKey ''Key cannot be empty'')) else (m(k := None), Ok (AFound (m k))))"
| "art_spec AClear m = (Map.empty, Ok ADone)"
| "art_spec ALen m = (m, Ok (ACount (card (dom m))))"

fun art_allowed :: "'v art_call \<Rightarrow> 'v AdaptiveRadixTree \<Rightarrow> bool" where
  "art_allowed (AInsert k v) t \<longleftrightarrow> art_insert_safe t k"
| "art_allowed _ t \<longleftrightarrow> True"

lemma art_do_correct:
  assumes inv: "art_inv t" and ok: "art_allowed c t"
  shows "art_inv (fst (art_do c t)) \<and> art_get (fst (art_do c t)) = fst (art_spec c (art_get t)) \<and>
    snd (art_do c t) = snd (art_spec c (art_get t))"
proof (cases c)
  case (AInsert k v)
  show ?thesis
  proof (cases "k = []")
    case False
    from AInsert ok have "art_insert_safe t k" by simp
    then obtain t' where "art_insert t k v = (t', Ok (art_get t k))" "art_inv t'" "art_get t' = (art_get t)(k \<mapsto> v)"
      using art_insert_correct [OF inv _ False] by blast
    with AInsert False show ?thesis by simp
  qed (use AInsert inv in \<open>simp add: art_insert_def\<close>)
next
  case (ARemove k)
  show ?thesis
  proof (cases "k = []")
    case False
    then obtain t' where "art_remove t k = (t', Ok (art_get t k))" "art_inv t'" "art_get t' = (art_get t)(k := None)"
      using art_remove_correct [OF inv] by blast
    with ARemove False show ?thesis by simp
  qed (use ARemove inv in \<open>simp add: art_remove_def\<close>)
qed (use inv in \<open>auto simp: art_inv_def art_clear_def art_get_empty\<close>)

interpretation radix: simulation art_inv art_get art_allowed art_do art_spec
  by unfold_locales (use art_do_correct in blast)+

lemma art_inv_new: "art_inv art_new" "art_get art_new = Map.empty"
  by (simp_all add: art_inv_def art_new_def art_get_empty)

text \<open>
  C15: From the empty tree, any sequence of lookups, insertions, removals and clears whose insertions are
  ones the code handles gives exactly the answers of a map, the old values and the entry count
  included: node growth, path splitting, node shrinking and path merging change nothing a caller sees.
\<close>

theorem art_refines_map:
  assumes "allowed_run art_allowed art_do calls art_new"
  shows "snd (run art_do calls art_new) = snd (run art_spec calls Map.empty) \<and>
    art_get (fst (run art_do calls art_new)) = fst (run art_spec calls Map.empty)"
  using radix.run_refines [OF art_inv_new(1) assms] by (simp add: art_inv_new(2))

definition art_sample :: "nat art_call list" where
  "art_sample = [AInsert [1, 2, 3] 10, AInsert [1, 2, 4] 20, AInsert [1, 9] 30, AInsert [1, 2, 3, 5] 40,
     AInsert [1] 50, ARemove [1, 2, 4], AInsert [1, 9] 31, AGet [1, 2, 3], AGet [1, 2, 4], ARemove [7], ALen]"

theorem art_refines_map_witness:
  "allowed_run art_allowed art_do art_sample art_new \<and>
   snd (run art_do art_sample art_new) = snd (run art_spec art_sample Map.empty)"
proof -
  have "allowed_run art_allowed art_do art_sample art_new" by code_simp
  with art_refines_map [OF this] show ?thesis by simp
qed

section \<open>Iteration\<close>

abbreviation art_items :: "'v AdaptiveRadixTree \<Rightarrow> (bytes \<times> 'v) list" where
  "art_items t \<equiv> case art_root t of None \<Rightarrow> [] | Some n \<Rightarrow> leaf_items n"

lemma art_items_exact:
  assumes "art_inv t"
  shows "distinct (map fst (art_items t))"
    and "(k, v) \<in> set (art_items t) \<longleftrightarrow> art_get t k = Some v \<and> held_by_leaf t k"
proof -
  show "distinct (map fst (art_items t))"
    using assms leaf_items_distinct by (auto simp: art_inv_def split: option.split)
  show "(k, v) \<in> set (art_items t) \<longleftrightarrow> art_get t k = Some v \<and> held_by_leaf t k"
  proof (cases "art_root t")
    case (Some n)
    then have "art_wf [] n" "content [] n [] = None" using assms by (simp_all add: art_inv_def)
    with leaf_items_exact [of "[]" n k v] Some show ?thesis
      by (auto simp: art_get_content held_by_leaf_def)
  qed (simp add: art_get_empty)
qed

lemma art_items_calls:
  assumes "art_inv t"
  shows "next_calls m (art_iter t) =
    Some (map (\<lambda>i. if i < length (art_items t) then Some (art_items t ! i) else None) [0..<m])"
proof -
  have "\<forall>n. art_root t = Some n \<longrightarrow> art_wf [] n" using assms by (simp add: art_inv_def)
  note new = iter_new_correct [OF this]
  from next_calls_correct [OF new(1)] show ?thesis unfolding new(2) art_iter_def .
qed

lemma art_items_prefix:
  assumes "art_inv t" "art_get t k \<noteq> None" "art_get t k' \<noteq> None" "strict_prefix k k'"
  shows "k \<notin> fst ` set (art_items t)"
proof -
  obtain n where n: "art_root t = Some n" using assms(2) art_get_empty [of t] by (cases "art_root t") auto
  then have "art_wf [] n" using assms(1) by (simp add: art_inv_def)
  moreover have "content [] n k \<noteq> None" "content [] n k' \<noteq> None"
    using assms(2,3) unfolding art_get_content [OF n] by (auto split: if_splits)
  ultimately have "\<not> held_by_leaf t k"
    using prefix_not_leaf [of "[]" n k k'] assms(4) n by (simp add: held_by_leaf_def)
  then have "(k, v) \<notin> set (art_items t)" for v unfolding art_items_exact(2) [OF assms(1)] by simp
  then show ?thesis by (metis imageE prod.collapse)
qed

text \<open>
  C16: Iterating over the tree terminates and is exact on leaves. After any sequence of calls from the
  empty tree whose insertions are ones the code handles, there is a list of entries with distinct
  keys, namely exactly the entries of the tree whose lookup ends at a leaf, such that calling \<open>next\<close>
  any number of times returns them one by one and then \<open>None\<close> forever; no call loops.
\<close>

theorem art_iteration_terminates:
  assumes "allowed_run art_allowed art_do calls art_new"
  shows "let t = fst (run art_do calls art_new) in
    \<exists>items. (\<forall>m. next_calls m (art_iter t) =
        Some (map (\<lambda>i. if i < length items then Some (items ! i) else None) [0..<m])) \<and>
      distinct (map fst items) \<and>
      (\<forall>k v. (k, v) \<in> set items \<longleftrightarrow> art_get t k = Some v \<and> held_by_leaf t k)"
proof -
  have inv: "art_inv (fst (run art_do calls art_new))" using radix.run_refines [OF art_inv_new(1) assms] by blast
  show ?thesis unfolding Let_def
    by (intro exI [of _ "art_items (fst (run art_do calls art_new))"])
       (use art_items_exact [OF inv] art_items_calls [OF inv] in blast)
qed

theorem art_iteration_terminates_witness:
  "allowed_run art_allowed art_do art_sample art_new \<and>
   (let t = fst (run art_do art_sample art_new) in
    \<exists>items. (\<forall>m. next_calls m (art_iter t) =
        Some (map (\<lambda>i. if i < length items then Some (items ! i) else None) [0..<m])) \<and>
      distinct (map fst items) \<and>
      (\<forall>k v. (k, v) \<in> set items \<longleftrightarrow> art_get t k = Some v \<and> held_by_leaf t k))"
proof -
  have "allowed_run art_allowed art_do art_sample art_new" by code_simp
  with art_iteration_terminates [OF this] show ?thesis by blast
qed

text \<open>
  C37: What iteration leaves out. After any such sequence of calls, let \<open>items\<close> be what iteration returns.
  A key that is a proper prefix of another key of the tree is not among them. And a range iterator
  with a start key returns, call by call, \<open>items\<close> without the entries up to and including the first
  one whose key is not below the start: the first entry in the range is always lost. (An entry past
  the end of the range comes back as \<open>None\<close>.)
\<close>

theorem art_iteration_incomplete:
  assumes "allowed_run art_allowed art_do calls art_new"
  shows "let t = fst (run art_do calls art_new) in
    \<exists>items. (\<forall>m. next_calls m (art_iter t) =
        Some (map (\<lambda>i. if i < length items then Some (items ! i) else None) [0..<m])) \<and>
      (\<forall>k k'. art_get t k \<noteq> None \<and> art_get t k' \<noteq> None \<and> strict_prefix k k' \<longrightarrow> k \<notin> fst ` set items) \<and>
      (\<forall>start e incl. \<exists>it. art_range t (Some start) e incl = Some it \<and>
        (\<forall>m. range_calls m it = Some (map (\<lambda>i.
           let rest = tl (dropWhile (\<lambda>(k, v). k < start) items)
           in cut_end e incl (if i < length rest then Some (rest ! i) else None)) [0..<m])))"
proof -
  let ?t = "fst (run art_do calls art_new)"
  have inv: "art_inv ?t" using radix.run_refines [OF art_inv_new(1) assms] by blast
  then have "\<forall>n. art_root ?t = Some n \<longrightarrow> art_wf [] n" by (simp add: art_inv_def)
  note range = range_from_start [OF this]
  show ?thesis unfolding Let_def [of ?t]
    by (intro exI [of _ "art_items ?t"] conjI allI impI)
       (use art_items_calls [OF inv] art_items_prefix [OF inv] range in blast)+
qed

definition art_scanned :: "nat art_call list" where
  "art_scanned = [AInsert [9] 30, AInsert [1, 2] 10, AInsert [1, 2, 3] 20]"

theorem art_iteration_incomplete_witness:
  "let t = fst (run art_do art_scanned art_new) in
   art_get t [1, 2] = Some 10 \<and> art_get t [1, 2, 3] = Some 20 \<and>
   (\<exists>items. next_calls 3 (art_iter t) =
        Some (map (\<lambda>i. if i < length items then Some (items ! i) else None) [0..<3]) \<and> [1, 2] \<notin> fst ` set items)"
proof -
  let ?t = "fst (run art_do art_scanned art_new)"
  have get: "art_get ?t [1, 2] = Some 10" "art_get ?t [1, 2, 3] = Some 20" by code_simp+
  have "allowed_run art_allowed art_do art_scanned art_new" by code_simp
  from art_iteration_incomplete [OF this] obtain items where items:
    "\<forall>m. next_calls m (art_iter ?t) = Some (map (\<lambda>i. if i < length items then Some (items ! i) else None) [0..<m])"
    "\<forall>k k'. art_get ?t k \<noteq> None \<and> art_get ?t k' \<noteq> None \<and> strict_prefix k k' \<longrightarrow> k \<notin> fst ` set items"
    unfolding Let_def [of ?t] by blast
  have "strict_prefix [1, 2] [1, 2, 3 :: u8]" by simp
  with items(2) get have "[1, 2] \<notin> fst ` set items" by (metis option.distinct(1))
  with items(1) get show ?thesis unfolding Let_def by blast
qed

section \<open>Insertions the code does not handle\<close>

lemma common_len_take: "common_len p (take n p) = min n (length p)"
proof (induction p arbitrary: n)
  case (Cons a p)
  then show ?case by (cases n) auto
qed simp

text \<open>
  C35: Inserting a key that ends inside the path compressed into the root panics, whatever the tree
  holds: the root has already been taken out, so the tree is left without any of its keys while its
  entry count still has them.
\<close>

theorem art_insert_panics:
  assumes "art_root t = Some n" "\<not> art_is_leaf n" "0 < m" "m < length (art_partial n)"
  shows "let (t', r) = art_insert t (take m (art_partial n)) v in
    r = Inl Panicked \<and> art_get t' = Map.empty \<and> art_size t' = art_size t"
proof -
  let ?key = "take m (art_partial n)"
  have "common_len (art_partial n) ?key = m" using assms(4) by (simp add: common_len_take)
  then have "check_prefix (art_partial n) ?key 0 = m"
    using check_prefix_common [of "art_partial n" "[]" ?key] by simp
  then have "insert_recursive n ?key 0 v = Inl Panicked"
    using assms(4) by (simp add: insert_recursive.simps split_node_def Let_def)
  moreover have "?key \<noteq> []" using assms(3,4) by auto
  ultimately show ?thesis using assms(1) by (simp add: art_insert_def art_get_empty)
qed

definition art_shared_path :: "nat AdaptiveRadixTree" where
  "art_shared_path = fst (run art_do [AInsert [1, 2, 3, 4] 10, AInsert [1, 2, 3, 5] 20] art_new)"

theorem art_insert_panics_witness:
  "art_get art_shared_path [1, 2, 3, 4] = Some 10 \<and>
   (let (t, r) = art_insert art_shared_path [1, 2] 30 in
      r = Inl Panicked \<and> art_get t = Map.empty \<and> art_size t = 2)"
proof -
  have root: "art_shared_path = \<lparr>art_root = Some (the (art_root art_shared_path)), art_size = 2\<rparr>"
      "\<not> art_is_leaf (the (art_root art_shared_path))" "art_partial (the (art_root art_shared_path)) = [1, 2, 3]"
    by code_simp+
  have some: "art_root art_shared_path = Some (the (art_root art_shared_path))" "art_size art_shared_path = 2"
    by (subst root(1), simp)+
  have "art_get art_shared_path [1, 2, 3, 4] = Some 10" by code_simp
  moreover from art_insert_panics [OF some(1) root(2), of 2 30]
  have "let (t, r) = art_insert art_shared_path [1, 2] 30 in
      r = Inl Panicked \<and> art_get t = Map.empty \<and> art_size t = 2"
    by (simp add: root(3) some(2) numeral_2_eq_2)
  ultimately show ?thesis by blast
qed

text \<open>
  C36: Insertions that lose a key. After any sequence of calls from the empty tree whose insertions are
  ones the code handles, with no empty node left in the tree, let a key be inserted whose place is a
  new child of a node without room: a full \<open>Node4\<close> whose keys are not in order, which the binary
  search of the \<open>Node16\<close> it grows into does not expect, or a \<open>Node48\<close> that lost a child and whose next
  slot is in use. The call succeeds and reports a new key, and afterwards this key or one that was in
  the tree before cannot be found.
\<close>

theorem art_insert_loses_key:
  assumes "allowed_run art_allowed art_do calls art_new"
    and "art_root (fst (run art_do calls art_new)) = Some n" "no_empty n" "insert_collides n key 0"
  shows "let t = fst (run art_do calls art_new) in
    \<exists>t' k. art_insert t key v = (t', Ok None) \<and> (k = key \<or> art_get t k \<noteq> None) \<and> art_get t' k = None"
proof -
  let ?t = "fst (run art_do calls art_new)"
  have "art_inv ?t" using radix.run_refines [OF art_inv_new(1) assms(1)] by blast
  then have "art_wf [] n" using assms(2) by (simp add: art_inv_def)
  from collision_loses [OF this assms(3), of key v] assms(4) obtain n' k where k:
    "insert_recursive n key 0 v = Ok (n', None)" "k \<noteq> []" "k = key \<or> content [] n k \<noteq> None" "content [] n' k = None"
    by auto
  let ?t' = "?t\<lparr>art_root := Some n', art_size := art_size ?t + 1\<rparr>"
  have "key \<noteq> []" using assms(4) by (auto simp: insert_collides.simps)
  then have "art_insert ?t key v = (?t', Ok None)" using k(1) assms(2) by (simp add: art_insert_def)
  moreover have "art_get ?t' k = None" "k = key \<or> art_get ?t k \<noteq> None"
    using k art_get_content [of ?t' n'] art_get_content [OF assms(2)] by simp_all
  ultimately show ?thesis unfolding Let_def by blast
qed

definition art_unsorted :: "nat art_call list" where
  "art_unsorted = map (\<lambda>b. AInsert [b] 0) [5, 3, 9, 1]"

definition art_reused_slot :: "nat art_call list" where
  "art_reused_slot = map (\<lambda>b. AInsert [of_nat b] b) [0..<20] @ [ARemove [5]]"

theorem art_insert_loses_key_witness:
  "(let t = fst (run art_do art_unsorted art_new) in
      \<exists>t' k. art_insert t [7] 0 = (t', Ok None) \<and> (k = [7] \<or> art_get t k \<noteq> None) \<and> art_get t' k = None) \<and>
   (let t = fst (run art_do art_reused_slot art_new) in
      \<exists>t' k. art_insert t [100] 0 = (t', Ok None) \<and> (k = [100] \<or> art_get t k \<noteq> None) \<and> art_get t' k = None)"
proof
  let ?n = "\<lambda>calls :: nat art_call list. the (art_root (fst (run art_do calls art_new)))"
  have "allowed_run art_allowed art_do art_unsorted art_new"
    "art_root (fst (run art_do art_unsorted art_new)) \<noteq> None"
    "no_empty (?n art_unsorted)" "insert_collides (?n art_unsorted) [7] 0" by code_simp+
  with art_insert_loses_key [of art_unsorted "?n art_unsorted" "[7]" 0]
  show "let t = fst (run art_do art_unsorted art_new) in
      \<exists>t' k. art_insert t [7] 0 = (t', Ok None) \<and> (k = [7] \<or> art_get t k \<noteq> None) \<and> art_get t' k = None"
    by simp
  have "allowed_run art_allowed art_do art_reused_slot art_new"
    "art_root (fst (run art_do art_reused_slot art_new)) \<noteq> None"
    "no_empty (?n art_reused_slot)" "insert_collides (?n art_reused_slot) [100] 0" by code_simp+
  with art_insert_loses_key [of art_reused_slot "?n art_reused_slot" "[100]" 0]
  show "let t = fst (run art_do art_reused_slot art_new) in
      \<exists>t' k. art_insert t [100] 0 = (t', Ok None) \<and> (k = [100] \<or> art_get t k \<noteq> None) \<and> art_get t' k = None"
    by simp
qed

end
