(* ===== verification/Vfs_Memory.thy ===== *)
theory Vfs_Memory
  imports NG_Prelude
begin

text \<open>
  An open file of the in-memory file system as a stream, \<open>nanograph-vfs/src/memoryfs.rs\<close>: a buffer and
  a cursor with \<open>Read\<close>, \<open>Write\<close> and \<open>Seek\<close>. \<open>read_exact\<close> and \<open>write_all\<close> are the provided methods of the
  standard library. Reading with the cursor behind the end of the buffer underflows and panics.
\<close>

text \<open>The kind of a \<open>std::io::Error\<close> with the fixed part of its message.\<close>

datatype io_error =
    InvalidData string
  | IoInvalidInput string
  | UnexpectedEof string
  | IoOther string

record MemoryFile =
  mem_buffer :: bytes
  mem_cursor :: nat

datatype SeekFrom = SeekStart u64 | SeekEnd int | SeekCurrent int

definition mem_read :: "MemoryFile \<Rightarrow> nat \<Rightarrow> MemoryFile \<times> (io_error, bytes) res" where
  "mem_read f n =
     (if length (mem_buffer f) < mem_cursor f then (f, Inl Panicked)
      else let bs = take n (drop (mem_cursor f) (mem_buffer f))
           in (f\<lparr>mem_cursor := mem_cursor f + length bs\<rparr>, Ok bs))"

definition mem_write :: "MemoryFile \<Rightarrow> bytes \<Rightarrow> MemoryFile" where
  "mem_write f buf =
     (let c = mem_cursor f; e = c + length buf;
          data = (if length (mem_buffer f) < e then mem_buffer f @ replicate (e - length (mem_buffer f)) 0
                  else mem_buffer f)
      in f\<lparr>mem_buffer := take c data @ buf @ drop e data, mem_cursor := e\<rparr>)"

text \<open>Offsets from the end and the cursor are computed in \<open>i64\<close> and cast to \<open>usize\<close>.\<close>

fun mem_seek :: "MemoryFile \<Rightarrow> SeekFrom \<Rightarrow> MemoryFile" where
  "mem_seek f (SeekStart off) = f\<lparr>mem_cursor := unat off\<rparr>"
| "mem_seek f (SeekEnd off) = f\<lparr>mem_cursor := nat ((int (length (mem_buffer f)) + off) mod 2 ^ 64)\<rparr>"
| "mem_seek f (SeekCurrent off) = f\<lparr>mem_cursor := nat ((int (mem_cursor f) + off) mod 2 ^ 64)\<rparr>"

text \<open>The loop of \<open>read_exact\<close>: a read that returns fewer bytes is followed by one that returns none.\<close>

definition read_exact :: "MemoryFile \<Rightarrow> nat \<Rightarrow> MemoryFile \<times> (io_error, bytes) res" where
  "read_exact f n =
     (if n = 0 then (f, Ok [])
      else and_then (mem_read f n) (\<lambda>f' bs.
        (f', if length bs = n then Ok bs else Err (UnexpectedEof ''failed to fill whole buffer''))))"

lemma read_exact_slice:
  "drop (mem_cursor f) (mem_buffer f) = bs @ rest \<Longrightarrow> mem_cursor f \<le> length (mem_buffer f) \<Longrightarrow>
   read_exact f (length bs) = (f\<lparr>mem_cursor := mem_cursor f + length bs\<rparr>, Ok bs)"
  by (auto simp: read_exact_def mem_read_def Let_def)

lemma mem_write_end:
  "mem_cursor f = length (mem_buffer f) \<Longrightarrow>
   mem_write f buf = f\<lparr>mem_buffer := mem_buffer f @ buf, mem_cursor := length (mem_buffer f) + length buf\<rparr>"
  by (simp add: mem_write_def Let_def)

end
