(* ===== verification/Lsm_Blob.thy ===== *)
theory Lsm_Blob
  imports Vfs_Memory Util_Integrity
begin

text \<open>
  The blob log for large values, \<open>nanograph-lsm/src/bloblog.rs\<close>: records with a checksum, references to
  them, and the book-keeping of live data per file. The comparison of a live ratio with the collection
  threshold is floating point and a parameter.
\<close>

record BlobRef =
  blob_file_id :: u64
  blob_offset :: u64
  blob_length :: u32

definition serialized_size :: nat where
  "serialized_size = 8 + 8 + 4"

record BlobFileMetadata =
  bf_file_id :: u64
  bf_file_size :: u64
  bf_blob_count :: u64
  bf_live_blob_count :: u64
  bf_live_data_size :: u64
  bf_created_at :: u64

definition needs_gc :: "(u64 \<Rightarrow> u64 \<Rightarrow> bool) \<Rightarrow> BlobFileMetadata \<Rightarrow> bool" where
  "needs_gc below m \<longleftrightarrow> below (bf_live_data_size m) (bf_file_size m) \<and> bf_blob_count m > 0"

record BlobRecord =
  br_key :: bytes
  br_value :: bytes

definition BLOB_MAGIC :: u32 where
  "BLOB_MAGIC = 0x424C4F42"

definition BlobRecord_encode :: "hash_lib \<Rightarrow> BlobRecord \<Rightarrow> bytes" where
  "BlobRecord_encode H r =
     (let buf = le_bytes 4 (unat BLOB_MAGIC) @ le_bytes 4 (length (br_key r)) @
            le_bytes 4 (length (br_value r)) @ br_key r @ br_value r
      in buf @ hash_to_bytes (integrity_hash H Crc32c buf))"

definition BlobRecord_decode :: "hash_lib \<Rightarrow> bytes \<Rightarrow> (io_error, BlobRecord) res" where
  "BlobRecord_decode H data =
     (if length data < 16 then Err (InvalidData ''Blob record too short'')
      else let record = take (length data - 4) data; stored_crc = le_value (drop (length data - 4) data) in
        if hash_as_u32 (integrity_hash H Crc32c record) \<noteq> Some (word_of_nat stored_crc)
        then Err (InvalidData ''Blob record CRC32 mismatch'')
        else if le_value (take 4 record) \<noteq> unat BLOB_MAGIC then Err (InvalidData ''Invalid blob magic'')
        else let key_len = le_value (take 4 (drop 4 record)); value_len = le_value (take 4 (drop 8 record)) in
          if length record \<noteq> 12 + key_len + value_len then Err (InvalidData ''Blob record length mismatch'')
          else Ok \<lparr>br_key = take key_len (drop 12 record), br_value = drop (12 + key_len) record\<rparr>)"

record BlobLog =
  bl_next_file_id :: u64
  bl_files :: "(u64 \<times> BlobFileMetadata) list"
  bl_live_refs :: "(u64 \<times> u64) set"

definition BlobLog_new :: BlobLog where
  "BlobLog_new = \<lparr>bl_next_file_id = 0, bl_files = [], bl_live_refs = {}\<rparr>"

definition allocate_file_id :: "BlobLog \<Rightarrow> BlobLog \<times> u64" where
  "allocate_file_id l = (l\<lparr>bl_next_file_id := bl_next_file_id l + 1\<rparr>, bl_next_file_id l)"

definition write_blob ::
  "hash_lib \<Rightarrow> u64 \<Rightarrow> BlobLog \<Rightarrow> MemoryFile \<Rightarrow> u64 \<Rightarrow> bytes \<Rightarrow> bytes \<Rightarrow> BlobLog \<times> MemoryFile \<times> BlobRef" where
  "write_blob H now l writer file_id key val =
     (let encoded = BlobRecord_encode H \<lparr>br_key = key, br_value = val\<rparr>;
          offset = word_of_nat (mem_cursor writer);
          n = word_of_nat (length encoded);
          m = (case map_of (bl_files l) file_id of
                 Some m \<Rightarrow> m
               | None \<Rightarrow> \<lparr>bf_file_id = file_id, bf_file_size = 0, bf_blob_count = 0, bf_live_blob_count = 0,
                           bf_live_data_size = 0, bf_created_at = now\<rparr>);
          m' = m\<lparr>bf_file_size := bf_file_size m + n, bf_blob_count := bf_blob_count m + 1,
                 bf_live_blob_count := bf_live_blob_count m + 1, bf_live_data_size := bf_live_data_size m + n\<rparr>
      in (l\<lparr>bl_files := hm_insert file_id m' (bl_files l), bl_live_refs := insert (file_id, offset) (bl_live_refs l)\<rparr>,
          mem_write writer encoded,
          \<lparr>blob_file_id = file_id, blob_offset = offset, blob_length = word_of_nat (length encoded)\<rparr>))"

definition read_blob :: "hash_lib \<Rightarrow> MemoryFile \<Rightarrow> BlobRef \<Rightarrow> MemoryFile \<times> (io_error, bytes) res" where
  "read_blob H reader r =
     and_then (read_exact (mem_seek reader (SeekStart (blob_offset r))) (unat (blob_length r))) (\<lambda>reader' buf.
       (reader', case BlobRecord_decode H buf of Inl f \<Rightarrow> Inl f | Inr record \<Rightarrow> Ok (br_value record)))"

definition saturating_sub :: "u64 \<Rightarrow> u64 \<Rightarrow> u64" where
  "saturating_sub a b = (if b \<le> a then a - b else 0)"

definition mark_dead :: "BlobLog \<Rightarrow> BlobRef \<Rightarrow> BlobLog" where
  "mark_dead l r =
     (let l' = l\<lparr>bl_live_refs := bl_live_refs l - {(blob_file_id r, blob_offset r)}\<rparr> in
      case map_of (bl_files l) (blob_file_id r) of
        None \<Rightarrow> l'
      | Some m \<Rightarrow> l'\<lparr>bl_files := hm_insert (blob_file_id r)
          (m\<lparr>bf_live_blob_count := saturating_sub (bf_live_blob_count m) 1,
             bf_live_data_size := saturating_sub (bf_live_data_size m) (ucast (blob_length r))\<rparr>) (bl_files l)\<rparr>)"

definition get_gc_candidates :: "(u64 \<Rightarrow> u64 \<Rightarrow> bool) \<Rightarrow> BlobLog \<Rightarrow> u64 list" where
  "get_gc_candidates below l = map bf_file_id (filter (needs_gc below) (map snd (bl_files l)))"

definition blob_remove_file :: "BlobLog \<Rightarrow> u64 \<Rightarrow> BlobLog" where
  "blob_remove_file l file_id =
     l\<lparr>bl_files := al_del file_id (bl_files l), bl_live_refs := {r \<in> bl_live_refs l. fst r \<noteq> file_id}\<rparr>"

section \<open>Records\<close>

lemma length_encode: "length (BlobRecord_encode H r) = 16 + length (br_key r) + length (br_value r)"
  by (simp add: BlobRecord_encode_def Let_def)

lemma decode_encode:
  assumes "length (br_key r) < 2 ^ 32" "length (br_value r) < 2 ^ 32"
  shows "BlobRecord_decode H (BlobRecord_encode H r) = Ok r"
proof -
  define buf where "buf = le_bytes 4 (unat BLOB_MAGIC) @ le_bytes 4 (length (br_key r)) @
    le_bytes 4 (length (br_value r)) @ br_key r @ br_value r"
  have enc: "BlobRecord_encode H r = buf @ le_bytes 4 (unat (crc32_cksum H buf))"
    by (simp add: BlobRecord_encode_def buf_def Let_def)
  have crc: "word_of_nat (unat (crc32_cksum H buf) mod 256 ^ 4) = crc32_cksum H buf" by simp
  have len: "length buf = 12 + length (br_key r) + length (br_value r)" by (simp add: buf_def)
  have split: "take 4 buf = le_bytes 4 (unat BLOB_MAGIC)" "take 4 (drop 4 buf) = le_bytes 4 (length (br_key r))"
    "take 4 (drop 8 buf) = le_bytes 4 (length (br_value r))" "drop 12 buf = br_key r @ br_value r"
    by (simp_all add: buf_def)
  have "drop (12 + length (br_key r)) buf = br_value r"
    using split(4) by (metis add.commute append_eq_conv_conj drop_drop)
  with assms len split crc show ?thesis
    by (simp add: BlobRecord_decode_def enc Let_def BLOB_MAGIC_def)
qed

section \<open>Sequences of writes\<close>

text \<open>Writing at the end of a file leaves what is already there in place.\<close>

lemma read_at:
  assumes "mem_buffer f = pre @ bs @ rest" "off = word_of_nat (length pre)" "length pre < 2 ^ 64" "n = length bs"
  shows "snd (read_exact (mem_seek f (SeekStart off)) n) = Ok bs"
proof -
  have "unat (word_of_nat (length pre) :: u64) = length pre" using assms(3) by (simp add: unat_of_nat)
  then show ?thesis using read_exact_slice [of "mem_seek f (SeekStart off)" bs rest] assms by simp
qed

lemma read_blob_at:
  assumes "mem_buffer f = pre @ BlobRecord_encode H \<lparr>br_key = key, br_value = val\<rparr> @ rest"
    and "blob_offset r = word_of_nat (length pre)" "length pre < 2 ^ 64"
    and "blob_length r = word_of_nat (length key + length val + 16)" "length key + length val + 16 < 2 ^ 32"
  shows "snd (read_blob H f r) = Ok val"
proof -
  let ?enc = "BlobRecord_encode H \<lparr>br_key = key, br_value = val\<rparr>"
  have "unat (blob_length r) = length ?enc"
    using assms(5) unfolding assms(4) by (subst unat_of_nat) (simp add: length_encode)
  from read_at [OF assms(1,2,3) this] decode_encode [of "\<lparr>br_key = key, br_value = val\<rparr>" H] assms(5)
  show ?thesis unfolding read_blob_def and_then_def by (auto split: prod.splits sum.splits)
qed

primrec write_blobs ::
  "hash_lib \<Rightarrow> u64 \<Rightarrow> u64 \<Rightarrow> (bytes \<times> bytes) list \<Rightarrow> BlobLog \<times> MemoryFile \<Rightarrow> (BlobLog \<times> MemoryFile) \<times> BlobRef list" where
  "write_blobs H now file_id [] s = (s, [])"
| "write_blobs H now file_id (kv # kvs) s =
     (let (l, w, r) = write_blob H now (fst s) (snd s) file_id (fst kv) (snd kv);
          (s', rs) = write_blobs H now file_id kvs (l, w)
      in (s', r # rs))"

definition blob_image :: "hash_lib \<Rightarrow> (bytes \<times> bytes) list \<Rightarrow> bytes" where
  "blob_image H kvs = concat (map (\<lambda>(k, v). BlobRecord_encode H \<lparr>br_key = k, br_value = v\<rparr>) kvs)"

lemma write_blobs_image:
  assumes "mem_cursor w = length (mem_buffer w)" "write_blobs H now file_id kvs (l, w) = ((l', w'), rs)"
  shows "mem_buffer w' = mem_buffer w @ blob_image H kvs \<and> length rs = length kvs \<and>
    (\<forall>i < length kvs.
       blob_offset (rs ! i) = word_of_nat (length (mem_buffer w @ blob_image H (take i kvs))) \<and>
       blob_length (rs ! i) = word_of_nat (length (fst (kvs ! i)) + length (snd (kvs ! i)) + 16))"
  using assms
proof (induction kvs arbitrary: l w rs)
  case (Cons kv kvs)
  let ?enc = "BlobRecord_encode H \<lparr>br_key = fst kv, br_value = snd kv\<rparr>"
  obtain l1 w1 r where first: "write_blob H now l w file_id (fst kv) (snd kv) = (l1, w1, r)"
    by (metis prod_cases3)
  with Cons.prems obtain rs' where rest: "write_blobs H now file_id kvs (l1, w1) = ((l', w'), rs')" "rs = r # rs'"
    by (auto split: prod.splits)
  have w1: "mem_buffer w1 = mem_buffer w @ ?enc" "mem_cursor w1 = length (mem_buffer w1)"
    and r: "blob_offset r = word_of_nat (length (mem_buffer w))"
      "blob_length r = word_of_nat (length (fst kv) + length (snd kv) + 16)"
    using first Cons.prems(1) by (auto simp: write_blob_def Let_def mem_write_end length_encode add_ac)
  have image: "blob_image H (kv # kvs) = ?enc @ blob_image H kvs" for kvs by (simp add: blob_image_def split_beta)
  note IH = Cons.IH [OF w1(2) rest(1)]
  have "blob_offset (rs ! i) = word_of_nat (length (mem_buffer w @ blob_image H (take i (kv # kvs)))) \<and>
       blob_length (rs ! i) = word_of_nat (length (fst ((kv # kvs) ! i)) + length (snd ((kv # kvs) ! i)) + 16)"
    if "i < length (kv # kvs)" for i
  proof (cases i)
    case 0
    then show ?thesis using r rest(2) by (simp add: blob_image_def)
  next
    case (Suc j)
    then show ?thesis using IH that rest(2) w1(1) by (simp add: image)
  qed
  with IH rest(2) w1(1) show ?case by (simp add: image)
qed (simp add: blob_image_def)

text \<open>
  C21: Every value written to a blob file is read back through its reference, also after later writes to
  the same file, if a record is shorter than \<open>2^32\<close> bytes and the file shorter than \<open>2^64\<close>.
\<close>

theorem blob_log_roundtrip:
  assumes "mem_cursor w = length (mem_buffer w)" "length (mem_buffer w) + length (blob_image H kvs) < 2 ^ 64"
    and "\<forall>(k, v) \<in> set kvs. length k + length v + 16 < 2 ^ 32"
    and "write_blobs H now file_id kvs (l, w) = ((l', w'), rs)"
  shows "map (\<lambda>r. snd (read_blob H w' r)) rs = map (\<lambda>(k, v). Ok v) kvs"
proof (rule nth_equalityI)
  note image = write_blobs_image [OF assms(1,4)]
  show "length (map (\<lambda>r. snd (read_blob H w' r)) rs) = length (map (\<lambda>(k, v). Ok v) kvs)" using image by simp
  fix i assume "i < length (map (\<lambda>r. snd (read_blob H w' r)) rs)"
  then have i: "i < length kvs" "i < length rs" using image by simp_all
  obtain k v where kv: "kvs ! i = (k, v)" by fastforce
  have "kvs = take i kvs @ (k, v) # drop (Suc i) kvs" using i(1) kv by (metis id_take_nth_drop)
  then have split: "blob_image H kvs = blob_image H (take i kvs) @ BlobRecord_encode H \<lparr>br_key = k, br_value = v\<rparr> @
      blob_image H (drop (Suc i) kvs)"
    by (metis (no_types, lifting) blob_image_def case_prod_conv concat.simps(2) concat_append list.simps(9) map_append)
  have "snd (read_blob H w' (rs ! i)) = Ok v"
  proof (rule read_blob_at)
    show "mem_buffer w' = (mem_buffer w @ blob_image H (take i kvs)) @
        BlobRecord_encode H \<lparr>br_key = k, br_value = v\<rparr> @ blob_image H (drop (Suc i) kvs)"
      using image split by simp
    show "blob_offset (rs ! i) = word_of_nat (length (mem_buffer w @ blob_image H (take i kvs)))"
      using image i(1) by blast
    show "length (mem_buffer w @ blob_image H (take i kvs)) < 2 ^ 64" using assms(2) split by simp
    show "blob_length (rs ! i) = word_of_nat (length k + length v + 16)" using image i(1) kv by simp
    show "length k + length v + 16 < 2 ^ 32" using assms(3) nth_mem [OF i(1)] kv by auto
  qed
  then show "map (\<lambda>r. snd (read_blob H w' r)) rs ! i = map (\<lambda>(k, v). Ok v) kvs ! i" using i kv by simp
qed

definition demo_blobs :: "(bytes \<times> bytes) list" where
  "demo_blobs = [([1], [7, 7]), ([2, 3], []), ([1], [9])]"

definition zero_hash :: hash_lib where
  "zero_hash = \<lparr>crc32_cksum = (\<lambda>bs. 0), xxh32 = (\<lambda>bs. 0)\<rparr>"

theorem blob_log_roundtrip_witness:
  "\<exists>l w rs. write_blobs zero_hash 0 4 demo_blobs (BlobLog_new, \<lparr>mem_buffer = [], mem_cursor = 0\<rparr>) = ((l, w), rs) \<and>
     map (\<lambda>r. snd (read_blob zero_hash w r)) rs = [Ok [7, 7], Ok [], Ok [9]]"
proof -
  obtain l w rs where run: "write_blobs zero_hash 0 4 demo_blobs (BlobLog_new, \<lparr>mem_buffer = [], mem_cursor = 0\<rparr>) = ((l, w), rs)"
    by (metis surj_pair)
  have "length (blob_image zero_hash demo_blobs) = 55"
    by (simp add: blob_image_def demo_blobs_def length_encode)
  with blob_log_roundtrip [OF _ _ _ run] run show ?thesis by (simp add: demo_blobs_def)
qed

end
