(* ===== verification/Lsm_Memtable.thy ===== *)
theory Lsm_Memtable
  imports Lsm_Blob Wal_Records
begin

text \<open>
  The memtable of the LSM engine, \<open>nanograph-lsm/src/memtable.rs\<close>. Its \<open>BTreeMap\<close> is a sorted association
  list. The size counter is a 64-bit word: additions and subtractions wrap, so the accounting invariant
  is exact modulo \<open>2^64\<close>.
\<close>

datatype ValueLocation = Inline bytes | Blob BlobRef

fun vl_size :: "ValueLocation \<Rightarrow> nat" where
  "vl_size (Inline data) = length data"
| "vl_size (Blob r) = serialized_size"

record Entry =
  e_key :: bytes
  e_value :: "ValueLocation option"
  e_sequence :: u64
  e_commit_ts :: "i64 option"

definition Entry_new :: "bytes \<Rightarrow> bytes option \<Rightarrow> u64 \<Rightarrow> Entry" where
  "Entry_new key val seq = \<lparr>e_key = key, e_value = map_option Inline val, e_sequence = seq, e_commit_ts = None\<rparr>"

definition Entry_with_commit_ts :: "bytes \<Rightarrow> bytes option \<Rightarrow> u64 \<Rightarrow> i64 \<Rightarrow> Entry" where
  "Entry_with_commit_ts key val seq ts =
     \<lparr>e_key = key, e_value = map_option Inline val, e_sequence = seq, e_commit_ts = Some ts\<rparr>"

definition entry_visible :: "Entry \<Rightarrow> i64 \<Rightarrow> bool" where
  "entry_visible e snapshot_ts = (case e_commit_ts e of None \<Rightarrow> False | Some ts \<Rightarrow> sint ts \<le> sint snapshot_ts)"

definition entry_size :: "Entry \<Rightarrow> nat" where
  "entry_size e = length (e_key e) + (case e_value e of None \<Rightarrow> 0 | Some v \<Rightarrow> vl_size v) + 16"

record MemTable =
  tbl_data :: "(bytes \<times> Entry) list"
  tbl_size :: u64
  tbl_sequence :: u64

definition MemTable_new :: MemTable where
  "MemTable_new = \<lparr>tbl_data = [], tbl_size = 0, tbl_sequence = 0\<rparr>"

text \<open>
  The common body of the four write operations: the entry replaces the old one, and the difference of
  their sizes is added to or subtracted from the counter.
\<close>

definition tbl_write :: "MemTable \<Rightarrow> bytes \<Rightarrow> (u64 \<Rightarrow> Entry) \<Rightarrow> MemTable \<times> u64" where
  "tbl_write m key entry =
     (let seq = tbl_sequence m; e = entry seq; n = entry_size e;
          sz = (case map_of (tbl_data m) key of
                  Some old \<Rightarrow>
                    if entry_size old < n then tbl_size m + word_of_nat (n - entry_size old)
                    else tbl_size m - word_of_nat (entry_size old - n)
                | None \<Rightarrow> tbl_size m + word_of_nat n)
      in (m\<lparr>tbl_sequence := seq + 1, tbl_data := al_put key e (tbl_data m), tbl_size := sz\<rparr>, seq))"

definition tbl_put :: "MemTable \<Rightarrow> bytes \<Rightarrow> bytes \<Rightarrow> MemTable \<times> u64" where
  "tbl_put m key val = tbl_write m key (Entry_new key (Some val))"

definition tbl_put_committed :: "MemTable \<Rightarrow> bytes \<Rightarrow> bytes \<Rightarrow> i64 \<Rightarrow> MemTable \<times> u64" where
  "tbl_put_committed m key val ts = tbl_write m key (\<lambda>seq. Entry_with_commit_ts key (Some val) seq ts)"

definition tbl_delete :: "MemTable \<Rightarrow> bytes \<Rightarrow> MemTable \<times> u64" where
  "tbl_delete m key = tbl_write m key (Entry_new key None)"

definition tbl_delete_committed :: "MemTable \<Rightarrow> bytes \<Rightarrow> i64 \<Rightarrow> MemTable \<times> u64" where
  "tbl_delete_committed m key ts = tbl_write m key (\<lambda>seq. Entry_with_commit_ts key None seq ts)"

definition tbl_get :: "MemTable \<Rightarrow> bytes \<Rightarrow> Entry option" where
  "tbl_get m key = map_of (tbl_data m) key"

definition tbl_get_at_snapshot :: "MemTable \<Rightarrow> bytes \<Rightarrow> i64 \<Rightarrow> Entry option" where
  "tbl_get_at_snapshot m key snapshot_ts =
     (case map_of (tbl_data m) key of
        Some e \<Rightarrow> if entry_visible e snapshot_ts then Some e else None
      | None \<Rightarrow> None)"

definition tbl_commit_entry :: "MemTable \<Rightarrow> bytes \<Rightarrow> i64 \<Rightarrow> MemTable \<times> bool" where
  "tbl_commit_entry m key ts =
     (case map_of (tbl_data m) key of
        Some e \<Rightarrow>
          if e_commit_ts e = None then (m\<lparr>tbl_data := al_put key (e\<lparr>e_commit_ts := Some ts\<rparr>) (tbl_data m)\<rparr>, True)
          else (m, False)
      | None \<Rightarrow> (m, False))"

definition tbl_entries :: "MemTable \<Rightarrow> Entry list" where
  "tbl_entries m = map snd (tbl_data m)"

text \<open>\<open>BTreeMap::range\<close> panics if the start is greater than the end.\<close>

definition tbl_range :: "MemTable \<Rightarrow> bytes \<Rightarrow> bytes \<Rightarrow> (io_error, Entry list) res" where
  "tbl_range m start end =
     (if end < start then Inl Panicked
      else Ok (map snd (filter (\<lambda>(k, e). start \<le> k \<and> k < end) (tbl_data m))))"

definition tbl_clear :: "MemTable \<Rightarrow> MemTable" where
  "tbl_clear m = m\<lparr>tbl_data := [], tbl_size := 0, tbl_sequence := 0\<rparr>"

section \<open>The invariant\<close>

definition memtable_ok :: "MemTable \<Rightarrow> bool" where
  "memtable_ok m \<longleftrightarrow>
     ksorted (tbl_data m) \<and> (\<forall>(k, e) \<in> set (tbl_data m). e_key e = k) \<and>
     tbl_size m = word_of_nat (\<Sum>(k, e) \<leftarrow> tbl_data m. entry_size e)"

lemma memtable_ok_new: "memtable_ok MemTable_new"
  by (simp add: memtable_ok_def MemTable_new_def)

lemma memtable_ok_clear: "memtable_ok (tbl_clear m)"
  by (simp add: memtable_ok_def tbl_clear_def)

lemma sum_al_put:
  fixes f :: "'v \<Rightarrow> nat"
  assumes "ksorted es"
  shows "(\<Sum>(k, e) \<leftarrow> al_put key v es. f e) + (case map_of es key of None \<Rightarrow> 0 | Some old \<Rightarrow> f old) =
    (\<Sum>(k, e) \<leftarrow> es. f e) + f v"
proof (cases "map_of es key")
  case None
  then have "es = filter (\<lambda>e. fst e < key) es @ filter (\<lambda>e. key < fst e) es"
    using ksorted_absent [OF assms, of key] by (simp add: map_of_eq_None_iff)
  from arg_cong [OF this, of "\<lambda>l. \<Sum>(k, e) \<leftarrow> l. f e"] have "(\<Sum>(k, e) \<leftarrow> es. f e) =
    (\<Sum>(k, e) \<leftarrow> filter (\<lambda>e. fst e < key) es. f e) + (\<Sum>(k, e) \<leftarrow> filter (\<lambda>e. key < fst e) es. f e)" by simp
  with None show ?thesis by (simp add: al_put_def)
next
  case (Some old)
  then have "key \<in> fst ` set es" by (metis map_of_eq_None_iff option.distinct(1))
  from ksorted_present [OF assms this] obtain w where
    w: "es = filter (\<lambda>e. fst e < key) es @ (key, w) # filter (\<lambda>e. key < fst e) es" .
  have "map_of (filter (\<lambda>e. fst e < key) es) key = None" by (auto simp: map_of_eq_None_iff)
  then have "map_of es key = Some w" by (subst w) (simp add: map_add_def)
  with Some have "w = old" by simp
  with arg_cong [OF w, of "\<lambda>l. \<Sum>(k, e) \<leftarrow> l. f e"] have "(\<Sum>(k, e) \<leftarrow> es. f e) =
      (\<Sum>(k, e) \<leftarrow> filter (\<lambda>e. fst e < key) es. f e) + f old + (\<Sum>(k, e) \<leftarrow> filter (\<lambda>e. key < fst e) es. f e)" by simp
  with Some show ?thesis by (simp add: al_put_def)
qed

lemma tbl_write_ok:
  assumes "memtable_ok m" "\<And>s. e_key (entry s) = key"
  shows "memtable_ok (fst (tbl_write m key entry))"
proof -
  let ?old = "case map_of (tbl_data m) key of None \<Rightarrow> 0 | Some old \<Rightarrow> entry_size old"
  let ?e = "entry (tbl_sequence m)"
  let ?total = "\<Sum>(k, e) \<leftarrow> tbl_data m. entry_size e"
  let ?total' = "\<Sum>(k, e) \<leftarrow> al_put key ?e (tbl_data m). entry_size e"
  have ks: "ksorted (tbl_data m)" and keys: "\<forall>(k, e) \<in> set (tbl_data m). e_key e = k"
    and size: "tbl_size m = word_of_nat ?total" using assms(1) by (simp_all add: memtable_ok_def)
  from sum_al_put [OF ks, of entry_size key ?e] have total: "?total' + ?old = ?total + entry_size ?e" .
  have "tbl_size (fst (tbl_write m key entry)) = word_of_nat ?total'"
  proof (cases "map_of (tbl_data m) key")
    case None
    with total have "?total' = ?total + entry_size ?e" by simp
    with None show ?thesis by (simp add: tbl_write_def Let_def size)
  next
    case (Some old)
    with total have eq: "?total' + entry_size old = ?total + entry_size ?e" by simp
    show ?thesis
    proof (cases "entry_size old < entry_size ?e")
      case True
      with eq have "?total' = ?total + (entry_size ?e - entry_size old)" by simp
      then have "word_of_nat ?total' = tbl_size m + word_of_nat (entry_size ?e - entry_size old)"
        unfolding size by (metis of_nat_add)
      with True Some show ?thesis by (simp add: tbl_write_def Let_def del: of_nat_diff)
    next
      case False
      with eq have "?total = ?total' + (entry_size old - entry_size ?e)" by simp
      then have "tbl_size m = word_of_nat ?total' + word_of_nat (entry_size old - entry_size ?e)"
        unfolding size by (metis of_nat_add)
      with False Some show ?thesis by (simp add: tbl_write_def Let_def del: of_nat_diff)
    qed
  qed
  moreover have "\<forall>(k, e) \<in> set (al_put key ?e (tbl_data m)). e_key e = k"
    using set_al_put [of key ?e "tbl_data m"] keys assms(2) by auto
  ultimately show ?thesis using ksorted_al_put [OF ks, of key ?e]
    by (simp add: memtable_ok_def tbl_write_def Let_def)
qed

lemma tbl_commit_ok:
  assumes "memtable_ok m"
  shows "memtable_ok (fst (tbl_commit_entry m key ts))"
proof (cases "map_of (tbl_data m) key")
  case (Some e)
  let ?e = "e\<lparr>e_commit_ts := Some ts\<rparr>"
  have ks: "ksorted (tbl_data m)" and keys: "\<forall>(k, e) \<in> set (tbl_data m). e_key e = k"
    and size: "tbl_size m = word_of_nat (\<Sum>(k, e) \<leftarrow> tbl_data m. entry_size e)"
    using assms by (simp_all add: memtable_ok_def)
  have "e_key ?e = key" using keys map_of_SomeD [OF Some] by auto
  then have "\<forall>(k, e) \<in> set (al_put key ?e (tbl_data m)). e_key e = k"
    using set_al_put [of key ?e "tbl_data m"] keys by auto
  moreover have "entry_size ?e = entry_size e" by (simp add: entry_size_def)
  ultimately show ?thesis
    using sum_al_put [OF ks, of entry_size key ?e] ksorted_al_put [OF ks, of key ?e] Some size assms
    by (simp add: memtable_ok_def tbl_commit_entry_def)
qed (use assms in \<open>simp add: tbl_commit_entry_def\<close>)

lemma tbl_write_get: "tbl_get (fst (tbl_write m key entry)) = (tbl_get m)(key \<mapsto> entry (tbl_sequence m))"
  by (rule ext) (simp add: tbl_get_def tbl_write_def Let_def)

section \<open>Sequences of operations\<close>

datatype tbl_call =
    MtPut bytes bytes
  | MtPutCommitted bytes bytes i64
  | MtDelete bytes
  | MtDeleteCommitted bytes i64
  | MtCommit bytes i64
  | MtClear

fun tbl_do :: "tbl_call \<Rightarrow> MemTable \<Rightarrow> MemTable" where
  "tbl_do (MtPut k v) m = fst (tbl_put m k v)"
| "tbl_do (MtPutCommitted k v ts) m = fst (tbl_put_committed m k v ts)"
| "tbl_do (MtDelete k) m = fst (tbl_delete m k)"
| "tbl_do (MtDeleteCommitted k ts) m = fst (tbl_delete_committed m k ts)"
| "tbl_do (MtCommit k ts) m = fst (tbl_commit_entry m k ts)"
| "tbl_do MtClear m = tbl_clear m"

lemma tbl_do_ok: "memtable_ok m \<Longrightarrow> memtable_ok (tbl_do c m)"
  by (cases c) (auto simp: tbl_put_def tbl_put_committed_def tbl_delete_def tbl_delete_committed_def
      Entry_new_def Entry_with_commit_ts_def memtable_ok_clear tbl_commit_ok intro!: tbl_write_ok)

text \<open>
  C17: After any sequence of operations the size counter of a memtable is the sum of the sizes of its
  entries (modulo \<open>2^64\<close>), although it is only ever updated by differences; the entries are in key order
  and filed under their own key.
\<close>

theorem memtable_accounting:
  "let m = fold tbl_do calls MemTable_new in
   tbl_size m = word_of_nat (sum_list (map entry_size (tbl_entries m))) \<and>
   sorted_wrt (<) (map e_key (tbl_entries m)) \<and> map e_key (tbl_entries m) = map fst (tbl_data m)"
proof -
  have "memtable_ok (fold tbl_do calls m)" if "memtable_ok m" for m
    using that by (induction calls arbitrary: m) (simp_all add: tbl_do_ok)
  from this [OF memtable_ok_new] have ok: "memtable_ok (fold tbl_do calls MemTable_new)" .
  let ?m = "fold tbl_do calls MemTable_new"
  have "tbl_size ?m = word_of_nat (sum_list (map entry_size (tbl_entries ?m)))"
    using ok by (simp add: memtable_ok_def tbl_entries_def comp_def case_prod_beta')
  moreover have "map e_key (tbl_entries ?m) = map fst (tbl_data ?m)"
    using ok by (auto simp: memtable_ok_def tbl_entries_def)
  ultimately show ?thesis using ok by (simp add: Let_def memtable_ok_def)
qed

end
