(* ===== verification/Util_Compression.thy ===== *)
theory Util_Compression
  imports Util_Integrity
begin

text \<open>
  Compression, \<open>nanograph-util/src/compression.rs\<close>. The crates \<open>lz4\<close>, \<open>zstd\<close> and \<open>snap\<close> are the fields of a
  record; what is relied on of them is \<open>lossless\<close>. \<open>lz4::block::decompress\<close> is given a size for its output:
  without an expected size the code passes four times the size of the input, as a signed 32-bit number.
  Error messages are given without the text of the crate's error.
\<close>

record codec_lib =
  lz4_compress :: "bytes \<Rightarrow> bytes option"
  lz4_decompress :: "bytes \<Rightarrow> int \<Rightarrow> bytes option"
  zstd_encode_all :: "bytes \<Rightarrow> bytes option"
  zstd_decode_all :: "bytes \<Rightarrow> bytes option"
  snap_compress_vec :: "bytes \<Rightarrow> bytes option"
  snap_decompress_vec :: "bytes \<Rightarrow> bytes option"

definition or_error :: "'e \<Rightarrow> 'a option \<Rightarrow> ('e, 'a) res" where
  "or_error x r = (case r of Some a \<Rightarrow> Ok a | None \<Rightarrow> Err x)"

fun compress :: "codec_lib \<Rightarrow> CompressionAlgorithm \<Rightarrow> bytes \<Rightarrow> (UtilError, bytes) res" where
  "compress C CompressionNone input = Ok input"
| "compress C Lz4 input = or_error (Compression ''LZ4 compression failed'') (lz4_compress C input)"
| "compress C Zstd input = or_error (Compression ''Zstd compression failed'') (zstd_encode_all C input)"
| "compress C Snappy input = or_error (Compression ''Snappy compression failed'') (snap_compress_vec C input)"

fun decompress :: "codec_lib \<Rightarrow> CompressionAlgorithm \<Rightarrow> bytes \<Rightarrow> nat option \<Rightarrow> (UtilError, bytes) res" where
  "decompress C CompressionNone input expected_size = Ok input"
| "decompress C Lz4 input expected_size =
     (let sz = (case expected_size of Some n \<Rightarrow> n | None \<Rightarrow> length input * 4) in
      or_error (Decompression ''LZ4 decompression failed'') (lz4_decompress C input (sint (word_of_nat sz :: 32 word))))"
| "decompress C Zstd input expected_size =
     or_error (Decompression ''Zstd decompression failed'') (zstd_decode_all C input)"
| "decompress C Snappy input expected_size =
     or_error (Decompression ''Snappy decompression failed'') (snap_decompress_vec C input)"

section \<open>What is relied on\<close>

text \<open>
  The crates undo their own compression. Decompressing an LZ4 block needs room for the whole output: with
  a smaller size it fails, and with a size above the greatest input LZ4 accepts it may be refused.
\<close>

definition LZ4_MAX_INPUT_SIZE :: nat where
  "LZ4_MAX_INPUT_SIZE = 0x7E000000"

definition lossless :: "codec_lib \<Rightarrow> bool" where
  "lossless C \<longleftrightarrow>
     (\<forall>x y. lz4_compress C x = Some y \<longrightarrow>
        (\<forall>n. (n < int (length x) \<longrightarrow> lz4_decompress C y n = None) \<and>
             (int (length x) \<le> n \<longrightarrow> n \<le> int LZ4_MAX_INPUT_SIZE \<longrightarrow> lz4_decompress C y n = Some x) \<and>
             lz4_decompress C y n \<in> {None, Some x})) \<and>
     (\<forall>x y. zstd_encode_all C x = Some y \<longrightarrow> zstd_decode_all C y = Some x) \<and>
     (\<forall>x y. snap_compress_vec C x = Some y \<longrightarrow> snap_decompress_vec C y = Some x)"

definition compresses :: "codec_lib \<Rightarrow> CompressionAlgorithm \<Rightarrow> bool" where
  "compresses C alg \<longleftrightarrow> (\<forall>x. \<exists>y. compress C alg x = Ok y)"

text \<open>Data that can be compressed, and that \<open>decompress\<close> restores without being told its size.\<close>

definition restorable :: "codec_lib \<Rightarrow> CompressionAlgorithm \<Rightarrow> bytes \<Rightarrow> bool" where
  "restorable C alg x \<longleftrightarrow>
     (case compress C alg x of
        Inr y \<Rightarrow> alg = Lz4 \<longrightarrow> length x \<le> 4 * length y \<and> 4 * length y \<le> LZ4_MAX_INPUT_SIZE
      | Inl _ \<Rightarrow> False)"

lemma or_error_simps [simp]: "or_error x (Some a) = Ok a" "or_error x None = Err x"
  by (simp_all add: or_error_def)

lemma or_error_eq [simp]:
  "or_error x r = Ok a \<longleftrightarrow> r = Some a" "or_error x r = Err y \<longleftrightarrow> r = None \<and> x = y"
  by (auto simp: or_error_def split: option.splits)

lemma restorable_compresses: "compresses C alg \<Longrightarrow> alg \<noteq> Lz4 \<Longrightarrow> restorable C alg x"
  by (auto simp: restorable_def compresses_def split: sum.split) (metis sum.distinct(1))

lemma decompress_compress:
  assumes "lossless C" "compress C alg x = Ok y"
  shows "decompress C alg y None = Ok x \<or> alg = Lz4 \<and> decompress C alg y None = Err (Decompression ''LZ4 decompression failed'')"
proof (cases alg)
  case Lz4
  let ?n = "sint (word_of_nat (length y * 4) :: 32 word)"
  have "lz4_decompress C y ?n \<in> {None, Some x}" using assms Lz4 by (simp add: lossless_def)
  then show ?thesis using Lz4 by (auto simp: Let_def)
qed (use assms in \<open>simp_all add: lossless_def\<close>)

lemma decompress_restorable:
  assumes "lossless C" "compress C alg x = Ok y" "restorable C alg x"
  shows "decompress C alg y None = Ok x"
proof (cases "alg = Lz4")
  case True
  then have y: "lz4_compress C x = Some y" "length x \<le> 4 * length y" "4 * length y \<le> LZ4_MAX_INPUT_SIZE"
    using assms(2,3) by (simp_all add: restorable_def)
  then have "sint (word_of_nat (length y * 4) :: 32 word) = int (length y * 4)"
    unfolding signed_of_nat by (simp add: LZ4_MAX_INPUT_SIZE_def signed_take_bit_int_eq_self)
  moreover have "lz4_decompress C y (int (length y * 4)) = Some x" using y assms(1) by (simp add: lossless_def)
  ultimately show ?thesis using True by (simp add: Let_def)
qed (use decompress_compress [OF assms(1,2)] in simp)

lemma decompress_overfull:
  assumes "lossless C" "lz4_compress C x = Some y" "4 * length y < length x"
  shows "decompress C Lz4 y None = Err (Decompression ''LZ4 decompression failed'')"
proof -
  have "sint w \<le> uint w" for w :: "32 word"
  proof -
    have "take_bit 32 (uint w) \<le> uint w" by (simp only: take_bit_int_less_eq_self_iff uint_ge_0)
    then show ?thesis by (simp add: sint_uint signed_take_bit_eq_take_bit_minus)
  qed
  also have "uint (word_of_nat (length y * 4) :: 32 word) \<le> int (length y * 4)"
    unfolding unsigned_of_nat by (simp add: take_bit_nat_less_eq_self flip: of_nat_mult)
  finally have "sint (word_of_nat (length y * 4) :: 32 word) < int (length x)" using assms(3) by linarith
  then have "lz4_decompress C y (sint (word_of_nat (length y * 4) :: 32 word)) = None" using assms(1,2) by (simp add: lossless_def)
  then show ?thesis by (simp add: Let_def)
qed

end
