(* ===== verification/Lsm_Sstable.thy ===== *)
theory Lsm_Sstable
  imports Lsm_Memtable Util_Compression
begin

unbundle bit_operations_syntax

text \<open>
  Sorted string tables, \<open>nanograph-lsm/src/sstable.rs\<close>: variable-length integers, data blocks with prefix
  compression, the index block, the Bloom filter, the footer, writing a table and looking up a key. An
  index outside a slice is a panic. The messages of errors are given without their numbers.
\<close>

section \<open>Variable-length integers\<close>

function write_varint :: "u64 \<Rightarrow> bytes" where
  "write_varint v = (if v < 0x80 then [ucast v] else (ucast v OR 0x80) # write_varint (drop_bit 7 v))"
  by pat_completeness auto
termination
proof (relation "measure unat")
  fix v :: u64 assume "\<not> v < 0x80"
  then have "128 \<le> unat v" by (simp add: not_less word_le_nat_alt)
  then show "(drop_bit 7 v, v) \<in> measure unat" by (simp add: unat_drop_bit_eq drop_bit_eq_div unat_div)
qed simp

declare write_varint.simps [simp del]

fun read_varint_loop :: "bytes \<Rightarrow> u64 \<Rightarrow> nat \<Rightarrow> nat \<Rightarrow> (io_error, u64 \<times> nat) res" where
  "read_varint_loop [] result shift n = Err (UnexpectedEof ''Incomplete varint'')"
| "read_varint_loop (b # bs) result shift n =
     (let result = result OR push_bit shift (ucast (b AND 0x7F)) in
      if b AND 0x80 = 0 then Ok (result, n + 1)
      else if 64 \<le> shift + 7 then Err (InvalidData ''Varint too large'')
      else read_varint_loop bs result (shift + 7) (n + 1))"

definition read_varint :: "bytes \<Rightarrow> (io_error, u64 \<times> nat) res" where
  "read_varint data = read_varint_loop data 0 0 0"

lemma read_varint_progress: "read_varint_loop bs r shift n = Ok (v, m) \<Longrightarrow> n < m \<and> m \<le> n + length bs"
  by (induction bs r shift n rule: read_varint_loop.induct) (auto simp: Let_def split: if_splits)

section \<open>Data blocks\<close>

fun common_prefix_len :: "bytes \<Rightarrow> bytes \<Rightarrow> nat" where
  "common_prefix_len (x # xs) (y # ys) = (if x = y then Suc (common_prefix_len xs ys) else 0)"
| "common_prefix_len _ _ = 0"

definition RESTART_INTERVAL :: nat where
  "RESTART_INTERVAL = 16"

record DataBlock =
  db_entries :: "Entry list"
  db_restart_points :: "u32 list"

definition DataBlock_new :: DataBlock where
  "DataBlock_new = \<lparr>db_entries = [], db_restart_points = []\<rparr>"

definition add_entry :: "DataBlock \<Rightarrow> Entry \<Rightarrow> DataBlock" where
  "add_entry b e =
     \<lparr>db_entries = db_entries b @ [e],
      db_restart_points = (if length (db_entries b) mod RESTART_INTERVAL = 0
        then db_restart_points b @ [word_of_nat (length (db_entries b))] else db_restart_points b)\<rparr>"

fun encode_value :: "ValueLocation option \<Rightarrow> bytes" where
  "encode_value (Some (Inline data)) = 1 # data"
| "encode_value (Some (Blob r)) =
     2 # le_bytes 8 (unat (blob_file_id r)) @ le_bytes 8 (unat (blob_offset r)) @ le_bytes 4 (unat (blob_length r))"
| "encode_value None = [0]"

definition encode_entry :: "nat \<Rightarrow> bytes \<Rightarrow> Entry \<Rightarrow> bytes" where
  "encode_entry i prev_key e =
     (let shared = (if i mod RESTART_INTERVAL = 0 then 0 else common_prefix_len prev_key (e_key e)) in
      write_varint (word_of_nat shared) @ write_varint (word_of_nat (length (e_key e) - shared)) @
      write_varint (word_of_nat (case e_value e of None \<Rightarrow> 0 | Some v \<Rightarrow> vl_size v)) @
      write_varint (e_sequence e) @ drop shared (e_key e) @ encode_value (e_value e))"

primrec encode_entries :: "nat \<Rightarrow> bytes \<Rightarrow> Entry list \<Rightarrow> bytes" where
  "encode_entries i prev_key [] = []"
| "encode_entries i prev_key (e # es) = encode_entry i prev_key e @ encode_entries (Suc i) (e_key e) es"

definition with_crc :: "hash_lib \<Rightarrow> bytes \<Rightarrow> bytes" where
  "with_crc H data = data @ hash_to_bytes (integrity_hash H Crc32c data)"

definition block_buffer :: "DataBlock \<Rightarrow> bytes" where
  "block_buffer b = encode_entries 0 [] (db_entries b) @ concat (map (\<lambda>p. le_bytes 4 (unat p)) (db_restart_points b)) @
     le_bytes 4 (length (db_restart_points b))"

fun util_to_io :: "UtilError \<Rightarrow> io_error" where
  "util_to_io (Compression t) = IoOther (''Compression error: '' @ t)"
| "util_to_io (Decompression t) = IoOther (''Decompression error: '' @ t)"
| "util_to_io (IntegrityCheckFailed e a) = IoOther ''Integrity check failed''"
| "util_to_io (InvalidAlgorithm v) = IoOther ''Invalid algorithm identifier''"

definition DataBlock_encode :: "hash_lib \<Rightarrow> codec_lib \<Rightarrow> CompressionAlgorithm \<Rightarrow> DataBlock \<Rightarrow> (io_error, bytes) res" where
  "DataBlock_encode H C compression b =
     (case (if compression = CompressionNone then Ok (block_buffer b) else map_err util_to_io (compress C compression (block_buffer b))) of
        Inl f \<Rightarrow> Inl f
      | Inr compressed \<Rightarrow> Ok (with_crc H (compression_as_u8 compression # compressed)))"

definition slice_at :: "bytes \<Rightarrow> nat \<Rightarrow> nat \<Rightarrow> (io_error, bytes) res" where
  "slice_at d off n = (if off + n \<le> length d then Ok (take n (drop off d)) else Inl Panicked)"

text \<open>The checksum comparison at the start of every decoder.\<close>

definition check_crc :: "hash_lib \<Rightarrow> string \<Rightarrow> bytes \<Rightarrow> (io_error, bytes) res" where
  "check_crc H what data =
     (let block = take (length data - 4) data; stored = word_of_nat (le_value (drop (length data - 4) data)) in
      case integrity_hash H Crc32c block of
        NoHash \<Rightarrow> Err (InvalidData ''CRC32 algorithm returned None'')
      | Hash32 crc \<Rightarrow> if crc \<noteq> stored then Err (InvalidData (what @ '' CRC32 mismatch'')) else Ok block)"

abbreviation res_bind :: "('e, 'a) res \<Rightarrow> ('a \<Rightarrow> ('e, 'b) res) \<Rightarrow> ('e, 'b) res" where
  "res_bind r k \<equiv> (case r of Inl f \<Rightarrow> Inl f | Inr a \<Rightarrow> k a)"

definition decode_value :: "bytes \<Rightarrow> nat \<Rightarrow> nat \<Rightarrow> (io_error, ValueLocation option \<times> nat) res" where
  "decode_value d cursor value_len =
     res_bind (slice_at d cursor 1) (\<lambda>ty.
       let cursor = cursor + 1 in
       if ty = [1] then res_bind (slice_at d cursor value_len) (\<lambda>v. Ok (Some (Inline v), cursor + value_len))
       else if ty = [2] then
         (if length d < cursor + 20 then Err (InvalidData ''Insufficient data for blob reference'')
          else Ok (Some (Blob \<lparr>blob_file_id = word_of_nat (u64_at d cursor), blob_offset = word_of_nat (u64_at d (cursor + 8)),
                 blob_length = word_of_nat (u32_at d (cursor + 16))\<rparr>), cursor + 20))
       else if ty = [0] then Ok (None, cursor)
       else Err (InvalidData ''Invalid value type''))"

definition decode_entry :: "bytes \<Rightarrow> bytes \<Rightarrow> nat \<Rightarrow> (io_error, Entry \<times> nat) res" where
  "decode_entry d prev_key cursor =
     res_bind (read_varint (drop cursor d)) (\<lambda>(shared, n1). let cursor = cursor + n1 in
     res_bind (read_varint (drop cursor d)) (\<lambda>(unshared, n2). let cursor = cursor + n2 in
     res_bind (read_varint (drop cursor d)) (\<lambda>(value_len, n3). let cursor = cursor + n3 in
     res_bind (read_varint (drop cursor d)) (\<lambda>(sequence, n4). let cursor = cursor + n4 in
     res_bind (slice_at prev_key 0 (unat shared)) (\<lambda>pre.
     res_bind (slice_at d cursor (unat unshared)) (\<lambda>suf.
     res_bind (decode_value d (cursor + unat unshared) (unat value_len)) (\<lambda>(val, cursor').
       Ok (\<lparr>e_key = pre @ suf, e_value = val, e_sequence = sequence, e_commit_ts = None\<rparr>, cursor'))))))))"

lemma decode_value_progress: "decode_value d cursor n = Ok (v, cursor') \<Longrightarrow> cursor < cursor'"
  by (auto simp: decode_value_def Let_def slice_at_def split: sum.splits if_splits)

lemma decode_entry_progress: "decode_entry d prev cursor = Ok (e, cursor') \<Longrightarrow> cursor < cursor'"
  by (auto simp: decode_entry_def Let_def split: sum.splits prod.splits dest!: decode_value_progress)

function decode_entries :: "bytes \<Rightarrow> nat \<Rightarrow> bytes \<Rightarrow> nat \<Rightarrow> (io_error, Entry list) res" where
  "decode_entries d restart_offset prev_key cursor =
     (if cursor < restart_offset then
        case decode_entry d prev_key cursor of
          Inl f \<Rightarrow> Inl f
        | Inr (e, cursor') \<Rightarrow> res_bind (decode_entries d restart_offset (e_key e) cursor') (\<lambda>es. Ok (e # es))
      else Ok [])"
  by pat_completeness auto
termination
  by (relation "measure (\<lambda>(d, restart_offset, prev_key, cursor). restart_offset - cursor)")
     (auto dest!: decode_entry_progress)

declare decode_entries.simps [simp del]

definition DataBlock_decode :: "hash_lib \<Rightarrow> codec_lib \<Rightarrow> bytes \<Rightarrow> (io_error, DataBlock) res" where
  "DataBlock_decode H C data =
     (if length data < 5 then Err (InvalidData ''Block data too short'')
      else res_bind (check_crc H ''Block'' data) (\<lambda>block_data.
        case compression_from_u8 (hd block_data) of
          None \<Rightarrow> Err (InvalidData ''Invalid compression algorithm'')
        | Some compression \<Rightarrow>
            (case (if compression = CompressionNone then Ok (tl block_data)
                   else map_err util_to_io (decompress C compression (tl block_data) None)) of
               Inl f \<Rightarrow> Inl f
             | Inr d \<Rightarrow>
                 if length d < 4 then Err (InvalidData ''Invalid block data'')
                 else let restart_count = le_value (drop (length d - 4) d) in
                   if length d - 4 < restart_count * 4 then Inl Panicked
                   else let restart_offset = length d - 4 - restart_count * 4;
                            points = map (\<lambda>i. word_of_nat (u32_at d (restart_offset + i * 4))) [0..<restart_count]
                        in res_bind (decode_entries d restart_offset [] 0) (\<lambda>es.
                             Ok \<lparr>db_entries = es, db_restart_points = points\<rparr>))))"

section \<open>Index block\<close>

record BlockHandle =
  bh_offset :: u64
  bh_size :: u64

type_synonym IndexBlock = "(bytes \<times> BlockHandle) list"

definition encode_index_entry :: "bytes \<times> BlockHandle \<Rightarrow> bytes" where
  "encode_index_entry e =
     write_varint (word_of_nat (length (fst e))) @ fst e @ write_varint (bh_offset (snd e)) @ write_varint (bh_size (snd e))"

definition IndexBlock_encode :: "hash_lib \<Rightarrow> IndexBlock \<Rightarrow> bytes" where
  "IndexBlock_encode H index = with_crc H (concat (map encode_index_entry index))"

definition decode_index_entry :: "bytes \<Rightarrow> nat \<Rightarrow> (io_error, (bytes \<times> BlockHandle) \<times> nat) res" where
  "decode_index_entry d cursor =
     res_bind (read_varint (drop cursor d)) (\<lambda>(key_len, n1). let cursor = cursor + n1 in
     res_bind (slice_at d cursor (unat key_len)) (\<lambda>key. let cursor = cursor + unat key_len in
     res_bind (read_varint (drop cursor d)) (\<lambda>(offset, n2). let cursor = cursor + n2 in
     res_bind (read_varint (drop cursor d)) (\<lambda>(size, n3).
       Ok ((key, \<lparr>bh_offset = offset, bh_size = size\<rparr>), cursor + n3)))))"

lemma decode_index_progress: "decode_index_entry d cursor = Ok (e, cursor') \<Longrightarrow> cursor < cursor'"
  by (auto simp: decode_index_entry_def Let_def read_varint_def split: sum.splits dest!: read_varint_progress)

function decode_index :: "bytes \<Rightarrow> nat \<Rightarrow> (io_error, IndexBlock) res" where
  "decode_index d cursor =
     (if cursor < length d then
        case decode_index_entry d cursor of
          Inl f \<Rightarrow> Inl f
        | Inr (e, cursor') \<Rightarrow> res_bind (decode_index d cursor') (\<lambda>es. Ok (e # es))
      else Ok [])"
  by pat_completeness auto
termination
  by (relation "measure (\<lambda>(d, cursor). length d - cursor)") (auto dest!: decode_index_progress)

declare decode_index.simps [simp del]

definition IndexBlock_decode :: "hash_lib \<Rightarrow> bytes \<Rightarrow> (io_error, IndexBlock) res" where
  "IndexBlock_decode H data =
     (if length data < 4 then Err (InvalidData ''Index block data too short'')
      else res_bind (check_crc H ''Index block'' data) (\<lambda>d. decode_index d 0))"

definition find_block :: "IndexBlock \<Rightarrow> bytes \<Rightarrow> BlockHandle option" where
  "find_block index key =
     (let idx = (case binary_search_by (\<lambda>e. cmp (fst e) key) index of Inr i \<Rightarrow> i | Inl i \<Rightarrow> i)
      in if idx < length index then Some (snd (index ! idx)) else None)"

section \<open>Bloom filter\<close>

record BloomFilter =
  bf_bits :: bytes
  bf_hashes :: nat

text \<open>
  The number of hash functions is \<open>bits_per_key * 0.69\<close> in floating point, truncated and kept between 1
  and 30: below 44 bits per key the product is never near an integer, and from there on it exceeds 30.
\<close>

definition BloomFilter_new :: "nat \<Rightarrow> nat \<Rightarrow> BloomFilter" where
  "BloomFilter_new num_keys bits_per_key =
     \<lparr>bf_bits = replicate ((num_keys * bits_per_key + 7) div 8) 0,
      bf_hashes = min (max (bits_per_key * 69 div 100) 1) 30\<rparr>"

definition bloom_hash_key :: "bytes \<Rightarrow> u64" where
  "bloom_hash_key key = foldl (\<lambda>h b. (h XOR ucast b) * 0x100000001b3) 0xcbf29ce484222325 key"

definition bit_pos :: "nat \<Rightarrow> bytes \<Rightarrow> nat \<Rightarrow> nat" where
  "bit_pos nbytes key i =
     (let hash = bloom_hash_key key; delta = drop_bit 17 hash OR push_bit 15 hash
      in unat ((hash + word_of_nat i * delta) mod (word_of_nat nbytes * 8)))"

definition set_bloom_bit :: "nat \<Rightarrow> bytes \<Rightarrow> bytes" where
  "set_bloom_bit p bits = bits[p div 8 := bits ! (p div 8) OR push_bit (p mod 8) 1]"

text \<open>The remainder by zero of a filter without bits is a panic.\<close>

definition bloom_add :: "BloomFilter \<Rightarrow> bytes \<Rightarrow> (io_error, BloomFilter) res" where
  "bloom_add f key =
     (if bf_bits f = [] \<and> bf_hashes f \<noteq> 0 then Inl Panicked
      else Ok (f\<lparr>bf_bits := fold (\<lambda>i. set_bloom_bit (bit_pos (length (bf_bits f)) key i)) [0..<bf_hashes f] (bf_bits f)\<rparr>))"

definition may_contain :: "BloomFilter \<Rightarrow> bytes \<Rightarrow> (io_error, bool) res" where
  "may_contain f key =
     (if bf_bits f = [] \<and> bf_hashes f \<noteq> 0 then Inl Panicked
      else Ok (list_all (\<lambda>i. let p = bit_pos (length (bf_bits f)) key i in
             bf_bits f ! (p div 8) AND push_bit (p mod 8) 1 \<noteq> 0) [0..<bf_hashes f]))"

definition BloomFilter_encode :: "hash_lib \<Rightarrow> BloomFilter \<Rightarrow> bytes" where
  "BloomFilter_encode H f = with_crc H (word_of_nat (bf_hashes f) # bf_bits f)"

definition BloomFilter_decode :: "hash_lib \<Rightarrow> bytes \<Rightarrow> (io_error, BloomFilter) res" where
  "BloomFilter_decode H data =
     (if length data < 5 then Err (InvalidData ''Bloom filter data too short'')
      else res_bind (check_crc H ''Bloom filter'' data) (\<lambda>d. Ok \<lparr>bf_bits = tl d, bf_hashes = unat (hd d)\<rparr>))"

section \<open>Footer\<close>

definition MAGIC_NUMBER :: u64 where
  "MAGIC_NUMBER = 0x4E414E4F4C534D54"

record Footer =
  ft_meta_index :: BlockHandle
  ft_index :: BlockHandle
  ft_magic :: u64
  ft_version :: u32
  ft_checksum :: u32

definition Footer_encode :: "Footer \<Rightarrow> bytes" where
  "Footer_encode f =
     le_bytes 8 (unat (bh_offset (ft_meta_index f))) @ le_bytes 8 (unat (bh_size (ft_meta_index f))) @
     le_bytes 8 (unat (bh_offset (ft_index f))) @ le_bytes 8 (unat (bh_size (ft_index f))) @
     le_bytes 8 (unat (ft_magic f)) @ le_bytes 4 (unat (ft_version f)) @ le_bytes 4 (unat (ft_checksum f))"

definition Footer_decode :: "bytes \<Rightarrow> (io_error, Footer) res" where
  "Footer_decode d =
     (if length d \<noteq> 48 then Err (InvalidData ''Invalid footer size'')
      else if word_of_nat (u64_at d 32) \<noteq> MAGIC_NUMBER then Err (InvalidData ''Invalid magic number'')
      else Ok \<lparr>ft_meta_index = \<lparr>bh_offset = word_of_nat (u64_at d 0), bh_size = word_of_nat (u64_at d 8)\<rparr>,
               ft_index = \<lparr>bh_offset = word_of_nat (u64_at d 16), bh_size = word_of_nat (u64_at d 24)\<rparr>,
               ft_magic = word_of_nat (u64_at d 32), ft_version = word_of_nat (u32_at d 40),
               ft_checksum = word_of_nat (u32_at d 44)\<rparr>)"

section \<open>Tables\<close>

record SSTableMetadata =
  sm_file_number :: u64
  sm_level :: nat
  sm_min_key :: bytes
  sm_max_key :: bytes
  sm_min_sequence :: u64
  sm_max_sequence :: u64
  sm_entry_count :: u64
  sm_file_size :: u64
  sm_created_at :: u64

text \<open>Writing a block: the index gets its last key and its place.\<close>

record table_writer =
  tw_file :: MemoryFile
  tw_index :: IndexBlock
  tw_offset :: u64

definition write_block ::
  "hash_lib \<Rightarrow> codec_lib \<Rightarrow> CompressionAlgorithm \<Rightarrow> DataBlock \<Rightarrow> table_writer \<Rightarrow> table_writer \<times> (io_error, unit) res" where
  "write_block H C compression b w =
     (case DataBlock_encode H C compression b of
        Inl f \<Rightarrow> (w, Inl f)
      | Inr data \<Rightarrow>
          (\<lparr>tw_file = mem_write (tw_file w) data,
            tw_index = tw_index w @ [(e_key (last (db_entries b)), \<lparr>bh_offset = tw_offset w, bh_size = word_of_nat (length data)\<rparr>)],
            tw_offset = tw_offset w + word_of_nat (length data)\<rparr>, Ok ()))"

primrec write_blocks ::
  "hash_lib \<Rightarrow> codec_lib \<Rightarrow> CompressionAlgorithm \<Rightarrow> nat \<Rightarrow> Entry list \<Rightarrow> DataBlock \<Rightarrow> nat \<Rightarrow> table_writer \<Rightarrow>
     table_writer \<times> (io_error, unit) res" where
  "write_blocks H C compression block_size [] b sz w =
     (if db_entries b = [] then (w, Ok ()) else write_block H C compression b w)"
| "write_blocks H C compression block_size (e # es) b sz w =
     (if block_size < sz + entry_size e \<and> db_entries b \<noteq> [] then
        and_then (write_block H C compression b w) (\<lambda>w' _.
          write_blocks H C compression block_size es (add_entry DataBlock_new e) (entry_size e) w')
      else write_blocks H C compression block_size es (add_entry b e) (sz + entry_size e) w)"

primrec bloom_of :: "Entry list \<Rightarrow> BloomFilter \<Rightarrow> (io_error, BloomFilter) res" where
  "bloom_of [] f = Ok f"
| "bloom_of (e # es) f = res_bind (bloom_add f (e_key e)) (bloom_of es)"

definition SSTable_create ::
  "hash_lib \<Rightarrow> codec_lib \<Rightarrow> u64 \<Rightarrow> MemoryFile \<Rightarrow> Entry list \<Rightarrow> u64 \<Rightarrow> nat \<Rightarrow> nat \<Rightarrow> CompressionAlgorithm \<Rightarrow>
     MemoryFile \<times> (io_error, SSTableMetadata) res" where
  "SSTable_create H C now writer entries file_number level block_size compression =
     (if entries = [] then (writer, Err (IoInvalidInput ''Cannot create SSTable from empty entries''))
      else case bloom_of entries (BloomFilter_new (length entries) 10) of
        Inl f \<Rightarrow> (writer, Inl f)
      | Inr bloom \<Rightarrow>
          (case write_blocks H C compression block_size entries DataBlock_new 0
                  \<lparr>tw_file = writer, tw_index = [], tw_offset = 0\<rparr> of
             (w, Inl f) \<Rightarrow> (tw_file w, Inl f)
           | (w, Inr _) \<Rightarrow>
               let bloom_data = BloomFilter_encode H bloom;
                   meta_handle = \<lparr>bh_offset = tw_offset w, bh_size = word_of_nat (length bloom_data)\<rparr>;
                   index_data = IndexBlock_encode H (tw_index w);
                   index_offset = tw_offset w + word_of_nat (length bloom_data);
                   index_handle = \<lparr>bh_offset = index_offset, bh_size = word_of_nat (length index_data)\<rparr>;
                   footer = \<lparr>ft_meta_index = meta_handle, ft_index = index_handle, ft_magic = MAGIC_NUMBER,
                             ft_version = 1, ft_checksum = 0\<rparr>;
                   footer_data = Footer_encode footer
               in (mem_write (mem_write (mem_write (tw_file w) bloom_data) index_data) footer_data,
                   Ok \<lparr>sm_file_number = file_number, sm_level = level, sm_min_key = e_key (hd entries),
                       sm_max_key = e_key (last entries), sm_min_sequence = Min (e_sequence ` set entries),
                       sm_max_sequence = Max (e_sequence ` set entries), sm_entry_count = word_of_nat (length entries),
                       sm_file_size = index_offset + word_of_nat (length index_data) + word_of_nat (length footer_data),
                       sm_created_at = now\<rparr>)))"

text \<open>
  \<open>seek\<close>, a buffer of the given size and \<open>read_exact\<close>. A buffer of more than \<open>isize::MAX\<close> bytes panics.
\<close>

definition read_handle :: "MemoryFile \<Rightarrow> BlockHandle \<Rightarrow> MemoryFile \<times> (io_error, bytes) res" where
  "read_handle r h =
     (let r' = mem_seek r (SeekStart (bh_offset h)) in
      if 2 ^ 63 \<le> unat (bh_size h) then (r', Inl Panicked) else read_exact r' (unat (bh_size h)))"

definition read_footer :: "MemoryFile \<Rightarrow> MemoryFile \<times> (io_error, Footer) res" where
  "read_footer r =
     and_then (read_exact (mem_seek r (SeekEnd (- 48))) 48) (\<lambda>r d. (r, Footer_decode d))"

text \<open>The check of the whole file, skipped when the footer has no checksum; the loop reads every byte before the footer.\<close>

definition verify_file :: "hash_lib \<Rightarrow> IntegrityAlgorithm \<Rightarrow> Footer \<Rightarrow> MemoryFile \<Rightarrow> MemoryFile \<times> (io_error, unit) res" where
  "verify_file H integrity footer r =
     (if integrity = IntegrityNone \<or> ft_checksum footer = 0 then (r, Ok ())
      else let n = length (mem_buffer r) - 48;
               crc = (case integrity_hash H integrity (take n (mem_buffer r)) of Hash32 v \<Rightarrow> v | NoHash \<Rightarrow> 0)
           in (r\<lparr>mem_cursor := n\<rparr>, if crc \<noteq> ft_checksum footer then Err (InvalidData ''Checksum mismatch'') else Ok ()))"

definition SSTable_get ::
  "hash_lib \<Rightarrow> codec_lib \<Rightarrow> MemoryFile \<Rightarrow> bytes \<Rightarrow> IntegrityAlgorithm \<Rightarrow> MemoryFile \<times> (io_error, Entry option) res" where
  "SSTable_get H C r key integrity =
     and_then (read_footer r) (\<lambda>r footer.
     and_then (verify_file H integrity footer r) (\<lambda>r _.
     and_then (read_handle r (ft_meta_index footer)) (\<lambda>r bloom_data.
       case res_bind (BloomFilter_decode H bloom_data) (\<lambda>f. may_contain f key) of
         Inl f \<Rightarrow> (r, Inl f)
       | Inr False \<Rightarrow> (r, Ok None)
       | Inr True \<Rightarrow>
           and_then (read_handle r (ft_index footer)) (\<lambda>r index_data.
             case IndexBlock_decode H index_data of
               Inl f \<Rightarrow> (r, Inl f)
             | Inr index \<Rightarrow>
                 (case find_block index key of
                    None \<Rightarrow> (r, Ok None)
                  | Some h \<Rightarrow>
                      and_then (read_handle r h) (\<lambda>r block_data. (r,
                        res_bind (DataBlock_decode H C block_data) (\<lambda>b.
                          Ok (case binary_search_by (\<lambda>e. cmp (e_key e) key) (db_entries b) of
                                Inr i \<Rightarrow> Some (db_entries b ! i)
                              | Inl i \<Rightarrow> None)))))))))"

section \<open>Iterator\<close>

record SSTableIterator =
  it_reader :: MemoryFile
  it_index :: IndexBlock
  it_block_idx :: nat
  it_block :: "DataBlock option"
  it_entry_idx :: nat

definition SSTable_iter :: "hash_lib \<Rightarrow> MemoryFile \<Rightarrow> (io_error, SSTableIterator) res" where
  "SSTable_iter H r =
     (case read_footer r of
        (r, Inl f) \<Rightarrow> Inl f
      | (r, Inr footer) \<Rightarrow>
          (case read_handle r (ft_index footer) of
             (r, Inl f) \<Rightarrow> Inl f
           | (r, Inr d) \<Rightarrow> res_bind (IndexBlock_decode H d) (\<lambda>index.
               Ok \<lparr>it_reader = r, it_index = index, it_block_idx = 0, it_block = None, it_entry_idx = 0\<rparr>)))"

definition load_next_block :: "hash_lib \<Rightarrow> codec_lib \<Rightarrow> SSTableIterator \<Rightarrow> SSTableIterator \<times> (io_error, bool) res" where
  "load_next_block H C it =
     (if length (it_index it) \<le> it_block_idx it then (it, Ok False)
      else case read_handle (it_reader it) (snd (it_index it ! it_block_idx it)) of
        (r, Inl f) \<Rightarrow> (it\<lparr>it_reader := r\<rparr>, Inl f)
      | (r, Inr d) \<Rightarrow>
          (case DataBlock_decode H C d of
             Inl f \<Rightarrow> (it\<lparr>it_reader := r\<rparr>, Inl f)
           | Inr b \<Rightarrow> (it\<lparr>it_reader := r, it_block := Some b, it_entry_idx := 0, it_block_idx := it_block_idx it + 1\<rparr>, Ok True)))"

function sst_next :: "hash_lib \<Rightarrow> codec_lib \<Rightarrow> SSTableIterator \<Rightarrow> SSTableIterator \<times> (io_error, Entry) res option" where
  "sst_next H C it =
     (case it_block it of
        Some b \<Rightarrow>
          if it_entry_idx it < length (db_entries b)
          then (it\<lparr>it_entry_idx := it_entry_idx it + 1\<rparr>, Some (Ok (db_entries b ! it_entry_idx it)))
          else (case load_next_block H C it of
                  (it', Inl f) \<Rightarrow> (it', Some (Inl f))
                | (it', Inr loaded) \<Rightarrow> if loaded then sst_next H C it' else (it', None))
      | None \<Rightarrow>
          (case load_next_block H C it of
             (it', Inl f) \<Rightarrow> (it', Some (Inl f))
           | (it', Inr loaded) \<Rightarrow> if loaded then sst_next H C it' else (it', None)))"
  by pat_completeness auto
termination
  by (relation "measure (\<lambda>(H, C, it). length (it_index it) - it_block_idx it)")
     (auto simp: load_next_block_def split: prod.splits sum.splits if_splits)

declare sst_next.simps [simp del]

end
