(* ===== verification/Lsm_Format.thy ===== *)
theory Lsm_Format
  imports Lsm_Sstable
begin

unbundle bit_operations_syntax

text \<open>
  Round trips of the parts of a sorted string table: variable-length integers, data blocks, the index, the
  Bloom filter and the footer decode to what was encoded. Decoders read at a cursor, so the lemmas
  speak of the bytes that follow it.
\<close>

section \<open>Variable-length integers\<close>

lemma and_low_bits: "(w :: u8) AND 0x7F = take_bit 7 w"
  by (simp add: take_bit_eq_mask mask_eq_exp_minus_1)

lemma bit_high_bit [simp]: "bit (128 :: int) n \<longleftrightarrow> n = 7"
proof -
  have "(128 :: int) = 2 ^ 7" by simp
  then show ?thesis by (simp only: bit_exp_iff) auto
qed

lemma and_high_bit: "(w :: u8) AND 0x80 = 0 \<longleftrightarrow> \<not> bit w 7"
proof -
  have "w AND 0x80 = (if bit w 7 then 0x80 else 0)"
    by (auto intro!: bit_word_eqI simp: bit_and_iff)
  then show ?thesis by simp
qed

lemma varint_bits:
  fixes v :: u64
  shows "ucast ((ucast v OR 0x80 :: u8) AND 0x7F) = take_bit 7 v" "(ucast v OR 0x80 :: u8) AND 0x80 \<noteq> 0"
  unfolding and_low_bits and_high_bit by (auto intro!: bit_word_eqI simp: bit_simps)

lemma varint_last:
  fixes v :: u64
  assumes "v < 128"
  shows "ucast (ucast v AND 0x7F :: u8) = v" "(ucast v :: u8) AND 0x80 = 0"
proof -
  have v: "take_bit 7 v = v"
    using assms by (simp add: take_bit_eq_mod mod_word_less)
  have "ucast (take_bit 7 (ucast v :: u8)) = take_bit 7 v" by (auto intro!: bit_word_eqI simp: bit_simps)
  then show "ucast (ucast v AND 0x7F :: u8) = v" by (simp only: and_low_bits v)
  have "\<not> bit v 7" using v by (metis bit_take_bit_iff less_irrefl)
  then show "(ucast v :: u8) AND 0x80 = 0" unfolding and_high_bit by (simp add: bit_simps)
qed

lemma read_write_varint_loop:
  "shift < 64 \<Longrightarrow> unat v < 2 ^ (64 - shift) \<Longrightarrow>
   read_varint_loop (write_varint v @ rest) r shift n = Ok (r OR push_bit shift v, n + length (write_varint v))"
proof (induction v arbitrary: r shift n rule: write_varint.induct)
  case (1 v)
  show ?case
  proof (cases "v < 0x80")
    case True
    then show ?thesis by (simp add: write_varint.simps varint_last Let_def)
  next
    case False
    then have big: "128 \<le> unat v" by (simp add: not_less word_le_nat_alt)
    have "(2::nat) ^ 7 < 2 ^ (64 - shift)" using big "1.prems"(2) by simp
    then have "7 < 64 - shift" by (rule power_less_imp_less_exp [rotated]) simp
    then have shift: "shift + 7 < 64" by simp
    have "unat (drop_bit 7 v) = unat v div 2 ^ 7" by (simp add: drop_bit_eq_div unat_div)
    moreover have "(2::nat) ^ (64 - shift) = 2 ^ 7 * 2 ^ (64 - (shift + 7))"
      using power_add [of "2::nat" 7 "64 - (shift + 7)"] shift by simp
    ultimately have "unat (drop_bit 7 v) < 2 ^ (64 - (shift + 7))"
      using "1.prems"(2) by (simp add: less_mult_imp_div_less mult.commute)
    note IH = "1.IH" [OF False shift this]
    have "push_bit shift (take_bit 7 v) OR push_bit (shift + 7) (drop_bit 7 v) = push_bit shift v"
      using shift by (auto intro!: bit_word_eqI simp: bit_simps)
    then show ?thesis
      using False IH shift varint_bits [of v]
      by (subst (1 2) write_varint.simps) (simp add: Let_def or.assoc)
  qed
qed

lemma read_write_varint [simp]: "read_varint (write_varint v @ rest) = Ok (v, length (write_varint v))"
  using read_write_varint_loop [of 0 v rest 0 0] by (simp add: read_varint_def)

lemma drop_after: "drop cursor d = xs @ rest \<Longrightarrow> drop (cursor + length xs) d = rest"
  by (metis add.commute append_eq_conv_conj drop_drop)

lemma read_varint_at:
  "drop cursor d = write_varint v @ rest \<Longrightarrow>
   read_varint (drop cursor d) = Ok (v, length (write_varint v)) \<and>
   drop (cursor + length (write_varint v)) d = rest"
  using drop_after [of cursor d "write_varint v" rest] by simp

lemma slice_at_drop:
  assumes "drop cursor d = xs @ rest" "n = length xs" "cursor \<le> length d"
  shows "slice_at d cursor n = Ok xs \<and> drop (cursor + n) d = rest \<and> cursor + n \<le> length d"
proof -
  have "length d - cursor = length xs + length rest" using assms(1) by (metis length_append length_drop)
  with assms drop_after [OF assms(1)] show ?thesis by (simp add: slice_at_def)
qed

section \<open>Checksums\<close>

lemma check_with_crc [simp]: "check_crc H what (with_crc H d) = Ok d"
  by (simp add: check_crc_def with_crc_def Let_def)

lemma length_with_crc [simp]: "length (with_crc H d) = length d + 4"
  by (simp add: with_crc_def)

section \<open>Entries\<close>

definition entry_small :: "Entry \<Rightarrow> bool" where
  "entry_small e \<longleftrightarrow> length (e_key e) < 2 ^ 64 \<and> (case e_value e of Some (Inline v) \<Rightarrow> length v < 2 ^ 64 | _ \<Rightarrow> True)"

text \<open>A table does not keep commit timestamps.\<close>

definition uncommitted :: "Entry \<Rightarrow> Entry" where
  "uncommitted e = e\<lparr>e_commit_ts := None\<rparr>"

lemma uncommitted_simps [simp]:
  "e_key (uncommitted e) = e_key e" "e_value (uncommitted e) = e_value e" "e_sequence (uncommitted e) = e_sequence e"
  by (simp_all add: uncommitted_def)

lemma unat_word_of_nat: "n < 2 ^ 64 \<Longrightarrow> unat (word_of_nat n :: u64) = n"
  by (simp add: unat_of_nat)

lemma decode_value_correct:
  assumes "drop cursor d = encode_value v @ rest" "cursor \<le> length d"
    and "\<And>x. v = Some (Inline x) \<Longrightarrow> n = length x"
  shows "decode_value d cursor n = Ok (v, cursor + length (encode_value v))"
proof (cases v)
  case None
  with slice_at_drop [of cursor d "[0]" rest 1] assms show ?thesis by (simp add: decode_value_def)
next
  case (Some loc)
  show ?thesis
  proof (cases loc)
    case (Inline x)
    from slice_at_drop [of cursor d "[1]" "x @ rest" 1] slice_at_drop [of "cursor + 1" d x rest n] assms Some Inline
    show ?thesis by (simp add: decode_value_def Let_def)
  next
    case (Blob r)
    let ?f = "le_bytes 8 (unat (blob_file_id r))" and ?o = "le_bytes 8 (unat (blob_offset r))"
      and ?l = "le_bytes 4 (unat (blob_length r))"
    from slice_at_drop [of cursor d "[2]" "?f @ ?o @ ?l @ rest" 1] assms(1,2) Some Blob
    have *: "slice_at d cursor 1 = Ok [2]" "drop (cursor + 1) d = ?f @ ?o @ ?l @ rest" "cursor + 1 \<le> length d" by auto
    have len: "cursor + 1 + 20 \<le> length d"
      using arg_cong [OF *(2), of length] *(3) by simp
    have "drop (cursor + 1 + 8) d = ?o @ ?l @ rest" "drop (cursor + 1 + 16) d = ?l @ rest"
      using arg_cong [OF *(2), of "drop 8"] arg_cong [OF *(2), of "drop 16"] by (simp_all add: add.commute)
    with * len Some Blob show ?thesis
      by (simp add: decode_value_def Let_def u64_at_def u32_at_def)
  qed
qed

lemma common_prefix_take:
  "take (common_prefix_len a b) a = take (common_prefix_len a b) b \<and> common_prefix_len a b \<le> length a \<and>
   common_prefix_len a b \<le> length b"
  by (induction a b rule: common_prefix_len.induct) auto

lemma decode_entry_correct:
  assumes "drop cursor d = encode_entry i prev e @ rest" "cursor \<le> length d" "entry_small e"
  shows "decode_entry d prev cursor = Ok (uncommitted e, cursor + length (encode_entry i prev e))"
proof -
  define sh where "sh = (if i mod RESTART_INTERVAL = 0 then 0 else common_prefix_len prev (e_key e))"
  define us where "us = length (e_key e) - sh"
  define vs where "vs = (case e_value e of None \<Rightarrow> 0 | Some v \<Rightarrow> vl_size v)"
  let ?v1 = "write_varint (word_of_nat sh)" and ?v2 = "write_varint (word_of_nat us)"
    and ?v3 = "write_varint (word_of_nat vs)" and ?v4 = "write_varint (e_sequence e)"
  let ?suf = "drop sh (e_key e)" and ?val = "encode_value (e_value e)"
  have sh: "sh \<le> length prev" "sh \<le> length (e_key e)" "take sh prev = take sh (e_key e)"
    using common_prefix_take [of prev "e_key e"] by (auto simp: sh_def)
  have small: "unat (word_of_nat sh :: u64) = sh"
    "unat (word_of_nat us :: u64) = length ?suf"
    using assms(3) sh(2) by (auto simp: entry_small_def us_def unat_word_of_nat simp del: of_nat_diff)
  have vs: "unat (word_of_nat vs :: u64) = length x" if "e_value e = Some (Inline x)" for x
    using assms(3) that by (simp add: entry_small_def vs_def unat_word_of_nat)
  have enc: "encode_entry i prev e = ?v1 @ ?v2 @ ?v3 @ ?v4 @ ?suf @ ?val"
    by (simp add: encode_entry_def sh_def us_def vs_def Let_def)
  define c1 c2 c3 c4 where "c1 = cursor + length ?v1" and "c2 = c1 + length ?v2" and "c3 = c2 + length ?v3" and "c4 = c3 + length ?v4"
  note c_defs = c1_def c2_def c3_def c4_def
  have r1: "read_varint (drop cursor d) = Ok (word_of_nat sh, length ?v1)" "drop c1 d = ?v2 @ ?v3 @ ?v4 @ ?suf @ ?val @ rest"
    using read_varint_at [of cursor d _ "?v2 @ ?v3 @ ?v4 @ ?suf @ ?val @ rest"] assms(1) by (auto simp: enc c1_def)
  have r2: "read_varint (drop c1 d) = Ok (word_of_nat us, length ?v2)" "drop c2 d = ?v3 @ ?v4 @ ?suf @ ?val @ rest"
    using read_varint_at [OF r1(2)] by (auto simp: c2_def)
  have r3: "read_varint (drop c2 d) = Ok (word_of_nat vs, length ?v3)" "drop c3 d = ?v4 @ ?suf @ ?val @ rest"
    using read_varint_at [OF r2(2)] by (auto simp: c3_def)
  have r4: "read_varint (drop c3 d) = Ok (e_sequence e, length ?v4)" "drop c4 d = ?suf @ ?val @ rest"
    using read_varint_at [OF r3(2)] by (auto simp: c4_def)
  have "c4 \<le> length d"
    using arg_cong [OF assms(1), of length] assms(2) by (simp add: enc c_defs)
  from slice_at_drop [OF r4(2) refl this] have
    r5: "slice_at d c4 (length ?suf) = Ok ?suf" "drop (c4 + length ?suf) d = ?val @ rest" "c4 + length ?suf \<le> length d" by auto
  have r6: "decode_value d (c4 + length ?suf) (unat (word_of_nat vs :: u64)) = Ok (e_value e, c4 + length ?suf + length ?val)"
    using decode_value_correct [OF r5(2,3)] vs by blast
  have "slice_at prev 0 sh = Ok (take sh prev)" using sh(1) by (simp add: slice_at_def)
  then have "decode_entry d prev cursor = Ok (\<lparr>e_key = take sh prev @ ?suf, e_value = e_value e, e_sequence = e_sequence e,
      e_commit_ts = None\<rparr>, c4 + length ?suf + length ?val)"
    unfolding decode_entry_def
    using r1(1) r2(1) r3(1) r4(1) r5(1) r6 small by (simp add: Let_def flip: c_defs)
  with sh(3) show ?thesis by (simp add: uncommitted_def enc c_defs)
qed

lemma decode_entries_correct:
  "drop cursor d = encode_entries i prev es @ rest \<Longrightarrow> cursor \<le> length d \<Longrightarrow> list_all entry_small es \<Longrightarrow>
   restart_offset = length d - length rest \<Longrightarrow>
   decode_entries d restart_offset prev cursor = Ok (map uncommitted es)"
proof (induction es arbitrary: i prev cursor)
  case Nil
  then have "length d - cursor = length rest" by (metis append_Nil encode_entries.simps(1) length_drop)
  with Nil have "\<not> cursor < restart_offset" by linarith
  then show ?case by (subst decode_entries.simps) simp
next
  case (Cons e es)
  let ?enc = "encode_entry i prev e"
  have d: "drop cursor d = ?enc @ encode_entries (Suc i) (e_key e) es @ rest" using Cons.prems(1) by simp
  have e: "decode_entry d prev cursor = Ok (uncommitted e, cursor + length ?enc)"
    using decode_entry_correct [OF d Cons.prems(2)] Cons.prems(3) by simp
  have len: "length d - cursor = length ?enc + length (encode_entries (Suc i) (e_key e) es) + length rest"
    using arg_cong [OF d, of length] by simp
  moreover have "?enc \<noteq> []" by (simp add: encode_entry_def Let_def write_varint.simps)
  ultimately have "cursor < restart_offset" using Cons.prems(4) by (cases ?enc) auto
  moreover have "decode_entries d restart_offset (e_key e) (cursor + length ?enc) = Ok (map uncommitted es)"
    using Cons.IH [OF drop_after [OF d]] Cons.prems len by simp
  ultimately show ?case using e by (subst decode_entries.simps) simp
qed

section \<open>Blocks\<close>

lemma restart_points_correct:
  assumes "drop off d = concat (map (\<lambda>p. le_bytes 4 (unat p)) ps) @ rest"
  shows "map (\<lambda>i. word_of_nat (u32_at d (off + i * 4))) [0..<length ps] = (ps :: u32 list)"
  using assms
proof (induction ps arbitrary: off)
  case (Cons p ps)
  have "take 4 (drop off d) = le_bytes 4 (unat p)" using Cons.prems by simp
  then have hd: "word_of_nat (u32_at d off) = p" by (simp add: u32_at_def)
  have "drop (off + 4) d = concat (map (\<lambda>p. le_bytes 4 (unat p)) ps) @ rest"
    using drop_after [of off d "le_bytes 4 (unat p)"] Cons.prems by simp
  from Cons.IH [OF this] have "map (\<lambda>i. word_of_nat (u32_at d (off + Suc i * 4))) [0..<length ps] = ps"
    by (simp add: add.assoc)
  with hd show ?case by (simp add: upt_conv_Cons map_Suc_upt [symmetric] comp_def del: upt_Suc)
qed simp

text \<open>Decoding a block is undoing the compression and, on what was compressed, restoring the entries.\<close>

lemma DataBlock_decode_encoded:
  assumes "DataBlock_encode H C alg b = Ok data"
    and "list_all entry_small (db_entries b)" "length (db_restart_points b) < 2 ^ 32"
  shows "\<exists>z. compress C alg (block_buffer b) = Ok z \<and>
    (decompress C alg z None = Ok (block_buffer b) \<longrightarrow>
      DataBlock_decode H C data = Ok (b\<lparr>db_entries := map uncommitted (db_entries b)\<rparr>)) \<and>
    (\<forall>x. decompress C alg z None = Err x \<longrightarrow> DataBlock_decode H C data = Err (util_to_io x))"
proof -
  let ?es = "encode_entries 0 [] (db_entries b)" and ?ps = "concat (map (\<lambda>p. le_bytes 4 (unat p)) (db_restart_points b))"
    and ?n = "length (db_restart_points b)"
  define d where "d = block_buffer b"
  note d_eq = d_def [unfolded block_buffer_def]
  have "length (concat (map (\<lambda>p. le_bytes 4 (unat p)) ps)) = 4 * length ps" for ps :: "u32 list" by (induction ps) auto
  then have ps: "length ?ps = 4 * ?n" .
  obtain z where z: "data = with_crc H (compression_as_u8 alg # z)" "compress C alg d = Ok z"
    using assms(1) by (cases alg) (auto simp: DataBlock_encode_def d_def map_err_def split: sum.splits)
  have count: "le_value (drop (length d - 4) d) = ?n" using assms(3) by (simp add: d_eq)
  have off: "length d - 4 - ?n * 4 = length ?es" by (simp add: d_eq ps)
  have es: "decode_entries d (length ?es) [] 0 = Ok (map uncommitted (db_entries b))"
    using decode_entries_correct [of 0 d 0 "[]" "db_entries b" "?ps @ le_bytes 4 ?n"] assms(2) by (simp add: d_eq)
  have points: "map (\<lambda>i. word_of_nat (u32_at d (length ?es + i * 4))) [0..<?n] = db_restart_points b"
    using restart_points_correct [of "length ?es" d "db_restart_points b" "le_bytes 4 ?n"] by (simp add: d_eq)
  have "length d - 4 \<ge> ?n * 4" "4 \<le> length d" by (simp_all add: d_eq ps)
  then have body: "(if length d < 4 then Err (InvalidData ''Invalid block data'')
      else let restart_count = le_value (drop (length d - 4) d) in
        if length d - 4 < restart_count * 4 then Inl Panicked
        else let restart_offset = length d - 4 - restart_count * 4;
                 points = map (\<lambda>i. word_of_nat (u32_at d (restart_offset + i * 4))) [0..<restart_count]
             in res_bind (decode_entries d restart_offset [] 0) (\<lambda>es. Ok \<lparr>db_entries = es, db_restart_points = points\<rparr>)) =
      Ok (b\<lparr>db_entries := map uncommitted (db_entries b)\<rparr>)"
    unfolding Let_def count off points es by simp
  show ?thesis
  proof (intro exI [of _ z] conjI impI allI)
    show "compress C alg (block_buffer b) = Ok z" using z(2) by (simp add: d_def)
    show "DataBlock_decode H C data = Ok (b\<lparr>db_entries := map uncommitted (db_entries b)\<rparr>)"
      if "decompress C alg z None = Ok (block_buffer b)"
      unfolding DataBlock_decode_def z(1) using body that
      by (cases alg) (simp_all add: compression_from_u8_def map_err_def flip: d_def)
    show "DataBlock_decode H C data = Err (util_to_io x)" if "decompress C alg z None = Err x" for x
      unfolding DataBlock_decode_def z(1) using that
      by (cases alg) (simp_all add: compression_from_u8_def map_err_def)
  qed
qed

lemma DataBlock_roundtrip:
  assumes "DataBlock_encode H C alg b = Ok data" "lossless C" "restorable C alg (block_buffer b)"
    and "list_all entry_small (db_entries b)" "length (db_restart_points b) < 2 ^ 32"
  shows "DataBlock_decode H C data = Ok (b\<lparr>db_entries := map uncommitted (db_entries b)\<rparr>)"
  using DataBlock_decode_encoded [OF assms(1,4,5)] decompress_restorable [OF assms(2) _ assms(3)] by metis

text \<open>Without the condition on the compression, decoding restores the block or reports an error.\<close>

abbreviation lz4_failed :: io_error where
  "lz4_failed \<equiv> IoOther ''Decompression error: LZ4 decompression failed''"

lemma DataBlock_decode_cases:
  assumes "DataBlock_encode H C alg b = Ok data" "lossless C"
    and "list_all entry_small (db_entries b)" "length (db_restart_points b) < 2 ^ 32"
  shows "DataBlock_decode H C data \<in> {Ok (b\<lparr>db_entries := map uncommitted (db_entries b)\<rparr>), Err lz4_failed}"
proof -
  obtain z where z: "compress C alg (block_buffer b) = Ok z"
    "decompress C alg z None = Ok (block_buffer b) \<Longrightarrow>
      DataBlock_decode H C data = Ok (b\<lparr>db_entries := map uncommitted (db_entries b)\<rparr>)"
    "\<And>x. decompress C alg z None = Err x \<Longrightarrow> DataBlock_decode H C data = Err (util_to_io x)"
    using DataBlock_decode_encoded [OF assms(1,3,4)] by blast
  from decompress_compress [OF assms(2) z(1)] show ?thesis
  proof
    assume "decompress C alg z None = Ok (block_buffer b)"
    with z(2) show ?thesis by simp
  next
    assume "alg = Lz4 \<and> decompress C alg z None = Err (Decompression ''LZ4 decompression failed'')"
    from z(3) [OF conjunct2 [OF this]] show ?thesis by simp
  qed
qed

lemma DataBlock_overfull:
  assumes "DataBlock_encode H C Lz4 b = Ok data" "lossless C" "lz4_compress C (block_buffer b) = Some y"
    and "4 * length y < length (block_buffer b)"
    and "list_all entry_small (db_entries b)" "length (db_restart_points b) < 2 ^ 32"
  shows "DataBlock_decode H C data = Err lz4_failed"
proof -
  obtain z where z: "compress C Lz4 (block_buffer b) = Ok z"
    "\<And>x. decompress C Lz4 z None = Err x \<Longrightarrow> DataBlock_decode H C data = Err (util_to_io x)"
    using DataBlock_decode_encoded [OF assms(1,5,6)] by metis
  have "z = y" using z(1) assms(3) by simp
  with z(2) [of "Decompression ''LZ4 decompression failed''"] decompress_overfull [OF assms(2,3,4)] show ?thesis by simp
qed

section \<open>Index\<close>

lemma decode_index_entry_correct:
  assumes "drop cursor d = encode_index_entry e @ rest" "cursor \<le> length d" "length (fst e) < 2 ^ 64"
  shows "decode_index_entry d cursor = Ok (e, cursor + length (encode_index_entry e))"
proof -
  obtain k off sz where e: "e = (k, \<lparr>bh_offset = off, bh_size = sz\<rparr>)" by (metis BlockHandle.cases surj_pair)
  let ?v1 = "write_varint (word_of_nat (length k))" and ?v2 = "write_varint off" and ?v3 = "write_varint sz"
  define c1 c2 c3 where "c1 = cursor + length ?v1" and "c2 = c1 + length k" and "c3 = c2 + length ?v2"
  note c_defs = c1_def c2_def c3_def
  have r1: "read_varint (drop cursor d) = Ok (word_of_nat (length k), length ?v1)" "drop c1 d = k @ ?v2 @ ?v3 @ rest"
    using read_varint_at [of cursor d _ "k @ ?v2 @ ?v3 @ rest"] assms(1) by (auto simp: e encode_index_entry_def c1_def)
  have "c1 \<le> length d"
    using arg_cong [OF assms(1), of length] assms(2) by (simp add: e encode_index_entry_def c_defs)
  from slice_at_drop [OF r1(2) refl this]
  have r2: "slice_at d c1 (length k) = Ok k" "drop c2 d = ?v2 @ ?v3 @ rest" by (auto simp: c2_def)
  have r3: "read_varint (drop c2 d) = Ok (off, length ?v2)" "drop c3 d = ?v3 @ rest"
    using read_varint_at [OF r2(2)] by (auto simp: c3_def)
  have "unat (word_of_nat (length k) :: u64) = length k" using assms(3) e by (simp add: unat_word_of_nat)
  then have "decode_index_entry d cursor = Ok (e, c3 + length ?v3)"
    unfolding decode_index_entry_def using r1(1) r2(1) r3 by (simp add: e Let_def flip: c_defs)
  then show ?thesis by (simp add: e encode_index_entry_def c_defs)
qed

lemma decode_index_correct:
  "drop cursor d = concat (map encode_index_entry es) \<Longrightarrow> cursor \<le> length d \<Longrightarrow>
   list_all (\<lambda>e. length (fst e) < 2 ^ 64) es \<Longrightarrow> decode_index d cursor = Ok es"
proof (induction es arbitrary: cursor)
  case Nil
  then show ?case by (subst decode_index.simps) simp
next
  case (Cons e es)
  let ?enc = "encode_index_entry e"
  have d: "drop cursor d = ?enc @ concat (map encode_index_entry es)" using Cons.prems(1) by simp
  have e: "decode_index_entry d cursor = Ok (e, cursor + length ?enc)"
    using decode_index_entry_correct [OF d Cons.prems(2)] Cons.prems(3) by simp
  have len: "length d - cursor = length ?enc + length (concat (map encode_index_entry es))"
    using arg_cong [OF d, of length] by simp
  moreover have "?enc \<noteq> []" by (simp add: encode_index_entry_def write_varint.simps)
  ultimately have "cursor < length d" by (cases ?enc) auto
  moreover have "decode_index d (cursor + length ?enc) = Ok es"
    using Cons.IH [OF drop_after [OF d]] Cons.prems len by simp
  ultimately show ?case using e by (subst decode_index.simps) simp
qed

lemma IndexBlock_roundtrip:
  "list_all (\<lambda>e. length (fst e) < 2 ^ 64) index \<Longrightarrow> IndexBlock_decode H (IndexBlock_encode H index) = Ok index"
  using decode_index_correct [of 0 "concat (map encode_index_entry index)" index]
  by (simp add: IndexBlock_decode_def IndexBlock_encode_def)

section \<open>Bloom filter\<close>

lemma BloomFilter_roundtrip: "bf_hashes f < 256 \<Longrightarrow> BloomFilter_decode H (BloomFilter_encode H f) = Ok f"
  by (simp add: BloomFilter_decode_def BloomFilter_encode_def unat_of_nat)

definition bloom_bit :: "bytes \<Rightarrow> nat \<Rightarrow> bool" where
  "bloom_bit bits p \<longleftrightarrow> bit (bits ! (p div 8)) (p mod 8)"

lemma test_bloom_bit: "(bits ! (p div 8) AND push_bit (p mod 8) 1 \<noteq> 0) = bloom_bit bits p"
  using and_exp_eq_0_iff_not_bit [of "bits ! (p div 8)" "p mod 8"] by (simp add: bloom_bit_def push_bit_eq_mult)

lemma length_set_bloom_bit [simp]: "length (set_bloom_bit p bits) = length bits"
  by (simp add: set_bloom_bit_def)

lemma bloom_bit_set:
  assumes "p < 8 * length bits"
  shows "bloom_bit (set_bloom_bit p bits) q \<longleftrightarrow> q = p \<or> bloom_bit bits q"
proof (cases "q div 8 = p div 8")
  case True
  have "p div 8 < length bits" using assms by (simp add: less_mult_imp_div_less)
  moreover have "q mod 8 = p mod 8 \<longleftrightarrow> q = p" using True by (metis div_mult_mod_eq)
  moreover have "bit (push_bit (p mod 8) 1 :: u8) (q mod 8) \<longleftrightarrow> q mod 8 = p mod 8"
    by (auto simp: push_bit_eq_mult bit_exp_iff)
  ultimately show ?thesis using True by (auto simp: bloom_bit_def set_bloom_bit_def bit_or_iff)
qed (auto simp: bloom_bit_def set_bloom_bit_def)

lemma bit_pos_less:
  assumes "0 < n" "8 * n < 2 ^ 64"
  shows "bit_pos n key i < 8 * n"
proof -
  have "unat (word_of_nat n * 8 :: u64) = unat (word_of_nat (n * 8) :: u64)" by simp
  also have "\<dots> = n * 8" using assms(2) by (intro unat_word_of_nat) simp
  finally show ?thesis using assms(1) by (simp add: bit_pos_def Let_def unat_mod mult.commute [of 8])
qed

lemma bloom_fold:
  assumes "\<And>i. bit_pos n key i < 8 * length bits"
  shows "length (fold (\<lambda>i. set_bloom_bit (bit_pos n key i)) is bits) = length bits \<and>
    (\<forall>q. bloom_bit (fold (\<lambda>i. set_bloom_bit (bit_pos n key i)) is bits) q \<longleftrightarrow>
       bloom_bit bits q \<or> (\<exists>i \<in> set is. q = bit_pos n key i))"
  using assms
proof (induction "is" arbitrary: bits)
  case (Cons i "is")
  then show ?case using bloom_bit_set [OF Cons.prems [of i]] by auto
qed simp

definition bloom_has :: "BloomFilter \<Rightarrow> bytes \<Rightarrow> bool" where
  "bloom_has f key \<longleftrightarrow> (\<forall>i < bf_hashes f. bloom_bit (bf_bits f) (bit_pos (length (bf_bits f)) key i))"

lemma may_contain_has: "bf_bits f \<noteq> [] \<Longrightarrow> may_contain f key = Ok (bloom_has f key)"
  unfolding may_contain_def Let_def test_bloom_bit by (auto simp: bloom_has_def list_all_iff)

lemma bloom_add_correct:
  assumes "bf_bits f \<noteq> []" "8 * length (bf_bits f) < 2 ^ 64"
  obtains f' where "bloom_add f key = Ok f'" "length (bf_bits f') = length (bf_bits f)" "bf_hashes f' = bf_hashes f"
    "bloom_has f' key" "\<And>k. bloom_has f k \<Longrightarrow> bloom_has f' k"
proof -
  let ?n = "length (bf_bits f)"
  define f' where "f' = f\<lparr>bf_bits := fold (\<lambda>i. set_bloom_bit (bit_pos ?n key i)) [0..<bf_hashes f] (bf_bits f)\<rparr>"
  have pos: "bit_pos ?n key i < 8 * ?n" for i using bit_pos_less [of ?n] assms by simp
  note fold = bloom_fold [OF pos, of "[0..<bf_hashes f]"]
  show thesis
  proof (rule that)
    show "bloom_add f key = Ok f'" using assms(1) by (simp add: bloom_add_def f'_def)
  qed (use fold in \<open>auto simp: f'_def bloom_has_def\<close>)
qed

lemma bloom_of_correct:
  "bf_bits f \<noteq> [] \<Longrightarrow> 8 * length (bf_bits f) < 2 ^ 64 \<Longrightarrow>
   \<exists>f'. bloom_of es f = Ok f' \<and> length (bf_bits f') = length (bf_bits f) \<and> bf_hashes f' = bf_hashes f \<and>
     (\<forall>e \<in> set es. bloom_has f' (e_key e)) \<and> (\<forall>k. bloom_has f k \<longrightarrow> bloom_has f' k)"
proof (induction es arbitrary: f)
  case (Cons e es)
  obtain f1 where f1: "bloom_add f (e_key e) = Ok f1" "length (bf_bits f1) = length (bf_bits f)" "bf_hashes f1 = bf_hashes f"
    "bloom_has f1 (e_key e)" "\<And>k. bloom_has f k \<Longrightarrow> bloom_has f1 k"
    using bloom_add_correct [OF Cons.prems] by blast
  then have "bf_bits f1 \<noteq> []" using Cons.prems(1) by (metis length_0_conv)
  with Cons.IH [of f1] Cons.prems f1 show ?case by auto
qed simp

section \<open>Footer\<close>

lemma Footer_roundtrip:
  assumes "ft_magic f = MAGIC_NUMBER"
  shows "Footer_decode (Footer_encode f) = Ok f" "length (Footer_encode f) = 48"
proof -
  show "length (Footer_encode f) = 48" by (simp add: Footer_encode_def)
  then show "Footer_decode (Footer_encode f) = Ok f"
    using assms by (cases f) (auto simp: Footer_decode_def Footer_encode_def u64_at_def u32_at_def)
qed

end
