(* ===== verification/Lsm_Table.thy ===== *)
theory Lsm_Table
  imports Lsm_Format
begin

text \<open>
  Correctness of a sorted string table: what a table is on disk (\<open>table_image\<close>), that writing one produces
  it, and that looking up a key and iterating return exactly the entries written, without their
  commit timestamps.
\<close>

section \<open>The layout of a table\<close>

primrec index_of :: "nat \<Rightarrow> (DataBlock \<times> bytes) list \<Rightarrow> IndexBlock" where
  "index_of off [] = []"
| "index_of off (bd # bds) =
     (e_key (last (db_entries (fst bd))), \<lparr>bh_offset = word_of_nat off, bh_size = word_of_nat (length (snd bd))\<rparr>) #
     index_of (off + length (snd bd)) bds"

abbreviation block_data :: "(DataBlock \<times> bytes) list \<Rightarrow> bytes" where
  "block_data bds \<equiv> concat (map snd bds)"

abbreviation block_entries :: "(DataBlock \<times> bytes) list \<Rightarrow> Entry list" where
  "block_entries bds \<equiv> concat (map (\<lambda>bd. db_entries (fst bd)) bds)"

definition block_ok :: "hash_lib \<Rightarrow> codec_lib \<Rightarrow> CompressionAlgorithm \<Rightarrow> DataBlock \<times> bytes \<Rightarrow> bool" where
  "block_ok H C alg = (\<lambda>(b, d). DataBlock_encode H C alg b = Ok d \<and> db_entries b \<noteq> [] \<and>
     length (db_restart_points b) \<le> length (db_entries b))"

definition table_image :: "hash_lib \<Rightarrow> (DataBlock \<times> bytes) list \<Rightarrow> BloomFilter \<Rightarrow> bytes" where
  "table_image H bds bloom =
     (let off = length (block_data bds); bl = BloomFilter_encode H bloom; ix = IndexBlock_encode H (index_of 0 bds) in
      block_data bds @ bl @ ix @
      Footer_encode \<lparr>ft_meta_index = \<lparr>bh_offset = word_of_nat off, bh_size = word_of_nat (length bl)\<rparr>,
        ft_index = \<lparr>bh_offset = word_of_nat (off + length bl), bh_size = word_of_nat (length ix)\<rparr>,
        ft_magic = MAGIC_NUMBER, ft_version = 1, ft_checksum = 0\<rparr>)"

definition sst_ok ::
  "hash_lib \<Rightarrow> codec_lib \<Rightarrow> CompressionAlgorithm \<Rightarrow> Entry list \<Rightarrow> (DataBlock \<times> bytes) list \<Rightarrow> BloomFilter \<Rightarrow> bool" where
  "sst_ok H C alg entries bds bloom \<longleftrightarrow>
     list_all (block_ok H C alg) bds \<and> block_entries bds = entries \<and>
     bf_bits bloom \<noteq> [] \<and> bf_hashes bloom < 256 \<and> (\<forall>e \<in> set entries. bloom_has bloom (e_key e))"

lemma index_of_append: "index_of off (xs @ ys) = index_of off xs @ index_of (off + length (block_data xs)) ys"
  by (induction xs arbitrary: off) (simp_all add: add.assoc)

lemma index_of_keys: "map fst (index_of off bds) = map (\<lambda>bd. e_key (last (db_entries (fst bd)))) bds"
  by (induction bds arbitrary: off) simp_all

lemma length_index_of [simp]: "length (index_of off bds) = length bds"
  using index_of_keys [of off bds] by (metis length_map)

section \<open>Writing\<close>

text \<open>The blocks a table is cut into.\<close>

primrec table_blocks :: "nat \<Rightarrow> Entry list \<Rightarrow> DataBlock \<Rightarrow> nat \<Rightarrow> DataBlock list" where
  "table_blocks block_size [] b sz = (if db_entries b = [] then [] else [b])"
| "table_blocks block_size (e # es) b sz =
     (if block_size < sz + entry_size e \<and> db_entries b \<noteq> []
      then b # table_blocks block_size es (add_entry DataBlock_new e) (entry_size e)
      else table_blocks block_size es (add_entry b e) (sz + entry_size e))"

abbreviation blocks_of :: "nat \<Rightarrow> Entry list \<Rightarrow> DataBlock list" where
  "blocks_of block_size entries \<equiv> table_blocks block_size entries DataBlock_new 0"

definition written :: "(DataBlock \<times> bytes) list \<Rightarrow> table_writer \<Rightarrow> bool" where
  "written bds w \<longleftrightarrow>
     tw_file w = \<lparr>mem_buffer = block_data bds, mem_cursor = length (block_data bds)\<rparr> \<and>
     tw_index w = index_of 0 bds \<and> tw_offset w = word_of_nat (length (block_data bds))"

lemma write_block_correct:
  assumes "written bds w" "write_block H C alg b w = (w', Ok u)" "db_entries b \<noteq> []"
    and "length (db_restart_points b) \<le> length (db_entries b)"
  obtains d where "written (bds @ [(b, d)]) w'" "block_ok H C alg (b, d)"
proof -
  obtain d where d: "DataBlock_encode H C alg b = Ok d" using assms(2) by (auto simp: write_block_def split: sum.splits)
  with assms have "written (bds @ [(b, d)]) w'"
    by (auto simp: write_block_def written_def mem_write_end index_of_append)
  moreover have "block_ok H C alg (b, d)" using assms(3,4) d by (simp add: block_ok_def)
  ultimately show thesis by (rule that)
qed

lemma restart_points_add:
  "length (db_restart_points b) \<le> length (db_entries b) \<Longrightarrow>
   length (db_restart_points (add_entry b e)) \<le> length (db_entries (add_entry b e))"
  by (auto simp: add_entry_def)

lemma add_entry_entries [simp]: "db_entries (add_entry b e) = db_entries b @ [e]"
  by (simp add: add_entry_def)

lemma write_blocks_correct:
  "written bds w \<Longrightarrow> write_blocks H C alg bs es b sz w = (w', Ok u) \<Longrightarrow>
   length (db_restart_points b) \<le> length (db_entries b) \<Longrightarrow>
   \<exists>bds'. written (bds @ bds') w' \<and> list_all (block_ok H C alg) bds' \<and> block_entries bds' = db_entries b @ es \<and>
     map fst bds' = table_blocks bs es b sz"
proof (induction es arbitrary: bds b sz w)
  case Nil
  show ?case
  proof (cases "db_entries b = []")
    case True
    with Nil show ?thesis by (intro exI [of _ "[]"]) simp
  next
    case False
    with Nil obtain d where "written (bds @ [(b, d)]) w'" "block_ok H C alg (b, d)"
      using write_block_correct [of bds w] by (metis write_blocks.simps(1))
    with False show ?thesis by (intro exI [of _ "[(b, d)]"]) simp
  qed
next
  case (Cons e es)
  show ?case
  proof (cases "bs < sz + entry_size e \<and> db_entries b \<noteq> []")
    case True
    with Cons.prems(2) obtain w1 u1 where w1: "write_block H C alg b w = (w1, Ok u1)"
      "write_blocks H C alg bs es (add_entry DataBlock_new e) (entry_size e) w1 = (w', Ok u)"
      by (auto simp: and_then_def split: prod.splits sum.splits)
    from write_block_correct [OF Cons.prems(1) w1(1)] True Cons.prems(3) obtain d where
      d: "written (bds @ [(b, d)]) w1" "block_ok H C alg (b, d)" by blast
    from Cons.IH [OF d(1) w1(2)] restart_points_add [of DataBlock_new e] obtain bds' where
      "written ((bds @ [(b, d)]) @ bds') w'" "list_all (block_ok H C alg) bds'" "block_entries bds' = [e] @ es"
      "map fst bds' = table_blocks bs es (add_entry DataBlock_new e) (entry_size e)"
      by (auto simp: DataBlock_new_def)
    with d(2) True show ?thesis by (intro exI [of _ "(b, d) # bds'"]) simp
  next
    case False
    then have "write_blocks H C alg bs es (add_entry b e) (sz + entry_size e) w = (w', Ok u)"
      using Cons.prems(2) by (auto split: if_splits)
    from Cons.IH [OF Cons.prems(1) this restart_points_add [OF Cons.prems(3)]] False show ?thesis by auto
  qed
qed

lemma bloom_of_new:
  assumes "entries \<noteq> []" "length entries < 2 ^ 32"
  obtains f where "bloom_of entries (BloomFilter_new (length entries) 10) = Ok f" "bf_bits f \<noteq> []" "bf_hashes f < 256"
    "\<forall>e \<in> set entries. bloom_has f (e_key e)"
proof -
  let ?f = "BloomFilter_new (length entries) 10"
  have "0 < (length entries * 10 + 7) div 8" using assms(1) by (cases entries) auto
  then have new: "bf_bits ?f \<noteq> []" "8 * length (bf_bits ?f) < 2 ^ 64" "bf_hashes ?f = 6"
    using assms(2) by (auto simp: BloomFilter_new_def)
  from bloom_of_correct [OF new(1,2), of entries] obtain f where f: "bloom_of entries ?f = Ok f"
    "length (bf_bits f) = length (bf_bits ?f)" "bf_hashes f = 6" "\<forall>e \<in> set entries. bloom_has f (e_key e)"
    using new(3) by auto
  from f(2) new(1) have "bf_bits f \<noteq> []" by (metis length_0_conv)
  with f show thesis using that by simp
qed

abbreviation empty_file :: MemoryFile where
  "empty_file \<equiv> \<lparr>mem_buffer = [], mem_cursor = 0\<rparr>"

lemma SSTable_create_correct:
  assumes "SSTable_create H C now empty_file entries fno level bs alg = (f, Ok meta)" "length entries < 2 ^ 32"
  obtains bds bloom where "sst_ok H C alg entries bds bloom" "mem_buffer f = table_image H bds bloom"
    "sm_file_number meta = fno" "sm_min_key meta = e_key (hd entries)" "sm_max_key meta = e_key (last entries)" "entries \<noteq> []"
    "map fst bds = blocks_of bs entries"
proof -
  have ne: "entries \<noteq> []" using assms(1) by (auto simp: SSTable_create_def)
  obtain bloom where bloom: "bloom_of entries (BloomFilter_new (length entries) 10) = Ok bloom" "bf_bits bloom \<noteq> []"
    "bf_hashes bloom < 256" "\<forall>e \<in> set entries. bloom_has bloom (e_key e)" using bloom_of_new [OF ne assms(2)] .
  let ?w = "\<lparr>tw_file = empty_file, tw_index = [], tw_offset = 0\<rparr>"
  obtain w u where w: "write_blocks H C alg bs entries DataBlock_new 0 ?w = (w, Ok u)"
    using assms(1) ne bloom(1) by (auto simp: SSTable_create_def split: prod.splits sum.splits)
  have "written [] ?w" by (simp add: written_def)
  from write_blocks_correct [OF this w] obtain bds where bds: "written bds w" "list_all (block_ok H C alg) bds"
    "block_entries bds = entries" "map fst bds = blocks_of bs entries" by (auto simp: DataBlock_new_def)
  show thesis
  proof (rule that)
    show "sst_ok H C alg entries bds bloom" using bds(2,3) bloom by (simp add: sst_ok_def)
    show "mem_buffer f = table_image H bds bloom"
      using assms(1) ne bloom(1) w bds(1)
      by (auto simp: SSTable_create_def written_def mem_write_end Let_def table_image_def)
  qed (use assms(1) ne bloom(1) w bds(4) in \<open>auto simp: SSTable_create_def Let_def\<close>)
qed

abbreviation compressible :: "codec_lib \<Rightarrow> CompressionAlgorithm \<Rightarrow> DataBlock \<Rightarrow> bool" where
  "compressible C alg b \<equiv> (\<exists>y. compress C alg (block_buffer b) = Ok y)"

lemma write_block_total: "compressible C alg b \<Longrightarrow> \<exists>w'. write_block H C alg b w = (w', Ok ())"
  by (cases alg) (auto simp: write_block_def DataBlock_encode_def split: sum.split)

lemma write_blocks_total:
  "\<forall>b \<in> set (table_blocks bs es b sz). compressible C alg b \<Longrightarrow> \<exists>w'. write_blocks H C alg bs es b sz w = (w', Ok ())"
proof (induction es arbitrary: b sz w)
  case Nil
  then show ?case using write_block_total by simp
next
  case (Cons e es)
  show ?case
  proof (cases "bs < sz + entry_size e \<and> db_entries b \<noteq> []")
    case True
    with Cons.prems have "compressible C alg b" by simp
    from write_block_total [OF this, of H w] obtain w1 where "write_block H C alg b w = (w1, Ok ())" by blast
    with True Cons show ?thesis by simp
  next
    case False
    with Cons show ?thesis by auto
  qed
qed

lemma SSTable_create_total:
  assumes "\<forall>b \<in> set (blocks_of bs entries). compressible C alg b" "entries \<noteq> []" "length entries < 2 ^ 32"
  obtains f meta where "SSTable_create H C now writer entries fno level bs alg = (f, Ok meta)"
proof -
  obtain bloom where "bloom_of entries (BloomFilter_new (length entries) 10) = Ok bloom"
    using bloom_of_new [OF assms(2,3)] .
  moreover obtain w where "write_blocks H C alg bs entries DataBlock_new 0 \<lparr>tw_file = writer, tw_index = [], tw_offset = 0\<rparr> = (w, Ok ())"
    using write_blocks_total [OF assms(1)] by blast
  ultimately show thesis using that assms(2) by (simp add: SSTable_create_def Let_def)
qed

lemma compresses_total: "compresses C alg \<Longrightarrow> \<forall>b \<in> set bs. compressible C alg b"
  by (simp add: compresses_def)

section \<open>Reading\<close>

lemma read_handle_correct:
  assumes "mem_buffer r = pre @ bs @ rest" "h = \<lparr>bh_offset = word_of_nat (length pre), bh_size = word_of_nat (length bs)\<rparr>"
    and "length (mem_buffer r) < 2 ^ 63"
  obtains r' where "read_handle r h = (r', Ok bs)" "mem_buffer r' = mem_buffer r"
proof -
  have "unat (bh_offset h) = length pre" "unat (bh_size h) = length bs"
    using assms(3) unfolding assms(1,2) by (simp_all add: unat_word_of_nat)
  then show thesis
    using that read_exact_slice [of "mem_seek r (SeekStart (bh_offset h))" bs rest] assms(1,3)
    by (auto simp: read_handle_def Let_def)
qed

lemma read_footer_correct:
  assumes "mem_buffer r = pre @ Footer_encode ft" "ft_magic ft = MAGIC_NUMBER" "length (mem_buffer r) < 2 ^ 63"
  obtains r' where "read_footer r = (r', Ok ft)" "mem_buffer r' = mem_buffer r"
proof -
  note len = Footer_roundtrip(2) [OF assms(2)]
  have "mem_seek r (SeekEnd (- 48)) = r\<lparr>mem_cursor := length pre\<rparr>"
    using assms(1,3) len by (simp add: nat_mod_as_int)
  with read_exact_slice [of "r\<lparr>mem_cursor := length pre\<rparr>" "Footer_encode ft" "[]"] assms(1) len
  show thesis using that by (auto simp: read_footer_def Footer_roundtrip [OF assms(2)])
qed

text \<open>The part of a table that the index says holds a block.\<close>

lemma read_block_correct:
  assumes "mem_buffer r = table_image H (xs @ (b, d) # ys) bloom" "length (mem_buffer r) < 2 ^ 63"
  obtains r' where "read_handle r (snd (index_of 0 (xs @ (b, d) # ys) ! length xs)) = (r', Ok d)" "mem_buffer r' = mem_buffer r"
proof -
  have h: "snd (index_of 0 (xs @ (b, d) # ys) ! length xs) =
    \<lparr>bh_offset = word_of_nat (length (block_data xs)), bh_size = word_of_nat (length d)\<rparr>"
    by (simp add: index_of_append nth_append)
  obtain tail where "mem_buffer r = block_data xs @ d @ tail" using assms(1) by (simp add: table_image_def Let_def)
  from read_handle_correct [OF this h assms(2)] show thesis using that .
qed

lemma block_decode_cases:
  assumes "block_ok H C alg (b, d)" "lossless C" "list_all entry_small (db_entries b)" "length (db_entries b) < 2 ^ 32"
  shows "DataBlock_decode H C d = Ok (b\<lparr>db_entries := map uncommitted (db_entries b)\<rparr>) \<or>
    DataBlock_decode H C d = Err lz4_failed \<and> \<not> restorable C alg (block_buffer b)"
proof -
  have b: "DataBlock_encode H C alg b = Ok d" "length (db_restart_points b) < 2 ^ 32" using assms(1,4) by (auto simp: block_ok_def)
  from DataBlock_decode_cases [OF b(1) assms(2,3) b(2)] DataBlock_roundtrip [OF b(1) assms(2) _ assms(3) b(2)] show ?thesis by auto
qed

abbreviation lookup :: "Entry list \<Rightarrow> bytes \<Rightarrow> Entry option" where
  "lookup es key \<equiv> find (\<lambda>e. e_key e = key) es"

lemma lookup_None: "lookup es key = None \<longleftrightarrow> (\<forall>e \<in> set es. e_key e \<noteq> key)"
  by (auto simp: find_None_iff)

lemma lookup_append: "lookup (xs @ ys) key = (case lookup xs key of None \<Rightarrow> lookup ys key | Some e \<Rightarrow> Some e)"
  by (induction xs) auto

lemma lookup_lower_bound:
  "sorted_wrt (<) (map e_key es) \<Longrightarrow>
   lookup es key = (let i = lower_bound e_key key es in if i < length es \<and> e_key (es ! i) = key then Some (es ! i) else None)"
proof (induction es)
  case (Cons e es)
  show ?case
  proof (cases "e_key e < key")
    case True
    with Cons show ?thesis by (auto simp: lower_bound_def Let_def)
  next
    case False
    with Cons.prems have "\<forall>x \<in> set es. e_key x \<noteq> key" by fastforce
    then have "lookup es key = None" by (simp add: lookup_None)
    with False show ?thesis by (simp add: lower_bound_def)
  qed
qed (simp add: lower_bound_def)

lemma binary_search_lookup:
  assumes "sorted_wrt (<) (map e_key es)"
  shows "(case binary_search_by (\<lambda>e. cmp (e_key e) key) (map uncommitted es) of Inr i \<Rightarrow> Some (map uncommitted es ! i) | Inl i \<Rightarrow> None) =
    map_option uncommitted (lookup es key)"
proof -
  have sorted: "sorted_wrt (\<lambda>x y. e_key x < e_key y) (map uncommitted es)"
    using assms by (simp add: sorted_wrt_map)
  have "lower_bound e_key key (map uncommitted es) = lower_bound e_key key es"
    by (simp add: lower_bound_def takeWhile_map comp_def)
  then show ?thesis
    using binary_search_by_lower_bound [OF sorted, of key] lookup_lower_bound [OF assms, of key]
    by (cases "lower_bound e_key key es < length es") (simp_all add: Let_def)
qed

text \<open>The block the index finds is the only one that can hold the key.\<close>

abbreviation last_key :: "DataBlock \<times> bytes \<Rightarrow> bytes" where
  "last_key bd \<equiv> e_key (last (db_entries (fst bd)))"

lemma sorted_le_last: "sorted_wrt (<) (map e_key es) \<Longrightarrow> e \<in> set es \<Longrightarrow> e_key e \<le> e_key (last es)"
proof -
  assume *: "sorted_wrt (<) (map e_key es)" "e \<in> set es"
  then obtain ys y where "es = ys @ [y]" by (metis append_butlast_last_id empty_iff empty_set)
  with * show ?thesis by (auto simp: sorted_wrt_append)
qed

lemma sorted_blocks:
  assumes "sorted_wrt (<) (map e_key (block_entries bds))" "\<forall>bd \<in> set bds. db_entries (fst bd) \<noteq> []"
  shows "sorted_wrt (\<lambda>x y. last_key x < last_key y) bds"
  using assms by (induction bds) (auto simp: sorted_wrt_append)

lemma find_block_correct:
  assumes "sorted_wrt (\<lambda>x y. last_key x < last_key y) bds"
  shows "find_block (index_of 0 bds) key =
    (let xs = takeWhile (\<lambda>bd. last_key bd < key) bds in
     if length xs < length bds then Some (snd (index_of 0 bds ! length xs)) else None)"
proof -
  have "sorted_wrt (<) (map fst (index_of 0 bds))" using assms by (simp add: index_of_keys sorted_wrt_map)
  then have sorted: "sorted_wrt (\<lambda>x y. fst x < fst y) (index_of 0 bds)" by (simp add: sorted_wrt_map)
  have "lower_bound fst key (index_of 0 bds) = length (takeWhile (\<lambda>k. k < key) (map fst (index_of 0 bds)))"
    by (simp add: lower_bound_def takeWhile_map comp_def)
  also have "\<dots> = length (takeWhile (\<lambda>bd. last_key bd < key) bds)"
    by (simp add: index_of_keys takeWhile_map comp_def)
  finally show ?thesis
    using binary_search_by_lower_bound [OF sorted, of key] by (simp add: find_block_def Let_def)
qed

lemma find_block_lookup:
  assumes "sorted_wrt (<) (map e_key (block_entries bds))" "\<forall>bd \<in> set bds. db_entries (fst bd) \<noteq> []"
  obtains (absent) "find_block (index_of 0 bds) key = None" "lookup (block_entries bds) key = None"
  | (block) xs b d ys where "bds = xs @ (b, d) # ys" "find_block (index_of 0 bds) key = Some (snd (index_of 0 bds ! length xs))"
      "lookup (block_entries bds) key = lookup (db_entries b) key" "sorted_wrt (<) (map e_key (db_entries b))"
proof -
  define xs where "xs = takeWhile (\<lambda>bd. last_key bd < key) bds"
  note found = find_block_correct [OF sorted_blocks [OF assms], of key, folded xs_def]
  have xs: "lookup (block_entries xs) key = None" if "sorted_wrt (<) (map e_key (block_entries xs))"
  proof -
    have "e_key e < key" if e: "bd \<in> set xs" "e \<in> set (db_entries (fst bd))" for bd e
    proof -
      have "sorted_wrt (<) (map e_key (db_entries (fst bd)))"
        using \<open>sorted_wrt (<) (map e_key (block_entries xs))\<close> e(1) by (induction xs) (auto simp: sorted_wrt_append)
      moreover have "last_key bd < key" using e(1) unfolding xs_def by (blast dest: set_takeWhileD)
      ultimately show ?thesis using sorted_le_last [OF _ e(2)] by fastforce
    qed
    then show ?thesis by (fastforce simp: lookup_None)
  qed
  show thesis
  proof (cases "dropWhile (\<lambda>bd. last_key bd < key) bds")
    case Nil
    then have "xs = bds" by (metis append_Nil2 takeWhile_dropWhile_id xs_def)
    with absent found xs assms(1) show thesis by (simp add: Let_def)
  next
    case (Cons bd ys)
    obtain b d where bd: "bd = (b, d)" by fastforce
    have bds: "bds = xs @ (b, d) # ys" using Cons bd takeWhile_dropWhile_id [of "\<lambda>bd. last_key bd < key" bds] by (simp add: xs_def)
    have ge: "key \<le> e_key (last (db_entries b))" using Cons bd by (auto simp: dropWhile_eq_Cons_conv)
    have sorted: "sorted_wrt (<) (map e_key (block_entries xs))" "sorted_wrt (<) (map e_key (db_entries b))"
      "\<forall>e \<in> set (db_entries b). \<forall>e' \<in> set (block_entries ys). e_key e < e_key e'"
      using assms(1) by (auto simp: bds sorted_wrt_append)
    have "last (db_entries b) \<in> set (db_entries b)" using assms(2) by (simp add: bds)
    with sorted(3) ge have "\<forall>e \<in> set (block_entries ys). e_key e \<noteq> key" by fastforce
    then have "lookup (block_entries ys) key = None" by (simp only: lookup_None)
    then have "lookup (block_entries bds) key = lookup (db_entries b) key"
      using xs [OF sorted(1)] by (simp add: bds lookup_append split: option.split)
    with block [OF bds _ _ sorted(2)] found show thesis by (simp add: bds Let_def)
  qed
qed

definition table_small :: "Entry list \<Rightarrow> bool" where
  "table_small es \<longleftrightarrow> list_all entry_small es \<and> length es < 2 ^ 32"

lemma table_parts:
  assumes "sst_ok H C alg entries bds bloom" "table_small entries"
  shows "\<forall>bd \<in> set bds. db_entries (fst bd) \<noteq> []" "list_all (\<lambda>e. length (fst e) < 2 ^ 64) (index_of 0 bds)"
    "bds = xs @ (b, d) # ys \<Longrightarrow> block_ok H C alg (b, d) \<and> list_all entry_small (db_entries b) \<and> length (db_entries b) < 2 ^ 32"
proof -
  have entries: "block_entries bds = entries" and blocks: "list_all (block_ok H C alg) bds" using assms(1) by (simp_all add: sst_ok_def)
  show ne: "\<forall>bd \<in> set bds. db_entries (fst bd) \<noteq> []" using blocks by (auto simp: list_all_iff block_ok_def)
  have "length (last_key bd) < 2 ^ 64" if "bd \<in> set bds" for bd
  proof -
    have "last (db_entries (fst bd)) \<in> set entries" using ne that entries by (auto intro!: bexI [of _ bd])
    with assms(2) show ?thesis by (auto simp: table_small_def list_all_iff entry_small_def)
  qed
  then have "\<forall>k \<in> set (map fst (index_of 0 bds)). length k < 2 ^ 64" unfolding index_of_keys by auto
  then show "list_all (\<lambda>e. length (fst e) < 2 ^ 64) (index_of 0 bds)" by (auto simp: list_all_iff)
  show "bds = xs @ (b, d) # ys \<Longrightarrow> block_ok H C alg (b, d) \<and> list_all entry_small (db_entries b) \<and> length (db_entries b) < 2 ^ 32"
    using blocks assms(2) entries by (auto simp: table_small_def list_all_iff)
qed

lemma read_table_parts:
  assumes "sst_ok H C alg entries bds bloom" "table_small entries"
    and "mem_buffer r = table_image H bds bloom" "length (mem_buffer r) < 2 ^ 63"
  obtains ft where "ft_checksum ft = 0"
    "\<And>r1. mem_buffer r1 = mem_buffer r \<Longrightarrow> \<exists>r2. read_footer r1 = (r2, Ok ft) \<and> mem_buffer r2 = mem_buffer r"
    "\<And>r1. mem_buffer r1 = mem_buffer r \<Longrightarrow>
      \<exists>r2. read_handle r1 (ft_meta_index ft) = (r2, Ok (BloomFilter_encode H bloom)) \<and> mem_buffer r2 = mem_buffer r"
    "\<And>r1. mem_buffer r1 = mem_buffer r \<Longrightarrow>
      \<exists>r2. read_handle r1 (ft_index ft) = (r2, Ok (IndexBlock_encode H (index_of 0 bds))) \<and> mem_buffer r2 = mem_buffer r"
proof -
  let ?bl = "BloomFilter_encode H bloom" and ?ix = "IndexBlock_encode H (index_of 0 bds)" and ?off = "length (block_data bds)"
  define ft where "ft = \<lparr>ft_meta_index = \<lparr>bh_offset = word_of_nat ?off, bh_size = word_of_nat (length ?bl)\<rparr>,
        ft_index = \<lparr>bh_offset = word_of_nat (?off + length ?bl), bh_size = word_of_nat (length ?ix)\<rparr>,
        ft_magic = MAGIC_NUMBER, ft_version = 1, ft_checksum = 0\<rparr>"
  have image: "mem_buffer r = block_data bds @ ?bl @ ?ix @ Footer_encode ft"
    using assms(3) by (simp add: table_image_def Let_def ft_def)
  show thesis
  proof (rule that [of ft])
    show "ft_checksum ft = 0" by (simp add: ft_def)
    fix r1 :: MemoryFile assume r1: "mem_buffer r1 = mem_buffer r"
    have footer: "mem_buffer r1 = (block_data bds @ ?bl @ ?ix) @ Footer_encode ft" using r1 image by simp
    have bloom: "mem_buffer r1 = block_data bds @ ?bl @ (?ix @ Footer_encode ft)" using r1 image by simp
    have index: "mem_buffer r1 = (block_data bds @ ?bl) @ ?ix @ Footer_encode ft" using r1 image by simp
    have len: "length (mem_buffer r1) < 2 ^ 63" using assms(4) r1 by simp
    show "\<exists>r2. read_footer r1 = (r2, Ok ft) \<and> mem_buffer r2 = mem_buffer r"
      using read_footer_correct [OF footer _ len] r1 by (auto simp: ft_def)
    show "\<exists>r2. read_handle r1 (ft_meta_index ft) = (r2, Ok ?bl) \<and> mem_buffer r2 = mem_buffer r"
      using read_handle_correct [OF bloom _ len, of "ft_meta_index ft"] r1 by (auto simp: ft_def)
    show "\<exists>r2. read_handle r1 (ft_index ft) = (r2, Ok ?ix) \<and> mem_buffer r2 = mem_buffer r"
      using read_handle_correct [OF index _ len, of "ft_index ft"] r1 by (auto simp: ft_def)
  qed
qed

text \<open>A lookup finds out from the Bloom filter and the index that the key is absent, or reads the one block that can hold it.\<close>

lemma SSTable_get_block:
  assumes ok: "sst_ok H C alg entries bds bloom" "table_small entries" "sorted_wrt (<) (map e_key entries)"
    and image: "mem_buffer r = table_image H bds bloom" "length (mem_buffer r) < 2 ^ 63"
  shows "snd (SSTable_get H C r key integrity) = Ok None \<and> lookup entries key = None \<or>
    (\<exists>xs b d ys. bds = xs @ (b, d) # ys \<and> sorted_wrt (<) (map e_key (db_entries b)) \<and> lookup entries key = lookup (db_entries b) key \<and>
       snd (SSTable_get H C r key integrity) = res_bind (DataBlock_decode H C d) (\<lambda>b.
         Ok (case binary_search_by (\<lambda>e. cmp (e_key e) key) (db_entries b) of Inr i \<Rightarrow> Some (db_entries b ! i) | Inl i \<Rightarrow> None)))"
proof -
  note parts = table_parts [OF ok(1,2)]
  have entries: "block_entries bds = entries" and bl: "bf_bits bloom \<noteq> []" "bf_hashes bloom < 256"
    "\<forall>e \<in> set entries. bloom_has bloom (e_key e)" using ok(1) by (simp_all add: sst_ok_def)
  obtain ft where ft: "ft_checksum ft = 0"
    "\<And>r1. mem_buffer r1 = mem_buffer r \<Longrightarrow> \<exists>r2. read_footer r1 = (r2, Ok ft) \<and> mem_buffer r2 = mem_buffer r"
    "\<And>r1. mem_buffer r1 = mem_buffer r \<Longrightarrow>
      \<exists>r2. read_handle r1 (ft_meta_index ft) = (r2, Ok (BloomFilter_encode H bloom)) \<and> mem_buffer r2 = mem_buffer r"
    "\<And>r1. mem_buffer r1 = mem_buffer r \<Longrightarrow>
      \<exists>r2. read_handle r1 (ft_index ft) = (r2, Ok (IndexBlock_encode H (index_of 0 bds))) \<and> mem_buffer r2 = mem_buffer r"
    using read_table_parts [OF ok(1,2) image] by blast
  from ft(2) [OF refl] obtain r1 where r1: "read_footer r = (r1, Ok ft)" "mem_buffer r1 = mem_buffer r" by blast
  from ft(3) [OF r1(2)] obtain r2 where r2: "read_handle r1 (ft_meta_index ft) = (r2, Ok (BloomFilter_encode H bloom))"
    "mem_buffer r2 = mem_buffer r" by blast
  from ft(4) [OF r2(2)] obtain r3 where r3: "read_handle r2 (ft_index ft) = (r3, Ok (IndexBlock_encode H (index_of 0 bds)))"
    "mem_buffer r3 = mem_buffer r" by blast
  have verify: "verify_file H integrity ft r1 = (r1, Ok ())" by (simp add: verify_file_def ft(1))
  have bloom: "res_bind (BloomFilter_decode H (BloomFilter_encode H bloom)) (\<lambda>f. may_contain f key) = Ok (bloom_has bloom key)"
    using bl by (simp add: BloomFilter_roundtrip may_contain_has)
  have start: "SSTable_get H C r key integrity =
    (if bloom_has bloom key then
       (case find_block (index_of 0 bds) key of
          None \<Rightarrow> (r3, Ok None)
        | Some h \<Rightarrow>
            and_then (read_handle r3 h) (\<lambda>r block_data. (r,
              res_bind (DataBlock_decode H C block_data) (\<lambda>b.
                Ok (case binary_search_by (\<lambda>e. cmp (e_key e) key) (db_entries b) of
                      Inr i \<Rightarrow> Some (db_entries b ! i) | Inl i \<Rightarrow> None)))))
     else (r2, Ok None))"
    using bloom by (cases "bloom_has bloom key")
      (simp_all add: SSTable_get_def r1(1) verify r2(1) r3(1) IndexBlock_roundtrip [OF parts(2)])
  have sorted: "sorted_wrt (<) (map e_key (block_entries bds))" using ok(3) entries by simp
  show ?thesis
  proof (cases "bloom_has bloom key")
    case False
    with bl(3) have "lookup entries key = None" by (auto simp: lookup_None)
    with False start show ?thesis by simp
  next
    case True
    from find_block_lookup [OF sorted parts(1), of key] show ?thesis
    proof cases
      case 1
      with True start entries show ?thesis by simp
    next
      case block: (2 xs b d ys)
      have "mem_buffer r3 = table_image H (xs @ (b, d) # ys) bloom" "length (mem_buffer r3) < 2 ^ 63"
        using r3(2) image block(1) by simp_all
      from read_block_correct [OF this] obtain r4 where
        "read_handle r3 (snd (index_of 0 bds ! length xs)) = (r4, Ok d)" using block(1) by metis
      with True start block entries show ?thesis by (intro disjI2 exI [of _ xs] exI [of _ b] exI [of _ d] exI [of _ ys]) simp
    qed
  qed
qed

lemma SSTable_get_cases:
  assumes "sst_ok H C alg entries bds bloom" "table_small entries" "sorted_wrt (<) (map e_key entries)" "lossless C"
    and "mem_buffer r = table_image H bds bloom" "length (mem_buffer r) < 2 ^ 63"
  shows "snd (SSTable_get H C r key integrity) = Ok (map_option uncommitted (lookup entries key)) \<or>
    snd (SSTable_get H C r key integrity) = Err lz4_failed \<and> (\<exists>bd \<in> set bds. \<not> restorable C alg (block_buffer (fst bd)))"
  using SSTable_get_block [OF assms(1-3,5,6), of key integrity]
proof
  assume "\<exists>xs b d ys. bds = xs @ (b, d) # ys \<and> sorted_wrt (<) (map e_key (db_entries b)) \<and> lookup entries key = lookup (db_entries b) key \<and>
       snd (SSTable_get H C r key integrity) = res_bind (DataBlock_decode H C d) (\<lambda>b.
         Ok (case binary_search_by (\<lambda>e. cmp (e_key e) key) (db_entries b) of Inr i \<Rightarrow> Some (db_entries b ! i) | Inl i \<Rightarrow> None))"
  then obtain xs b d ys where block: "bds = xs @ (b, d) # ys" "sorted_wrt (<) (map e_key (db_entries b))" "lookup entries key = lookup (db_entries b) key"
    "snd (SSTable_get H C r key integrity) = res_bind (DataBlock_decode H C d) (\<lambda>b.
         Ok (case binary_search_by (\<lambda>e. cmp (e_key e) key) (db_entries b) of Inr i \<Rightarrow> Some (db_entries b ! i) | Inl i \<Rightarrow> None))" by blast
  from table_parts(3) [OF assms(1,2) block(1)] have b: "block_ok H C alg (b, d)" "list_all entry_small (db_entries b)"
    "length (db_entries b) < 2 ^ 32" by auto
  from block_decode_cases [OF b(1) assms(4) b(2,3)] show ?thesis
  proof
    assume "DataBlock_decode H C d = Ok (b\<lparr>db_entries := map uncommitted (db_entries b)\<rparr>)"
    with block(3,4) binary_search_lookup [OF block(2), of key] show ?thesis by (simp cong: sum.case_cong)
  next
    assume "DataBlock_decode H C d = Err lz4_failed \<and> \<not> restorable C alg (block_buffer b)"
    with block(1,4) show ?thesis by auto
  qed
qed simp

lemma SSTable_get_correct:
  assumes "sst_ok H C alg entries bds bloom" "table_small entries" "sorted_wrt (<) (map e_key entries)" "lossless C"
    and "\<forall>b \<in> set (map fst bds). restorable C alg (block_buffer b)"
    and "mem_buffer r = table_image H bds bloom" "length (mem_buffer r) < 2 ^ 63"
  shows "snd (SSTable_get H C r key integrity) = Ok (map_option uncommitted (lookup entries key))"
  using SSTable_get_cases [OF assms(1-4,6,7), of key integrity] assms(5) by auto

section \<open>Iterating\<close>

text \<open>The loop \<open>for entry_result in iter\<close> of a caller that collects all entries.\<close>

lemma sst_next_progress:
  "sst_next H C it = (it', Some (Ok e)) \<Longrightarrow>
   it_index it' = it_index it \<and>
   (it_block_idx it < it_block_idx it' \<and> it_block_idx it' \<le> length (it_index it) \<or>
    it_block_idx it' = it_block_idx it \<and>
    (\<exists>b. it_block it = Some b \<and> it_block it' = Some b \<and> it_entry_idx it < length (db_entries b) \<and>
       it_entry_idx it' = it_entry_idx it + 1))"
proof (induction H C it rule: sst_next.induct)
  case (1 H C it)
  have load: "it_index it1 = it_index it" "loaded \<Longrightarrow> it_block_idx it1 = it_block_idx it + 1 \<and> it_block_idx it1 \<le> length (it_index it)"
    if "load_next_block H C it = (it1, Ok loaded)" for it1 loaded
    using that by (auto simp: load_next_block_def split: if_splits prod.splits sum.splits)
  show ?case
  proof (cases "\<exists>b. it_block it = Some b \<and> it_entry_idx it < length (db_entries b)")
    case True
    with "1.prems" show ?thesis by (auto simp: sst_next.simps [of H C it])
  next
    case False
    then have step: "sst_next H C it = (case load_next_block H C it of
        (it', Inl f) \<Rightarrow> (it', Some (Inl f))
      | (it', Inr loaded) \<Rightarrow> if loaded then sst_next H C it' else (it', None))"
      by (subst sst_next.simps) (auto split: option.split)
    with "1.prems" obtain it1 where it1: "load_next_block H C it = (it1, Ok True)" "sst_next H C it1 = (it', Some (Ok e))"
      by (auto split: prod.splits sum.splits if_splits)
    have "it_index it' = it_index it1 \<and> it_block_idx it1 \<le> it_block_idx it' \<and> it_block_idx it' \<le> length (it_index it)"
      using "1.IH" it1 False load [OF it1(1)] by (cases "it_block it") fastforce+
    with load [OF it1(1)] show ?thesis by auto
  qed
qed

function collect_entries :: "hash_lib \<Rightarrow> codec_lib \<Rightarrow> SSTableIterator \<Rightarrow> (io_error, Entry list) res" where
  "collect_entries H C it =
     (case sst_next H C it of
        (it', None) \<Rightarrow> Ok []
      | (it', Some (Inl f)) \<Rightarrow> Inl f
      | (it', Some (Inr e)) \<Rightarrow> res_bind (collect_entries H C it') (\<lambda>es. Ok (e # es)))"
  by pat_completeness auto
termination
  by (relation "(\<lambda>(H, C, it). length (it_index it) - it_block_idx it) <*mlex*>
        measure (\<lambda>(H, C, it). case it_block it of None \<Rightarrow> 0 | Some b \<Rightarrow> length (db_entries b) - it_entry_idx it)")
     (auto simp: mlex_iff wf_mlex dest!: sst_next_progress [OF sym])

declare collect_entries.simps [simp del]

definition it_rest :: "SSTableIterator \<Rightarrow> Entry list" where
  "it_rest it = (case it_block it of None \<Rightarrow> [] | Some b \<Rightarrow> drop (it_entry_idx it) (db_entries b))"

definition it_at :: "hash_lib \<Rightarrow> (DataBlock \<times> bytes) list \<Rightarrow> BloomFilter \<Rightarrow> (DataBlock \<times> bytes) list \<Rightarrow> SSTableIterator \<Rightarrow> bool" where
  "it_at H bds bloom xs it \<longleftrightarrow>
     mem_buffer (it_reader it) = table_image H bds bloom \<and> it_index it = index_of 0 bds \<and> it_block_idx it = length xs"

lemma sst_next_rest:
  "it_rest it = e # es \<Longrightarrow>
   sst_next H C it = (it\<lparr>it_entry_idx := it_entry_idx it + 1\<rparr>, Some (Ok e)) \<and>
   it_rest (it\<lparr>it_entry_idx := it_entry_idx it + 1\<rparr>) = es"
proof -
  assume rest: "it_rest it = e # es"
  then obtain b where b: "it_block it = Some b" "drop (it_entry_idx it) (db_entries b) = e # es"
    by (auto simp: it_rest_def split: option.splits)
  then have "it_entry_idx it < length (db_entries b)" "db_entries b ! it_entry_idx it = e" "drop (Suc (it_entry_idx it)) (db_entries b) = es"
    by (metis drop_eq_Nil list.distinct(1) not_less, metis hd_drop_conv_nth drop_eq_Nil list.distinct(1) list.sel(1) not_less,
        metis drop_Suc tl_drop list.sel(3))
  with b show ?thesis by (subst sst_next.simps) (simp add: it_rest_def)
qed

lemma sst_next_load:
  assumes "it_rest it = []"
  shows "sst_next H C it = (case load_next_block H C it of
      (it', Inl f) \<Rightarrow> (it', Some (Inl f))
    | (it', Inr loaded) \<Rightarrow> if loaded then sst_next H C it' else (it', None))"
  using assms by (subst sst_next.simps) (auto simp: it_rest_def split: option.splits)

lemma load_block_correct:
  assumes ok: "sst_ok H C alg entries bds bloom" "table_small entries" "lossless C"
    and len: "length (table_image H bds bloom) < 2 ^ 63"
    and at: "it_at H bds bloom xs it" "bds = xs @ (b, d) # ys"
  shows "(\<exists>it'. load_next_block H C it = (it', Ok True) \<and> it_at H bds bloom (xs @ [(b, d)]) it' \<and>
      it_rest it' = map uncommitted (db_entries b)) \<or>
    (\<exists>it'. load_next_block H C it = (it', Err lz4_failed)) \<and> \<not> restorable C alg (block_buffer b)"
proof -
  from table_parts(3) [OF ok(1,2) at(2)] have b: "block_ok H C alg (b, d)" "list_all entry_small (db_entries b)"
    "length (db_entries b) < 2 ^ 32" by auto
  have "mem_buffer (it_reader it) = table_image H (xs @ (b, d) # ys) bloom" "length (mem_buffer (it_reader it)) < 2 ^ 63"
    using at len by (simp_all add: it_at_def)
  from read_block_correct [OF this] obtain r where
    r: "read_handle (it_reader it) (snd (index_of 0 bds ! length xs)) = (r, Ok d)" "mem_buffer r = mem_buffer (it_reader it)"
    using at(2) by metis
  from block_decode_cases [OF b(1) ok(3) b(2,3)] show ?thesis
  proof
    assume dec: "DataBlock_decode H C d = Ok (b\<lparr>db_entries := map uncommitted (db_entries b)\<rparr>)"
    define it' where "it' = it\<lparr>it_reader := r, it_block := Some (b\<lparr>db_entries := map uncommitted (db_entries b)\<rparr>),
      it_entry_idx := 0, it_block_idx := it_block_idx it + 1\<rparr>"
    have "load_next_block H C it = (it', Ok True)" using at r(1) dec by (simp add: load_next_block_def it_at_def it'_def)
    moreover have "it_at H bds bloom (xs @ [(b, d)]) it'" using at(1) r(2) by (simp add: it_at_def it'_def)
    moreover have "it_rest it' = map uncommitted (db_entries b)" by (simp add: it_rest_def it'_def)
    ultimately show ?thesis by blast
  next
    assume dec: "DataBlock_decode H C d = Err lz4_failed \<and> \<not> restorable C alg (block_buffer b)"
    then have "load_next_block H C it = (it\<lparr>it_reader := r\<rparr>, Err lz4_failed)"
      using at r(1) by (simp add: load_next_block_def it_at_def)
    with dec show ?thesis by blast
  qed
qed

lemma collect_correct:
  assumes ok: "sst_ok H C alg entries bds bloom" "table_small entries" "lossless C"
    and len: "length (table_image H bds bloom) < 2 ^ 63"
  shows "it_at H bds bloom xs it \<Longrightarrow> bds = xs @ ys \<Longrightarrow> zs = it_rest it @ map uncommitted (block_entries ys) \<Longrightarrow>
    collect_entries H C it = Ok zs \<or>
    collect_entries H C it = Err lz4_failed \<and> (\<exists>bd \<in> set ys. \<not> restorable C alg (block_buffer (fst bd)))"
proof (induction zs arbitrary: it xs ys)
  case Nil
  have "ys = []" using Nil.prems(2,3) table_parts(1) [OF ok(1,2)] by (cases ys) auto
  then have "load_next_block H C it = (it, Ok False)"
    using Nil.prems(1,2) by (simp add: load_next_block_def it_at_def)
  moreover have "it_rest it = []" using Nil.prems(3) by simp
  ultimately show ?case by (subst collect_entries.simps) (simp add: sst_next_load)
next
  case (Cons z zs)
  have step: "collect_entries H C it = Ok (z # zs) \<or>
      collect_entries H C it = Err lz4_failed \<and> (\<exists>bd \<in> set ys. \<not> restorable C alg (block_buffer (fst bd)))"
    if at: "it_at H bds bloom xs it" "bds = xs @ ys" and rest: "it_rest it = z # es" "zs = es @ map uncommitted (block_entries ys)"
    for it xs ys es
  proof -
    let ?it = "it\<lparr>it_entry_idx := it_entry_idx it + 1\<rparr>"
    have "it_at H bds bloom xs ?it" using at(1) by (simp add: it_at_def)
    from Cons.IH [OF this at(2)] sst_next_rest [OF rest(1), of H C] rest(2) show ?thesis
      by (subst (1 2) collect_entries.simps) auto
  qed
  show ?case
  proof (cases "it_rest it")
    case (Cons e es)
    with step [OF Cons.prems(1,2)] Cons.prems(3) show ?thesis by simp
  next
    case Nil
    with Cons.prems(3) obtain b d ys' where ys: "ys = (b, d) # ys'" by (cases ys) auto
    with Cons.prems(2) have bds: "bds = xs @ (b, d) # ys'" by simp
    from load_block_correct [OF ok len Cons.prems(1) bds] show ?thesis
    proof
      assume "\<exists>it'. load_next_block H C it = (it', Ok True) \<and> it_at H bds bloom (xs @ [(b, d)]) it' \<and>
        it_rest it' = map uncommitted (db_entries b)"
      then obtain it1 where it1: "load_next_block H C it = (it1, Ok True)" "it_at H bds bloom (xs @ [(b, d)]) it1"
        "it_rest it1 = map uncommitted (db_entries b)" by blast
      have "sst_next H C it = sst_next H C it1" using it1(1) by (simp add: sst_next_load [OF Nil])
      then have "collect_entries H C it = collect_entries H C it1"
        by (subst (1 2) collect_entries.simps) simp
      moreover have "db_entries b \<noteq> []" using table_parts(1) [OF ok(1,2)] bds by auto
      then obtain e es where "db_entries b = e # es" by (cases "db_entries b") auto
      ultimately show ?thesis
        using step [OF it1(2), of ys'] it1(3) bds Cons.prems(3) Nil ys by auto
    next
      assume "(\<exists>it'. load_next_block H C it = (it', Err lz4_failed)) \<and> \<not> restorable C alg (block_buffer b)"
      then have "collect_entries H C it = Err lz4_failed" "\<not> restorable C alg (block_buffer b)"
        by (subst collect_entries.simps, auto simp: sst_next_load [OF Nil])
      with ys show ?thesis by simp
    qed
  qed
qed

lemma SSTable_iter_cases:
  assumes ok: "sst_ok H C alg entries bds bloom" "table_small entries" "lossless C"
    and image: "mem_buffer r = table_image H bds bloom" "length (mem_buffer r) < 2 ^ 63"
  shows "res_bind (SSTable_iter H r) (collect_entries H C) = Ok (map uncommitted entries) \<or>
    res_bind (SSTable_iter H r) (collect_entries H C) = Err lz4_failed \<and> (\<exists>bd \<in> set bds. \<not> restorable C alg (block_buffer (fst bd)))"
proof -
  obtain ft where ft: "ft_checksum ft = 0"
    "\<And>r1. mem_buffer r1 = mem_buffer r \<Longrightarrow> \<exists>r2. read_footer r1 = (r2, Ok ft) \<and> mem_buffer r2 = mem_buffer r"
    "\<And>r1. mem_buffer r1 = mem_buffer r \<Longrightarrow>
      \<exists>r2. read_handle r1 (ft_meta_index ft) = (r2, Ok (BloomFilter_encode H bloom)) \<and> mem_buffer r2 = mem_buffer r"
    "\<And>r1. mem_buffer r1 = mem_buffer r \<Longrightarrow>
      \<exists>r2. read_handle r1 (ft_index ft) = (r2, Ok (IndexBlock_encode H (index_of 0 bds))) \<and> mem_buffer r2 = mem_buffer r"
    using read_table_parts [OF ok(1,2) image] by blast
  from ft(2) [OF refl] obtain r1 where r1: "read_footer r = (r1, Ok ft)" "mem_buffer r1 = mem_buffer r" by blast
  from ft(4) [OF r1(2)] obtain r2 where r2: "read_handle r1 (ft_index ft) = (r2, Ok (IndexBlock_encode H (index_of 0 bds)))"
    "mem_buffer r2 = mem_buffer r" by blast
  define it where "it = \<lparr>it_reader = r2, it_index = index_of 0 bds, it_block_idx = 0, it_block = None, it_entry_idx = 0\<rparr>"
  have "SSTable_iter H r = Ok it"
    by (simp add: SSTable_iter_def r1(1) r2(1) IndexBlock_roundtrip [OF table_parts(2) [OF ok(1,2)]] it_def)
  moreover have "it_at H bds bloom [] it" "it_rest it = []" using r2(2) image(1) by (simp_all add: it_at_def it_def it_rest_def)
  then have "collect_entries H C it = Ok (map uncommitted (block_entries bds)) \<or>
      collect_entries H C it = Err lz4_failed \<and> (\<exists>bd \<in> set bds. \<not> restorable C alg (block_buffer (fst bd)))"
    using collect_correct [OF ok, of "[]" it bds] image by simp
  ultimately show ?thesis using ok(1) by (simp add: sst_ok_def)
qed

section \<open>Files that hold a table\<close>

text \<open>What the rest of the engine needs to know of a file: it holds a table of these entries.\<close>

definition is_table :: "hash_lib \<Rightarrow> codec_lib \<Rightarrow> bytes \<Rightarrow> Entry list \<Rightarrow> bool" where
  "is_table H C d es \<longleftrightarrow> (\<exists>alg bds bloom. sst_ok H C alg es bds bloom \<and> table_small es \<and>
     sorted_wrt (<) (map e_key es) \<and> es \<noteq> [] \<and> d = table_image H bds bloom \<and> length d < 2 ^ 63)"

text \<open>A file is readable if \<open>decompress\<close> can restore its blocks.\<close>

definition is_readable :: "hash_lib \<Rightarrow> codec_lib \<Rightarrow> bytes \<Rightarrow> Entry list \<Rightarrow> bool" where
  "is_readable H C d es \<longleftrightarrow> (\<exists>alg bds bloom. sst_ok H C alg es bds bloom \<and> table_small es \<and>
     sorted_wrt (<) (map e_key es) \<and> d = table_image H bds bloom \<and> length d < 2 ^ 63 \<and>
     (\<forall>b \<in> set (map fst bds). restorable C alg (block_buffer b)))"

lemma is_readable_get:
  assumes "is_readable H C d es" "lossless C"
  shows "snd (SSTable_get H C \<lparr>mem_buffer = d, mem_cursor = c\<rparr> key integrity) = Ok (map_option uncommitted (lookup es key))"
  using assms SSTable_get_correct [of H C _ es _ _ "\<lparr>mem_buffer = d, mem_cursor = c\<rparr>" key integrity]
  by (auto simp: is_readable_def)

lemma is_table_get:
  assumes "is_table H C d es" "lossless C"
  shows "snd (SSTable_get H C \<lparr>mem_buffer = d, mem_cursor = c\<rparr> key integrity) = Ok (map_option uncommitted (lookup es key)) \<or>
    snd (SSTable_get H C \<lparr>mem_buffer = d, mem_cursor = c\<rparr> key integrity) = Err lz4_failed"
proof -
  obtain alg bds bloom where "sst_ok H C alg es bds bloom" "table_small es" "sorted_wrt (<) (map e_key es)"
    "mem_buffer \<lparr>mem_buffer = d, mem_cursor = c\<rparr> = table_image H bds bloom" "length (mem_buffer \<lparr>mem_buffer = d, mem_cursor = c\<rparr>) < 2 ^ 63"
    using assms(1) by (auto simp: is_table_def)
  from SSTable_get_cases [OF this(1-3) assms(2) this(4,5), of key integrity] show ?thesis by blast
qed

lemma is_table_entries:
  assumes "is_table H C d es" "lossless C" "res_bind (SSTable_iter H \<lparr>mem_buffer = d, mem_cursor = c\<rparr>) (collect_entries H C) = Ok zs"
  shows "zs = map uncommitted es"
proof -
  obtain alg bds bloom where "sst_ok H C alg es bds bloom" "table_small es" "d = table_image H bds bloom" "length d < 2 ^ 63"
    using assms(1) by (auto simp: is_table_def)
  then show ?thesis using assms(2,3) SSTable_iter_cases [of H C alg es bds bloom "\<lparr>mem_buffer = d, mem_cursor = c\<rparr>"] by auto
qed

lemma is_table_create:
  assumes "SSTable_create H C now empty_file es fno level bs alg = (f, Ok meta)" "table_small es"
    and "sorted_wrt (<) (map e_key es)" "length (mem_buffer f) < 2 ^ 63"
  shows "is_table H C (mem_buffer f) es" "\<forall>b \<in> set (blocks_of bs es). restorable C alg (block_buffer b) \<Longrightarrow> is_readable H C (mem_buffer f) es"
    "sm_file_number meta = fno" "sm_min_key meta = e_key (hd es)"
    "sm_max_key meta = e_key (last es)"
proof -
  have "length es < 2 ^ 32" using assms(2) by (simp add: table_small_def)
  from SSTable_create_correct [OF assms(1) this] obtain bds bloom where
    b: "sst_ok H C alg es bds bloom" "mem_buffer f = table_image H bds bloom" "sm_file_number meta = fno"
      "sm_min_key meta = e_key (hd es)" "sm_max_key meta = e_key (last es)" "es \<noteq> []" "map fst bds = blocks_of bs es" .
  then show "is_table H C (mem_buffer f) es" using assms by (auto simp: is_table_def)
  show "is_readable H C (mem_buffer f) es" if "\<forall>b \<in> set (blocks_of bs es). restorable C alg (block_buffer b)"
    unfolding is_readable_def using assms b(1,2) that
    by (intro exI [of _ alg] exI [of _ bds] exI [of _ bloom]) (simp add: b(7) del: set_map)
  show "sm_file_number meta = fno" "sm_min_key meta = e_key (hd es)" "sm_max_key meta = e_key (last es)" by (fact b)+
qed

section \<open>Overfull blocks\<close>

lemma sorted_blocks_unique:
  assumes "sorted_wrt (<) (map e_key (block_entries (xs @ bd # ys)))" "bd' \<in> set (xs @ bd # ys)"
    and "e \<in> set (db_entries (fst bd))" "e' \<in> set (db_entries (fst bd'))" "e_key e = e_key e'"
  shows "bd' = bd"
proof -
  have "e_key a < e_key e" if "a \<in> set (block_entries xs)" for a using assms(1,3) that by (auto simp: sorted_wrt_append)
  moreover have "e_key e < e_key a" if "a \<in> set (block_entries ys)" for a using assms(1,3) that by (auto simp: sorted_wrt_append)
  ultimately show ?thesis using assms(2,4,5) by fastforce
qed

lemma SSTable_get_overfull:
  assumes ok: "sst_ok H C Lz4 entries bds bloom" "table_small entries" "sorted_wrt (<) (map e_key entries)" "lossless C"
    and image: "mem_buffer r = table_image H bds bloom" "length (mem_buffer r) < 2 ^ 63"
    and b: "b \<in> set (map fst bds)" "e \<in> set (db_entries b)"
    and y: "lz4_compress C (block_buffer b) = Some y" "4 * length y < length (block_buffer b)"
  shows "snd (SSTable_get H C r (e_key e) integrity) = Err lz4_failed"
proof -
  obtain d where d: "(b, d) \<in> set bds" using b(1) by auto
  have entries: "block_entries bds = entries" using ok(1) by (simp add: sst_ok_def)
  then have e: "e \<in> set entries" using d b(2) by force
  then have "lookup entries (e_key e) \<noteq> None" by (auto simp: lookup_None)
  with SSTable_get_block [OF ok(1-3) image, of "e_key e" integrity] obtain xs b' d' ys where
    block: "bds = xs @ (b', d') # ys" "lookup entries (e_key e) = lookup (db_entries b') (e_key e)"
      "snd (SSTable_get H C r (e_key e) integrity) = res_bind (DataBlock_decode H C d') (\<lambda>b.
         Ok (case binary_search_by (\<lambda>x. cmp (e_key x) (e_key e)) (db_entries b) of Inr i \<Rightarrow> Some (db_entries b ! i) | Inl i \<Rightarrow> None))"
    by blast
  obtain e' where "e' \<in> set (db_entries b')" "e_key e' = e_key e"
    using block(2) \<open>lookup entries (e_key e) \<noteq> None\<close> by (auto simp: lookup_None)
  with sorted_blocks_unique [of xs "(b', d')" ys "(b, d)" e' e] d block(1) ok(3) b(2) entries have "(b, d) = (b', d')" by auto
  with table_parts(3) [OF ok(1,2) block(1)] have "block_ok H C Lz4 (b, d')" "list_all entry_small (db_entries b)" "length (db_entries b) < 2 ^ 32"
    by auto
  then have "DataBlock_decode H C d' = Err lz4_failed"
    by (intro DataBlock_overfull [OF _ ok(4) y]) (auto simp: block_ok_def)
  with block(3) show ?thesis by simp
qed

section \<open>Properties\<close>

text \<open>
  C18: Writing a table succeeds, and a lookup in it returns exactly the entry written for the key, or nothing if there is none: for
  entries in key order, whatever the block size and the compression, the Bloom filter, the index, the
  block decoder and both binary searches lose no key. Only the commit timestamp is not kept. The condition
  is that every block can be compressed and is restored without its size being known: with LZ4, that it
  does not shrink to less than a quarter.
\<close>

theorem sstable_get_exact:
  assumes "lossless C" "\<forall>b \<in> set (blocks_of block_size entries). restorable C alg (block_buffer b)"
    and "entries \<noteq> []" "sorted_wrt (<) (map e_key entries)" "table_small entries"
  shows "\<exists>f meta. SSTable_create H C now empty_file entries fno level block_size alg = (f, Ok meta) \<and>
    (length (mem_buffer f) < 2 ^ 63 \<longrightarrow> (\<forall>key integrity.
       snd (SSTable_get H C f key integrity) = Ok (map_option uncommitted (find (\<lambda>e. e_key e = key) entries))))"
proof -
  have len: "length entries < 2 ^ 32" using assms(5) by (simp add: table_small_def)
  have "\<forall>b \<in> set (blocks_of block_size entries). compressible C alg b"
    using assms(2) by (fastforce simp: restorable_def split: sum.splits)
  from SSTable_create_total [OF this assms(3) len] obtain f meta where
    f: "SSTable_create H C now empty_file entries fno level block_size alg = (f, Ok meta)" .
  from SSTable_create_correct [OF f len] obtain bds bloom where
    t: "sst_ok H C alg entries bds bloom" "mem_buffer f = table_image H bds bloom" "map fst bds = blocks_of block_size entries" by blast
  from SSTable_get_correct [OF t(1) assms(5,4,1) _ t(2)] f assms(2) t(3) show ?thesis by simp
qed


text \<open>
  C32: A block that LZ4 shrinks to less than a quarter cannot be read back: looking up any key of the block
  in the finished table reports an error. Writing the table reports none.
\<close>

theorem lz4_overfull_unreadable:
  assumes "SSTable_create H C now empty_file entries fno level block_size Lz4 = (f, Ok meta)" "lossless C"
    and "table_small entries" "sorted_wrt (<) (map e_key entries)" "length (mem_buffer f) < 2 ^ 63"
    and "b \<in> set (blocks_of block_size entries)" "e \<in> set (db_entries b)"
    and "lz4_compress C (block_buffer b) = Some y" "4 * length y < length (block_buffer b)"
  shows "snd (SSTable_get H C f (e_key e) integrity) = Err (IoOther ''Decompression error: LZ4 decompression failed'')"
proof -
  have "length entries < 2 ^ 32" using assms(3) by (simp add: table_small_def)
  from SSTable_create_correct [OF assms(1) this] obtain bds bloom where
    t: "sst_ok H C Lz4 entries bds bloom" "mem_buffer f = table_image H bds bloom" "map fst bds = blocks_of block_size entries" by blast
  from SSTable_get_overfull [OF t(1) assms(3,4,2) t(2) assms(5) _ assms(7,8,9)] assms(6) t(3) show ?thesis by simp
qed

section \<open>Examples\<close>

definition demo_codec :: codec_lib where
  "demo_codec = \<lparr>lz4_compress = (\<lambda>x. Some (rev x)), lz4_decompress = (\<lambda>y n. if int (length y) \<le> n then Some (rev y) else None),
     zstd_encode_all = (\<lambda>x. Some (rev x)), zstd_decode_all = (\<lambda>y. Some (rev y)),
     snap_compress_vec = (\<lambda>x. Some (rev x)), snap_decompress_vec = (\<lambda>y. Some (rev y))\<rparr>"

definition demo_entries :: "Entry list" where
  "demo_entries = [Entry_new [1] (Some [7, 7]) 4, Entry_new [1, 2] None 5, Entry_new [3] (Some []) 6]"

lemma demo_codec_ok: "lossless demo_codec" "compresses demo_codec alg" "length x \<le> 1000 \<Longrightarrow> restorable demo_codec alg x"
proof -
  show "lossless demo_codec" by (auto simp: lossless_def demo_codec_def)
  show "compresses demo_codec alg" by (cases alg) (simp_all add: compresses_def demo_codec_def)
  show "length x \<le> 1000 \<Longrightarrow> restorable demo_codec alg x"
    by (cases alg) (simp_all add: restorable_def demo_codec_def LZ4_MAX_INPUT_SIZE_def)
qed

text \<open>A check on the parts of a table by which its whole length is far below the limit.\<close>

definition short_parts :: "hash_lib \<Rightarrow> codec_lib \<Rightarrow> CompressionAlgorithm \<Rightarrow> nat \<Rightarrow> Entry list \<Rightarrow> bool" where
  "short_parts H C alg bs entries \<longleftrightarrow>
     (let w = fst (write_blocks H C alg bs entries DataBlock_new 0 \<lparr>tw_file = empty_file, tw_index = [], tw_offset = 0\<rparr>) in
      (case bloom_of entries (BloomFilter_new (length entries) 10) of Inr b \<Rightarrow> length (bf_bits b) \<le> 200 | Inl _ \<Rightarrow> False) \<and>
      mem_cursor (tw_file w) = length (mem_buffer (tw_file w)) \<and> length (mem_buffer (tw_file w)) \<le> 200 \<and>
      length (IndexBlock_encode H (tw_index w)) \<le> 200)"

lemma short_parts_length:
  assumes "short_parts H C alg bs entries" "SSTable_create H C now empty_file entries fno level bs alg = (f, Ok meta)"
  shows "length (mem_buffer f) < 2 ^ 63"
  using assms by (auto simp: short_parts_def SSTable_create_def Let_def BloomFilter_encode_def with_crc_def
      mem_write_def Footer_encode_def split: sum.splits prod.splits if_splits)

lemma demo_table:
  "\<forall>b \<in> set (blocks_of 30 demo_entries). restorable demo_codec Lz4 (block_buffer b)"
  "demo_entries \<noteq> []" "sorted_wrt (<) (map e_key demo_entries)" "table_small demo_entries"
  "SSTable_create zero_hash demo_codec 0 empty_file demo_entries 1 0 30 Lz4 =
     (fst (SSTable_create zero_hash demo_codec 0 empty_file demo_entries 1 0 30 Lz4),
      Ok (projr (snd (SSTable_create zero_hash demo_codec 0 empty_file demo_entries 1 0 30 Lz4))))"
  "length (mem_buffer (fst (SSTable_create zero_hash demo_codec 0 empty_file demo_entries 1 0 30 Lz4))) < 2 ^ 63"
proof -
  have "list_all (\<lambda>b. length (block_buffer b) \<le> 1000) (blocks_of 30 demo_entries)" by code_simp
  then show fits: "\<forall>b \<in> set (blocks_of 30 demo_entries). restorable demo_codec Lz4 (block_buffer b)"
    using demo_codec_ok(3) by (auto simp: list_all_iff)
  show "sorted_wrt (<) (map e_key demo_entries)" by code_simp
  show "table_small demo_entries" by (simp add: table_small_def demo_entries_def entry_small_def Entry_new_def)
  show ne: "demo_entries \<noteq> []" by (simp add: demo_entries_def)
  have "length demo_entries < 2 ^ 32" by (simp add: demo_entries_def)
  from SSTable_create_total [OF compresses_total [OF demo_codec_ok(2)] ne this] obtain f meta where
    f: "SSTable_create zero_hash demo_codec 0 empty_file demo_entries 1 0 30 Lz4 = (f, Ok meta)" .
  then show "SSTable_create zero_hash demo_codec 0 empty_file demo_entries 1 0 30 Lz4 =
     (fst (SSTable_create zero_hash demo_codec 0 empty_file demo_entries 1 0 30 Lz4),
      Ok (projr (snd (SSTable_create zero_hash demo_codec 0 empty_file demo_entries 1 0 30 Lz4))))" by simp
  have "short_parts zero_hash demo_codec Lz4 30 demo_entries" by code_simp
  from short_parts_length [OF this f] f
  show "length (mem_buffer (fst (SSTable_create zero_hash demo_codec 0 empty_file demo_entries 1 0 30 Lz4))) < 2 ^ 63" by simp
qed

theorem sstable_get_exact_witness:
  "let f = fst (SSTable_create zero_hash demo_codec 0 empty_file demo_entries 1 0 30 Lz4) in
   snd (SSTable_get zero_hash demo_codec f [1, 2] Crc32c) = Ok (Some (Entry_new [1, 2] None 5)) \<and>
   snd (SSTable_get zero_hash demo_codec f [2] Crc32c) = Ok None"
proof -
  let ?f = "fst (SSTable_create zero_hash demo_codec 0 empty_file demo_entries 1 0 30 Lz4)"
  have "snd (SSTable_get zero_hash demo_codec ?f key integrity) =
    Ok (map_option uncommitted (find (\<lambda>e. e_key e = key) demo_entries))" for key integrity
    using sstable_get_exact [OF demo_codec_ok(1) demo_table(1-4), of zero_hash 0 1 0] demo_table(6) by auto
  then show ?thesis by (simp add: demo_entries_def Entry_new_def uncommitted_def)
qed


text \<open>A codec that squeezes one given string to nothing.\<close>

definition squeeze_codec :: "bytes \<Rightarrow> codec_lib" where
  "squeeze_codec w = demo_codec\<lparr>lz4_compress := (\<lambda>x. Some (if x = w then [] else 0 # x)),
     lz4_decompress := (\<lambda>y n. let x = (if y = [] then w else tl y) in if int (length x) \<le> n then Some x else None)\<rparr>"

definition squeeze_entries :: "Entry list" where
  "squeeze_entries = [Entry_new [1] (Some [7, 7, 7, 7]) 4]"

definition squeeze_lib :: codec_lib where
  "squeeze_lib = squeeze_codec (block_buffer (hd (blocks_of 30 squeeze_entries)))"

lemma squeeze_codec_ok: "lossless (squeeze_codec w)" "compresses (squeeze_codec w) alg"
proof -
  show "lossless (squeeze_codec w)" by (auto simp: lossless_def squeeze_codec_def demo_codec_def Let_def)
  show "compresses (squeeze_codec w) alg" by (cases alg) (simp_all add: compresses_def squeeze_codec_def demo_codec_def)
qed

theorem lz4_overfull_unreadable_witness:
  "\<exists>f meta. SSTable_create zero_hash squeeze_lib 0 empty_file squeeze_entries 1 0 30 Lz4 = (f, Ok meta) \<and>
     snd (SSTable_get zero_hash squeeze_lib f [1] Crc32c) = Err (IoOther ''Decompression error: LZ4 decompression failed'')"
proof -
  let ?b = "hd (blocks_of 30 squeeze_entries)"
  note ok = squeeze_codec_ok [of "block_buffer ?b", folded squeeze_lib_def]
  have ne: "squeeze_entries \<noteq> []" "length squeeze_entries < 2 ^ 32" by (simp_all add: squeeze_entries_def)
  from SSTable_create_total [OF compresses_total [OF ok(2)] ne] obtain f meta where
    f: "SSTable_create zero_hash squeeze_lib 0 empty_file squeeze_entries 1 0 30 Lz4 = (f, Ok meta)" .
  have "short_parts zero_hash squeeze_lib Lz4 30 squeeze_entries" by code_simp
  note len = short_parts_length [OF this f]
  have b: "?b \<in> set (blocks_of 30 squeeze_entries)" "Entry_new [1] (Some [7, 7, 7, 7]) 4 \<in> set (db_entries ?b)" by code_simp+
  have y: "lz4_compress squeeze_lib (block_buffer ?b) = Some []" "4 * length ([] :: bytes) < length (block_buffer ?b)" by code_simp+
  have "table_small squeeze_entries" "sorted_wrt (<) (map e_key squeeze_entries)"
    by (simp_all add: table_small_def squeeze_entries_def entry_small_def Entry_new_def)
  from lz4_overfull_unreadable [OF f ok(1) this len b y, of Crc32c] f show ?thesis by (simp add: Entry_new_def)
qed

end
