(* ===== verification/Lsm_Compaction.thy ===== *)
theory Lsm_Compaction
  imports Lsm_Table Kvt_Error "HOL-Library.Multiset"
begin

text \<open>
  Compaction, \<open>nanograph-lsm/src/compaction.rs\<close>: which tables are merged, the merge through a heap, the
  removal of duplicates and tombstones, and writing the result. Files are a map from file numbers to
  contents; a \<open>BinaryHeap\<close> is a list from which the greatest element is taken. Sizes are 64-bit words
  that wrap, as in a release build.
\<close>

section \<open>Strategy\<close>

record CompactionTask =
  ct_source_level :: nat
  ct_target_level :: nat
  ct_source :: "SSTableMetadata list"
  ct_target :: "SSTableMetadata list"

record CompactionStrategy =
  cs_level_size_multiplier :: u64
  cs_max_level :: nat
  cs_level0_trigger :: nat

definition CompactionStrategy_default :: CompactionStrategy where
  "CompactionStrategy_default = \<lparr>cs_level_size_multiplier = 10, cs_max_level = 7, cs_level0_trigger = 4\<rparr>"

definition target_size :: "CompactionStrategy \<Rightarrow> nat \<Rightarrow> u64 \<Rightarrow> u64" where
  "target_size s level base_size = (if level = 0 then 0 else base_size * cs_level_size_multiplier s ^ level)"

definition find_overlapping_sstables :: "SSTableMetadata list \<Rightarrow> SSTableMetadata list \<Rightarrow> SSTableMetadata list" where
  "find_overlapping_sstables source target =
     (if source = [] \<or> target = [] then []
      else let min_key = Min (set (map sm_min_key source)); max_key = Max (set (map sm_max_key source))
           in filter (\<lambda>t. \<not> (sm_max_key t < min_key \<or> max_key < sm_min_key t)) target)"

primrec select_level :: "CompactionStrategy \<Rightarrow> SSTableMetadata list list \<Rightarrow> u64 \<Rightarrow> nat list \<Rightarrow> CompactionTask option" where
  "select_level s levels base_size [] = None"
| "select_level s levels base_size (level # rest) =
     (if length levels \<le> level then None
      else if target_size s level base_size < sum_list (map sm_file_size (levels ! level)) then
        (case levels ! level of
           sstable # _ \<Rightarrow>
             Some \<lparr>ct_source_level = level, ct_target_level = level + 1, ct_source = [sstable],
                   ct_target = (if level + 1 < length levels then find_overlapping_sstables [sstable] (levels ! (level + 1)) else [])\<rparr>
         | [] \<Rightarrow> select_level s levels base_size rest)
      else select_level s levels base_size rest)"

definition select_compaction ::
  "CompactionStrategy \<Rightarrow> SSTableMetadata list list \<Rightarrow> u64 \<Rightarrow> (KeyValueError, CompactionTask option) res" where
  "select_compaction s levels base_size =
     (if levels = [] then Inl Panicked
      else if cs_level0_trigger s \<le> length (levels ! 0) then
        (if length levels < 2 then Inl Panicked
         else Ok (Some \<lparr>ct_source_level = 0, ct_target_level = 1, ct_source = levels ! 0,
                        ct_target = find_overlapping_sstables (levels ! 0) (levels ! 1)\<rparr>))
      else Ok (select_level s levels base_size [1..<cs_max_level s]))"

section \<open>Merge\<close>

record MergeEntry =
  me_entry :: Entry
  me_source_level :: nat
  me_source_file :: u64

definition MergeEntry_cmp :: "MergeEntry \<Rightarrow> MergeEntry \<Rightarrow> ordering" where
  "MergeEntry_cmp self other =
     (case cmp (e_key (me_entry other)) (e_key (me_entry self)) of
        Equal \<Rightarrow> cmp (e_sequence (me_entry other)) (e_sequence (me_entry self))
      | ord \<Rightarrow> ord)"

text \<open>The order of pairs, and taking the greatest element of the heap.\<close>

definition pair_greater :: "MergeEntry \<times> nat \<Rightarrow> MergeEntry \<times> nat \<Rightarrow> bool" where
  "pair_greater a b =
     (case MergeEntry_cmp (fst a) (fst b) of Greater \<Rightarrow> True | Less \<Rightarrow> False | Equal \<Rightarrow> snd b < snd a)"

fun heap_pop :: "(MergeEntry \<times> nat) list \<Rightarrow> ((MergeEntry \<times> nat) \<times> (MergeEntry \<times> nat) list) option" where
  "heap_pop [] = None"
| "heap_pop (x # xs) =
     (let greatest = fold (\<lambda>y m. if pair_greater y m then y else m) xs x in Some (greatest, remove1 greatest (x # xs)))"

type_synonym merge_iterator = "nat \<times> u64 \<times> Entry list \<times> nat"

definition merge_entry_at :: "nat \<Rightarrow> u64 \<Rightarrow> Entry list \<Rightarrow> nat \<Rightarrow> MergeEntry" where
  "merge_entry_at level file es pos = \<lparr>me_entry = es ! pos, me_source_level = level, me_source_file = file\<rparr>"

definition initial_heap :: "merge_iterator list \<Rightarrow> (MergeEntry \<times> nat) list" where
  "initial_heap its =
     concat (map (\<lambda>i. case its ! i of (level, fno, es, pos) \<Rightarrow>
       if pos < length es then [(merge_entry_at level fno es pos, i)] else []) [0..<length its])"

lemma heap_top_in: "fold (\<lambda>y m. if pair_greater y m then y else m) xs x \<in> insert x (set xs)"
proof (induction xs arbitrary: x)
  case (Cons y ys)
  from Cons.IH [of x] Cons.IH [of y] show ?case by auto
qed simp

lemma heap_pop_Some:
  assumes "heap_pop h = Some (g, h')"
  shows "g \<in> set h" "h' = remove1 g h" "length h' < length h"
proof -
  from assms obtain x xs where h: "h = x # xs" "g = fold (\<lambda>y m. if pair_greater y m then y else m) xs x" "h' = remove1 g h"
    by (cases h) (auto simp: Let_def)
  show g: "g \<in> set h" using heap_top_in [of xs x] h(1,2) by simp
  show "h' = remove1 g h" by (fact h(3))
  then show "length h' < length h" using g by (simp add: length_remove1) (simp add: h(1))
qed

function merge_loop :: "(MergeEntry \<times> nat) list \<Rightarrow> merge_iterator list \<Rightarrow> (KeyValueError, Entry list) res" where
  "merge_loop heap iterators =
     (case heap_pop heap of
        None \<Rightarrow> Ok []
      | Some ((merge_entry, idx), heap') \<Rightarrow>
          if length iterators \<le> idx then Inl Panicked
          else case iterators ! idx of (level, file, es, pos) \<Rightarrow>
            res_bind (merge_loop (if pos + 1 < length es then (merge_entry_at level file es (pos + 1), idx) # heap' else heap')
                        (iterators[idx := (level, file, es, pos + 1)]))
              (\<lambda>rest. Ok (me_entry merge_entry # rest)))"
  by pat_completeness auto

definition left_to_merge :: "merge_iterator list \<Rightarrow> nat" where
  "left_to_merge its = (\<Sum>(level, file, es, pos) \<leftarrow> its. length es - pos)"

lemma left_to_merge_update:
  assumes "i < length its" "its ! i = (level, file, es, pos)"
  shows "left_to_merge (its[i := (level, file, es, pos + 1)]) + (if pos < length es then 1 else 0) = left_to_merge its"
proof -
  from assms have its: "its = take i its @ (level, file, es, pos) # drop (Suc i) its" by (metis id_take_nth_drop)
  have new: "its[i := (level, file, es, pos + 1)] = take i its @ (level, file, es, pos + 1) # drop (Suc i) its"
    using assms(1) by (rule upd_conv_take_nth_drop)
  from arg_cong [OF its, of left_to_merge] show ?thesis unfolding new by (simp add: left_to_merge_def Suc_diff_Suc)
qed

termination merge_loop
proof (relation "measures [\<lambda>(heap, its). left_to_merge its, \<lambda>(heap, its). length heap]", goal_cases)
  case (2 heap its x g heap' entry idx level y fno w es pos)
  then have "length heap' < length heap" using heap_pop_Some(3) by metis
  moreover have "left_to_merge (its[idx := (level, fno, es, pos + 1)]) + (if pos < length es then 1 else 0) = left_to_merge its"
    using 2 left_to_merge_update [of idx its] by (metis not_le_imp_less)
  ultimately show ?case by (auto split: if_splits)
qed simp

declare merge_loop.simps [simp del]

section \<open>Correctness of the merge\<close>

definition head_at :: "nat \<Rightarrow> merge_iterator \<Rightarrow> (MergeEntry \<times> nat) set" where
  "head_at i = (\<lambda>(level, fno, es, pos). if pos < length es then {(merge_entry_at level fno es pos, i)} else {})"

definition heads :: "merge_iterator list \<Rightarrow> (MergeEntry \<times> nat) set" where
  "heads its = (\<Union>i < length its. head_at i (its ! i))"

definition remaining :: "merge_iterator list \<Rightarrow> Entry list" where
  "remaining its = concat (map (\<lambda>(level, file, es, pos). drop pos es) its)"

definition merge_before :: "Entry \<Rightarrow> Entry \<Rightarrow> bool" where
  "merge_before a b \<longleftrightarrow> e_key a < e_key b \<or> e_key a = e_key b \<and> e_sequence a \<le> e_sequence b"

definition runs_sorted :: "merge_iterator list \<Rightarrow> bool" where
  "runs_sorted its \<longleftrightarrow> (\<forall>(level, file, es, pos) \<in> set its. sorted_wrt (<) (map e_key es))"

lemma pair_greater_iff:
  "pair_greater a b \<longleftrightarrow>
     e_key (me_entry (fst a)) < e_key (me_entry (fst b)) \<or>
     e_key (me_entry (fst a)) = e_key (me_entry (fst b)) \<and>
       (e_sequence (me_entry (fst a)) < e_sequence (me_entry (fst b)) \<or>
        e_sequence (me_entry (fst a)) = e_sequence (me_entry (fst b)) \<and> snd b < snd a)"
  by (auto simp: pair_greater_def MergeEntry_cmp_def cmp_def)

lemma not_pair_greater_iff:
  "\<not> pair_greater a b \<longleftrightarrow>
     e_key (me_entry (fst b)) < e_key (me_entry (fst a)) \<or>
     e_key (me_entry (fst b)) = e_key (me_entry (fst a)) \<and>
       (e_sequence (me_entry (fst b)) < e_sequence (me_entry (fst a)) \<or>
        e_sequence (me_entry (fst b)) = e_sequence (me_entry (fst a)) \<and> snd a \<le> snd b)"
  unfolding pair_greater_iff
  by (cases "e_key (me_entry (fst a))" "e_key (me_entry (fst b))" rule: linorder_cases;
      cases "e_sequence (me_entry (fst a))" "e_sequence (me_entry (fst b))" rule: linorder_cases) auto

lemma lex_trans:
  fixes k1 k2 k3 :: "'a :: linorder" and s1 s2 s3 :: "'b :: linorder" and i1 i2 i3 :: nat
  shows "k2 < k1 \<or> k2 = k1 \<and> (s2 < s1 \<or> s2 = s1 \<and> i1 \<le> i2) \<Longrightarrow>
    k3 < k2 \<or> k3 = k2 \<and> (s3 < s2 \<or> s3 = s2 \<and> i2 \<le> i3) \<Longrightarrow>
    k3 < k1 \<or> k3 = k1 \<and> (s3 < s1 \<or> s3 = s1 \<and> i1 \<le> i3)"
  by auto

lemma not_pair_greater_trans: "\<not> pair_greater a b \<Longrightarrow> \<not> pair_greater b c \<Longrightarrow> \<not> pair_greater a c"
  unfolding not_pair_greater_iff by (rule lex_trans)

lemma pair_greater_asym: "pair_greater a b \<Longrightarrow> \<not> pair_greater b a"
  unfolding not_pair_greater_iff pair_greater_iff by auto

lemma pair_greater_irrefl [simp]: "\<not> pair_greater a a"
  by (simp add: pair_greater_iff)

lemma fold_greatest: "\<forall>y \<in> insert x (set xs). \<not> pair_greater y (fold (\<lambda>y m. if pair_greater y m then y else m) xs x)"
proof (induction xs arbitrary: x)
  case (Cons a xs)
  let ?x = "if pair_greater a x then a else x"
  define g where "g = fold (\<lambda>y m. if pair_greater y m then y else m) xs ?x"
  have "\<not> pair_greater a ?x" "\<not> pair_greater x ?x" using pair_greater_asym [of a x] by simp_all
  moreover have "\<not> pair_greater ?x g" "\<forall>y \<in> set xs. \<not> pair_greater y g" using Cons.IH [of ?x] unfolding g_def by blast+
  ultimately have "\<forall>y \<in> insert x (set (a # xs)). \<not> pair_greater y g"
    using not_pair_greater_trans [of a ?x g] not_pair_greater_trans [of x ?x g] by (simp split del: if_split)
  then show ?case unfolding g_def by (simp split del: if_split)
qed simp

lemma heap_pop_greatest:
  assumes "heap_pop h = Some (g, h')" "y \<in> set h"
  shows "\<not> pair_greater y g"
proof -
  obtain x xs where "h = x # xs" "g = fold (\<lambda>y m. if pair_greater y m then y else m) xs x" using assms(1)
    by (cases h) (auto simp: Let_def)
  then show ?thesis using fold_greatest [of x xs] assms(2) by auto
qed

lemma remaining_step:
  assumes "i < length its" "its ! i = (level, fno, es, pos)" "pos < length es"
  shows "mset (remaining its) = add_mset (es ! pos) (mset (remaining (its[i := (level, fno, es, pos + 1)])))"
proof -
  from assms have its: "its = take i its @ (level, fno, es, pos) # drop (Suc i) its" by (metis id_take_nth_drop)
  have new: "its[i := (level, fno, es, pos + 1)] = take i its @ (level, fno, es, pos + 1) # drop (Suc i) its"
    using assms(1) by (rule upd_conv_take_nth_drop)
  have "drop pos es = es ! pos # drop (pos + 1) es" using assms(3) by (simp add: Cons_nth_drop_Suc)
  with arg_cong [OF its, of "\<lambda>x. mset (remaining x)"] show ?thesis unfolding new by (simp add: remaining_def)
qed

lemma head_at_snd: "h \<in> head_at i it \<Longrightarrow> snd h = i"
  by (auto simp: head_at_def split: prod.splits if_splits)

lemma heads_iff: "h \<in> heads its \<longleftrightarrow> snd h < length its \<and> h \<in> head_at (snd h) (its ! snd h)"
  by (auto simp: heads_def dest: head_at_snd)

lemma heads_split:
  assumes "i < length its"
  shows "heads (its[i := x]) = head_at i x \<union> {h \<in> heads its. snd h \<noteq> i}"
proof (rule set_eqI)
  fix h
  show "h \<in> heads (its[i := x]) \<longleftrightarrow> h \<in> head_at i x \<union> {h \<in> heads its. snd h \<noteq> i}"
    using assms head_at_snd [of h i x] by (cases "snd h = i") (auto simp: heads_iff)
qed

lemma head_le:
  assumes "x \<in> set (remaining its)" "runs_sorted its"
  obtains m i where "(m, i) \<in> heads its" "merge_before (me_entry m) x"
proof -
  from assms(1) obtain level fno es pos where run: "(level, fno, es, pos) \<in> set its" "x \<in> set (drop pos es)"
    by (auto simp: remaining_def)
  then obtain i where i: "i < length its" "its ! i = (level, fno, es, pos)" by (metis in_set_conv_nth)
  from run(2) obtain j where j: "j < length (drop pos es)" "x = es ! (pos + j)" by (auto simp: in_set_conv_nth)
  have "sorted_wrt (<) (map e_key es)" using assms(2) run(1) by (auto simp: runs_sorted_def)
  then have "merge_before (es ! pos) x" using j
    by (cases "j = 0") (auto simp: merge_before_def sorted_wrt_iff_nth_less)
  moreover have "(merge_entry_at level fno es pos, i) \<in> heads its" using i j(1) by (force simp: heads_def head_at_def)
  ultimately show thesis using that by (simp add: merge_entry_at_def)
qed

lemma merge_before_trans: "merge_before a b \<Longrightarrow> merge_before b c \<Longrightarrow> merge_before a c"
  by (auto simp: merge_before_def)

lemma merge_before_key: "merge_before a b \<Longrightarrow> e_key a \<le> e_key b"
  by (auto simp: merge_before_def)

lemma merge_step:
  assumes heap: "distinct heap" "set heap = heads its" and pop: "heap_pop heap = Some ((m, i), heap')"
  obtains level fno es pos where "i < length its" "its ! i = (level, fno, es, pos)" "pos < length es"
    "me_entry m = es ! pos" "distinct heap'" "set heap' = {h \<in> heads its. snd h \<noteq> i}"
proof -
  have "(m, i) \<in> heads its" using heap_pop_Some(1) [OF pop] heap(2) by simp
  then have i: "i < length its" "(m, i) \<in> head_at i (its ! i)" by (simp_all add: heads_iff)
  obtain level fno es pos where it: "its ! i = (level, fno, es, pos)" by (cases "its ! i")
  with i(2) have m: "pos < length es" "m = merge_entry_at level fno es pos" by (auto simp: head_at_def split: if_splits)
  have uniq: "h = (m, i)" if "h \<in> heads its" "snd h = i" for h using that it m by (auto simp: heads_iff head_at_def)
  have "h \<in> heads its - {(m, i)} \<longleftrightarrow> h \<in> {h \<in> heads its. snd h \<noteq> i}" for h
    using uniq [of h] by (cases "h = (m, i)") (simp, blast)
  then have "heads its - {(m, i)} = {h \<in> heads its. snd h \<noteq> i}" by (rule set_eqI)
  then have "set heap' = {h \<in> heads its. snd h \<noteq> i}"
    unfolding heap_pop_Some(2) [OF pop] set_remove1_eq [OF heap(1)] heap(2) .
  moreover have "distinct heap'" using heap_pop_Some(2) [OF pop] heap(1) by simp
  ultimately show thesis using that i(1) it m by (simp add: merge_entry_at_def)
qed

lemma merge_loop_correct:
  "distinct heap \<Longrightarrow> set heap = heads its \<Longrightarrow> runs_sorted its \<Longrightarrow>
   \<exists>es. merge_loop heap its = Ok es \<and> mset es = mset (remaining its) \<and> sorted_wrt merge_before es"
proof (induction heap its rule: merge_loop.induct)
  case (1 heap its)
  show ?case
  proof (cases "heap_pop heap")
    case None
    then have "heap = []" by (cases heap) (simp_all add: Let_def)
    with 1(3) have "heads its = {}" by simp
    then have "remaining its = []" using head_le [OF _ 1(4)] by (metis emptyE list.set_intros(1) neq_Nil_conv)
    with None show ?thesis by (subst merge_loop.simps) simp
  next
    case (Some g)
    then obtain m i heap' where pop: "heap_pop heap = Some ((m, i), heap')" by (metis prod.exhaust)
    from merge_step [OF 1(2,3) pop] obtain level fno es pos where
      st: "i < length its" "its ! i = (level, fno, es, pos)" "pos < length es" "me_entry m = es ! pos"
        "distinct heap'" "set heap' = {h \<in> heads its. snd h \<noteq> i}" .
    let ?its = "its[i := (level, fno, es, pos + 1)]"
      and ?heap = "if pos + 1 < length es then (merge_entry_at level fno es (pos + 1), i) # heap' else heap'"
    have "distinct ?heap" "set ?heap = heads ?its" using st(5,6) by (auto simp: heads_split [OF st(1)] head_at_def)
    moreover have "runs_sorted ?its" using 1(4) st(1,2) nth_mem [OF st(1)]
      by (fastforce simp: runs_sorted_def dest!: set_update_subset_insert [THEN subsetD])
    ultimately obtain rest where rest: "merge_loop ?heap ?its = Ok rest" "mset rest = mset (remaining ?its)"
      "sorted_wrt merge_before rest"
      using 1(1) [OF pop refl refl _ st(2) [symmetric] refl refl] st(1) by (metis not_le)
    have all: "mset (es ! pos # rest) = mset (remaining its)" using remaining_step [OF st(1-3)] rest(2) by simp
    have "merge_before (es ! pos) x" if "x \<in> set rest" for x
    proof -
      from that all have "x \<in> set (remaining its)" by (metis list.set_intros(2) set_mset_mset)
      from head_le [OF this 1(4)] obtain m' j where m': "(m', j) \<in> heads its" "merge_before (me_entry m') x" .
      from heap_pop_greatest [OF pop] 1(3) m'(1) have "\<not> pair_greater (m', j) (m, i)" by blast
      then have "merge_before (me_entry m) (me_entry m')" by (auto simp: not_pair_greater_iff merge_before_def)
      with m'(2) st(4) show ?thesis using merge_before_trans by metis
    qed
    with rest all pop st show ?thesis by (subst merge_loop.simps) (auto simp: not_le)
  qed
qed

lemma distinct_concat_indexed:
  assumes "distinct is" "\<And>i. f i = [] \<or> (\<exists>x. f i = [(x, i)])"
  shows "distinct (concat (map f is))"
  using assms(1)
proof (induction "is")
  case (Cons i "is")
  have snd: "snd h = j" if "h \<in> set (f j)" for h j using that assms(2) [of j] by auto
  have "set (f i) \<inter> set (concat (map f is)) = {}" using Cons.prems by (fastforce dest: snd)
  with Cons assms(2) [of i] show ?case by auto
qed simp

lemma initial_heap_correct: "distinct (initial_heap its)" "set (initial_heap its) = heads its"
proof -
  show "set (initial_heap its) = heads its"
    by (auto simp: initial_heap_def heads_def head_at_def split: prod.splits if_splits)
  show "distinct (initial_heap its)" unfolding initial_heap_def
    by (rule distinct_concat_indexed) (auto split: prod.splits)
qed

section \<open>Execution\<close>

record CompactionExecutor =
  ce_block_size :: nat
  ce_compression :: CompressionAlgorithm
  ce_integrity :: IntegrityAlgorithm

type_synonym sst_files = "u64 \<Rightarrow> bytes option"

fun io_error_text :: "io_error \<Rightarrow> string" where
  "io_error_text (InvalidData m) = m"
| "io_error_text (IoInvalidInput m) = m"
| "io_error_text (UnexpectedEof m) = m"
| "io_error_text (IoOther m) = m"

definition load_sstable_entries ::
  "hash_lib \<Rightarrow> codec_lib \<Rightarrow> sst_files \<Rightarrow> SSTableMetadata \<Rightarrow> (KeyValueError, Entry list) res" where
  "load_sstable_entries H C files meta =
     (let number = nat_to_string (unat (sm_file_number meta)) in
      case files (sm_file_number meta) of
        None \<Rightarrow> Err (StorageCorruption (''Failed to open SSTable '' @ number @ '': PathMissing''))
      | Some d \<Rightarrow>
          res_bind (map_err (\<lambda>e. StorageCorruption (''Failed to create SSTable iterator for '' @ number @ '': '' @ io_error_text e))
                      (SSTable_iter H \<lparr>mem_buffer = d, mem_cursor = 0\<rparr>))
            (\<lambda>it. map_err (\<lambda>e. StorageCorruption (''Failed to read entry from SSTable '' @ number @ '': '' @ io_error_text e))
                    (collect_entries H C it)))"

primrec load_runs ::
  "hash_lib \<Rightarrow> codec_lib \<Rightarrow> sst_files \<Rightarrow> nat \<Rightarrow> SSTableMetadata list \<Rightarrow> (KeyValueError, merge_iterator list) res" where
  "load_runs H C files level [] = Ok []"
| "load_runs H C files level (meta # metas) =
     res_bind (load_sstable_entries H C files meta) (\<lambda>es.
     res_bind (load_runs H C files level metas) (\<lambda>rest.
       Ok (if es \<noteq> [] then (level, sm_file_number meta, es, 0) # rest else rest)))"

definition merge_sstables ::
  "hash_lib \<Rightarrow> codec_lib \<Rightarrow> sst_files \<Rightarrow> SSTableMetadata list \<Rightarrow> SSTableMetadata list \<Rightarrow> nat \<Rightarrow> (KeyValueError, Entry list) res" where
  "merge_sstables H C files source target source_level =
     res_bind (load_runs H C files source_level source) (\<lambda>a.
     res_bind (load_runs H C files (source_level + 1) target) (\<lambda>b.
       merge_loop (initial_heap (a @ b)) (a @ b)))"

primrec dedup_from :: "bytes option \<Rightarrow> Entry list \<Rightarrow> Entry list" where
  "dedup_from prev_key [] = []"
| "dedup_from prev_key (e # es) =
     (if prev_key = Some (e_key e) then dedup_from prev_key es
      else if e_value e \<noteq> None then e # dedup_from (Some (e_key e)) es
      else dedup_from (Some (e_key e)) es)"

definition deduplicate_and_filter :: "Entry list \<Rightarrow> Entry list" where
  "deduplicate_and_filter es = dedup_from None es"

text \<open>A file of more than \<open>isize::MAX\<close> bytes does not fit into memory: growing it panics.\<close>

definition write_sstable ::
  "hash_lib \<Rightarrow> codec_lib \<Rightarrow> u64 \<Rightarrow> CompactionExecutor \<Rightarrow> sst_files \<Rightarrow> Entry list \<Rightarrow> u64 \<Rightarrow> nat \<Rightarrow>
     sst_files \<times> (KeyValueError, SSTableMetadata) res" where
  "write_sstable H C now x files es file_number level =
     (if files file_number \<noteq> None then (files, Err (StorageCorruption ''PathExists''))
      else case SSTable_create H C now empty_file es file_number level (ce_block_size x) (ce_compression x) of
        (f, r) \<Rightarrow>
          if 2 ^ 63 \<le> length (mem_buffer f) then (files, Inl Panicked)
          else (files(file_number \<mapsto> mem_buffer f), map_err (\<lambda>e. StorageCorruption (io_error_text e)) r))"

definition write_batch ::
  "hash_lib \<Rightarrow> codec_lib \<Rightarrow> u64 \<Rightarrow> CompactionExecutor \<Rightarrow> nat \<Rightarrow> Entry list \<Rightarrow> sst_files \<times> u64 \<Rightarrow>
     (sst_files \<times> u64) \<times> (KeyValueError, SSTableMetadata) res" where
  "write_batch H C now x level batch s =
     (case write_sstable H C now x (fst s) batch (snd s) level of
        (files, Inl f) \<Rightarrow> ((files, snd s), Inl f)
      | (files, Inr meta) \<Rightarrow> ((files, snd s + 1), Ok meta))"

primrec write_batches ::
  "hash_lib \<Rightarrow> codec_lib \<Rightarrow> u64 \<Rightarrow> CompactionExecutor \<Rightarrow> nat \<Rightarrow> Entry list \<Rightarrow> Entry list \<Rightarrow> nat \<Rightarrow> sst_files \<times> u64 \<Rightarrow>
     (sst_files \<times> u64) \<times> (KeyValueError, SSTableMetadata list) res" where
  "write_batches H C now x level [] batch sz s =
     (if batch = [] then (s, Ok []) else and_then (write_batch H C now x level batch s) (\<lambda>s meta. (s, Ok [meta])))"
| "write_batches H C now x level (e # es) batch sz s =
     (if ce_block_size x * 1024 < sz + entry_size e \<and> batch \<noteq> [] then
        and_then (write_batch H C now x level batch s) (\<lambda>s meta.
        and_then (write_batches H C now x level es [e] (entry_size e) s) (\<lambda>s metas. (s, Ok (meta # metas))))
      else write_batches H C now x level es (batch @ [e]) (sz + entry_size e) s)"

definition compaction_execute ::
  "hash_lib \<Rightarrow> codec_lib \<Rightarrow> u64 \<Rightarrow> CompactionExecutor \<Rightarrow> CompactionTask \<Rightarrow> sst_files \<times> u64 \<Rightarrow>
     (sst_files \<times> u64) \<times> (KeyValueError, SSTableMetadata list) res" where
  "compaction_execute H C now x task s =
     (case merge_sstables H C (fst s) (ct_source task) (ct_target task) (ct_source_level task) of
        Inl f \<Rightarrow> (s, Inl f)
      | Inr es \<Rightarrow>
          let es = deduplicate_and_filter es in
          if es = [] then (s, Ok []) else write_batches H C now x (ct_target_level task) es [] 0 s)"

section \<open>Correctness\<close>

text \<open>Every file holds a table whose keys are in a given set.\<close>

definition files_ok :: "hash_lib \<Rightarrow> codec_lib \<Rightarrow> bytes set \<Rightarrow> sst_files \<Rightarrow> bool" where
  "files_ok H C ks files \<longleftrightarrow> (\<forall>n d. files n = Some d \<longrightarrow> (\<exists>es. is_table H C d es \<and> e_key ` set es \<subseteq> ks))"

lemma files_okD:
  assumes "files_ok H C ks files" "files n = Some d"
  obtains es where "is_table H C d es" "e_key ` set es \<subseteq> ks"
  using assms unfolding files_ok_def by blast

lemma load_correct:
  assumes "files (sm_file_number meta) = Some d" "is_table H C d es" "lossless C" "load_sstable_entries H C files meta = Ok zs"
  shows "zs = map uncommitted es"
  using is_table_entries [OF assms(2,3), of 0] assms(1,4)
  by (auto simp: load_sstable_entries_def Let_def map_err_def split: sum.splits)

definition run_ok :: "bytes set \<Rightarrow> merge_iterator \<Rightarrow> bool" where
  "run_ok ks = (\<lambda>(level, fno, es, pos). pos = 0 \<and> sorted_wrt (<) (map e_key es) \<and> e_key ` set es \<subseteq> ks \<and> list_all entry_small es)"

lemma is_table_run:
  assumes "is_table H C d es" "e_key ` set es \<subseteq> ks"
  shows "run_ok ks (level, fno, map uncommitted es, 0)"
proof -
  have "entry_small (uncommitted e) \<longleftrightarrow> entry_small e" for e by (simp add: entry_small_def)
  then show ?thesis using assms
    by (auto simp: run_ok_def is_table_def table_small_def list_all_iff comp_def)
qed

lemma load_runs_ok:
  assumes "files_ok H C ks files" "lossless C"
  shows "load_runs H C files level metas = Ok its \<Longrightarrow> list_all (run_ok ks) its"
proof (induction metas arbitrary: its)
  case (Cons meta metas)
  then obtain es rest where l: "load_sstable_entries H C files meta = Ok es" "load_runs H C files level metas = Ok rest"
    "its = (if es \<noteq> [] then (level, sm_file_number meta, es, 0) # rest else rest)" by (auto split: sum.splits)
  then obtain d where d: "files (sm_file_number meta) = Some d"
    by (cases "files (sm_file_number meta)") (simp_all add: load_sstable_entries_def Let_def)
  from files_okD [OF assms(1) d] obtain es' where es': "is_table H C d es'" "e_key ` set es' \<subseteq> ks" .
  with load_correct [of files meta d H C es', OF d es'(1) assms(2) l(1)] have "es = map uncommitted es'" by simp
  with is_table_run [OF es'] Cons.IH [OF l(2)] l(3) show ?case by simp
qed simp

lemma remaining_ok: "list_all (run_ok ks) its \<Longrightarrow> e_key ` set (remaining its) \<subseteq> ks \<and> list_all entry_small (remaining its)"
proof (induction its)
  case (Cons it its)
  obtain level fno es where it: "it = (level, fno, es, 0)" "e_key ` set es \<subseteq> ks" "list_all entry_small es"
    using Cons.prems by (cases it) (simp add: run_ok_def)
  have "remaining (it # its) = es @ remaining its" by (simp add: remaining_def it(1))
  with Cons it(2,3) show ?case by (simp add: image_Un)
qed (simp add: remaining_def)

lemma merge_sstables_ok:
  assumes "files_ok H C ks files" "lossless C" "merge_sstables H C files source target level = Ok es"
  shows "sorted_wrt merge_before es" "e_key ` set es \<subseteq> ks" "list_all entry_small es"
proof -
  obtain a b where ab: "load_runs H C files level source = Ok a" "load_runs H C files (level + 1) target = Ok b"
    "merge_loop (initial_heap (a @ b)) (a @ b) = Ok es" using assms(3) by (auto simp: merge_sstables_def split: sum.splits)
  have runs: "list_all (run_ok ks) (a @ b)" using load_runs_ok [OF assms(1,2)] ab(1,2) by simp
  then have "runs_sorted (a @ b)" by (auto simp: runs_sorted_def run_ok_def list_all_iff split_beta)
  from merge_loop_correct [OF initial_heap_correct this] ab(3) have m: "sorted_wrt merge_before es" "mset es = mset (remaining (a @ b))"
    by auto
  then show "sorted_wrt merge_before es" by simp
  have "set es = set (remaining (a @ b))" using m(2) by (metis set_mset_mset)
  then show "e_key ` set es \<subseteq> ks" "list_all entry_small es"
    using remaining_ok [OF runs] by (simp_all add: list_all_iff)
qed

lemma dedup_from_sorted:
  "sorted_wrt merge_before es \<Longrightarrow> (\<And>k e. prev = Some k \<Longrightarrow> e \<in> set es \<Longrightarrow> k \<le> e_key e) \<Longrightarrow>
   sorted_wrt (<) (map e_key (dedup_from prev es)) \<and> set (dedup_from prev es) \<subseteq> set es \<and>
   (\<forall>e \<in> set (dedup_from prev es). e_value e \<noteq> None \<and> prev \<noteq> Some (e_key e))"
proof (induction es arbitrary: prev)
  case (Cons e es)
  have ge: "e_key e \<le> e_key x" if "x \<in> set es" for x using Cons.prems(1) that by (auto dest: merge_before_key)
  show ?case
  proof (cases "prev = Some (e_key e)")
    case True
    with Cons.IH [of prev] Cons.prems show ?thesis by auto
  next
    case False
    have "sorted_wrt (<) (map e_key (dedup_from (Some (e_key e)) es)) \<and> set (dedup_from (Some (e_key e)) es) \<subseteq> set es \<and>
      (\<forall>x \<in> set (dedup_from (Some (e_key e)) es). e_value x \<noteq> None \<and> Some (e_key e) \<noteq> Some (e_key x))"
      by (rule Cons.IH) (use Cons.prems(1) ge in auto)
    then have IH: "sorted_wrt (<) (map e_key (dedup_from (Some (e_key e)) es))" "set (dedup_from (Some (e_key e)) es) \<subseteq> set es"
      "\<forall>x \<in> set (dedup_from (Some (e_key e)) es). e_value x \<noteq> None \<and> e_key x \<noteq> e_key e" by metis+
    have "e_key e < e_key x" if "x \<in> set (dedup_from (Some (e_key e)) es)" for x
      using IH(2,3) ge that by (metis order_le_imp_less_or_eq subsetD)
    moreover have "prev \<noteq> Some (e_key x)" if "x \<in> set (dedup_from (Some (e_key e)) es)" for x
    proof
      assume p: "prev = Some (e_key x)"
      from Cons.prems(2) [OF p, of e] calculation [OF that] show False by simp
    qed
    ultimately show ?thesis using False IH by auto
  qed
qed simp

lemma dedup_from_find:
  "sorted_wrt merge_before es \<Longrightarrow> prev \<noteq> Some key \<Longrightarrow>
   lookup (dedup_from prev es) key = (case lookup es key of Some e \<Rightarrow> if e_value e = None then None else Some e | None \<Rightarrow> None)"
proof (induction es arbitrary: prev)
  case (Cons e es)
  show ?case
  proof (cases "e_key e = key")
    case True
    have "sorted_wrt (<) (map e_key (dedup_from (Some key) es)) \<and> set (dedup_from (Some key) es) \<subseteq> set es \<and>
      (\<forall>x \<in> set (dedup_from (Some key) es). e_value x \<noteq> None \<and> Some key \<noteq> Some (e_key x))"
      using Cons.prems(1) True by (intro dedup_from_sorted) (auto dest: merge_before_key)
    then have "lookup (dedup_from (Some key) es) key = None" by (auto simp: find_None_iff)
    with True Cons.prems(2) show ?thesis by auto
  next
    case False
    with Cons.IH [of prev] Cons.IH [of "Some (e_key e)"] Cons.prems show ?thesis by auto
  qed
qed simp

lemma write_sstable_ok:
  assumes "compresses C (ce_compression x)" "es \<noteq> []" "sorted_wrt (<) (map e_key es)" "table_small es"
    and "write_sstable H C now x files es fno level = (files', r)"
  shows "files' = files \<and> (\<forall>meta. r \<noteq> Ok meta) \<or>
    (\<exists>d meta. files' = files(fno \<mapsto> d) \<and> is_table H C d es \<and> r = Ok meta \<and> files fno = None \<and>
      sm_file_number meta = fno \<and> sm_min_key meta = e_key (hd es) \<and> sm_max_key meta = e_key (last es))"
proof -
  have "length es < 2 ^ 32" using assms(4) by (simp add: table_small_def)
  from SSTable_create_total [OF compresses_total [OF assms(1)] assms(2) this] obtain f meta where
    f: "SSTable_create H C now empty_file es fno level (ce_block_size x) (ce_compression x) = (f, Ok meta)" .
  show ?thesis
  proof (cases "files fno = None \<and> length (mem_buffer f) < 2 ^ 63")
    case True
    then have "files' = files(fno \<mapsto> mem_buffer f)" "r = Ok meta" using assms(5) f by (auto simp: write_sstable_def)
    moreover from True have "length (mem_buffer f) < 2 ^ 63" by simp
    note is_table_create [OF f assms(4,3) this]
    ultimately show ?thesis using True by blast
  next
    case False
    then have "files' = files" "\<forall>meta. r \<noteq> Ok meta" using assms(5) f by (auto simp: write_sstable_def not_less split: if_splits)
    then show ?thesis by blast
  qed
qed

text \<open>A batch is small: an entry takes at least 16 bytes.\<close>

lemma batch_small:
  assumes "list_all entry_small batch" "(\<Sum>e \<leftarrow> batch. entry_size e) < 2 ^ 36 \<or> length batch \<le> 1"
  shows "table_small batch"
proof -
  have "16 * length batch \<le> (\<Sum>e \<leftarrow> batch. entry_size e)" by (induction batch) (simp_all add: entry_size_def)
  with assms show ?thesis by (auto simp: table_small_def)
qed

lemma write_batches_ok:
  assumes C: "compresses C (ce_compression x)" and bs: "ce_block_size x < 2 ^ 26"
  shows "sorted_wrt (<) (map e_key (batch @ es)) \<Longrightarrow> list_all entry_small (batch @ es) \<Longrightarrow> e_key ` set (batch @ es) \<subseteq> ks \<Longrightarrow>
    sz = (\<Sum>e \<leftarrow> batch. entry_size e) \<Longrightarrow> sz \<le> ce_block_size x * 1024 \<or> length batch \<le> 1 \<Longrightarrow>
    files_ok H C ks (fst s) \<Longrightarrow> files_ok H C ks (fst (fst (write_batches H C now x level es batch sz s)))"
proof (induction es arbitrary: batch sz s)
  have batch: "files_ok H C ks (fst (fst (write_batch H C now x level batch s)))"
    if "sorted_wrt (<) (map e_key batch)" "list_all entry_small batch" "e_key ` set batch \<subseteq> ks"
      "(\<Sum>e \<leftarrow> batch. entry_size e) \<le> ce_block_size x * 1024 \<or> length batch \<le> 1" "batch \<noteq> []" "files_ok H C ks (fst s)" for batch s
  proof -
    obtain files r where w: "write_sstable H C now x (fst s) batch (snd s) level = (files, r)" by fastforce
    have "table_small batch" using that(2,4) bs by (intro batch_small) auto
    from write_sstable_ok [OF C that(5,1) this w] have "files_ok H C ks files"
      using that(3,6) by (fastforce simp: files_ok_def)
    then show ?thesis using w by (auto simp: write_batch_def split: sum.splits)
  qed
  {
    case Nil
    then show ?case using batch [of batch s] by (auto simp: and_then_def split: prod.splits sum.splits)
  next
    case (Cons e es)
    show ?case
    proof (cases "ce_block_size x * 1024 < sz + entry_size e \<and> batch \<noteq> []")
      case True
      obtain s1 r1 where s1: "write_batch H C now x level batch s = (s1, r1)" by fastforce
      have ok1: "files_ok H C ks (fst s1)" using batch [of batch s] Cons.prems True s1 by (auto simp: sorted_wrt_append)
      have "files_ok H C ks (fst (fst (write_batches H C now x level es [e] (entry_size e) s1)))"
        by (rule Cons.IH) (use Cons.prems ok1 in \<open>auto simp: sorted_wrt_append\<close>)
      with True s1 ok1 show ?thesis by (auto simp: and_then_def split: prod.splits sum.splits)
    next
      case False
      have "files_ok H C ks (fst (fst (write_batches H C now x level es (batch @ [e]) (sz + entry_size e) s)))"
        by (rule Cons.IH) (use Cons.prems False in auto)
      with False show ?thesis by auto
    qed
  }
qed

lemma compaction_execute_ok:
  assumes "compresses C (ce_compression x)" "lossless C" "ce_block_size x < 2 ^ 26" "files_ok H C ks (fst s)"
  shows "files_ok H C ks (fst (fst (compaction_execute H C now x task s)))"
proof (cases "merge_sstables H C (fst s) (ct_source task) (ct_target task) (ct_source_level task)")
  case (Inr es)
  note m = merge_sstables_ok [OF assms(4,2) Inr]
  let ?es = "deduplicate_and_filter es"
  have d: "sorted_wrt (<) (map e_key ?es)" "set ?es \<subseteq> set es"
    using dedup_from_sorted [OF m(1), of None] by (simp_all add: deduplicate_and_filter_def)
  have "files_ok H C ks (fst (fst (write_batches H C now x (ct_target_level task) ?es [] 0 s)))"
    by (rule write_batches_ok) (use assms d m(2,3) in \<open>auto simp: list_all_iff\<close>)
  with Inr assms(4) show ?thesis by (simp add: compaction_execute_def Let_def)
qed (simp add: compaction_execute_def assms)

lemma lookup_lowest:
  "sorted_wrt merge_before es \<Longrightarrow> lookup es key = Some e \<Longrightarrow>
   e \<in> set es \<and> e_key e = key \<and> (\<forall>e' \<in> set es. e_key e' = key \<longrightarrow> e_sequence e \<le> e_sequence e')"
proof (induction es)
  case (Cons x es)
  then show ?case by (cases "e_key x = key") (auto simp: merge_before_def)
qed simp

section \<open>Properties\<close>

text \<open>
  C20: A compaction merges the tables it reads into one sequence of all their entries, without losing or
  adding one, and from it makes a sequence with strictly increasing keys that keeps for every key an entry
  with the lowest sequence number: a key is dropped only if it does not occur or a lowest entry is a
  tombstone. The comments of the source say that the newest
  entry is kept.
\<close>

theorem compaction_keeps_lowest_sequence:
  assumes "runs_sorted its" "\<And>it. it \<in> set its \<Longrightarrow> snd (snd (snd it)) = 0"
  shows "\<exists>es. merge_loop (initial_heap its) its = Ok es \<and> mset es = mset (concat (map (\<lambda>it. fst (snd (snd it))) its)) \<and>
    sorted_wrt (<) (map e_key (deduplicate_and_filter es)) \<and>
    (\<forall>key. case find (\<lambda>e. e_key e = key) (deduplicate_and_filter es) of
       Some e \<Rightarrow> e \<in> set es \<and> e_key e = key \<and> e_value e \<noteq> None \<and> (\<forall>e' \<in> set es. e_key e' = key \<longrightarrow> e_sequence e \<le> e_sequence e')
     | None \<Rightarrow> (\<forall>e \<in> set es. e_key e \<noteq> key) \<or>
         (\<exists>e \<in> set es. e_key e = key \<and> e_value e = None \<and> (\<forall>e' \<in> set es. e_key e' = key \<longrightarrow> e_sequence e \<le> e_sequence e')))"
proof -
  obtain es where es: "merge_loop (initial_heap its) its = Ok es" "mset es = mset (remaining its)" "sorted_wrt merge_before es"
    using merge_loop_correct [OF initial_heap_correct assms(1)] by blast
  have "map (\<lambda>(level, fno, es, pos). drop pos es) its = map (\<lambda>it. fst (snd (snd it))) its"
    using assms(2) by (auto simp: split_beta)
  then have all: "remaining its = concat (map (\<lambda>it. fst (snd (snd it))) its)" unfolding remaining_def by (rule arg_cong)
  have find: "lookup (deduplicate_and_filter es) key =
    (case lookup es key of Some e \<Rightarrow> if e_value e = None then None else Some e | None \<Rightarrow> None)" for key
    using dedup_from_find [OF es(3), of None key] by (simp add: deduplicate_and_filter_def)
  have "case lookup (deduplicate_and_filter es) key of
       Some e \<Rightarrow> e \<in> set es \<and> e_key e = key \<and> e_value e \<noteq> None \<and> (\<forall>e' \<in> set es. e_key e' = key \<longrightarrow> e_sequence e \<le> e_sequence e')
     | None \<Rightarrow> (\<forall>e \<in> set es. e_key e \<noteq> key) \<or>
         (\<exists>e \<in> set es. e_key e = key \<and> e_value e = None \<and> (\<forall>e' \<in> set es. e_key e' = key \<longrightarrow> e_sequence e \<le> e_sequence e'))" for key
  proof (cases "lookup es key")
    case None
    then have "\<forall>e \<in> set es. e_key e \<noteq> key" by (auto simp: find_None_iff)
    with None show ?thesis by (simp add: find)
  next
    case (Some e)
    from lookup_lowest [OF es(3) Some] Some show ?thesis unfolding find by auto
  qed
  moreover have "sorted_wrt (<) (map e_key (deduplicate_and_filter es))"
    using dedup_from_sorted [OF es(3), of None] by (simp add: deduplicate_and_filter_def)
  ultimately show ?thesis using es(1,2) all by auto
qed

definition demo_runs :: "merge_iterator list" where
  "demo_runs = [(0, 1, [Entry_new [1] (Some [7]) 5, Entry_new [2] (Some [8]) 6], 0),
                (0, 2, [Entry_new [1] (Some [9]) 0, Entry_new [2] None 1], 0)]"

theorem compaction_keeps_lowest_sequence_witness:
  "runs_sorted demo_runs \<and> (\<exists>es. merge_loop (initial_heap demo_runs) demo_runs = Ok es \<and>
     find (\<lambda>e. e_key e = [1]) (deduplicate_and_filter es) = Some (Entry_new [1] (Some [9]) 0) \<and>
     find (\<lambda>e. e_key e = [2]) (deduplicate_and_filter es) = None)"
proof -
  have demo: "runs_sorted demo_runs" "\<And>it. it \<in> set demo_runs \<Longrightarrow> snd (snd (snd it)) = 0"
    by (auto simp: runs_sorted_def demo_runs_def Entry_new_def)
  obtain es where es: "merge_loop (initial_heap demo_runs) demo_runs = Ok es"
    using compaction_keeps_lowest_sequence [OF demo] by blast
  have "(case merge_loop (initial_heap demo_runs) demo_runs of Inl f \<Rightarrow> False | Inr es \<Rightarrow>
     find (\<lambda>e. e_key e = [1]) (deduplicate_and_filter es) = Some (Entry_new [1] (Some [9]) 0) \<and>
     find (\<lambda>e. e_key e = [2]) (deduplicate_and_filter es) = None)" by code_simp
  with es demo(1) show ?thesis by simp
qed

end
