(* ===== verification/Lsm_Engine.thy ===== *)
theory Lsm_Engine
  imports Lsm_Compaction Wal Simulation "HOL-Library.Sublist"
begin

text \<open>
  The LSM engine, \<open>nanograph-lsm/src/engine.rs\<close>: the memtable over levels of sorted string tables, the
  log, flushing, compaction, the manifest and recovery. The file system is a record of the table files
  by number, the manifest and the blob files; the log is the manager of \<open>Wal\<close>. Calls are sequential, so
  locks are not modelled, but the flags that exclude a second flush or compaction are. The process-wide
  timestamp counter is part of the state. Metrics are left out.
\<close>

section \<open>State\<close>

text \<open>The libraries the engine calls: hashes, compression, JSON, and the file system of the log for deletions.\<close>

record LSMTreeOptions =
  op_shard_id :: u128
  op_integrity :: IntegrityAlgorithm
  op_compression :: CompressionAlgorithm
  op_memtable_size :: u64
  op_block_size :: nat
  op_durability :: Durability

record Level =
  lv_number :: nat
  lv_sstables :: "SSTableMetadata list"
  lv_total_size :: u64

record ManifestEntry =
  mn_file_number :: u64
  mn_level :: nat
  mn_metadata :: SSTableMetadata

record json_lib =
  json_write :: "ManifestEntry list \<Rightarrow> string + bytes"
  json_read :: "bytes \<Rightarrow> string + ManifestEntry list"

record lsm_libs =
  ll_hash :: hash_lib
  ll_codec :: codec_lib
  ll_json :: json_lib
  ll_remove :: "string \<Rightarrow> string option"

record lsm_fs =
  fs_sst :: sst_files
  fs_manifest :: "bytes option"
  fs_blob :: "u64 \<Rightarrow> bytes option"

record LSMTreeEngine =
  eng_options :: LSMTreeOptions
  eng_fs :: lsm_fs
  eng_wal :: WriteAheadLogManager
  eng_flushed_lsn :: "LogSequenceNumber option"
  eng_memtable :: MemTable
  eng_immutable :: "MemTable option"
  eng_levels :: "Level list"
  eng_next_file_number :: u64
  eng_flush_in_progress :: bool
  eng_compaction_in_progress :: bool
  eng_total_writes :: u64
  eng_total_reads :: u64
  eng_total_flushes :: u64
  eng_total_compactions :: u64
  eng_timestamp :: i64

type_synonym 'a engine_result = "LSMTreeEngine \<times> (KeyValueError, 'a) res"

definition next_timestamp :: "LSMTreeEngine \<Rightarrow> LSMTreeEngine \<times> i64" where
  "next_timestamp e = (e\<lparr>eng_timestamp := eng_timestamp e + 1\<rparr>, eng_timestamp e)"

definition Level_new :: "nat \<Rightarrow> Level" where
  "Level_new n = \<lparr>lv_number = n, lv_sstables = [], lv_total_size = 0\<rparr>"

definition add_sstable :: "SSTableMetadata \<Rightarrow> Level \<Rightarrow> Level" where
  "add_sstable m l = l\<lparr>lv_total_size := lv_total_size l + sm_file_size m, lv_sstables := lv_sstables l @ [m]\<rparr>"

definition remove_sstable :: "u64 \<Rightarrow> Level \<Rightarrow> Level" where
  "remove_sstable file_number l =
     (case List.extract (\<lambda>s. sm_file_number s = file_number) (lv_sstables l) of
        Some (xs, removed, ys) \<Rightarrow> l\<lparr>lv_sstables := xs @ ys, lv_total_size := lv_total_size l - sm_file_size removed\<rparr>
      | None \<Rightarrow> l)"

definition needs_compaction :: "Level \<Rightarrow> u64 \<Rightarrow> bool" where
  "needs_compaction l max_size =
     (if lv_number l = 0 then 4 \<le> length (lv_sstables l) else max_size < lv_total_size l)"

section \<open>Log and manifest\<close>

definition engine_append ::
  "lsm_libs \<Rightarrow> string \<Rightarrow> LsmRecordKind \<Rightarrow> bytes \<Rightarrow> Durability \<Rightarrow> LSMTreeEngine \<Rightarrow> unit engine_result" where
  "engine_append L msg kind payload durability e =
     (case writer_append (ll_hash L) (wm_active (eng_wal e)) \<lparr>wr_kind = lsm_kind_to_u16 kind, wr_payload = payload\<rparr> durability of
        (f, r) \<Rightarrow> (e\<lparr>eng_wal := (eng_wal e)\<lparr>wm_active := f\<rparr>\<rparr>,
                   map_err (\<lambda>x. StorageCorruption (msg @ wal_error_text x)) (res_bind r (\<lambda>_. Ok ()))))"

definition manifest_of :: "Level list \<Rightarrow> ManifestEntry list" where
  "manifest_of levels =
     concat (map (\<lambda>l. map (\<lambda>m. \<lparr>mn_file_number = sm_file_number m, mn_level = lv_number l, mn_metadata = m\<rparr>) (lv_sstables l)) levels)"

definition save_manifest :: "lsm_libs \<Rightarrow> LSMTreeEngine \<Rightarrow> unit engine_result" where
  "save_manifest L e =
     (case json_write (ll_json L) (manifest_of (eng_levels e)) of
        Inl t \<Rightarrow> (e, Err (StorageCorruption t))
      | Inr contents \<Rightarrow> (e\<lparr>eng_fs := (eng_fs e)\<lparr>fs_manifest := Some contents\<rparr>\<rparr>, Ok ()))"

primrec restore_levels :: "ManifestEntry list \<Rightarrow> Level list \<times> u64 \<Rightarrow> Level list \<times> u64" where
  "restore_levels [] s = s"
| "restore_levels (m # ms) s =
     (case s of (levels, current) \<Rightarrow>
        restore_levels ms
          (if mn_level m < length levels
           then (levels[mn_level m := add_sstable (mn_metadata m) (levels ! mn_level m)],
                 if current \<le> mn_file_number m then mn_file_number m + 1 else current)
           else (levels, current)))"

definition load_manifest :: "lsm_libs \<Rightarrow> LSMTreeEngine \<Rightarrow> unit engine_result" where
  "load_manifest L e =
     (case fs_manifest (eng_fs e) of
        None \<Rightarrow> (e, Ok ())
      | Some contents \<Rightarrow>
          (case json_read (ll_json L) contents of
             Inl t \<Rightarrow> (e, Err (StorageCorruption t))
           | Inr manifest \<Rightarrow>
               (case restore_levels manifest (eng_levels e, eng_next_file_number e) of
                  (levels, next) \<Rightarrow> (e\<lparr>eng_levels := levels, eng_next_file_number := next\<rparr>, Ok ()))))"

definition write_checkpoint :: "lsm_libs \<Rightarrow> u64 \<Rightarrow> u64 \<Rightarrow> LSMTreeEngine \<Rightarrow> unit engine_result" where
  "write_checkpoint L sequence file_number e =
     engine_append L [] LCheckpoint (encode_checkpoint sequence file_number) (op_durability (eng_options e)) e"

definition write_flush_complete :: "lsm_libs \<Rightarrow> u64 \<Rightarrow> u32 \<Rightarrow> LSMTreeEngine \<Rightarrow> unit engine_result" where
  "write_flush_complete L file_number level e =
     engine_append L [] LFlushComplete (encode_flush_complete file_number level) (op_durability (eng_options e)) e"

definition engine_checkpoint :: "lsm_libs \<Rightarrow> LSMTreeEngine \<Rightarrow> unit engine_result" where
  "engine_checkpoint L e =
     and_then (engine_append L ''Checkpoint write failed: '' LCheckpoint
                 (encode_checkpoint (tbl_sequence (eng_memtable e)) (eng_next_file_number e)) Sync e)
       (\<lambda>e _. save_manifest L e)"

definition rotate_wal :: "lsm_libs \<Rightarrow> LSMTreeEngine \<Rightarrow> unit engine_result" where
  "rotate_wal L e =
     (let tail = manager_tail_lsn (eng_wal e) in
      case manager_truncate_before (ll_remove L) (eng_wal e) tail of
        (m, r) \<Rightarrow> (e\<lparr>eng_flushed_lsn := Some tail, eng_wal := m\<rparr>, map_err (\<lambda>x. StorageCorruption (wal_error_text x)) r))"

section \<open>Compaction\<close>

text \<open>A panic skips what would follow it: the flags stay set.\<close>

definition install_compaction ::
  "lsm_libs \<Rightarrow> CompactionTask \<Rightarrow> SSTableMetadata list \<Rightarrow> LSMTreeEngine \<Rightarrow> unit engine_result" where
  "install_compaction L task metas e =
     (let s = ct_source_level task; t = ct_target_level task; levels = eng_levels e in
      if ct_source task \<noteq> [] \<and> length levels \<le> s \<or> (ct_target task \<noteq> [] \<or> metas \<noteq> []) \<and> length levels \<le> t
      then (e, Inl Panicked)
      else let levels = levels[s := fold (\<lambda>m. remove_sstable (sm_file_number m)) (ct_source task) (levels ! s)];
               levels = levels[t := fold (\<lambda>m. remove_sstable (sm_file_number m)) (ct_target task) (levels ! t)];
               levels = levels[t := fold add_sstable metas (levels ! t)]
           in and_then (save_manifest L (e\<lparr>eng_levels := levels\<rparr>)) (\<lambda>e _.
                (e\<lparr>eng_fs := (eng_fs e)\<lparr>fs_sst := fold (\<lambda>m files. files(sm_file_number m := None))
                     (ct_source task @ ct_target task) (fs_sst (eng_fs e))\<rparr>\<rparr>, Ok ())))"

definition compact_level :: "lsm_libs \<Rightarrow> u64 \<Rightarrow> LSMTreeEngine \<Rightarrow> unit engine_result" where
  "compact_level L now e0 =
     (let e = e0\<lparr>eng_total_compactions := eng_total_compactions e0 + 1\<rparr>; opt = eng_options e in
      case select_compaction CompactionStrategy_default (map lv_sstables (eng_levels e)) (op_memtable_size opt) of
        Inl f \<Rightarrow> (e, Inl f)
      | Inr None \<Rightarrow> (e, Ok ())
      | Inr (Some task) \<Rightarrow>
          (case compaction_execute (ll_hash L) (ll_codec L) now
                  \<lparr>ce_block_size = op_block_size opt, ce_compression = op_compression opt, ce_integrity = op_integrity opt\<rparr>
                  task (fs_sst (eng_fs e), eng_next_file_number e) of
             ((files, next), Inl f) \<Rightarrow> (e\<lparr>eng_fs := (eng_fs e)\<lparr>fs_sst := files\<rparr>\<rparr>, Inl f)
           | ((files, next), Inr metas) \<Rightarrow>
               install_compaction L task metas (e\<lparr>eng_fs := (eng_fs e)\<lparr>fs_sst := files\<rparr>, eng_next_file_number := next\<rparr>)))"

definition level_max_size :: "LSMTreeOptions \<Rightarrow> nat \<Rightarrow> u64" where
  "level_max_size opt i = (if i = 0 then 0 else op_memtable_size opt * 10 ^ i)"

definition compact_if_needed :: "lsm_libs \<Rightarrow> u64 \<Rightarrow> LSMTreeEngine \<Rightarrow> unit engine_result" where
  "compact_if_needed L now e =
     (if list_ex (\<lambda>i. needs_compaction (eng_levels e ! i) (level_max_size (eng_options e) i)) [0..<length (eng_levels e)]
      then compact_level L now e else (e, Ok ()))"

definition maybe_compact :: "lsm_libs \<Rightarrow> u64 \<Rightarrow> LSMTreeEngine \<Rightarrow> unit engine_result" where
  "maybe_compact L now e =
     (if eng_compaction_in_progress e then (e, Ok ())
      else case compact_if_needed L now (e\<lparr>eng_compaction_in_progress := True\<rparr>) of
        (e, r) \<Rightarrow> if r = Inl Panicked then (e, r) else (e\<lparr>eng_compaction_in_progress := False\<rparr>, r))"

section \<open>Flush\<close>

definition flush_immutable_memtable :: "lsm_libs \<Rightarrow> u64 \<Rightarrow> LSMTreeEngine \<Rightarrow> unit engine_result" where
  "flush_immutable_memtable L now e =
     (case eng_immutable e of
        None \<Rightarrow> (e, Ok ())
      | Some m \<Rightarrow>
          if tbl_data m = [] then (e, Ok ())
          else let n = eng_next_file_number e; e = e\<lparr>eng_next_file_number := n + 1\<rparr>; opt = eng_options e in
            case SSTable_create (ll_hash L) (ll_codec L) now empty_file (tbl_entries m) n 0 (op_block_size opt) (op_compression opt) of
              (f, r) \<Rightarrow>
                if 2 ^ 63 \<le> length (mem_buffer f) then (e, Inl Panicked)
                else and_then (e\<lparr>eng_fs := (eng_fs e)\<lparr>fs_sst := (fs_sst (eng_fs e))(n \<mapsto> mem_buffer f)\<rparr>\<rparr>,
                       map_err (\<lambda>x. StorageCorruption (io_error_text x)) r) (\<lambda>e meta.
                     and_then (write_checkpoint L (tbl_sequence m) n e) (\<lambda>e _.
                     if eng_levels e = [] then (e, Inl Panicked)
                     else and_then (write_flush_complete L n 0
                            (e\<lparr>eng_levels := (eng_levels e)[0 := add_sstable meta (eng_levels e ! 0)]\<rparr>)) (\<lambda>e _.
                     and_then (save_manifest L (e\<lparr>eng_total_flushes := eng_total_flushes e + 1\<rparr>)) (\<lambda>e _.
                     and_then (rotate_wal L e) (\<lambda>e _. maybe_compact L now e))))))"

definition maybe_flush_memtable :: "lsm_libs \<Rightarrow> u64 \<Rightarrow> LSMTreeEngine \<Rightarrow> unit engine_result" where
  "maybe_flush_memtable L now e =
     (if eng_flush_in_progress e then (e, Ok ())
      else if eng_immutable e \<noteq> None then (e, Ok ())
      else case flush_immutable_memtable L now
                  (e\<lparr>eng_flush_in_progress := True, eng_memtable := MemTable_new, eng_immutable := Some (eng_memtable e)\<rparr>) of
        (e, r) \<Rightarrow> if r = Inl Panicked then (e, r) else (e\<lparr>eng_immutable := None, eng_flush_in_progress := False\<rparr>, r))"

section \<open>Writes\<close>

definition after_write :: "lsm_libs \<Rightarrow> u64 \<Rightarrow> MemTable \<Rightarrow> LSMTreeEngine \<Rightarrow> unit engine_result" where
  "after_write L now m e =
     (let e = e\<lparr>eng_memtable := m, eng_total_writes := eng_total_writes e + 1\<rparr> in
      if op_memtable_size (eng_options e) \<le> tbl_size m then maybe_flush_memtable L now e else (e, Ok ()))"

definition engine_put :: "lsm_libs \<Rightarrow> u64 \<Rightarrow> bytes \<Rightarrow> bytes \<Rightarrow> LSMTreeEngine \<Rightarrow> unit engine_result" where
  "engine_put L now key val e =
     and_then (engine_append L [] LPut (lsm_encode_put key val) (op_durability (eng_options e)) e) (\<lambda>e _.
       let (e, commit_ts) = next_timestamp e
       in after_write L now (fst (tbl_put_committed (eng_memtable e) key val commit_ts)) e)"

definition engine_put_committed ::
  "lsm_libs \<Rightarrow> u64 \<Rightarrow> bytes \<Rightarrow> bytes \<Rightarrow> i64 \<Rightarrow> Durability \<Rightarrow> LSMTreeEngine \<Rightarrow> unit engine_result" where
  "engine_put_committed L now key val commit_ts durability e =
     and_then (engine_append L [] LPutCommitted (encode_put_committed key val commit_ts) durability e) (\<lambda>e _.
       after_write L now (fst (tbl_put_committed (eng_memtable e) key val commit_ts)) e)"

definition engine_delete :: "lsm_libs \<Rightarrow> u64 \<Rightarrow> bytes \<Rightarrow> LSMTreeEngine \<Rightarrow> unit engine_result" where
  "engine_delete L now key e =
     and_then (engine_append L [] LDelete (lsm_encode_delete key) (op_durability (eng_options e)) e) (\<lambda>e _.
       let (e, commit_ts) = next_timestamp e
       in after_write L now (fst (tbl_delete_committed (eng_memtable e) key commit_ts)) e)"

definition engine_delete_committed ::
  "lsm_libs \<Rightarrow> u64 \<Rightarrow> bytes \<Rightarrow> i64 \<Rightarrow> Durability \<Rightarrow> LSMTreeEngine \<Rightarrow> unit engine_result" where
  "engine_delete_committed L now key commit_ts durability e =
     and_then (engine_append L [] LDeleteCommitted (encode_delete_committed key commit_ts) durability e) (\<lambda>e _.
       after_write L now (fst (tbl_delete_committed (eng_memtable e) key commit_ts)) e)"

section \<open>Reads\<close>

definition resolve_value :: "lsm_libs \<Rightarrow> lsm_fs \<Rightarrow> ValueLocation \<Rightarrow> (KeyValueError, bytes) res" where
  "resolve_value L fs loc =
     (case loc of
        Inline data \<Rightarrow> Ok data
      | Blob r \<Rightarrow>
          (case fs_blob fs (blob_file_id r) of
             None \<Rightarrow> Err (StorageCorruption ''Failed to open blob file: PathMissing'')
           | Some d \<Rightarrow>
               map_err (\<lambda>x. StorageCorruption (''Failed to read blob: '' @ io_error_text x))
                 (snd (read_blob (ll_hash L) \<lparr>mem_buffer = d, mem_cursor = 0\<rparr> r))))"

definition entry_answer :: "lsm_libs \<Rightarrow> lsm_fs \<Rightarrow> Entry \<Rightarrow> (KeyValueError, bytes option) res" where
  "entry_answer L fs entry =
     (case e_value entry of Some loc \<Rightarrow> res_bind (resolve_value L fs loc) (\<lambda>v. Ok (Some v)) | None \<Rightarrow> Ok None)"

text \<open>
  Looking into one table. A file that cannot be opened and an error while reading are treated as the key
  being absent; a panic is not caught.
\<close>

definition probe_table :: "lsm_libs \<Rightarrow> LSMTreeEngine \<Rightarrow> bytes \<Rightarrow> SSTableMetadata \<Rightarrow> (KeyValueError, Entry option) res" where
  "probe_table L e key meta =
     (case fs_sst (eng_fs e) (sm_file_number meta) of
        None \<Rightarrow> Ok None
      | Some d \<Rightarrow>
          (case snd (SSTable_get (ll_hash L) (ll_codec L) \<lparr>mem_buffer = d, mem_cursor = 0\<rparr> key (op_integrity (eng_options e))) of
             Inr r \<Rightarrow> Ok r
           | Inl (Raised _) \<Rightarrow> Ok None
           | Inl Panicked \<Rightarrow> Inl Panicked
           | Inl Diverged \<Rightarrow> Inl Diverged))"

primrec search_level0 :: "lsm_libs \<Rightarrow> LSMTreeEngine \<Rightarrow> bytes \<Rightarrow> SSTableMetadata list \<Rightarrow> (KeyValueError, Entry option) res" where
  "search_level0 L e key [] = Ok None"
| "search_level0 L e key (meta # metas) =
     (if sm_min_key meta \<le> key \<and> key \<le> sm_max_key meta then
        res_bind (probe_table L e key meta) (\<lambda>r.
          case r of Some entry \<Rightarrow> Ok (Some entry) | None \<Rightarrow> search_level0 L e key metas)
      else search_level0 L e key metas)"

definition find_sstable :: "bytes \<Rightarrow> SSTableMetadata list \<Rightarrow> SSTableMetadata option" where
  "find_sstable key metas =
     (case binary_search_by (\<lambda>s. if key < sm_min_key s then Greater else if sm_max_key s < key then Less else Equal) metas of
        Inr i \<Rightarrow> Some (metas ! i)
      | Inl _ \<Rightarrow> None)"

primrec search_levels :: "lsm_libs \<Rightarrow> LSMTreeEngine \<Rightarrow> bytes \<Rightarrow> Level list \<Rightarrow> (KeyValueError, Entry option) res" where
  "search_levels L e key [] = Ok None"
| "search_levels L e key (level # levels) =
     (case find_sstable key (lv_sstables level) of
        None \<Rightarrow> search_levels L e key levels
      | Some meta \<Rightarrow>
          res_bind (probe_table L e key meta) (\<lambda>r.
            case r of Some entry \<Rightarrow> Ok (Some entry) | None \<Rightarrow> search_levels L e key levels))"

definition search_tables :: "lsm_libs \<Rightarrow> LSMTreeEngine \<Rightarrow> bytes \<Rightarrow> (KeyValueError, Entry option) res" where
  "search_tables L e key =
     (case eng_levels e of
        [] \<Rightarrow> Inl Panicked
      | level0 # levels \<Rightarrow>
          res_bind (search_level0 L e key (rev (lv_sstables level0))) (\<lambda>r.
            case r of Some entry \<Rightarrow> Ok (Some entry) | None \<Rightarrow> search_levels L e key levels))"

text \<open>The order of both read operations: the memtable, the memtable being flushed, the tables.\<close>

definition read_through ::
  "lsm_libs \<Rightarrow> (MemTable \<Rightarrow> Entry option) \<Rightarrow> LSMTreeEngine \<Rightarrow> bytes \<Rightarrow> (KeyValueError, bytes option) res" where
  "read_through L look e key =
     (case look (eng_memtable e) of
        Some entry \<Rightarrow> entry_answer L (eng_fs e) entry
      | None \<Rightarrow>
          (case Option.bind (eng_immutable e) look of
             Some entry \<Rightarrow> entry_answer L (eng_fs e) entry
           | None \<Rightarrow>
               res_bind (search_tables L e key) (\<lambda>r.
                 case r of Some entry \<Rightarrow> entry_answer L (eng_fs e) entry | None \<Rightarrow> Ok None)))"

definition engine_get :: "lsm_libs \<Rightarrow> bytes \<Rightarrow> LSMTreeEngine \<Rightarrow> bytes option engine_result" where
  "engine_get L key e =
     (let e = e\<lparr>eng_total_reads := eng_total_reads e + 1\<rparr> in (e, read_through L (\<lambda>m. tbl_get m key) e key))"

definition engine_get_at_snapshot :: "lsm_libs \<Rightarrow> bytes \<Rightarrow> i64 \<Rightarrow> LSMTreeEngine \<Rightarrow> bytes option engine_result" where
  "engine_get_at_snapshot L key snapshot_ts e =
     (let e = e\<lparr>eng_total_reads := eng_total_reads e + 1\<rparr>
      in (e, read_through L (\<lambda>m. tbl_get_at_snapshot m key snapshot_ts) e key))"

definition engine_commit_entry :: "bytes \<Rightarrow> i64 \<Rightarrow> LSMTreeEngine \<Rightarrow> unit engine_result" where
  "engine_commit_entry key commit_ts e =
     (case tbl_commit_entry (eng_memtable e) key commit_ts of
        (m, True) \<Rightarrow> (e\<lparr>eng_memtable := m\<rparr>, Ok ())
      | (m, False) \<Rightarrow> (e\<lparr>eng_immutable := map_option (\<lambda>m. fst (tbl_commit_entry m key commit_ts)) (eng_immutable e)\<rparr>, Ok ()))"

section \<open>Recovery\<close>

definition replay_record :: "MemTable \<times> i64 \<Rightarrow> WriteAheadLogEntry \<Rightarrow> (MemTable \<times> i64) \<times> (KeyValueError, unit) res" where
  "replay_record s entry =
     (case s of (m, ts) \<Rightarrow>
        (case lsm_kind_from_u16 (en_kind entry) of
           Some LPut \<Rightarrow>
             (case lsm_decode_put (en_payload entry) of
                Inl f \<Rightarrow> (s, Inl f)
              | Inr (key, val) \<Rightarrow> ((fst (tbl_put_committed m key val ts), ts + 1), Ok ()))
         | Some LPutCommitted \<Rightarrow>
             (case decode_put_committed (en_payload entry) of
                Inl f \<Rightarrow> (s, Inl f)
              | Inr (key, val, commit_ts) \<Rightarrow> ((fst (tbl_put_committed m key val commit_ts), ts), Ok ()))
         | Some LDelete \<Rightarrow>
             (case lsm_decode_delete (en_payload entry) of
                Inl f \<Rightarrow> (s, Inl f)
              | Inr key \<Rightarrow> ((fst (tbl_delete_committed m key ts), ts + 1), Ok ()))
         | Some LDeleteCommitted \<Rightarrow>
             (case decode_delete_committed (en_payload entry) of
                Inl f \<Rightarrow> (s, Inl f)
              | Inr (key, commit_ts) \<Rightarrow> ((fst (tbl_delete_committed m key commit_ts), ts), Ok ()))
         | _ \<Rightarrow> (s, Ok ())))"

text \<open>Every record read moves the reader, so the size of the file bounds the loop.\<close>

primrec lsm_replay_loop ::
  "nat \<Rightarrow> hash_lib \<Rightarrow> mem_file \<Rightarrow> WriteAheadLogReader \<Rightarrow> MemTable \<times> i64 \<Rightarrow> (MemTable \<times> i64) \<times> (KeyValueError, unit) res" where
  "lsm_replay_loop 0 H file rd s = (s, Inl Diverged)"
| "lsm_replay_loop (Suc fuel) H file rd s =
     (case reader_next H file rd of
        (rd', Inl (Raised x)) \<Rightarrow>
          (s, if sublist ''segment_id: 0, offset: 0'' (wal_error_text x) then Ok ()
              else Err (StorageCorruption (''WAL read error: '' @ wal_error_text x)))
      | (rd', Inl f) \<Rightarrow> (s, Inl (map_fault (\<lambda>x. StorageCorruption (wal_error_text x)) f))
      | (rd', Inr None) \<Rightarrow> (s, Ok ())
      | (rd', Inr (Some entry)) \<Rightarrow> and_then (replay_record s entry) (\<lambda>s _. lsm_replay_loop fuel H file rd' s))"

definition engine_recover_from_wal :: "lsm_libs \<Rightarrow> LSMTreeEngine \<Rightarrow> unit engine_result" where
  "engine_recover_from_wal L e =
     (case manager_reader_from (eng_wal e) LSN_ZERO of
        Inl f \<Rightarrow> (e, Inl (map_fault (\<lambda>x. StorageCorruption (''Failed to create WAL reader: '' @ wal_error_text x)) f))
      | Inr (file, rd) \<Rightarrow>
          (case lsm_replay_loop (length file + 1) (ll_hash L) file rd (eng_memtable e, eng_timestamp e) of
             ((m, ts), r) \<Rightarrow> (e\<lparr>eng_memtable := m, eng_timestamp := ts\<rparr>, r)))"

definition LSMTreeEngine_new ::
  "lsm_libs \<Rightarrow> lsm_fs \<Rightarrow> LSMTreeOptions \<Rightarrow> WriteAheadLogManager \<Rightarrow> i64 \<Rightarrow> unit engine_result" where
  "LSMTreeEngine_new L fs options wal ts =
     (let e = \<lparr>eng_options = options, eng_fs = fs, eng_wal = wal, eng_flushed_lsn = None, eng_memtable = MemTable_new,
               eng_immutable = None, eng_levels = map Level_new [0..<7], eng_next_file_number = 1,
               eng_flush_in_progress = False, eng_compaction_in_progress = False, eng_total_writes = 0,
               eng_total_reads = 0, eng_total_flushes = 0, eng_total_compactions = 0, eng_timestamp = ts\<rparr>
      in and_then (load_manifest L e) (\<lambda>e _. engine_recover_from_wal L e))"

text \<open>
  \<open>recover\<close>, a second entry point: it starts at the head of the log, ignores records it cannot decode, and
  ends at the first read error.
\<close>

definition recover_record :: "MemTable \<Rightarrow> WriteAheadLogEntry \<Rightarrow> MemTable" where
  "recover_record m entry =
     (case lsm_kind_from_u16 (en_kind entry) of
        Some LPut \<Rightarrow> (case lsm_decode_put (en_payload entry) of Inr (key, val) \<Rightarrow> fst (tbl_put m key val) | _ \<Rightarrow> m)
      | Some LDelete \<Rightarrow> (case lsm_decode_delete (en_payload entry) of Inr key \<Rightarrow> fst (tbl_delete m key) | _ \<Rightarrow> m)
      | Some LPutCommitted \<Rightarrow>
          (case decode_put_committed (en_payload entry) of Inr (key, val, ts) \<Rightarrow> fst (tbl_put_committed m key val ts) | _ \<Rightarrow> m)
      | Some LDeleteCommitted \<Rightarrow>
          (case decode_delete_committed (en_payload entry) of Inr (key, ts) \<Rightarrow> fst (tbl_delete_committed m key ts) | _ \<Rightarrow> m)
      | _ \<Rightarrow> m)"

definition engine_recover :: "lsm_libs \<Rightarrow> LSMTreeEngine \<Rightarrow> unit engine_result" where
  "engine_recover L e =
     (case manager_reader_from (eng_wal e) (manager_head_lsn (eng_wal e)) of
        Inl f \<Rightarrow> (e, Inl (map_fault (\<lambda>x. StorageCorruption (wal_error_text x)) f))
      | Inr (file, rd) \<Rightarrow>
          (case read_all (ll_hash L) file rd of
             (entries, r) \<Rightarrow>
               (e\<lparr>eng_memtable := foldl recover_record (eng_memtable e) entries\<rparr>,
                case r of Inl Panicked \<Rightarrow> Inl Panicked | Inl Diverged \<Rightarrow> Inl Diverged | _ \<Rightarrow> Ok ())))"

section \<open>Administration\<close>

definition engine_flush :: "lsm_libs \<Rightarrow> u64 \<Rightarrow> LSMTreeEngine \<Rightarrow> unit engine_result" where
  "engine_flush L now e = maybe_flush_memtable L now e"

definition engine_compact :: "lsm_libs \<Rightarrow> u64 \<Rightarrow> LSMTreeEngine \<Rightarrow> unit engine_result" where
  "engine_compact L now e = maybe_compact L now e"

definition engine_clear :: "lsm_libs \<Rightarrow> LSMTreeEngine \<Rightarrow> unit engine_result" where
  "engine_clear L e =
     (let metas = concat (map lv_sstables (eng_levels e));
          e = e\<lparr>eng_memtable := tbl_clear (eng_memtable e), eng_immutable := None,
                eng_fs := (eng_fs e)\<lparr>fs_sst := fold (\<lambda>m files. files(sm_file_number m := None)) metas (fs_sst (eng_fs e))\<rparr>,
                eng_levels := map (\<lambda>l. l\<lparr>lv_sstables := [], lv_total_size := 0\<rparr>) (eng_levels e)\<rparr>
      in and_then (save_manifest L e) (\<lambda>e _.
           (e\<lparr>eng_wal := fst (manager_truncate_before (ll_remove L) (eng_wal e) (manager_head_lsn (eng_wal e)))\<rparr>, Ok ())))"

record EngineStats =
  es_memtable_size :: u64
  es_immutable_memtable_size :: u64
  es_total_writes :: u64
  es_total_reads :: u64
  es_total_flushes :: u64
  es_total_compactions :: u64
  es_levels :: "(nat \<times> nat \<times> u64) list"

definition engine_stats :: "LSMTreeEngine \<Rightarrow> EngineStats" where
  "engine_stats e =
     \<lparr>es_memtable_size = tbl_size (eng_memtable e),
      es_immutable_memtable_size = (case eng_immutable e of None \<Rightarrow> 0 | Some m \<Rightarrow> tbl_size m),
      es_total_writes = eng_total_writes e, es_total_reads = eng_total_reads e, es_total_flushes = eng_total_flushes e,
      es_total_compactions = eng_total_compactions e,
      es_levels = map (\<lambda>l. (lv_number l, length (lv_sstables l), lv_total_size l)) (eng_levels e)\<rparr>"

end
