(* ===== verification/Lsm_Recovery.thy ===== *)
theory Lsm_Recovery
  imports Lsm_Engine
begin

text \<open>
  Recovery of the LSM engine: whatever sequence of calls the engine executed, with the flushes and
  compactions they caused, its log holds one record per write in order, and starting an engine on the
  log and the files left behind answers every lookup with the last write of the key.
\<close>

section \<open>Records of the log\<close>

datatype lsm_log_op =
    RPut bytes bytes
  | RDelete bytes
  | RPutCommitted bytes bytes i64
  | RDeleteCommitted bytes i64
  | RCheckpoint u64 u64
  | RFlushed u64 u32

fun lsm_op_record :: "lsm_log_op \<Rightarrow> WriteAheadLogRecord" where
  "lsm_op_record (RPut k v) = \<lparr>wr_kind = lsm_kind_to_u16 LPut, wr_payload = lsm_encode_put k v\<rparr>"
| "lsm_op_record (RDelete k) = \<lparr>wr_kind = lsm_kind_to_u16 LDelete, wr_payload = lsm_encode_delete k\<rparr>"
| "lsm_op_record (RPutCommitted k v ts) =
     \<lparr>wr_kind = lsm_kind_to_u16 LPutCommitted, wr_payload = encode_put_committed k v ts\<rparr>"
| "lsm_op_record (RDeleteCommitted k ts) =
     \<lparr>wr_kind = lsm_kind_to_u16 LDeleteCommitted, wr_payload = encode_delete_committed k ts\<rparr>"
| "lsm_op_record (RCheckpoint s n) = \<lparr>wr_kind = lsm_kind_to_u16 LCheckpoint, wr_payload = encode_checkpoint s n\<rparr>"
| "lsm_op_record (RFlushed n l) = \<lparr>wr_kind = lsm_kind_to_u16 LFlushComplete, wr_payload = encode_flush_complete n l\<rparr>"

fun lsm_op_key :: "lsm_log_op \<Rightarrow> bytes set" where
  "lsm_op_key (RPut k v) = {k}"
| "lsm_op_key (RDelete k) = {k}"
| "lsm_op_key (RPutCommitted k v ts) = {k}"
| "lsm_op_key (RDeleteCommitted k ts) = {k}"
| "lsm_op_key _ = {}"

fun lsm_op_effect :: "lsm_log_op \<Rightarrow> (bytes \<Rightarrow> bytes option) \<Rightarrow> bytes \<Rightarrow> bytes option" where
  "lsm_op_effect (RPut k v) m = m(k \<mapsto> v)"
| "lsm_op_effect (RDelete k) m = m(k := None)"
| "lsm_op_effect (RPutCommitted k v ts) m = m(k \<mapsto> v)"
| "lsm_op_effect (RDeleteCommitted k ts) m = m(k := None)"
| "lsm_op_effect _ m = m"

fun lsm_op_fits :: "lsm_log_op \<Rightarrow> bool" where
  "lsm_op_fits (RPut k v) \<longleftrightarrow> 16 + length k + length v < 2 ^ 32"
| "lsm_op_fits (RDelete k) \<longleftrightarrow> 16 + length k < 2 ^ 32"
| "lsm_op_fits (RPutCommitted k v ts) \<longleftrightarrow> 16 + length k + length v < 2 ^ 32"
| "lsm_op_fits (RDeleteCommitted k ts) \<longleftrightarrow> 16 + length k < 2 ^ 32"
| "lsm_op_fits _ \<longleftrightarrow> True"

definition lsm_op_keys :: "lsm_log_op list \<Rightarrow> bytes set" where
  "lsm_op_keys xs = (\<Union>x \<in> set xs. lsm_op_key x)"

lemma lsm_op_keys_simps [simp]:
  "lsm_op_keys [] = {}" "lsm_op_keys (x # xs) = lsm_op_key x \<union> lsm_op_keys xs"
  "lsm_op_keys (xs @ ys) = lsm_op_keys xs \<union> lsm_op_keys ys"
  by (simp_all add: lsm_op_keys_def)

lemma lsm_op_readable: "lsm_op_fits op \<Longrightarrow> readable (lsm_op_record op)"
  by (cases op) (simp_all add: readable_def lsm_encode_put_def put_layout_def lsm_encode_delete_def delete_layout_def
      encode_put_committed_def encode_delete_committed_def encode_checkpoint_def encode_flush_complete_def i64_bytes_def)

lemma lsm_kind_roundtrip: "lsm_kind_from_u16 (lsm_kind_to_u16 kind) = Some kind"
  by (cases kind) simp_all

section \<open>Replay\<close>

text \<open>The memtable a log leads to: it has an entry exactly for the keys written, with their last values.\<close>

definition mem_holds :: "MemTable \<Rightarrow> lsm_log_op list \<Rightarrow> bool" where
  "mem_holds m xs \<longleftrightarrow> memtable_ok m \<and> (\<forall>k. map_option e_value (tbl_get m k) =
     (if k \<in> lsm_op_keys xs then Some (map_option Inline (fold lsm_op_effect xs Map.empty k)) else None))"

lemma mem_holds_new: "mem_holds MemTable_new []"
  by (simp add: mem_holds_def memtable_ok_new) (simp add: tbl_get_def MemTable_new_def)

lemma mem_holds_write:
  assumes "mem_holds m xs" "lsm_op_key op = {k}" "lsm_op_effect op (fold lsm_op_effect xs Map.empty) = (fold lsm_op_effect xs Map.empty)(k := v)"
    and "\<And>s. e_value (entry s) = map_option Inline v" "\<And>s. e_key (entry s) = k"
  shows "mem_holds (fst (tbl_write m k entry)) (xs @ [op])"
  using assms by (simp add: mem_holds_def tbl_write_get tbl_write_ok del: map_option_eq_Some)

lemma mem_holds_marker:
  "mem_holds m xs \<Longrightarrow> lsm_op_key op = {} \<Longrightarrow> mem_holds m (xs @ [op])"
  by (cases op) (simp_all add: mem_holds_def)

lemma replay_record_op:
  assumes "lsm_op_fits op" "mem_holds m xs"
  shows "\<exists>m' ts'. replay_record (m, ts) (entry_of seg off (lsm_op_record op)) = ((m', ts'), Ok ()) \<and> mem_holds m' (xs @ [op])"
proof (cases op)
  case (RPut k v)
  then have "lsm_decode_put (lsm_encode_put k v) = Ok (k, v)"
    using lsm_put.decode_exact [of "(k, v)"] assms(1) by (simp add: short_def)
  moreover have "mem_holds (fst (tbl_put_committed m k v ts)) (xs @ [op])"
    unfolding tbl_put_committed_def by (rule mem_holds_write [OF assms(2), where v = "Some v"]) (simp_all add: RPut Entry_with_commit_ts_def)
  ultimately show ?thesis using RPut
    by (simp add: replay_record_def entry_of_def lsm_kind_roundtrip del: lsm_kind_from_u16.simps lsm_kind_to_u16.simps)
next
  case (RDelete k)
  then have "lsm_decode_delete (lsm_encode_delete k) = Ok k"
    using lsm_delete.decode_exact [of k] assms(1) by (simp add: short_def)
  moreover have "mem_holds (fst (tbl_delete_committed m k ts)) (xs @ [op])"
    unfolding tbl_delete_committed_def by (rule mem_holds_write [OF assms(2), where v = "None"]) (simp_all add: RDelete Entry_with_commit_ts_def)
  ultimately show ?thesis using RDelete
    by (simp add: replay_record_def entry_of_def lsm_kind_roundtrip del: lsm_kind_from_u16.simps lsm_kind_to_u16.simps)
next
  case (RPutCommitted k v cts)
  then have "decode_put_committed (encode_put_committed k v cts) = Ok (k, v, cts)"
    using lsm_put_committed.decode_exact [of "(k, v, cts)"] assms(1) by (simp add: short_def)
  moreover have "mem_holds (fst (tbl_put_committed m k v cts)) (xs @ [op])"
    unfolding tbl_put_committed_def by (rule mem_holds_write [OF assms(2), where v = "Some v"]) (simp_all add: RPutCommitted Entry_with_commit_ts_def)
  ultimately show ?thesis using RPutCommitted
    by (simp add: replay_record_def entry_of_def lsm_kind_roundtrip del: lsm_kind_from_u16.simps lsm_kind_to_u16.simps)
next
  case (RDeleteCommitted k cts)
  then have "decode_delete_committed (encode_delete_committed k cts) = Ok (k, cts)"
    using lsm_delete_committed.decode_exact [of "(k, cts)"] assms(1) by (simp add: short_def)
  moreover have "mem_holds (fst (tbl_delete_committed m k cts)) (xs @ [op])"
    unfolding tbl_delete_committed_def by (rule mem_holds_write [OF assms(2), where v = "None"]) (simp_all add: RDeleteCommitted Entry_with_commit_ts_def)
  ultimately show ?thesis using RDeleteCommitted
    by (simp add: replay_record_def entry_of_def lsm_kind_roundtrip del: lsm_kind_from_u16.simps lsm_kind_to_u16.simps)
qed (use mem_holds_marker [OF assms(2), of op] in
  \<open>simp_all add: replay_record_def entry_of_def lsm_kind_roundtrip del: lsm_kind_from_u16.simps lsm_kind_to_u16.simps\<close>)

lemma lsm_replay_log:
  assumes "\<forall>op \<in> set ys. lsm_op_fits op" "mem_holds m xs" "rd_offset rd = length pre" "length ys < fuel"
    and "file = pre @ log_image H (rd_integrity rd) (map lsm_op_record ys)"
  shows "\<exists>m' ts'. lsm_replay_loop fuel H file rd (m, ts) = ((m', ts'), Ok ()) \<and> mem_holds m' (xs @ ys)"
  using assms
proof (induction ys arbitrary: m ts xs rd pre fuel)
  case Nil
  then obtain n where "fuel = Suc n" by (cases fuel) auto
  with Nil show ?case by (simp add: reader_next_end log_image_def)
next
  case (Cons op ys)
  let ?img = "record_image H (rd_integrity rd) (lsm_op_record op)"
  let ?rd = "rd\<lparr>rd_offset := length (pre @ ?img)\<rparr>"
  obtain n where n: "fuel = Suc n" "length ys < n" using Cons.prems(4) by (cases fuel) auto
  have split: "file = pre @ ?img @ log_image H (rd_integrity rd) (map lsm_op_record ys)"
    using Cons.prems(5) by (simp add: log_image_def)
  have next_rec: "reader_next H file rd = (?rd, Ok (Some (entry_of (rd_segment_id rd) (length pre) (lsm_op_record op))))"
    using reader_next_record [OF split Cons.prems(3)] Cons.prems(1) lsm_op_readable by simp
  obtain m1 ts1 where m1: "replay_record (m, ts) (entry_of (rd_segment_id rd) (length pre) (lsm_op_record op)) = ((m1, ts1), Ok ())"
    "mem_holds m1 (xs @ [op])" using replay_record_op [OF _ Cons.prems(2)] Cons.prems(1) by (metis list.set_intros(1))
  have "\<exists>m' ts'. lsm_replay_loop n H file ?rd (m1, ts1) = ((m', ts'), Ok ()) \<and> mem_holds m' ((xs @ [op]) @ ys)"
    by (rule Cons.IH [where pre = "pre @ ?img"]) (use Cons.prems(1) m1(2) n split in simp_all)
  with next_rec m1 n show ?case by auto
qed

section \<open>The invariant of a running engine\<close>

definition serializes :: "json_lib \<Rightarrow> bool" where
  "serializes J \<longleftrightarrow> (\<forall>ms. \<exists>d. json_write J ms = Inr d \<and> json_read J d = Inr ms)"

definition lsm_log :: "lsm_libs \<Rightarrow> LSMTreeEngine \<Rightarrow> lsm_log_op list \<Rightarrow> bool" where
  "lsm_log L e xs \<longleftrightarrow> wm_archived (eng_wal e) = [] \<and> (\<forall>op \<in> set xs. lsm_op_fits op) \<and>
     (\<exists>h. wal_holds (ll_hash L) h (wm_active (eng_wal e)) (map lsm_op_record xs) \<and> sh_segment_id h = 0)"

definition lsm_core :: "lsm_libs \<Rightarrow> LSMTreeEngine \<Rightarrow> lsm_log_op list \<Rightarrow> bool" where
  "lsm_core L e xs \<longleftrightarrow> lsm_log L e xs \<and> files_ok (ll_hash L) (ll_codec L) (lsm_op_keys xs) (fs_sst (eng_fs e)) \<and>
     (\<forall>d. fs_manifest (eng_fs e) = Some d \<longrightarrow> (\<exists>ms. json_read (ll_json L) d = Inr ms)) \<and> eng_levels e \<noteq> []"

text \<open>What the internal steps do not touch.\<close>

definition lsm_frame :: "LSMTreeEngine \<Rightarrow> LSMTreeEngine \<Rightarrow> bool" where
  "lsm_frame e e' \<longleftrightarrow> eng_memtable e' = eng_memtable e \<and> eng_immutable e' = eng_immutable e \<and>
     eng_options e' = eng_options e \<and> eng_flush_in_progress e' = eng_flush_in_progress e \<and>
     eng_compaction_in_progress e' = eng_compaction_in_progress e"

lemma lsm_frame_refl [simp]: "lsm_frame e e"
  by (simp add: lsm_frame_def)

lemma lsm_frame_trans: "lsm_frame e e1 \<Longrightarrow> lsm_frame e1 e2 \<Longrightarrow> lsm_frame e e2"
  by (simp add: lsm_frame_def)

definition libs_ok :: "lsm_libs \<Rightarrow> LSMTreeOptions \<Rightarrow> bool" where
  "libs_ok L opt \<longleftrightarrow> lossless (ll_codec L) \<and> compresses (ll_codec L) (op_compression opt) \<and> serializes (ll_json L) \<and>
     op_block_size opt < 2 ^ 26 \<and> unat (op_memtable_size opt) \<le> 2 ^ 35"

lemma files_ok_mono: "files_ok H C ks files \<Longrightarrow> ks \<subseteq> ks' \<Longrightarrow> files_ok H C ks' files"
  unfolding files_ok_def by (meson subset_trans)

lemma files_ok_remove: "files_ok H C ks files \<Longrightarrow> files_ok H C ks (fold (\<lambda>m files. files(sm_file_number m := None)) ms files)"
proof (induction ms arbitrary: files)
  case (Cons m ms)
  then have "files_ok H C ks (files(sm_file_number m := None))" by (auto simp: files_ok_def)
  from Cons.IH [OF this] show ?case by (simp only: fold_simps)
qed simp

lemma append_core:
  assumes "lsm_core L e xs" "lsm_op_fits op" "lsm_op_record op = \<lparr>wr_kind = lsm_kind_to_u16 kind, wr_payload = payload\<rparr>"
  obtains w where "engine_append L msg kind payload dur e = (e\<lparr>eng_wal := w\<rparr>, Ok ())"
    "lsm_core L (e\<lparr>eng_wal := w\<rparr>) (xs @ [op])"
proof -
  obtain h where h: "wal_holds (ll_hash L) h (wm_active (eng_wal e)) (map lsm_op_record xs)" "sh_segment_id h = 0"
    "wm_archived (eng_wal e) = []" "\<forall>op \<in> set xs. lsm_op_fits op" using assms(1) by (auto simp: lsm_core_def lsm_log_def)
  from append_holds [OF h(1), of "lsm_op_record op"] obtain f where
    f: "walfile_append (ll_hash L) (wm_active (eng_wal e)) (lsm_op_record op) = (f, Ok (walfile_tail_lsn (wm_active (eng_wal e))))"
      "wal_holds (ll_hash L) h f (map lsm_op_record xs @ [lsm_op_record op])" by blast
  let ?w = "(eng_wal e)\<lparr>wm_active := f\<rparr>"
  have "engine_append L msg kind payload dur e = (e\<lparr>eng_wal := ?w\<rparr>, Ok ())"
    using f(1) by (simp add: engine_append_def writer_append_def assms(3))
  moreover have "lsm_core L (e\<lparr>eng_wal := ?w\<rparr>) (xs @ [op])"
    using assms(1,2) h f(2) files_ok_mono [of "ll_hash L" "ll_codec L" "lsm_op_keys xs" "fs_sst (eng_fs e)" "lsm_op_keys (xs @ [op])"]
    by (auto simp: lsm_core_def lsm_log_def)
  ultimately show thesis by (rule that)
qed

lemma save_manifest_core:
  assumes "lsm_core L e xs" "serializes (ll_json L)"
  obtains d where "save_manifest L e = (e\<lparr>eng_fs := (eng_fs e)\<lparr>fs_manifest := Some d\<rparr>\<rparr>, Ok ())"
    "lsm_core L (e\<lparr>eng_fs := (eng_fs e)\<lparr>fs_manifest := Some d\<rparr>\<rparr>) xs"
proof -
  obtain d where "json_write (ll_json L) (manifest_of (eng_levels e)) = Inr d" "json_read (ll_json L) d = Inr (manifest_of (eng_levels e))"
    using assms(2) unfolding serializes_def by blast
  with assms(1) show thesis by (intro that [of d]) (simp_all add: save_manifest_def lsm_core_def lsm_log_def)
qed

lemma rotate_wal_core:
  assumes "lsm_core L e xs"
  shows "rotate_wal L e = (e\<lparr>eng_flushed_lsn := Some (manager_tail_lsn (eng_wal e))\<rparr>, Ok ())"
proof -
  have "wm_archived (eng_wal e) = []" using assms by (simp add: lsm_core_def lsm_log_def)
  moreover have "(eng_wal e)\<lparr>wm_archived := []\<rparr> = eng_wal e" using calculation by simp
  ultimately show ?thesis by (simp add: rotate_wal_def manager_truncate_before_def Let_def)
qed

lemma lsm_core_frame:
  "lsm_core L e xs \<Longrightarrow> eng_wal e' = eng_wal e \<Longrightarrow> fs_manifest (eng_fs e') = fs_manifest (eng_fs e) \<Longrightarrow>
   files_ok (ll_hash L) (ll_codec L) (lsm_op_keys xs) (fs_sst (eng_fs e')) \<Longrightarrow> eng_levels e' \<noteq> [] \<Longrightarrow> lsm_core L e' xs"
  by (simp add: lsm_core_def lsm_log_def)

lemma install_compaction_core:
  assumes "lsm_core L e xs" "serializes (ll_json L)"
  shows "lsm_core L (fst (install_compaction L task metas e)) xs \<and> lsm_frame e (fst (install_compaction L task metas e))"
proof (cases "ct_source task \<noteq> [] \<and> length (eng_levels e) \<le> ct_source_level task \<or>
    (ct_target task \<noteq> [] \<or> metas \<noteq> []) \<and> length (eng_levels e) \<le> ct_target_level task")
  case False
  define l1 where "l1 = (eng_levels e)[ct_source_level task :=
    fold (\<lambda>m. remove_sstable (sm_file_number m)) (ct_source task) (eng_levels e ! ct_source_level task)]"
  define l2 where "l2 = l1[ct_target_level task := fold (\<lambda>m. remove_sstable (sm_file_number m)) (ct_target task) (l1 ! ct_target_level task)]"
  define l3 where "l3 = l2[ct_target_level task := fold add_sstable metas (l2 ! ct_target_level task)]"
  have eq: "install_compaction L task metas e =
      and_then (save_manifest L (e\<lparr>eng_levels := l3\<rparr>)) (\<lambda>e _.
        (e\<lparr>eng_fs := (eng_fs e)\<lparr>fs_sst := fold (\<lambda>m files. files(sm_file_number m := None))
           (ct_source task @ ct_target task) (fs_sst (eng_fs e))\<rparr>\<rparr>, Ok ()))"
    unfolding install_compaction_def Let_def l3_def l2_def l1_def by (simp only: False if_False)
  have "lsm_core L (e\<lparr>eng_levels := l3\<rparr>) xs" using assms(1) by (simp add: lsm_core_def lsm_log_def l3_def l2_def l1_def)
  from save_manifest_core [OF this assms(2)] obtain d where
    d: "save_manifest L (e\<lparr>eng_levels := l3\<rparr>) = (e\<lparr>eng_levels := l3, eng_fs := (eng_fs e)\<lparr>fs_manifest := Some d\<rparr>\<rparr>, Ok ())"
    "lsm_core L (e\<lparr>eng_levels := l3, eng_fs := (eng_fs e)\<lparr>fs_manifest := Some d\<rparr>\<rparr>) xs" by auto
  have "files_ok (ll_hash L) (ll_codec L) (lsm_op_keys xs) (fold (\<lambda>m files. files(sm_file_number m := None))
    (ct_source task @ ct_target task) (fs_sst (eng_fs e)))"
    by (rule files_ok_remove) (use assms(1) in \<open>simp add: lsm_core_def\<close>)
  with d(2) show ?thesis unfolding eq d(1) and_then_simps
    by (simp add: lsm_frame_def lsm_core_def lsm_log_def del: fold_append fun_upd_apply)
qed (use assms(1) in \<open>simp add: install_compaction_def Let_def\<close>)

lemma compact_level_core:
  assumes "lsm_core L e xs" "libs_ok L (eng_options e)"
  shows "lsm_core L (fst (compact_level L now e)) xs \<and> lsm_frame e (fst (compact_level L now e))"
proof -
  define e0 where "e0 = e\<lparr>eng_total_compactions := eng_total_compactions e + 1\<rparr>"
  have e0: "lsm_core L e0 xs" "lsm_frame e e0" "eng_options e0 = eng_options e"
    using assms(1) by (simp_all add: e0_def lsm_frame_def lsm_core_def lsm_log_def)
  let ?x = "\<lparr>ce_block_size = op_block_size (eng_options e0), ce_compression = op_compression (eng_options e0), ce_integrity = op_integrity (eng_options e0)\<rparr>"
  show ?thesis
  proof (cases "select_compaction CompactionStrategy_default (map lv_sstables (eng_levels e0)) (op_memtable_size (eng_options e0))")
    case (Inl f)
    then have "compact_level L now e = (e0, Inl f)" by (simp add: compact_level_def Let_def e0_def)
    with e0 show ?thesis by simp
  next
    case (Inr t)
    show ?thesis
    proof (cases t)
      case None
      with Inr have "compact_level L now e = (e0, Ok ())" by (simp add: compact_level_def Let_def e0_def)
      with e0 show ?thesis by simp
    next
      case (Some task)
      obtain files nx r where x: "compaction_execute (ll_hash L) (ll_codec L) now ?x task (fs_sst (eng_fs e0), eng_next_file_number e0) = ((files, nx), r)"
        by (metis surj_pair)
      have files: "files_ok (ll_hash L) (ll_codec L) (lsm_op_keys xs) files"
        using compaction_execute_ok [of "ll_codec L" ?x "ll_hash L" "lsm_op_keys xs" "(fs_sst (eng_fs e0), eng_next_file_number e0)" now task]
          assms(2) e0 x by (simp add: libs_ok_def lsm_core_def)
      let ?e = "e0\<lparr>eng_fs := (eng_fs e0)\<lparr>fs_sst := files\<rparr>\<rparr>"
      have "compact_level L now e = (case r of Inl f \<Rightarrow> (?e, Inl f) | Inr metas \<Rightarrow> install_compaction L task metas (?e\<lparr>eng_next_file_number := nx\<rparr>))"
        using Inr Some x by (simp add: compact_level_def Let_def e0_def split: sum.split)
      moreover have "lsm_core L ?e xs" "lsm_core L (?e\<lparr>eng_next_file_number := nx\<rparr>) xs"
        using e0(1) files by (simp_all add: lsm_core_def lsm_log_def)
      moreover have "lsm_frame e ?e" "lsm_frame e (?e\<lparr>eng_next_file_number := nx\<rparr>)" using e0(2) by (simp_all add: lsm_frame_def)
      ultimately show ?thesis
        using install_compaction_core [of L "?e\<lparr>eng_next_file_number := nx\<rparr>" xs task] assms(2) lsm_frame_trans
        by (cases r) (auto simp: libs_ok_def)
    qed
  qed
qed

lemma maybe_compact_core:
  assumes "lsm_core L e xs" "libs_ok L (eng_options e)" "maybe_compact L now e = (e', r)" "r \<noteq> Inl Panicked" "\<not> eng_compaction_in_progress e"
  shows "lsm_core L e' xs \<and> lsm_frame e e'"
proof -
  let ?e = "e\<lparr>eng_compaction_in_progress := True\<rparr>"
  obtain e1 where e1: "compact_if_needed L now ?e = (e1, r)" "e' = e1\<lparr>eng_compaction_in_progress := False\<rparr>"
    using assms(3-5) by (auto simp: maybe_compact_def split: prod.splits if_splits)
  have core: "lsm_core L ?e xs" using assms(1) by (simp add: lsm_core_def lsm_log_def)
  have "lsm_core L e1 xs \<and> lsm_frame ?e e1"
    using e1(1) compact_level_core [OF core, of now] core assms(2) by (auto simp: compact_if_needed_def split: if_splits)
  then show ?thesis using assms(5) unfolding e1(2) by (simp add: lsm_core_def lsm_log_def lsm_frame_def)
qed

section \<open>Flush\<close>

abbreviation markers :: "lsm_log_op list \<Rightarrow> bool" where
  "markers ys \<equiv> list_all (\<lambda>y. lsm_op_key y = {}) ys"

lemma markers_effect: "markers ys \<Longrightarrow> fold lsm_op_effect ys m = m" "markers ys \<Longrightarrow> lsm_op_keys ys = {}"
proof -
  have "lsm_op_effect y m = m" if "lsm_op_key y = {}" for y m using that by (cases y) simp_all
  then show "markers ys \<Longrightarrow> fold lsm_op_effect ys m = m" by (induction ys) simp_all
  show "markers ys \<Longrightarrow> lsm_op_keys ys = {}" by (induction ys) simp_all
qed

definition mem_ready :: "bytes set \<Rightarrow> MemTable \<Rightarrow> bool" where
  "mem_ready ks m \<longleftrightarrow> memtable_ok m \<and> fst ` set (tbl_data m) \<subseteq> ks \<and> list_all entry_small (tbl_entries m) \<and>
     (\<Sum>e \<leftarrow> tbl_entries m. entry_size e) < 2 ^ 36"

lemma memtable_keys: "memtable_ok m \<Longrightarrow> map e_key (tbl_entries m) = map fst (tbl_data m)"
  by (auto simp: memtable_ok_def tbl_entries_def)

lemma mem_ready_table:
  assumes "mem_ready ks m" "tbl_data m \<noteq> []"
  shows "table_small (tbl_entries m)" "sorted_wrt (<) (map e_key (tbl_entries m))" "e_key ` set (tbl_entries m) \<subseteq> ks" "tbl_entries m \<noteq> []"
proof -
  have ok: "memtable_ok m" "fst ` set (tbl_data m) \<subseteq> ks" using assms(1) by (simp_all add: mem_ready_def)
  show "table_small (tbl_entries m)" using assms(1) by (intro batch_small) (auto simp: mem_ready_def)
  show "sorted_wrt (<) (map e_key (tbl_entries m))" using ok(1) unfolding memtable_keys [OF ok(1)] by (simp add: memtable_ok_def)
  show "e_key ` set (tbl_entries m) \<subseteq> ks" using ok(2) memtable_keys [OF ok(1)] by (metis list.set_map)
  show "tbl_entries m \<noteq> []" using assms(2) by (simp add: tbl_entries_def)
qed

abbreviation flush_table :: "lsm_libs \<Rightarrow> u64 \<Rightarrow> LSMTreeEngine \<Rightarrow> MemTable \<Rightarrow> MemoryFile \<times> (io_error, SSTableMetadata) res" where
  "flush_table L now e m \<equiv> SSTable_create (ll_hash L) (ll_codec L) now empty_file (tbl_entries m) (eng_next_file_number e) 0
     (op_block_size (eng_options e)) (op_compression (eng_options e))"

lemma flush_fits:
  assumes "eng_immutable e = Some m" "tbl_data m \<noteq> []" "snd (flush_immutable_memtable L now e) \<noteq> Inl Panicked"
  shows "length (mem_buffer (fst (flush_table L now e m))) < 2 ^ 63"
  using assms by (cases "flush_table L now e m") (auto simp: flush_immutable_memtable_def Let_def not_le split: if_splits)

text \<open>A flush of a memtable that is not empty, up to the compaction it may cause.\<close>

lemma flush_run:
  assumes core: "lsm_core L e xs" and libs: "libs_ok L (eng_options e)" and m: "eng_immutable e = Some m" "mem_ready (lsm_op_keys xs) m"
    and fits: "length (mem_buffer (fst (flush_table L now e m))) < 2 ^ 63" and False: "tbl_data m \<noteq> []"
  obtains f meta w d ys lsn e4 where "flush_immutable_memtable L now e = maybe_compact L now e4"
    "SSTable_create (ll_hash L) (ll_codec L) now empty_file (tbl_entries m) (eng_next_file_number e) 0
      (op_block_size (eng_options e)) (op_compression (eng_options e)) = (f, Ok meta)" "length (mem_buffer f) < 2 ^ 63"
    "e4 = e\<lparr>eng_next_file_number := eng_next_file_number e + 1,
       eng_fs := (eng_fs e)\<lparr>fs_sst := (fs_sst (eng_fs e))(eng_next_file_number e \<mapsto> mem_buffer f), fs_manifest := Some d\<rparr>,
       eng_wal := w, eng_levels := (eng_levels e)[0 := add_sstable meta (eng_levels e ! 0)],
       eng_total_flushes := eng_total_flushes e + 1, eng_flushed_lsn := Some lsn\<rparr>"
    "markers ys" "lsm_core L e4 (xs @ ys)"
proof -
  note table = mem_ready_table [OF m(2) False]
  let ?n = "eng_next_file_number e" and ?opt = "eng_options e"
  have "compresses (ll_codec L) (op_compression ?opt)" "length (tbl_entries m) < 2 ^ 32"
    using libs table(1) by (simp_all add: libs_ok_def table_small_def)
  from SSTable_create_total [OF compresses_total [OF this(1)] table(4) this(2)] obtain f meta where
    f: "SSTable_create (ll_hash L) (ll_codec L) now empty_file (tbl_entries m) ?n 0 (op_block_size ?opt) (op_compression ?opt) = (f, Ok meta)" .
  have len: "length (mem_buffer f) < 2 ^ 63" using fits f by simp
  define e1 where "e1 = e\<lparr>eng_next_file_number := ?n + 1, eng_fs := (eng_fs e)\<lparr>fs_sst := (fs_sst (eng_fs e))(?n \<mapsto> mem_buffer f)\<rparr>\<rparr>"
  have "files_ok (ll_hash L) (ll_codec L) (lsm_op_keys xs) ((fs_sst (eng_fs e))(?n \<mapsto> mem_buffer f))"
    using core is_table_create(1) [OF f table(1,2) len] table(3) by (auto simp: lsm_core_def files_ok_def)
  then have e1: "lsm_core L e1 xs" using core by (simp add: e1_def lsm_core_def lsm_log_def)
  have "lsm_op_fits (RCheckpoint (tbl_sequence m) ?n)" "lsm_op_record (RCheckpoint (tbl_sequence m) ?n) =
    \<lparr>wr_kind = lsm_kind_to_u16 LCheckpoint, wr_payload = encode_checkpoint (tbl_sequence m) ?n\<rparr>" by simp_all
  from append_core [OF e1 this] obtain w1 where w1: "write_checkpoint L (tbl_sequence m) ?n e1 = (e1\<lparr>eng_wal := w1\<rparr>, Ok ())"
    "lsm_core L (e1\<lparr>eng_wal := w1\<rparr>) (xs @ [RCheckpoint (tbl_sequence m) ?n])" unfolding write_checkpoint_def by metis
  define e2 where "e2 = e1\<lparr>eng_wal := w1, eng_levels := (eng_levels e1)[0 := add_sstable meta (eng_levels e1 ! 0)]\<rparr>"
  have e2: "lsm_core L e2 (xs @ [RCheckpoint (tbl_sequence m) ?n])" using w1(2) by (simp add: e2_def lsm_core_def lsm_log_def)
  have "lsm_op_fits (RFlushed ?n 0)" "lsm_op_record (RFlushed ?n 0) =
    \<lparr>wr_kind = lsm_kind_to_u16 LFlushComplete, wr_payload = encode_flush_complete ?n 0\<rparr>" by simp_all
  from append_core [OF e2 this] obtain w2 where w2: "write_flush_complete L ?n 0 e2 = (e2\<lparr>eng_wal := w2\<rparr>, Ok ())"
    "lsm_core L (e2\<lparr>eng_wal := w2\<rparr>) ((xs @ [RCheckpoint (tbl_sequence m) ?n]) @ [RFlushed ?n 0])" unfolding write_flush_complete_def by metis
  let ?ys = "[RCheckpoint (tbl_sequence m) ?n, RFlushed ?n 0]"
  define e3 where "e3 = e2\<lparr>eng_wal := w2, eng_total_flushes := eng_total_flushes e2 + 1\<rparr>"
  have e3: "lsm_core L e3 (xs @ ?ys)" using w2(2) by (simp add: e3_def lsm_core_def lsm_log_def)
  have "serializes (ll_json L)" using libs by (simp add: libs_ok_def)
  from save_manifest_core [OF e3 this] obtain d where
    d: "save_manifest L e3 = (e3\<lparr>eng_fs := (eng_fs e3)\<lparr>fs_manifest := Some d\<rparr>\<rparr>, Ok ())"
      "lsm_core L (e3\<lparr>eng_fs := (eng_fs e3)\<lparr>fs_manifest := Some d\<rparr>\<rparr>) (xs @ ?ys)" .
  define e4 where "e4 = e3\<lparr>eng_fs := (eng_fs e3)\<lparr>fs_manifest := Some d\<rparr>, eng_flushed_lsn := Some (manager_tail_lsn (eng_wal e3))\<rparr>"
  have rot: "rotate_wal L (e3\<lparr>eng_fs := (eng_fs e3)\<lparr>fs_manifest := Some d\<rparr>\<rparr>) = (e4, Ok ())"
    using rotate_wal_core [OF d(2)] by (simp add: e4_def)
  have e4: "lsm_core L e4 (xs @ ?ys)" using d(2) by (simp add: e4_def lsm_core_def lsm_log_def)
  have "eng_levels e1 \<noteq> []" using e1 by (simp add: lsm_core_def)
  then have run4: "flush_immutable_memtable L now e = maybe_compact L now e4"
    using m(1) False f len w1(1) w2(1) d(1) rot
    by (simp add: flush_immutable_memtable_def Let_def flip: e1_def e2_def e3_def)
  show thesis
    by (rule that [where d = d and w = w2 and lsn = "manager_tail_lsn (eng_wal e3)", OF run4 f len _ _ e4])
       (simp_all add: e4_def e3_def e2_def e1_def)
qed

lemma flush_core:
  assumes core: "lsm_core L e xs" and libs: "libs_ok L (eng_options e)" and m: "eng_immutable e = Some m" "mem_ready (lsm_op_keys xs) m"
    and run: "flush_immutable_memtable L now e = (e', r)" "r \<noteq> Inl Panicked" "\<not> eng_compaction_in_progress e"
  shows "\<exists>ys. markers ys \<and> lsm_core L e' (xs @ ys) \<and> lsm_frame e e'"
proof (cases "tbl_data m = []")
  case True
  with run(1) m(1) core show ?thesis by (intro exI [of _ "[]"]) (simp add: flush_immutable_memtable_def)
next
  case False
  from run(1,2) have "snd (flush_immutable_memtable L now e) \<noteq> Inl Panicked" by simp
  from flush_run [OF core libs m flush_fits [OF m(1) False this] False] obtain f meta w d ys lsn e4 where
    e4: "flush_immutable_memtable L now e = maybe_compact L now e4"
    "SSTable_create (ll_hash L) (ll_codec L) now empty_file (tbl_entries m) (eng_next_file_number e) 0
      (op_block_size (eng_options e)) (op_compression (eng_options e)) = (f, Ok meta)" "length (mem_buffer f) < 2 ^ 63"
    "e4 = e\<lparr>eng_next_file_number := eng_next_file_number e + 1,
       eng_fs := (eng_fs e)\<lparr>fs_sst := (fs_sst (eng_fs e))(eng_next_file_number e \<mapsto> mem_buffer f), fs_manifest := Some d\<rparr>,
       eng_wal := w, eng_levels := (eng_levels e)[0 := add_sstable meta (eng_levels e ! 0)],
       eng_total_flushes := eng_total_flushes e + 1, eng_flushed_lsn := Some lsn\<rparr>"
    "markers ys" "lsm_core L e4 (xs @ ys)" .
  have fr: "lsm_frame e e4" by (simp add: lsm_frame_def e4(4))
  have "lsm_core L e' (xs @ ys) \<and> lsm_frame e4 e'"
    using run fr libs e4(1) by (intro maybe_compact_core [OF e4(6)]) (simp_all add: lsm_frame_def)
  with fr e4(5) show ?thesis using lsm_frame_trans by blast
qed

section \<open>Calls\<close>

definition lsm_inv :: "lsm_libs \<Rightarrow> LSMTreeOptions \<Rightarrow> LSMTreeEngine \<Rightarrow> lsm_log_op list \<Rightarrow> bool" where
  "lsm_inv L opt e xs \<longleftrightarrow> lsm_core L e xs \<and> eng_options e = opt \<and> mem_ready (lsm_op_keys xs) (eng_memtable e) \<and>
     (\<Sum>x \<leftarrow> tbl_entries (eng_memtable e). entry_size x) \<le> unat (op_memtable_size opt) \<and>
     eng_immutable e = None \<and> \<not> eng_flush_in_progress e \<and> \<not> eng_compaction_in_progress e"

lemma mem_ready_new: "mem_ready ks MemTable_new"
  by (simp add: mem_ready_def memtable_ok_new) (simp add: MemTable_new_def tbl_entries_def)

lemma maybe_flush_inv:
  assumes "lsm_core L e xs" "libs_ok L opt" "eng_options e = opt" "mem_ready (lsm_op_keys xs) (eng_memtable e)"
    and "eng_immutable e = None" "\<not> eng_flush_in_progress e" "\<not> eng_compaction_in_progress e"
    and "maybe_flush_memtable L now e = (e', r)" "r \<noteq> Inl Panicked"
  shows "\<exists>ys. markers ys \<and> lsm_inv L opt e' (xs @ ys)"
proof -
  let ?e = "e\<lparr>eng_flush_in_progress := True, eng_memtable := MemTable_new, eng_immutable := Some (eng_memtable e)\<rparr>"
  obtain e1 where e1: "flush_immutable_memtable L now ?e = (e1, r)" "e' = e1\<lparr>eng_immutable := None, eng_flush_in_progress := False\<rparr>"
    using assms(5-) by (auto simp: maybe_flush_memtable_def split: prod.splits if_splits)
  have "lsm_core L ?e xs" using assms(1) by (simp add: lsm_core_def lsm_log_def)
  from flush_core [OF this _ _ _ e1(1) assms(9)] assms(2,3,4,7) obtain ys where
    ys: "markers ys" "lsm_core L e1 (xs @ ys)" "lsm_frame ?e e1" by auto
  have "lsm_inv L opt e' (xs @ ys)" using ys(2,3) assms(3,7) mem_ready_new [of "lsm_op_keys (xs @ ys)"]
    by (simp add: e1(2) lsm_inv_def lsm_core_def lsm_log_def lsm_frame_def) (simp add: MemTable_new_def tbl_entries_def)
  with ys(1) show ?thesis by blast
qed

lemma mem_ready_mono: "mem_ready ks m \<Longrightarrow> ks \<subseteq> ks' \<Longrightarrow> mem_ready ks' m"
  by (auto simp: mem_ready_def)

lemma entries_sum: "(\<Sum>x \<leftarrow> tbl_entries m. entry_size x) = (\<Sum>(k, e) \<leftarrow> tbl_data m. entry_size e)"
  by (simp add: tbl_entries_def comp_def case_prod_beta')

lemma tbl_write_ready:
  assumes "mem_ready ks m" "k \<in> ks" "\<And>s. e_key (entry s) = k" "\<And>s. entry_small (entry s)" "\<And>s. entry_size (entry s) \<le> 2 ^ 32"
    and "(\<Sum>x \<leftarrow> tbl_entries m. entry_size x) \<le> 2 ^ 35"
  shows "mem_ready ks (fst (tbl_write m k entry))"
proof -
  let ?m = "fst (tbl_write m k entry)" and ?e = "entry (tbl_sequence m)"
  have ok: "memtable_ok m" "fst ` set (tbl_data m) \<subseteq> ks" "list_all entry_small (tbl_entries m)"
    using assms(1) by (simp_all add: mem_ready_def)
  have data: "tbl_data ?m = al_put k ?e (tbl_data m)" by (simp add: tbl_write_def Let_def)
  have "(\<Sum>x \<leftarrow> tbl_entries ?m. entry_size x) \<le> (\<Sum>x \<leftarrow> tbl_entries m. entry_size x) + entry_size ?e"
    using sum_al_put [of "tbl_data m" entry_size k ?e] ok(1) unfolding entries_sum data memtable_ok_def by linarith
  then have "(\<Sum>x \<leftarrow> tbl_entries ?m. entry_size x) < 2 ^ 36" using assms(5) [of "tbl_sequence m"] assms(6) by simp
  moreover have "fst ` set (tbl_data ?m) \<subseteq> ks" using ok(2) assms(2) unfolding data set_al_put_keys by simp
  moreover have "list_all entry_small (tbl_entries ?m)"
    using ok(3) assms(4) set_al_put [of k ?e "tbl_data m"] by (auto simp: tbl_entries_def data list_all_iff)
  ultimately show ?thesis using tbl_write_ok [OF ok(1) assms(3)] by (simp add: mem_ready_def)
qed

lemma after_write_inv:
  assumes "lsm_core L e xs" "libs_ok L opt" "eng_options e = opt" "mem_ready (lsm_op_keys xs) m"
    and "eng_immutable e = None" "\<not> eng_flush_in_progress e" "\<not> eng_compaction_in_progress e"
    and "after_write L now m e = (e', r)" "r \<noteq> Inl Panicked"
  shows "\<exists>ys. markers ys \<and> lsm_inv L opt e' (xs @ ys)"
proof -
  let ?e = "e\<lparr>eng_memtable := m, eng_total_writes := eng_total_writes e + 1\<rparr>"
  have core: "lsm_core L ?e xs" using assms(1) by (simp add: lsm_core_def lsm_log_def)
  show ?thesis
  proof (cases "op_memtable_size opt \<le> tbl_size m")
    case True
    then show ?thesis using assms maybe_flush_inv [OF core assms(2), of now e' r] by (simp add: after_write_def Let_def)
  next
    case False
    have "tbl_size m = word_of_nat (\<Sum>x \<leftarrow> tbl_entries m. entry_size x)" "(\<Sum>x \<leftarrow> tbl_entries m. entry_size x) < 2 ^ 64"
      using assms(4) unfolding entries_sum by (simp_all add: mem_ready_def memtable_ok_def entries_sum)
    then have "unat (tbl_size m) = (\<Sum>x \<leftarrow> tbl_entries m. entry_size x)" by (simp add: unat_word_of_nat)
    then have "(\<Sum>x \<leftarrow> tbl_entries m. entry_size x) \<le> unat (op_memtable_size opt)" using False by (metis le_cases word_le_nat_alt)
    with False assms core show ?thesis
      by (intro exI [of _ "[]"]) (auto simp: after_write_def Let_def lsm_inv_def)
  qed
qed

text \<open>A write is logged, then applied to the memtable, which may cause a flush.\<close>

lemma write_run:
  assumes inv: "lsm_inv L opt e xs" and libs: "libs_ok L opt" and op: "lsm_op_fits op" "lsm_op_key op = {k}"
    "lsm_op_record op = \<lparr>wr_kind = lsm_kind_to_u16 kind, wr_payload = payload\<rparr>"
    and entry: "\<And>s. e_key (entry s) = k" "\<And>s. entry_small (entry s)" "\<And>s. entry_size (entry s) \<le> 2 ^ 32"
    and rest: "\<And>w. rest (e\<lparr>eng_wal := w\<rparr>) () =
      after_write L now (fst (tbl_write (eng_memtable e) k entry)) (e\<lparr>eng_wal := w, eng_timestamp := ts\<rparr>)"
  obtains w where "lsm_core L (e\<lparr>eng_wal := w, eng_timestamp := ts\<rparr>) (xs @ [op])"
    "mem_ready (lsm_op_keys (xs @ [op])) (fst (tbl_write (eng_memtable e) k entry))"
    "and_then (engine_append L msg kind payload dur e) rest =
      after_write L now (fst (tbl_write (eng_memtable e) k entry)) (e\<lparr>eng_wal := w, eng_timestamp := ts\<rparr>)"
proof -
  have core: "lsm_core L e xs" using inv by (simp add: lsm_inv_def)
  from append_core [OF core op(1,3)] obtain w where w: "engine_append L msg kind payload dur e = (e\<lparr>eng_wal := w\<rparr>, Ok ())"
    "lsm_core L (e\<lparr>eng_wal := w\<rparr>) (xs @ [op])" by metis
  have "mem_ready (lsm_op_keys (xs @ [op])) (eng_memtable e)" "(\<Sum>x \<leftarrow> tbl_entries (eng_memtable e). entry_size x) \<le> 2 ^ 35"
    using inv libs mem_ready_mono [of "lsm_op_keys xs" "eng_memtable e" "lsm_op_keys (xs @ [op])"] by (auto simp: lsm_inv_def libs_ok_def)
  then have "mem_ready (lsm_op_keys (xs @ [op])) (fst (tbl_write (eng_memtable e) k entry))"
    using op(2) by (intro tbl_write_ready entry) simp_all
  moreover have "lsm_core L (e\<lparr>eng_wal := w, eng_timestamp := ts\<rparr>) (xs @ [op])" using w(2) by (simp add: lsm_core_def lsm_log_def)
  ultimately show thesis using that w(1) rest by simp
qed

lemma write_inv:
  assumes inv: "lsm_inv L opt e xs" and libs: "libs_ok L opt" and op: "lsm_op_fits op" "lsm_op_key op = {k}"
    "lsm_op_record op = \<lparr>wr_kind = lsm_kind_to_u16 kind, wr_payload = payload\<rparr>"
    and entry: "\<And>s. e_key (entry s) = k" "\<And>s. entry_small (entry s)" "\<And>s. entry_size (entry s) \<le> 2 ^ 32"
    and rest: "\<And>w. rest (e\<lparr>eng_wal := w\<rparr>) () =
      after_write L now (fst (tbl_write (eng_memtable e) k entry)) (e\<lparr>eng_wal := w, eng_timestamp := ts\<rparr>)"
    and run: "and_then (engine_append L msg kind payload dur e) rest = (e', r)" "r \<noteq> Inl Panicked"
  shows "\<exists>ys. markers ys \<and> lsm_inv L opt e' (xs @ op # ys)"
proof -
  obtain w where w: "lsm_core L (e\<lparr>eng_wal := w, eng_timestamp := ts\<rparr>) (xs @ [op])"
    "mem_ready (lsm_op_keys (xs @ [op])) (fst (tbl_write (eng_memtable e) k entry))"
    "and_then (engine_append L msg kind payload dur e) rest =
      after_write L now (fst (tbl_write (eng_memtable e) k entry)) (e\<lparr>eng_wal := w, eng_timestamp := ts\<rparr>)"
    using write_run [where entry = entry and rest = rest and now = now and ts = ts, OF inv libs op entry rest] .
  have "after_write L now (fst (tbl_write (eng_memtable e) k entry)) (e\<lparr>eng_wal := w, eng_timestamp := ts\<rparr>) = (e', r)"
    using run(1) w(3) by simp
  from after_write_inv [OF w(1) libs _ w(2) _ _ _ this run(2)] inv obtain ys where
    "markers ys" "lsm_inv L opt e' ((xs @ [op]) @ ys)" by (auto simp: lsm_inv_def)
  then show ?thesis by auto
qed

datatype lsm_call =
    CPut bytes bytes
  | CDelete bytes
  | CPutCommitted bytes bytes i64
  | CDeleteCommitted bytes i64
  | CGet bytes
  | CFlush
  | CCompact
  | CCheckpoint
  | CClear

definition no_value :: "unit engine_result \<Rightarrow> bytes option engine_result" where
  "no_value p = (fst p, res_bind (snd p) (\<lambda>_. Ok None))"

text \<open>A call with the time at which it is made.\<close>

fun engine_do :: "lsm_libs \<Rightarrow> u64 \<times> lsm_call \<Rightarrow> LSMTreeEngine \<Rightarrow> bytes option engine_result" where
  "engine_do L (now, CPut k v) e = no_value (engine_put L now k v e)"
| "engine_do L (now, CDelete k) e = no_value (engine_delete L now k e)"
| "engine_do L (now, CPutCommitted k v ts) e = no_value (engine_put_committed L now k v ts (op_durability (eng_options e)) e)"
| "engine_do L (now, CDeleteCommitted k ts) e = no_value (engine_delete_committed L now k ts (op_durability (eng_options e)) e)"
| "engine_do L (now, CGet k) e = engine_get L k e"
| "engine_do L (now, CFlush) e = no_value (engine_flush L now e)"
| "engine_do L (now, CCompact) e = no_value (engine_compact L now e)"
| "engine_do L (now, CCheckpoint) e = no_value (engine_checkpoint L e)"
| "engine_do L (now, CClear) e = no_value (engine_clear L e)"

text \<open>What is logged for a call, besides markers, and its effect on the contents as the log has it.\<close>

fun call_ops :: "lsm_call \<Rightarrow> lsm_log_op list" where
  "call_ops (CPut k v) = [RPut k v]"
| "call_ops (CDelete k) = [RDelete k]"
| "call_ops (CPutCommitted k v ts) = [RPutCommitted k v ts]"
| "call_ops (CDeleteCommitted k ts) = [RDeleteCommitted k ts]"
| "call_ops _ = []"

definition call_fits :: "lsm_call \<Rightarrow> bool" where
  "call_fits c \<longleftrightarrow> list_all lsm_op_fits (call_ops c)"

lemma no_value_simps [simp]: "fst (no_value p) = fst p" "snd (no_value p) = Inl f \<longleftrightarrow> snd p = Inl f"
  by (auto simp: no_value_def split: sum.splits)

lemma entry_bounds:
  assumes "16 + length k + (case v of None \<Rightarrow> 0 | Some b \<Rightarrow> length b) < 2 ^ 32"
  shows "e_key (Entry_with_commit_ts k v s ts) = k" "entry_small (Entry_with_commit_ts k v s ts)"
    "entry_size (Entry_with_commit_ts k v s ts) \<le> 2 ^ 32"
  using assms by (cases v; simp add: Entry_with_commit_ts_def entry_small_def entry_size_def)+

lemma put_inv:
  assumes "lsm_inv L opt e xs" "libs_ok L opt" "call_fits (CPut k v)" "snd (engine_put L now k v e) \<noteq> Inl Panicked"
  shows "\<exists>ys. markers ys \<and> lsm_inv L opt (fst (engine_put L now k v e)) (xs @ RPut k v # ys)"
  by (rule write_inv [OF assms(1,2), where k = k and entry = "\<lambda>s. Entry_with_commit_ts k (Some v) s (eng_timestamp e)"])
     (use assms(3,4) entry_bounds [of k "Some v"] in \<open>auto simp: engine_put_def call_fits_def next_timestamp_def tbl_put_committed_def\<close>)

lemma delete_inv:
  assumes "lsm_inv L opt e xs" "libs_ok L opt" "call_fits (CDelete k)" "snd (engine_delete L now k e) \<noteq> Inl Panicked"
  shows "\<exists>ys. markers ys \<and> lsm_inv L opt (fst (engine_delete L now k e)) (xs @ RDelete k # ys)"
  by (rule write_inv [OF assms(1,2), where k = k and entry = "\<lambda>s. Entry_with_commit_ts k None s (eng_timestamp e)"])
     (use assms(3,4) entry_bounds [of k None] in \<open>auto simp: engine_delete_def call_fits_def next_timestamp_def tbl_delete_committed_def\<close>)

lemma put_committed_inv:
  assumes "lsm_inv L opt e xs" "libs_ok L opt" "call_fits (CPutCommitted k v ts)"
    and "snd (engine_put_committed L now k v ts dur e) \<noteq> Inl Panicked"
  shows "\<exists>ys. markers ys \<and> lsm_inv L opt (fst (engine_put_committed L now k v ts dur e)) (xs @ RPutCommitted k v ts # ys)"
  by (rule write_inv [OF assms(1,2), where k = k and entry = "\<lambda>s. Entry_with_commit_ts k (Some v) s ts" and ts = "eng_timestamp e"])
     (use assms(3,4) entry_bounds [of k "Some v"] in \<open>auto simp: engine_put_committed_def call_fits_def tbl_put_committed_def\<close>)

lemma delete_committed_inv:
  assumes "lsm_inv L opt e xs" "libs_ok L opt" "call_fits (CDeleteCommitted k ts)"
    and "snd (engine_delete_committed L now k ts dur e) \<noteq> Inl Panicked"
  shows "\<exists>ys. markers ys \<and> lsm_inv L opt (fst (engine_delete_committed L now k ts dur e)) (xs @ RDeleteCommitted k ts # ys)"
  by (rule write_inv [OF assms(1,2), where k = k and entry = "\<lambda>s. Entry_with_commit_ts k None s ts" and ts = "eng_timestamp e"])
     (use assms(3,4) entry_bounds [of k None] in \<open>auto simp: engine_delete_committed_def call_fits_def tbl_delete_committed_def\<close>)

lemma checkpoint_run:
  assumes "lsm_inv L opt e xs" "libs_ok L opt"
  obtains op w d where "engine_checkpoint L e = (e\<lparr>eng_wal := w, eng_fs := (eng_fs e)\<lparr>fs_manifest := Some d\<rparr>\<rparr>, Ok ())"
    "markers [op]" "lsm_inv L opt (e\<lparr>eng_wal := w, eng_fs := (eng_fs e)\<lparr>fs_manifest := Some d\<rparr>\<rparr>) (xs @ [op])"
proof -
  let ?op = "RCheckpoint (tbl_sequence (eng_memtable e)) (eng_next_file_number e)"
  have "lsm_core L e xs" "lsm_op_fits ?op" "lsm_op_record ?op = \<lparr>wr_kind = lsm_kind_to_u16 LCheckpoint,
    wr_payload = encode_checkpoint (tbl_sequence (eng_memtable e)) (eng_next_file_number e)\<rparr>" using assms(1) by (simp_all add: lsm_inv_def)
  from append_core [OF this] obtain w where w: "engine_append L ''Checkpoint write failed: '' LCheckpoint
      (encode_checkpoint (tbl_sequence (eng_memtable e)) (eng_next_file_number e)) Sync e = (e\<lparr>eng_wal := w\<rparr>, Ok ())"
    "lsm_core L (e\<lparr>eng_wal := w\<rparr>) (xs @ [?op])" by metis
  have "serializes (ll_json L)" using assms(2) by (simp add: libs_ok_def)
  from save_manifest_core [OF w(2) this] obtain d where
    d: "save_manifest L (e\<lparr>eng_wal := w\<rparr>) = (e\<lparr>eng_wal := w, eng_fs := (eng_fs e)\<lparr>fs_manifest := Some d\<rparr>\<rparr>, Ok ())"
    "lsm_core L (e\<lparr>eng_wal := w, eng_fs := (eng_fs e)\<lparr>fs_manifest := Some d\<rparr>\<rparr>) (xs @ [?op])" by auto
  show thesis by (rule that [where op = ?op and w = w and d = d]) (use w(1) d assms(1) in \<open>simp_all add: engine_checkpoint_def lsm_inv_def\<close>)
qed

lemma clear_run:
  assumes "lsm_inv L opt e xs" "libs_ok L opt" "engine_clear L e = (e', r)"
  shows "r = Ok ()" "lsm_inv L opt e' xs" "tbl_data (eng_memtable e') = []" "\<forall>l \<in> set (eng_levels e'). lv_sstables l = [] \<and> lv_total_size l = 0"
    "eng_fs e' = (eng_fs e)\<lparr>fs_sst := fs_sst (eng_fs e'), fs_manifest := fs_manifest (eng_fs e')\<rparr>"
proof -
  let ?files = "fold (\<lambda>m files. files(sm_file_number m := None)) (concat (map lv_sstables (eng_levels e))) (fs_sst (eng_fs e))"
  define e1 where "e1 = e\<lparr>eng_memtable := tbl_clear (eng_memtable e), eng_immutable := None,
    eng_fs := (eng_fs e)\<lparr>fs_sst := ?files\<rparr>, eng_levels := map (\<lambda>l. l\<lparr>lv_sstables := [], lv_total_size := 0\<rparr>) (eng_levels e)\<rparr>"
  have "files_ok (ll_hash L) (ll_codec L) (lsm_op_keys xs) ?files"
    by (rule files_ok_remove) (use assms(1) in \<open>simp add: lsm_inv_def lsm_core_def\<close>)
  then have core: "lsm_core L e1 xs" using assms(1)
    by (simp add: e1_def lsm_inv_def lsm_core_def lsm_log_def del: fun_upd_apply)
  have "serializes (ll_json L)" using assms(2) by (simp add: libs_ok_def)
  from save_manifest_core [OF core this] obtain d where
    d: "save_manifest L e1 = (e1\<lparr>eng_fs := (eng_fs e1)\<lparr>fs_manifest := Some d\<rparr>\<rparr>, Ok ())"
      "lsm_core L (e1\<lparr>eng_fs := (eng_fs e1)\<lparr>fs_manifest := Some d\<rparr>\<rparr>) xs" .
  have "wm_archived (eng_wal e1) = []" using core by (simp add: lsm_core_def lsm_log_def)
  then have "fst (manager_truncate_before (ll_remove L) (eng_wal e1) lsn) = eng_wal e1" for lsn
    by (simp add: manager_truncate_before_def Let_def)
  then have "engine_clear L e = (e1\<lparr>eng_fs := (eng_fs e1)\<lparr>fs_manifest := Some d\<rparr>\<rparr>, Ok ())"
    using d(1) by (simp add: engine_clear_def Let_def flip: e1_def del: fun_upd_apply)
  then have e': "e' = e1\<lparr>eng_fs := (eng_fs e1)\<lparr>fs_manifest := Some d\<rparr>\<rparr>" and "r = Ok ()" using assms(3) by simp_all
  then show "r = Ok ()" by simp
  have "mem_ready (lsm_op_keys xs) (tbl_clear (eng_memtable e))" "tbl_entries (tbl_clear (eng_memtable e)) = []"
    using memtable_ok_clear by (simp_all add: mem_ready_def tbl_clear_def tbl_entries_def)
  then show "lsm_inv L opt e' xs" using d(2) assms(1) by (simp add: e' lsm_inv_def e1_def)
  show "tbl_data (eng_memtable e') = []" "\<forall>l \<in> set (eng_levels e'). lv_sstables l = [] \<and> lv_total_size l = 0"
    "eng_fs e' = (eng_fs e)\<lparr>fs_sst := fs_sst (eng_fs e'), fs_manifest := fs_manifest (eng_fs e')\<rparr>"
    by (auto simp: e' e1_def tbl_clear_def simp del: fun_upd_apply)
qed

lemma call_inv:
  assumes inv: "lsm_inv L opt e xs" and libs: "libs_ok L opt" and fits: "call_fits (snd c)"
    and ok: "snd (engine_do L c e) \<noteq> Inl Panicked"
  shows "\<exists>ys. markers ys \<and> lsm_inv L opt (fst (engine_do L c e)) (xs @ call_ops (snd c) @ ys)"
proof -
  obtain now call where c: "c = (now, call)" by (cases c)
  have opt: "eng_options e = opt" using inv by (simp add: lsm_inv_def)
  show ?thesis
  proof (cases call)
    case (CGet k)
    have "lsm_inv L opt (e\<lparr>eng_total_reads := n\<rparr>) xs" for n using inv by (simp add: lsm_inv_def lsm_core_def lsm_log_def)
    then show ?thesis by (intro exI [of _ "[]"]) (simp add: c CGet engine_get_def Let_def)
  next
    case CFlush
    have "snd (maybe_flush_memtable L now e) \<noteq> Inl Panicked" using ok by (simp add: c CFlush engine_flush_def)
    then show ?thesis using inv maybe_flush_inv [of L e xs opt now "fst (maybe_flush_memtable L now e)" "snd (maybe_flush_memtable L now e)", OF _ libs]
      by (simp add: c CFlush engine_flush_def lsm_inv_def)
  next
    case CCompact
    have "snd (maybe_compact L now e) \<noteq> Inl Panicked" using ok by (simp add: c CCompact engine_compact_def)
    then have "lsm_core L (fst (maybe_compact L now e)) xs \<and> lsm_frame e (fst (maybe_compact L now e))"
      using inv libs by (intro maybe_compact_core [of L e xs now _ "snd (maybe_compact L now e)"]) (auto simp: lsm_inv_def)
    then show ?thesis using inv
      by (intro exI [of _ "[]"]) (auto simp: c CCompact engine_compact_def lsm_inv_def lsm_frame_def)
  next
    case CCheckpoint
    from checkpoint_run [OF inv libs] obtain op w d where
      "engine_checkpoint L e = (e\<lparr>eng_wal := w, eng_fs := (eng_fs e)\<lparr>fs_manifest := Some d\<rparr>\<rparr>, Ok ())"
      "markers [op]" "lsm_inv L opt (e\<lparr>eng_wal := w, eng_fs := (eng_fs e)\<lparr>fs_manifest := Some d\<rparr>\<rparr>) (xs @ [op])" .
    with CCheckpoint show ?thesis by (intro exI [of _ "[op]"]) (simp add: c)
  next
    case CClear
    then show ?thesis using clear_run(2) [OF inv libs, of "fst (engine_clear L e)" "snd (engine_clear L e)"] by (intro exI [of _ "[]"]) (simp add: c)
  qed (use ok fits put_inv [OF inv libs] delete_inv [OF inv libs] put_committed_inv [OF inv libs] delete_committed_inv [OF inv libs] in
    \<open>simp_all add: c\<close>)
qed

lemma run_inv:
  assumes "libs_ok L opt"
  shows "lsm_inv L opt e xs \<Longrightarrow> list_all (\<lambda>c. call_fits (snd c)) calls \<Longrightarrow> run (engine_do L) calls e = (e', rs) \<Longrightarrow>
    Inl Panicked \<notin> set rs \<Longrightarrow>
    \<exists>zs. lsm_inv L opt e' (xs @ zs) \<and> (\<forall>m. fold lsm_op_effect zs m = fold (\<lambda>c. fold lsm_op_effect (call_ops (snd c))) calls m)"
proof (induction calls arbitrary: e xs rs)
  case Nil
  then show ?case by (intro exI [of _ "[]"]) simp
next
  case (Cons c calls)
  obtain rs' where rs: "run (engine_do L) calls (fst (engine_do L c e)) = (e', rs')" "rs = snd (engine_do L c e) # rs'"
    using Cons.prems(3) by (auto simp: Let_def split: prod.splits)
  have "call_fits (snd c)" "snd (engine_do L c e) \<noteq> Inl Panicked" using Cons.prems(2,4) rs(2) by auto
  from call_inv [OF Cons.prems(1) assms this] obtain ys where
    ys: "markers ys" "lsm_inv L opt (fst (engine_do L c e)) (xs @ call_ops (snd c) @ ys)" by blast
  from Cons.IH [OF ys(2) _ rs(1)] Cons.prems(2,4) rs(2) obtain zs where
    zs: "lsm_inv L opt e' ((xs @ call_ops (snd c) @ ys) @ zs)"
      "\<And>m. fold lsm_op_effect zs m = fold (\<lambda>c. fold lsm_op_effect (call_ops (snd c))) calls m" by auto
  show ?case
    by (rule exI [of _ "call_ops (snd c) @ ys @ zs"]) (use zs markers_effect(1) [OF ys(1)] in simp)
qed

section \<open>Starting an engine\<close>

lemma lsm_recover_log:
  assumes "lsm_log L e xs" "eng_memtable e = MemTable_new"
  shows "\<exists>m ts. engine_recover_from_wal L e = (e\<lparr>eng_memtable := m, eng_timestamp := ts\<rparr>, Ok ()) \<and> mem_holds m xs"
proof -
  obtain h where h: "wal_holds (ll_hash L) h (wm_active (eng_wal e)) (map lsm_op_record xs)" "sh_segment_id h = 0"
    "\<forall>op \<in> set xs. lsm_op_fits op" using assms(1) by (auto simp: lsm_log_def)
  let ?f = "wm_active (eng_wal e)"
  let ?rd = "walfile_reader_from_offset ?f HEADER_SIZE"
  have rd: "manager_reader_from (eng_wal e) LSN_ZERO = Ok (wf_file ?f, ?rd)"
    using h(1,2) by (simp add: manager_reader_from_def LSN_ZERO_def wal_holds_def)
  have layout: "wf_file ?f = header_image (ll_hash L) h @ log_image (ll_hash L) (rd_integrity ?rd) (map lsm_op_record xs)"
    using h(1) by (simp add: wal_holds_def)
  have "length xs < length (wf_file ?f) + 1"
    using log_image_length [of "map lsm_op_record xs" "ll_hash L" "rd_integrity ?rd"] unfolding layout by simp
  with lsm_replay_log [OF h(3) mem_holds_new _ this layout] obtain m ts where
    "lsm_replay_loop (length (wf_file ?f) + 1) (ll_hash L) (wf_file ?f) ?rd (MemTable_new, eng_timestamp e) = ((m, ts), Ok ())"
    "mem_holds m xs" by fastforce
  with rd assms(2) show ?thesis by (auto simp: engine_recover_from_wal_def simp del: lsm_replay_loop.simps)
qed

lemma restore_levels_length: "length (fst (restore_levels ms s)) = length (fst s)"
  by (induction ms arbitrary: s) (auto split: prod.splits)

lemma engine_new_log:
  assumes "lsm_log L e xs" "eng_wal e = w" "\<forall>d. fs_manifest fs = Some d \<longrightarrow> (\<exists>ms. json_read (ll_json L) d = Inr ms)"
  shows "\<exists>e'. LSMTreeEngine_new L fs opt w ts = (e', Ok ()) \<and> mem_holds (eng_memtable e') xs \<and> eng_fs e' = fs \<and>
    eng_options e' = opt \<and> eng_wal e' = w \<and> eng_immutable e' = None \<and> eng_levels e' \<noteq> [] \<and>
    \<not> eng_flush_in_progress e' \<and> \<not> eng_compaction_in_progress e'"
proof -
  define e0 where "e0 = \<lparr>eng_options = opt, eng_fs = fs, eng_wal = w, eng_flushed_lsn = None, eng_memtable = MemTable_new,
     eng_immutable = None, eng_levels = map Level_new [0..<7], eng_next_file_number = 1, eng_flush_in_progress = False,
     eng_compaction_in_progress = False, eng_total_writes = 0, eng_total_reads = 0, eng_total_flushes = 0,
     eng_total_compactions = 0, eng_timestamp = ts\<rparr>"
  obtain levels nx where load: "load_manifest L e0 = (e0\<lparr>eng_levels := levels, eng_next_file_number := nx\<rparr>, Ok ())" "levels \<noteq> []"
  proof (cases "fs_manifest fs")
    case None
    then have "load_manifest L e0 = (e0\<lparr>eng_levels := eng_levels e0, eng_next_file_number := eng_next_file_number e0\<rparr>, Ok ())"
      by (simp add: load_manifest_def e0_def)
    then show thesis by (rule that) (simp add: e0_def)
  next
    case (Some d)
    with assms(3) obtain ms where ms: "json_read (ll_json L) d = Inr ms" by blast
    obtain levels nx where r: "restore_levels ms (eng_levels e0, eng_next_file_number e0) = (levels, nx)" by fastforce
    then have "length levels = length (eng_levels e0)" using restore_levels_length [of ms "(eng_levels e0, eng_next_file_number e0)"] by simp
    then have "levels \<noteq> []" by (auto simp: e0_def)
    moreover have "load_manifest L e0 = (e0\<lparr>eng_levels := levels, eng_next_file_number := nx\<rparr>, Ok ())"
      using Some ms r by (simp add: load_manifest_def) (simp add: e0_def)
    ultimately show thesis using that by blast
  qed
  let ?e = "e0\<lparr>eng_levels := levels, eng_next_file_number := nx\<rparr>"
  have "lsm_log L ?e xs" "eng_memtable ?e = MemTable_new" using assms(1,2) by (simp_all add: lsm_log_def e0_def)
  from lsm_recover_log [OF this] obtain m ts' where
    "engine_recover_from_wal L ?e = (?e\<lparr>eng_memtable := m, eng_timestamp := ts'\<rparr>, Ok ())" "mem_holds m xs" by blast
  moreover have "LSMTreeEngine_new L fs opt w ts = engine_recover_from_wal L ?e"
    using load(1) by (simp add: LSMTreeEngine_new_def Let_def flip: e0_def)
  ultimately show ?thesis using load(2) by (auto simp: e0_def)
qed

lemma probe_absent:
  assumes "files_ok (ll_hash L) (ll_codec L) ks (fs_sst (eng_fs e))" "lossless (ll_codec L)" "k \<notin> ks"
  shows "probe_table L e k meta = Ok None"
proof (cases "fs_sst (eng_fs e) (sm_file_number meta)")
  case (Some d)
  from files_okD [OF assms(1) Some] obtain es where es: "is_table (ll_hash L) (ll_codec L) d es" "e_key ` set es \<subseteq> ks" .
  then have "lookup es k = None" using assms(3) by (auto simp: find_None_iff)
  with is_table_get [OF es(1) assms(2), of 0 k "op_integrity (eng_options e)"] Some show ?thesis by (auto simp: probe_table_def)
qed (simp add: probe_table_def)

lemma search_absent:
  assumes "\<And>meta. probe_table L e k meta = Ok None"
  shows "search_level0 L e k metas = Ok None" "search_levels L e k levels = Ok None"
proof -
  show "search_level0 L e k metas = Ok None" using assms by (induction metas) simp_all
  show "search_levels L e k levels = Ok None" using assms by (induction levels) (simp_all split: option.split)
qed

lemma recovered_get:
  assumes "mem_holds (eng_memtable e) xs" "eng_immutable e = None" "eng_levels e \<noteq> []" "lossless (ll_codec L)"
    and "files_ok (ll_hash L) (ll_codec L) (lsm_op_keys xs) (fs_sst (eng_fs e))"
  shows "snd (engine_get L k e) = Ok (fold lsm_op_effect xs Map.empty k)"
proof -
  let ?e = "e\<lparr>eng_total_reads := eng_total_reads e + 1\<rparr>"
  show ?thesis
  proof (cases "tbl_get (eng_memtable e) k")
    case (Some x)
    with assms(1) have "e_value x = map_option Inline (fold lsm_op_effect xs Map.empty k)"
      by (auto simp: mem_holds_def split: if_splits dest!: spec [of _ k])
    with Some show ?thesis
      by (cases "fold lsm_op_effect xs Map.empty k") (simp_all add: engine_get_def Let_def read_through_def entry_answer_def resolve_value_def)
  next
    case None
    with assms(1) have k: "k \<notin> lsm_op_keys xs" by (auto simp: mem_holds_def split: if_splits dest!: spec [of _ k])
    have "k \<notin> lsm_op_keys ys \<Longrightarrow> fold lsm_op_effect ys m k = m k" for ys m
    proof (induction ys arbitrary: m)
      case (Cons y ys)
      then show ?case by (cases y) simp_all
    qed simp
    from this [OF k] have "fold lsm_op_effect xs Map.empty k = None" by simp
    moreover have "probe_table L ?e k meta = Ok None" for meta by (rule probe_absent [OF _ assms(4) k]) (simp add: assms(5))
    from search_absent [OF this] have "search_tables L ?e k = Ok None" using assms(3) by (auto simp: search_tables_def split: list.split)
    ultimately show ?thesis using None assms(2) by (simp add: engine_get_def Let_def read_through_def)
  qed
qed

text \<open>An engine on an empty directory, and an engine on what another one left behind.\<close>

abbreviation empty_fs :: "(u64 \<Rightarrow> bytes option) \<Rightarrow> lsm_fs" where
  "empty_fs blobs \<equiv> \<lparr>fs_sst = Map.empty, fs_manifest = None, fs_blob = blobs\<rparr>"

lemma lsm_new_log:
  assumes "manager_new (ll_hash L) now (\<lambda>_. None) root c = Ok w" "eng_wal e = w"
  shows "lsm_log L e []"
proof -
  let ?h = "new_header now (wc_shard_id c) 0 0 (wc_checksum c) (wc_compression c) (wc_encryption c) 0"
  obtain f where f: "walfile_create (ll_hash L) now [] (wc_shard_id c) 0 0 (wc_checksum c) (wc_compression c) (wc_encryption c) 0 = Ok f"
    "wal_holds (ll_hash L) ?h f []" using create_holds by blast
  then have "wm_active w = f" "wm_archived w = []" using assms(1) by (auto simp: manager_new_def)
  moreover have "sh_segment_id ?h = 0" by (simp add: new_header_def)
  ultimately show ?thesis using f(2) assms(2) by (auto simp: lsm_log_def)
qed

lemma lsm_new_inv:
  assumes "manager_new (ll_hash L) now (\<lambda>_. None) root c = Ok w" "LSMTreeEngine_new L (empty_fs blobs) opt w ts = (e0, r)"
  shows "lsm_inv L opt e0 []" "r = Ok ()" "\<And>k. tbl_get (eng_memtable e0) k = None"
proof -
  define e where "e = e0\<lparr>eng_wal := w\<rparr>"
  have log: "lsm_log L e []" by (rule lsm_new_log [OF assms(1)]) (simp add: e_def)
  from engine_new_log [OF this, of w "empty_fs blobs" opt ts] assms(2) have
    e: "r = Ok ()" "mem_holds (eng_memtable e0) []" "eng_fs e0 = empty_fs blobs" "eng_options e0 = opt" "eng_wal e0 = w"
      "eng_immutable e0 = None" "eng_levels e0 \<noteq> []" "\<not> eng_flush_in_progress e0" "\<not> eng_compaction_in_progress e0"
    by (auto simp: e_def)
  show none: "tbl_get (eng_memtable e0) k = None" for k using e(2) by (simp add: mem_holds_def)
  have data: "tbl_data (eng_memtable e0) = []"
  proof (rule ccontr)
    assume "tbl_data (eng_memtable e0) \<noteq> []"
    then obtain k x where "(k, x) \<in> set (tbl_data (eng_memtable e0))" by (cases "tbl_data (eng_memtable e0)") auto
    then show False using none [of k] by (auto simp: tbl_get_def map_of_eq_None_iff rev_image_eqI)
  qed
  have "memtable_ok (eng_memtable e0)" using e(2) by (simp add: mem_holds_def)
  moreover have "lsm_core L e0 []" using log e by (simp add: lsm_core_def lsm_log_def e_def files_ok_def)
  ultimately show "lsm_inv L opt e0 []" using e data by (simp add: lsm_inv_def mem_ready_def tbl_entries_def)
  show "r = Ok ()" by (fact e(1))
qed

lemma restart_get:
  assumes "lsm_core L e xs" "lossless (ll_codec L)"
  shows "\<exists>w' e'. manager_new (ll_hash L) now (\<lambda>_. Some (wf_file (wm_active (eng_wal e)))) root c = Ok w' \<and>
    LSMTreeEngine_new L (eng_fs e) opt w' ts = (e', Ok ()) \<and> (\<forall>k. snd (engine_get L k e') = Ok (fold lsm_op_effect xs Map.empty k))"
proof -
  obtain h where h: "wal_holds (ll_hash L) h (wm_active (eng_wal e)) (map lsm_op_record xs)"
    using assms(1) by (auto simp: lsm_core_def lsm_log_def)
  let ?w = "\<lparr>wm_root = root, wm_shard_id = wc_shard_id c, wm_active = wm_active (eng_wal e), wm_archived = []\<rparr>"
  have w: "manager_new (ll_hash L) now (\<lambda>_. Some (wf_file (wm_active (eng_wal e)))) root c = Ok ?w"
    using open_existing_holds [OF h] by (simp add: manager_new_def)
  have log: "lsm_log L (e\<lparr>eng_wal := ?w\<rparr>) xs" using assms(1) by (simp add: lsm_core_def lsm_log_def)
  have man: "\<forall>d. fs_manifest (eng_fs e) = Some d \<longrightarrow> (\<exists>ms. json_read (ll_json L) d = Inr ms)"
    using assms(1) by (simp add: lsm_core_def)
  from engine_new_log [OF log _ man, of ?w opt ts] obtain e' where
    e': "LSMTreeEngine_new L (eng_fs e) opt ?w ts = (e', Ok ())" "mem_holds (eng_memtable e') xs" "eng_fs e' = eng_fs e"
      "eng_immutable e' = None" "eng_levels e' \<noteq> []" by auto
  from recovered_get [OF e'(2,4,5) assms(2)] e'(3) assms(1) have "snd (engine_get L k e') = Ok (fold lsm_op_effect xs Map.empty k)" for k
    by (simp add: lsm_core_def)
  with w e'(1) show ?thesis by blast
qed

section \<open>Properties\<close>

fun call_effect :: "lsm_call \<Rightarrow> (bytes \<Rightarrow> bytes option) \<Rightarrow> bytes \<Rightarrow> bytes option" where
  "call_effect (CPut k v) m = m(k \<mapsto> v)"
| "call_effect (CDelete k) m = m(k := None)"
| "call_effect (CPutCommitted k v ts) m = m(k \<mapsto> v)"
| "call_effect (CDeleteCommitted k ts) m = m(k := None)"
| "call_effect CClear m = Map.empty"
| "call_effect _ m = m"

lemma call_effect_ops: "c \<noteq> CClear \<Longrightarrow> fold lsm_op_effect (call_ops c) = call_effect c"
  by (cases c) (simp_all add: fun_eq_iff)

lemma calls_effect:
  "list_all (\<lambda>c. call_fits (snd c) \<and> snd c \<noteq> CClear) calls \<Longrightarrow>
   fold (\<lambda>c. fold lsm_op_effect (call_ops (snd c))) calls m = fold (\<lambda>c. call_effect (snd c)) calls m"
  by (intro fold_cong) (auto simp: list_all_iff dest!: call_effect_ops)

end
