(* ===== verification/Lsm_Map.thy ===== *)
theory Lsm_Map
  imports Lsm_Recovery
begin

text \<open>
  The LSM engine as a map: until a compaction runs, lookups through the memtable and the tables of level
  0 answer as a map does, also across flushes. The content of an engine is what its lookups return.
\<close>

section \<open>Reading without errors\<close>

definition plain :: "Entry \<Rightarrow> bytes option" where
  "plain x = (case e_value x of Some (Inline v) \<Rightarrow> Some v | _ \<Rightarrow> None)"

definition inline_only :: "Entry \<Rightarrow> bool" where
  "inline_only x \<longleftrightarrow> (\<forall>r. e_value x \<noteq> Some (Blob r))"

lemma entry_answer_plain: "inline_only x \<Longrightarrow> entry_answer L fs x = Ok (plain x)"
  by (auto simp: entry_answer_def resolve_value_def plain_def inline_only_def split: option.split ValueLocation.split)

lemma plain_uncommitted [simp]: "plain (uncommitted x) = plain x" "inline_only (uncommitted x) \<longleftrightarrow> inline_only x"
  by (simp_all add: plain_def inline_only_def)

definition table_live :: "lsm_libs \<Rightarrow> lsm_fs \<Rightarrow> SSTableMetadata \<Rightarrow> bool" where
  "table_live L fs meta \<longleftrightarrow> (\<exists>d es. fs_sst fs (sm_file_number meta) = Some d \<and> is_readable (ll_hash L) (ll_codec L) d es \<and>
     list_all inline_only es)"

lemma probe_live:
  assumes "table_live L (eng_fs e) meta" "lossless (ll_codec L)"
  obtains r where "probe_table L e k meta = Ok r" "\<And>x. r = Some x \<Longrightarrow> inline_only x"
proof -
  obtain d es where d: "fs_sst (eng_fs e) (sm_file_number meta) = Some d" "is_readable (ll_hash L) (ll_codec L) d es" "list_all inline_only es"
    using assms(1) by (auto simp: table_live_def)
  have "probe_table L e k meta = Ok (map_option uncommitted (lookup es k))"
    using is_readable_get [OF d(2) assms(2)] d(1) by (simp add: probe_table_def)
  moreover have "inline_only x" if "lookup es k = Some x" for x using that d(3) by (auto simp: find_Some_iff list_all_length)
  ultimately show thesis using that by fastforce
qed

lemma search_level0_live:
  assumes "list_all (table_live L (eng_fs e)) metas" "lossless (ll_codec L)"
  shows "\<exists>r. search_level0 L e k metas = Ok r \<and> (\<forall>x. r = Some x \<longrightarrow> inline_only x)"
  using assms(1)
proof (induction metas)
  case (Cons meta metas)
  from probe_live [OF _ assms(2), of e meta k] Cons.prems obtain r where
    "probe_table L e k meta = Ok r" "\<And>x. r = Some x \<Longrightarrow> inline_only x" by (metis list.pred_inject(2))
  with Cons show ?case by (cases r) auto
qed simp

definition map_ok :: "lsm_libs \<Rightarrow> LSMTreeEngine \<Rightarrow> bool" where
  "map_ok L e \<longleftrightarrow>
     list_all (table_live L (eng_fs e)) (lv_sstables (eng_levels e ! 0)) \<and>
     list_all (\<lambda>meta. sm_file_number meta < eng_next_file_number e) (lv_sstables (eng_levels e ! 0)) \<and>
     list_all (\<lambda>l. lv_sstables l = []) (tl (eng_levels e)) \<and> list_all inline_only (tbl_entries (eng_memtable e)) \<and>
     eng_levels e \<noteq> [] \<and> eng_immutable e = None"

definition lsm_view :: "lsm_libs \<Rightarrow> LSMTreeEngine \<Rightarrow> bytes \<Rightarrow> bytes option" where
  "lsm_view L e k = (case read_through L (\<lambda>m. tbl_get m k) e k of Inr v \<Rightarrow> v | Inl _ \<Rightarrow> None)"

lemma search_levels_empty: "list_all (\<lambda>l. lv_sstables l = []) levels \<Longrightarrow> search_levels L e k levels = Ok None"
  by (induction levels) (simp_all add: find_sstable_def binary_search_by_def)

lemma search_tables_level0:
  assumes "map_ok L e"
  shows "search_tables L e k = search_level0 L e k (rev (lv_sstables (eng_levels e ! 0)))"
proof -
  obtain l ls where "eng_levels e = l # ls" using assms by (cases "eng_levels e") (auto simp: map_ok_def)
  with assms search_levels_empty [of ls L e k] show ?thesis
    by (auto simp: search_tables_def map_ok_def split: sum.split option.split)
qed

text \<open>A lookup succeeds, and returns the value of the entry it finds.\<close>

lemma read_memtable:
  assumes "map_ok L e" "tbl_get (eng_memtable e) k = Some x"
  shows "read_through L (\<lambda>m. tbl_get m k) e k = Ok (plain x)"
proof -
  have "x \<in> set (tbl_entries (eng_memtable e))" using assms(2) by (force simp: tbl_get_def tbl_entries_def dest: map_of_SomeD)
  then have "inline_only x" using assms(1) by (auto simp: map_ok_def list_all_iff)
  with assms(2) show ?thesis by (simp add: read_through_def entry_answer_plain)
qed

lemma read_tables:
  assumes "map_ok L e" "lossless (ll_codec L)" "tbl_get (eng_memtable e) k = None"
  obtains r where "search_level0 L e k (rev (lv_sstables (eng_levels e ! 0))) = Ok r"
    "read_through L (\<lambda>m. tbl_get m k) e k = Ok (Option.bind r plain)"
proof -
  obtain r where r: "search_level0 L e k (rev (lv_sstables (eng_levels e ! 0))) = Ok r" "\<And>x. r = Some x \<Longrightarrow> inline_only x"
    using search_level0_live [of L e "rev (lv_sstables (eng_levels e ! 0))" k] assms(1,2) by (auto simp: map_ok_def list_all_iff)
  have "read_through L (\<lambda>m. tbl_get m k) e k = Ok (Option.bind r plain)"
    using assms(1,3) r search_tables_level0 [OF assms(1), of k] entry_answer_plain
    by (cases r) (auto simp: read_through_def map_ok_def)
  with r(1) show thesis by (rule that)
qed

lemma read_ok:
  assumes "map_ok L e" "lossless (ll_codec L)"
  shows "read_through L (\<lambda>m. tbl_get m k) e k = Ok (lsm_view L e k)"
proof (cases "tbl_get (eng_memtable e) k")
  case None
  from read_tables [OF assms None] show ?thesis by (metis lsm_view_def sum.case(2))
next
  case (Some x)
  from read_memtable [OF assms(1) Some] show ?thesis by (simp add: lsm_view_def)
qed

section \<open>What a lookup depends on\<close>

lemma search_level0_cong:
  assumes "eng_options e' = eng_options e"
    and "\<And>meta. meta \<in> set metas \<Longrightarrow> fs_sst (eng_fs e') (sm_file_number meta) = fs_sst (eng_fs e) (sm_file_number meta)"
  shows "search_level0 L e' k metas = search_level0 L e k metas"
  using assms(2)
proof (induction metas)
  case (Cons meta metas)
  have "probe_table L e' k meta = probe_table L e k meta" using Cons.prems unfolding probe_table_def assms(1) by simp
  moreover have "search_level0 L e' k metas = search_level0 L e k metas" using Cons by simp
  ultimately show ?case unfolding search_level0.simps by (simp only:)
qed simp

lemma compact_level_counts: "eng_total_compactions (fst (compact_level L now e)) = eng_total_compactions e + 1"
proof -
  have "eng_total_compactions (fst (install_compaction L task metas e')) = eng_total_compactions e'" for task metas e'
    by (simp add: install_compaction_def save_manifest_def Let_def split: sum.split)
  then show ?thesis by (simp add: compact_level_def Let_def split: sum.split option.split prod.split)
qed

lemma maybe_compact_quiet:
  assumes "\<not> eng_compaction_in_progress e" "snd (maybe_compact L now e) \<noteq> Inl Panicked"
    and "eng_total_compactions (fst (maybe_compact L now e)) = eng_total_compactions e"
  shows "maybe_compact L now e = (e, Ok ())"
proof -
  let ?e = "e\<lparr>eng_compaction_in_progress := True\<rparr>"
  have "eng_total_compactions (fst (compact_if_needed L now ?e)) = eng_total_compactions e"
    using assms by (auto simp: maybe_compact_def split: prod.splits if_splits)
  then have "compact_if_needed L now ?e = (?e, Ok ())"
    using compact_level_counts [of L now ?e] by (auto simp: compact_if_needed_def split: if_splits)
  moreover have "e\<lparr>eng_compaction_in_progress := False\<rparr> = e" using assms(1) by (cases e) simp
  ultimately show ?thesis using assms(1) by (simp add: maybe_compact_def)
qed

section \<open>Flush\<close>

lemma flush_step:
  assumes core: "lsm_core L e xs" and libs: "libs_ok L (eng_options e)" and ready: "mem_ready (lsm_op_keys xs) (eng_memtable e)"
    and idle: "eng_immutable e = None" "\<not> eng_flush_in_progress e" "\<not> eng_compaction_in_progress e"
    and run: "snd (maybe_flush_memtable L now e) \<noteq> Inl Panicked"
      "eng_total_compactions (fst (maybe_flush_memtable L now e)) = eng_total_compactions e"
    and ne: "tbl_data (eng_memtable e) \<noteq> []"
  obtains f meta w d lsn where
    "SSTable_create (ll_hash L) (ll_codec L) now empty_file (tbl_entries (eng_memtable e)) (eng_next_file_number e) 0
      (op_block_size (eng_options e)) (op_compression (eng_options e)) = (f, Ok meta)" "length (mem_buffer f) < 2 ^ 63"
    "maybe_flush_memtable L now e = (e\<lparr>eng_memtable := MemTable_new, eng_next_file_number := eng_next_file_number e + 1,
       eng_fs := (eng_fs e)\<lparr>fs_sst := (fs_sst (eng_fs e))(eng_next_file_number e \<mapsto> mem_buffer f), fs_manifest := Some d\<rparr>,
       eng_wal := w, eng_levels := (eng_levels e)[0 := add_sstable meta (eng_levels e ! 0)],
       eng_total_flushes := eng_total_flushes e + 1, eng_flushed_lsn := Some lsn\<rparr>, Ok ())"
proof -
  let ?e = "e\<lparr>eng_flush_in_progress := True, eng_memtable := MemTable_new, eng_immutable := Some (eng_memtable e)\<rparr>"
  let ?p = "flush_immutable_memtable L now ?e"
  have mf: "maybe_flush_memtable L now e =
      (if snd ?p = Inl Panicked then ?p else ((fst ?p)\<lparr>eng_immutable := None, eng_flush_in_progress := False\<rparr>, snd ?p))"
    using idle by (simp add: maybe_flush_memtable_def split: prod.split)
  have p: "snd ?p \<noteq> Inl Panicked" "eng_total_compactions (fst ?p) = eng_total_compactions e"
    using run unfolding mf by (auto split: if_splits)
  have core': "lsm_core L ?e xs" using core by (simp add: lsm_core_def lsm_log_def)
  have "libs_ok L (eng_options ?e)" "eng_immutable ?e = Some (eng_memtable e)" using libs by simp_all
  from flush_run [OF core' this ready flush_fits [OF this(2) ne p(1)] ne] obtain f meta w d ys lsn e4 where e4: "?p = maybe_compact L now e4"
    "SSTable_create (ll_hash L) (ll_codec L) now empty_file (tbl_entries (eng_memtable e)) (eng_next_file_number ?e) 0
      (op_block_size (eng_options ?e)) (op_compression (eng_options ?e)) = (f, Ok meta)" "length (mem_buffer f) < 2 ^ 63"
    "e4 = ?e\<lparr>eng_next_file_number := eng_next_file_number ?e + 1,
       eng_fs := (eng_fs ?e)\<lparr>fs_sst := (fs_sst (eng_fs ?e))(eng_next_file_number ?e \<mapsto> mem_buffer f), fs_manifest := Some d\<rparr>,
       eng_wal := w, eng_levels := (eng_levels ?e)[0 := add_sstable meta (eng_levels ?e ! 0)],
       eng_total_flushes := eng_total_flushes ?e + 1, eng_flushed_lsn := Some lsn\<rparr>" .
  have "maybe_compact L now e4 = (e4, Ok ())"
    by (rule maybe_compact_quiet) (use p e4(1) idle(3) in \<open>simp_all add: e4(4)\<close>)
  then have "maybe_flush_memtable L now e = (e4\<lparr>eng_immutable := None, eng_flush_in_progress := False\<rparr>, Ok ())"
    using mf e4(1) by simp
  moreover have "e4\<lparr>eng_immutable := None, eng_flush_in_progress := False\<rparr> =
      e\<lparr>eng_memtable := MemTable_new, eng_next_file_number := eng_next_file_number e + 1,
       eng_fs := (eng_fs e)\<lparr>fs_sst := (fs_sst (eng_fs e))(eng_next_file_number e \<mapsto> mem_buffer f), fs_manifest := Some d\<rparr>,
       eng_wal := w, eng_levels := (eng_levels e)[0 := add_sstable meta (eng_levels e ! 0)],
       eng_total_flushes := eng_total_flushes e + 1, eng_flushed_lsn := Some lsn\<rparr>"
    using idle unfolding e4(4) by (cases e) simp
  ultimately show thesis using that [of f meta] e4(2,3) by simp
qed

definition table_find :: "lsm_libs \<Rightarrow> LSMTreeEngine \<Rightarrow> bytes \<Rightarrow> Entry option" where
  "table_find L e k = (case search_level0 L e k (rev (lv_sstables (eng_levels e ! 0))) of Inr r \<Rightarrow> r | Inl _ \<Rightarrow> None)"

lemma lsm_view_eq:
  assumes "map_ok L e" "lossless (ll_codec L)"
  shows "lsm_view L e k = (case tbl_get (eng_memtable e) k of Some x \<Rightarrow> plain x | None \<Rightarrow> Option.bind (table_find L e k) plain)"
proof (cases "tbl_get (eng_memtable e) k")
  case None
  from read_tables [OF assms None] obtain r where "search_level0 L e k (rev (lv_sstables (eng_levels e ! 0))) = Ok r"
    "read_through L (\<lambda>m. tbl_get m k) e k = Ok (Option.bind r plain)" .
  with None show ?thesis by (simp add: lsm_view_def table_find_def)
next
  case (Some x)
  from read_memtable [OF assms(1) Some] Some show ?thesis by (simp add: lsm_view_def)
qed

lemma lookup_tbl_get: "memtable_ok m \<Longrightarrow> lookup (tbl_entries m) k = tbl_get m k"
proof -
  have "\<forall>(k, x) \<in> set ps. e_key x = k \<Longrightarrow> lookup (map snd ps) k = map_of ps k" for ps by (induction ps) auto
  then show "memtable_ok m \<Longrightarrow> ?thesis" by (simp add: memtable_ok_def tbl_entries_def tbl_get_def)
qed

lemma sorted_key_range:
  "sorted_wrt (<) (map e_key es) \<Longrightarrow> x \<in> set es \<Longrightarrow> e_key (hd es) \<le> e_key x \<and> e_key x \<le> e_key (last es)"
  by (induction es) (auto simp: less_imp_le)

text \<open>The table a flush writes answers first, and answers as the memtable did.\<close>

lemma flush_table_find:
  assumes ok: "map_ok L e" "lossless (ll_codec L)" and ready: "mem_ready ks (eng_memtable e)" "tbl_data (eng_memtable e) \<noteq> []"
    and f: "SSTable_create (ll_hash L) (ll_codec L) now empty_file (tbl_entries (eng_memtable e)) (eng_next_file_number e) 0 bs alg = (f, Ok meta)"
      "length (mem_buffer f) < 2 ^ 63" "compresses (ll_codec L) alg" "alg \<noteq> Lz4"
    and e': "eng_options e' = eng_options e" "eng_levels e' = (eng_levels e)[0 := add_sstable meta (eng_levels e ! 0)]"
      "fs_sst (eng_fs e') = (fs_sst (eng_fs e))(eng_next_file_number e \<mapsto> mem_buffer f)"
  shows "table_find L e' k = (case tbl_get (eng_memtable e) k of Some x \<Rightarrow> Some (uncommitted x) | None \<Rightarrow> table_find L e k)"
    "table_live L (eng_fs e') meta" "sm_file_number meta = eng_next_file_number e"
proof -
  let ?es = "tbl_entries (eng_memtable e)" and ?old = "lv_sstables (eng_levels e ! 0)"
  note table = mem_ready_table [OF ready]
  note t = is_table_create(2-) [OF f(1) table(1,2) f(2)]
  have readable: "is_readable (ll_hash L) (ll_codec L) (mem_buffer f) ?es" using restorable_compresses [OF f(3,4)] by (intro t(1)) simp
  show "sm_file_number meta = eng_next_file_number e" by (rule t(2))
  show "table_live L (eng_fs e') meta" using readable t(2) ok(1) e'(3) by (auto simp: table_live_def map_ok_def)
  have probe: "probe_table L e' k meta = Ok (map_option uncommitted (tbl_get (eng_memtable e) k))"
    using is_readable_get [OF readable ok(2)] lookup_tbl_get [of "eng_memtable e"] ready(1)
    by (simp add: probe_table_def e'(3) t(2) mem_ready_def)
  have outside: "tbl_get (eng_memtable e) k = None" if "\<not> (sm_min_key meta \<le> k \<and> k \<le> sm_max_key meta)"
    using that sorted_key_range [OF table(2)] lookup_tbl_get [of "eng_memtable e" k] ready(1)
    unfolding t(3,4) mem_ready_def by (metis lookup_None not_None_eq)
  have "search_level0 L e' k (rev ?old) = search_level0 L e k (rev ?old)"
    by (rule search_level0_cong) (use ok(1) e' in \<open>auto simp: map_ok_def list_all_iff\<close>)
  moreover have "lv_sstables (eng_levels e' ! 0) = ?old @ [meta]" using ok(1) by (simp add: e'(2) map_ok_def add_sstable_def)
  ultimately show "table_find L e' k = (case tbl_get (eng_memtable e) k of Some x \<Rightarrow> Some (uncommitted x) | None \<Rightarrow> table_find L e k)"
    using probe outside by (auto simp: table_find_def split: option.split)
qed

lemma map_ok_flushed:
  assumes "map_ok L e" "table_live L (eng_fs e') meta" "sm_file_number meta = eng_next_file_number e" "eng_next_file_number e \<noteq> - 1"
    and "eng_levels e' = (eng_levels e)[0 := add_sstable meta (eng_levels e ! 0)]"
    and "fs_sst (eng_fs e') = (fs_sst (eng_fs e))(eng_next_file_number e \<mapsto> d)"
    and "eng_next_file_number e' = eng_next_file_number e + 1" "eng_memtable e' = MemTable_new" "eng_immutable e' = None"
  shows "map_ok L e'"
proof -
  have less: "eng_next_file_number e < eng_next_file_number e + 1"
    using assms(4) unatSuc [of "eng_next_file_number e"] by (simp add: word_less_nat_alt add.commute add_eq_0_iff)
  have live: "table_live L (eng_fs e') m" if "table_live L (eng_fs e) m" "sm_file_number m < eng_next_file_number e" for m
    using that by (auto simp: table_live_def assms(6))
  have old: "table_live L (eng_fs e') m \<and> sm_file_number m < eng_next_file_number e + 1" if "m \<in> set (lv_sstables (eng_levels e ! 0))" for m
    using that assms(1) less by (auto simp: map_ok_def list_all_iff intro: live less_trans)
  have levels: "lv_sstables (eng_levels e' ! 0) = lv_sstables (eng_levels e ! 0) @ [meta]" "tl (eng_levels e') = tl (eng_levels e)"
    using assms(1) by (cases "eng_levels e"; simp add: assms(5) map_ok_def add_sstable_def)+
  show ?thesis
    using assms(1,2,3,7-9) old less unfolding map_ok_def levels
    by (auto simp: list_all_iff MemTable_new_def tbl_entries_def assms(5))
qed

lemma flush_view:
  assumes core: "lsm_core L e xs" and libs: "libs_ok L (eng_options e)" and ready: "mem_ready (lsm_op_keys xs) (eng_memtable e)"
    and idle: "\<not> eng_flush_in_progress e" "\<not> eng_compaction_in_progress e" and ok: "map_ok L e" "eng_next_file_number e \<noteq> - 1"
    and alg: "op_compression (eng_options e) \<noteq> Lz4" and run: "snd (maybe_flush_memtable L now e) \<noteq> Inl Panicked"
      "eng_total_compactions (fst (maybe_flush_memtable L now e)) = eng_total_compactions e"
  shows "snd (maybe_flush_memtable L now e) = Ok () \<and> map_ok L (fst (maybe_flush_memtable L now e)) \<and>
    lsm_view L (fst (maybe_flush_memtable L now e)) = lsm_view L e"
proof -
  have lossless: "lossless (ll_codec L)" and comp: "compresses (ll_codec L) (op_compression (eng_options e))"
    using libs by (simp_all add: libs_ok_def)
  have imm: "eng_immutable e = None" using ok(1) by (simp add: map_ok_def)
  define e' where "e' = fst (maybe_flush_memtable L now e)"
  have new: "tbl_get MemTable_new k = None" for k by (simp add: tbl_get_def MemTable_new_def)
  show ?thesis
  proof (cases "tbl_data (eng_memtable e) = []")
    case True
    then have e': "maybe_flush_memtable L now e = (e\<lparr>eng_memtable := MemTable_new\<rparr>, Ok ())"
      using idle imm by (cases e) (simp add: maybe_flush_memtable_def flush_immutable_memtable_def)
    then have "map_ok L (e\<lparr>eng_memtable := MemTable_new\<rparr>)" using ok(1) by (simp add: map_ok_def MemTable_new_def tbl_entries_def)
    moreover have "search_level0 L (e\<lparr>eng_memtable := MemTable_new\<rparr>) k ms = search_level0 L e k ms" for k ms
      by (rule search_level0_cong) simp_all
    then have "table_find L (e\<lparr>eng_memtable := MemTable_new\<rparr>) k = table_find L e k" for k by (simp add: table_find_def)
    moreover have "tbl_get (eng_memtable e) k = None" for k using True by (simp add: tbl_get_def)
    ultimately show ?thesis using ok(1) new by (simp add: e' fun_eq_iff lsm_view_eq [OF _ lossless])
  next
    case False
    obtain f meta w d lsn where f:
      "SSTable_create (ll_hash L) (ll_codec L) now empty_file (tbl_entries (eng_memtable e)) (eng_next_file_number e) 0
        (op_block_size (eng_options e)) (op_compression (eng_options e)) = (f, Ok meta)" "length (mem_buffer f) < 2 ^ 63"
      and r: "maybe_flush_memtable L now e = (e\<lparr>eng_memtable := MemTable_new, eng_next_file_number := eng_next_file_number e + 1,
       eng_fs := (eng_fs e)\<lparr>fs_sst := (fs_sst (eng_fs e))(eng_next_file_number e \<mapsto> mem_buffer f), fs_manifest := Some d\<rparr>,
       eng_wal := w, eng_levels := (eng_levels e)[0 := add_sstable meta (eng_levels e ! 0)],
       eng_total_flushes := eng_total_flushes e + 1, eng_flushed_lsn := Some lsn\<rparr>, Ok ())"
      by (rule flush_step [OF core libs ready imm idle run False])
    have e': "eng_options e' = eng_options e" "eng_levels e' = (eng_levels e)[0 := add_sstable meta (eng_levels e ! 0)]"
      "fs_sst (eng_fs e') = (fs_sst (eng_fs e))(eng_next_file_number e \<mapsto> mem_buffer f)"
      "eng_next_file_number e' = eng_next_file_number e + 1" "eng_memtable e' = MemTable_new" "eng_immutable e' = None"
      by (simp_all add: e'_def r imm del: fun_upd_apply)
    note t = flush_table_find [OF ok(1) lossless ready False f comp alg e'(1,2,3)]
    have "map_ok L e'" by (rule map_ok_flushed [OF ok(1) t(2,3) ok(2) e'(2,3,4,5,6)])
    moreover have "lsm_view L e' k = lsm_view L e k" for k
      using t(1) [of k] by (simp add: lsm_view_eq [OF _ lossless] calculation ok(1) e'(5) new split: option.split)
    ultimately show ?thesis using r by (auto simp: e'_def)
  qed
qed

section \<open>Calls\<close>

lemma table_find_cong:
  assumes "eng_options e' = eng_options e" "fs_sst (eng_fs e') = fs_sst (eng_fs e)" "lv_sstables (eng_levels e' ! 0) = lv_sstables (eng_levels e ! 0)"
  shows "table_find L e' k = table_find L e k"
  using search_level0_cong [OF assms(1), where L = L and k = k and metas = "rev (lv_sstables (eng_levels e ! 0))"] assms(2,3)
  by (simp add: table_find_def)

lemma lsm_view_cong:
  assumes "map_ok L e" "map_ok L e'" "lossless (ll_codec L)" "eng_memtable e' = eng_memtable e"
    and "eng_options e' = eng_options e" "fs_sst (eng_fs e') = fs_sst (eng_fs e)" "eng_levels e' = eng_levels e"
  shows "lsm_view L e' = lsm_view L e"
  using assms table_find_cong [of e' e] by (simp add: fun_eq_iff lsm_view_eq split: option.split)

lemma write_view:
  assumes inv: "lsm_inv L opt e xs" and libs: "libs_ok L opt" and op: "lsm_op_fits op" "lsm_op_key op = {k}"
    "lsm_op_record op = \<lparr>wr_kind = lsm_kind_to_u16 kind, wr_payload = payload\<rparr>"
    and entry: "\<And>s. e_key (entry s) = k" "\<And>s. entry_small (entry s)" "\<And>s. entry_size (entry s) \<le> 2 ^ 32"
    and rest: "\<And>w. rest (e\<lparr>eng_wal := w\<rparr>) () =
      after_write L now (fst (tbl_write (eng_memtable e) k entry)) (e\<lparr>eng_wal := w, eng_timestamp := ts\<rparr>)"
    and ok: "map_ok L e" "eng_next_file_number e \<noteq> - 1" "\<And>s. e_value (entry s) = map_option Inline v" "op_compression opt \<noteq> Lz4"
    and run: "and_then (engine_append L msg kind payload dur e) rest = (e', r)" "r \<noteq> Inl Panicked"
      "eng_total_compactions e' = eng_total_compactions e"
  shows "r = Ok () \<and> map_ok L e' \<and> lsm_view L e' = (lsm_view L e)(k := v)"
proof -
  let ?m = "fst (tbl_write (eng_memtable e) k entry)"
  obtain w where w: "lsm_core L (e\<lparr>eng_wal := w, eng_timestamp := ts\<rparr>) (xs @ [op])" "mem_ready (lsm_op_keys (xs @ [op])) ?m"
    "and_then (engine_append L msg kind payload dur e) rest = after_write L now ?m (e\<lparr>eng_wal := w, eng_timestamp := ts\<rparr>)"
    using write_run [where entry = entry and rest = rest and now = now and ts = ts, OF inv libs op entry rest] .
  define e2 where "e2 = e\<lparr>eng_wal := w, eng_timestamp := ts, eng_memtable := ?m, eng_total_writes := eng_total_writes e + 1\<rparr>"
  have lossless: "lossless (ll_codec L)" using libs by (simp add: libs_ok_def)
  have entry': "inline_only (entry s)" "plain (entry s) = v" for s
    using ok(3) [of s] by (auto simp: inline_only_def plain_def split: option.split)
  have "list_all inline_only (tbl_entries ?m)"
    using ok(1) entry'(1) set_al_put [of k "entry (tbl_sequence (eng_memtable e))" "tbl_data (eng_memtable e)"]
    by (auto simp: tbl_entries_def tbl_write_def Let_def map_ok_def list_all_iff)
  then have ok2: "map_ok L e2" using ok(1) by (simp add: e2_def map_ok_def)
  have "table_find L e2 x = table_find L e x" for x by (rule table_find_cong) (simp_all add: e2_def)
  moreover have "tbl_get (eng_memtable e2) = (tbl_get (eng_memtable e))(k \<mapsto> entry (tbl_sequence (eng_memtable e)))"
    by (simp add: e2_def tbl_write_get)
  ultimately have view2: "lsm_view L e2 = (lsm_view L e)(k := v)"
    by (simp add: fun_eq_iff lsm_view_eq [OF _ lossless] ok(1) ok2 entry'(2) split: option.split)
  have run2: "(if op_memtable_size opt \<le> tbl_size ?m then maybe_flush_memtable L now e2 else (e2, Ok ())) = (e', r)"
    using run(1) inv unfolding w(3) by (auto simp: after_write_def Let_def e2_def lsm_inv_def split: if_splits)
  have core2: "lsm_core L e2 (xs @ [op])" using w(1) by (simp add: lsm_core_def lsm_log_def e2_def)
  have e2: "libs_ok L (eng_options e2)" "mem_ready (lsm_op_keys (xs @ [op])) (eng_memtable e2)" "\<not> eng_flush_in_progress e2"
    "\<not> eng_compaction_in_progress e2" "eng_next_file_number e2 \<noteq> - 1" "op_compression (eng_options e2) \<noteq> Lz4"
    "eng_total_compactions e' = eng_total_compactions e2"
    using inv libs w(2) ok(2,4) run(3) by (simp_all add: e2_def lsm_inv_def)
  show ?thesis
  proof (cases "op_memtable_size opt \<le> tbl_size ?m")
    case True
    then have mf: "maybe_flush_memtable L now e2 = (e', r)" using run2 by simp
    show ?thesis using flush_view [OF core2 e2(1-4) ok2 e2(5,6), of now] e2(7) run(2) unfolding mf fst_conv snd_conv view2 by blast
  next
    case False
    then have "e' = e2" "r = Ok ()" using run2 by simp_all
    with ok2 view2 show ?thesis by simp
  qed
qed

fun lsm_spec :: "u64 \<times> lsm_call \<Rightarrow> (bytes \<rightharpoonup> bytes) \<Rightarrow> (bytes \<rightharpoonup> bytes) \<times> (KeyValueError, bytes option) res" where
  "lsm_spec (now, CGet k) m = (m, Ok (m k))"
| "lsm_spec (now, c) m = (call_effect c m, Ok None)"

text \<open>The calls covered: they fit into a log record, do not panic, cause no compaction, and file numbers are left.\<close>

definition lsm_guard :: "lsm_libs \<Rightarrow> u64 \<times> lsm_call \<Rightarrow> LSMTreeEngine \<Rightarrow> bool" where
  "lsm_guard L c e \<longleftrightarrow> call_fits (snd c) \<and> eng_next_file_number e \<noteq> - 1 \<and> snd (engine_do L c e) \<noteq> Inl Panicked \<and>
     eng_total_compactions (fst (engine_do L c e)) = eng_total_compactions e"

definition lsm_state :: "lsm_libs \<Rightarrow> LSMTreeOptions \<Rightarrow> LSMTreeEngine \<Rightarrow> bool" where
  "lsm_state L opt e \<longleftrightarrow> libs_ok L opt \<and> op_compression opt \<noteq> Lz4 \<and> (\<exists>xs. lsm_inv L opt e xs) \<and> map_ok L e"

abbreviation implements :: "lsm_libs \<Rightarrow> u64 \<times> lsm_call \<Rightarrow> LSMTreeEngine \<Rightarrow> bool" where
  "implements L c e \<equiv> map_ok L (fst (engine_do L c e)) \<and>
     lsm_view L (fst (engine_do L c e)) = fst (lsm_spec c (lsm_view L e)) \<and> snd (engine_do L c e) = snd (lsm_spec c (lsm_view L e))"

lemma get_view:
  assumes "map_ok L e" "lossless (ll_codec L)"
  shows "implements L (now, CGet k) e"
proof -
  let ?e = "e\<lparr>eng_total_reads := eng_total_reads e + 1\<rparr>"
  have ok: "map_ok L ?e" using assms(1) by (simp add: map_ok_def)
  have "lsm_view L ?e = lsm_view L e" by (rule lsm_view_cong [OF assms(1) ok assms(2)]) simp_all
  with ok read_ok [OF ok assms(2)] show ?thesis by (simp add: engine_get_def Let_def)
qed

lemma clear_view:
  assumes "lsm_inv L opt e xs" "libs_ok L opt"
  shows "implements L (now, CClear) e"
proof -
  obtain e' r where run: "engine_clear L e = (e', r)" by fastforce
  note c = clear_run [OF assms run]
  have lossless: "lossless (ll_codec L)" using assms(2) by (simp add: libs_ok_def)
  have ne: "eng_levels e' \<noteq> []" using c(2) by (simp add: lsm_inv_def lsm_core_def)
  then have l0: "lv_sstables (eng_levels e' ! 0) = []" using c(4) by simp
  have "list_all (\<lambda>l. lv_sstables l = []) (tl (eng_levels e'))" using c(4) ne by (auto simp: list_all_iff dest: list.set_sel(2))
  then have ok: "map_ok L e'" using c(2,3) ne l0 by (simp add: map_ok_def lsm_inv_def tbl_entries_def)
  have "lsm_view L e' = Map.empty"
    using c(3) l0 by (simp add: fun_eq_iff lsm_view_eq [OF ok lossless] tbl_get_def table_find_def)
  with ok c(1) run show ?thesis by (simp add: no_value_def)
qed

lemma checkpoint_view:
  assumes "lsm_inv L opt e xs" "libs_ok L opt" "map_ok L e"
  shows "implements L (now, CCheckpoint) e"
proof -
  from checkpoint_run [OF assms(1,2)] obtain op w d where
    run: "engine_checkpoint L e = (e\<lparr>eng_wal := w, eng_fs := (eng_fs e)\<lparr>fs_manifest := Some d\<rparr>\<rparr>, Ok ())" .
  let ?e = "e\<lparr>eng_wal := w, eng_fs := (eng_fs e)\<lparr>fs_manifest := Some d\<rparr>\<rparr>"
  have "table_live L ((eng_fs e)\<lparr>fs_manifest := Some d\<rparr>) = table_live L (eng_fs e)" by (simp add: fun_eq_iff table_live_def)
  then have ok: "map_ok L ?e" using assms(3) by (simp add: map_ok_def)
  have "lsm_view L ?e = lsm_view L e" by (rule lsm_view_cong [OF assms(3) ok]) (use assms(2) in \<open>simp_all add: libs_ok_def\<close>)
  with ok run show ?thesis by (simp add: no_value_def)
qed

lemma put_view:
  assumes "lsm_inv L opt e xs" "libs_ok L opt" "map_ok L e" "eng_next_file_number e \<noteq> - 1" "op_compression opt \<noteq> Lz4" "call_fits (CPut k v)"
    and "engine_put L now k v e = (e', r)" "r \<noteq> Inl Panicked" "eng_total_compactions e' = eng_total_compactions e"
  shows "r = Ok () \<and> map_ok L e' \<and> lsm_view L e' = (lsm_view L e)(k \<mapsto> v)"
  by (rule write_view [OF assms(1,2), where op = "RPut k v" and entry = "\<lambda>s. Entry_with_commit_ts k (Some v) s (eng_timestamp e)"])
     (use assms(3-) entry_bounds [of k "Some v"] in
       \<open>auto simp: engine_put_def call_fits_def next_timestamp_def tbl_put_committed_def Entry_with_commit_ts_def\<close>)

lemma delete_view:
  assumes "lsm_inv L opt e xs" "libs_ok L opt" "map_ok L e" "eng_next_file_number e \<noteq> - 1" "op_compression opt \<noteq> Lz4" "call_fits (CDelete k)"
    and "engine_delete L now k e = (e', r)" "r \<noteq> Inl Panicked" "eng_total_compactions e' = eng_total_compactions e"
  shows "r = Ok () \<and> map_ok L e' \<and> lsm_view L e' = (lsm_view L e)(k := None)"
  by (rule write_view [OF assms(1,2), where op = "RDelete k" and entry = "\<lambda>s. Entry_with_commit_ts k None s (eng_timestamp e)"])
     (use assms(3-) entry_bounds [of k None] in
       \<open>auto simp: engine_delete_def call_fits_def next_timestamp_def tbl_delete_committed_def Entry_with_commit_ts_def\<close>)

lemma put_committed_view:
  assumes "lsm_inv L opt e xs" "libs_ok L opt" "map_ok L e" "eng_next_file_number e \<noteq> - 1" "op_compression opt \<noteq> Lz4" "call_fits (CPutCommitted k v ts)"
    and "engine_put_committed L now k v ts dur e = (e', r)" "r \<noteq> Inl Panicked" "eng_total_compactions e' = eng_total_compactions e"
  shows "r = Ok () \<and> map_ok L e' \<and> lsm_view L e' = (lsm_view L e)(k \<mapsto> v)"
  by (rule write_view [OF assms(1,2), where op = "RPutCommitted k v ts" and entry = "\<lambda>s. Entry_with_commit_ts k (Some v) s ts" and ts = "eng_timestamp e"])
     (use assms(3-) entry_bounds [of k "Some v"] in
       \<open>auto simp: engine_put_committed_def call_fits_def tbl_put_committed_def Entry_with_commit_ts_def\<close>)

lemma delete_committed_view:
  assumes "lsm_inv L opt e xs" "libs_ok L opt" "map_ok L e" "eng_next_file_number e \<noteq> - 1" "op_compression opt \<noteq> Lz4" "call_fits (CDeleteCommitted k ts)"
    and "engine_delete_committed L now k ts dur e = (e', r)" "r \<noteq> Inl Panicked" "eng_total_compactions e' = eng_total_compactions e"
  shows "r = Ok () \<and> map_ok L e' \<and> lsm_view L e' = (lsm_view L e)(k := None)"
  by (rule write_view [OF assms(1,2), where op = "RDeleteCommitted k ts" and entry = "\<lambda>s. Entry_with_commit_ts k None s ts" and ts = "eng_timestamp e"])
     (use assms(3-) entry_bounds [of k None] in
       \<open>auto simp: engine_delete_committed_def call_fits_def tbl_delete_committed_def Entry_with_commit_ts_def\<close>)

lemma no_value_ok [simp]: "snd p = Ok () \<Longrightarrow> snd (no_value p) = Ok None"
  by (simp add: no_value_def)

lemma call_view:
  assumes "lsm_state L opt e" "lsm_guard L c e"
  shows "implements L c e"
proof -
  obtain xs where inv: "lsm_inv L opt e xs" and libs: "libs_ok L opt" and ok: "map_ok L e" and alg: "op_compression opt \<noteq> Lz4" using assms(1) by (auto simp: lsm_state_def)
  obtain now call where c: "c = (now, call)" by (cases c)
  have opt: "eng_options e = opt" "\<not> eng_flush_in_progress e" "\<not> eng_compaction_in_progress e" "lsm_core L e xs"
    "mem_ready (lsm_op_keys xs) (eng_memtable e)" using inv by (simp_all add: lsm_inv_def)
  have g: "call_fits call" "eng_next_file_number e \<noteq> - 1" "snd (engine_do L (now, call) e) \<noteq> Inl Panicked"
     "eng_total_compactions (fst (engine_do L (now, call) e)) = eng_total_compactions e" using assms(2) by (auto simp: lsm_guard_def c)
  note views = put_view [OF inv libs ok g(2) alg _ surjective_pairing] delete_view [OF inv libs ok g(2) alg _ surjective_pairing]
    put_committed_view [OF inv libs ok g(2) alg _ surjective_pairing] delete_committed_view [OF inv libs ok g(2) alg _ surjective_pairing]
  have lossless: "lossless (ll_codec L)" using libs by (simp add: libs_ok_def)
  show ?thesis
  proof (cases call)
    case (CGet k)
    then show ?thesis using get_view [OF ok lossless, of now k] by (simp add: c)
  next
    case CFlush
    then have "snd (maybe_flush_memtable L now e) \<noteq> Inl Panicked" using g(3) by (simp add: engine_flush_def)
    with CFlush g(4) flush_view [OF opt(4) _ opt(5,2,3) ok g(2), of now] libs opt(1) alg show ?thesis by (simp add: c engine_flush_def no_value_def)
  next
    case CCompact
    then have "snd (maybe_compact L now e) \<noteq> Inl Panicked" using g(3) by (simp add: engine_compact_def)
    with CCompact g(4) maybe_compact_quiet [OF opt(3), of L now] ok show ?thesis by (simp add: c engine_compact_def no_value_def)
  next
    case CCheckpoint
    then show ?thesis using checkpoint_view [OF inv libs ok, of now] by (simp add: c)
  next
    case CClear
    then show ?thesis using clear_view [OF inv libs, of now] by (simp add: c)
  qed (use g views in \<open>simp_all add: c\<close>)
qed

interpretation engine: simulation "lsm_state L opt" "lsm_view L" "lsm_guard L" "engine_do L" lsm_spec for L opt
proof
  fix e c assume e: "lsm_state L opt e" "lsm_guard L c e"
  note call_view [OF e]
  moreover have "\<exists>xs. lsm_inv L opt (fst (engine_do L c e)) xs"
    using e call_inv [of L opt e _ c] by (force simp: lsm_state_def lsm_guard_def)
  ultimately show "lsm_state L opt (fst (engine_do L c e))" "lsm_view L (fst (engine_do L c e)) = fst (lsm_spec c (lsm_view L e))"
    "snd (engine_do L c e) = snd (lsm_spec c (lsm_view L e))" using e(1) by (simp_all add: lsm_state_def)
qed

lemma lsm_state_new:
  assumes "manager_new (ll_hash L) now (\<lambda>_. None) root c = Ok w" "LSMTreeEngine_new L (empty_fs blobs) opt w ts = (e0, r)" "libs_ok L opt"
    and "op_compression opt \<noteq> Lz4"
  shows "lsm_state L opt e0" "lsm_view L e0 = Map.empty"
proof -
  note new = lsm_new_inv [OF assms(1,2)]
  have levels: "eng_levels e0 = map Level_new [0..<7]"
    using assms(2) by (auto simp: LSMTreeEngine_new_def Let_def load_manifest_def engine_recover_from_wal_def split: sum.splits prod.splits)
  have "map_of (tbl_data (eng_memtable e0)) = Map.empty" using new(3) by (simp add: fun_eq_iff tbl_get_def)
  then have ok: "map_ok L e0" using new(1) by (simp add: map_ok_def levels lsm_inv_def tbl_entries_def upt_rec Level_new_def)
  then show "lsm_state L opt e0" using new(1) assms(3,4) by (auto simp: lsm_state_def)
  show "lsm_view L e0 = Map.empty"
    using new(3) assms(3) by (simp add: fun_eq_iff lsm_view_eq [OF ok] libs_ok_def table_find_def levels Level_new_def)
qed

end
