(* ===== verification/Lsm_Props.thy ===== *)
theory Lsm_Props
  imports Lsm_Map
begin

text \<open>
  The properties of the LSM engine as a whole: its lookups refine a map until a compaction runs, and a
  restart restores what was written, whatever flushes and compactions ran. They are applied to a short
  run with a flush; for it, a manifest encoding is given that meets what is assumed of the JSON library.
\<close>

section \<open>Properties\<close>

text \<open>
  C6: The LSM engine is a map until a compaction runs. On a new engine, any sequence of puts, deletes,
  lookups, flushes, checkpoints and clears in which no call panics, no compaction starts and file numbers
  do not run out is answered without an error and exactly as a map answers it: lookups find the last
  write in the memtable or in the newest table that has the key. The compression is not LZ4 (whose blocks
  may be unreadable) and does not fail; blocks are below 64 MiB, the memtable limit is at most 32 GiB, and
  keys and values fit into a log record.
\<close>

theorem lsm_refines_map:
  assumes "manager_new (ll_hash L) now (\<lambda>_. None) root c = Ok w" "LSMTreeEngine_new L (empty_fs blobs) opt w ts = (e0, r)"
    and "libs_ok L opt" "op_compression opt \<noteq> Lz4" "allowed_run (lsm_guard L) (engine_do L) calls e0"
  shows "snd (run (engine_do L) calls e0) = snd (run lsm_spec calls Map.empty) \<and>
    (\<forall>k. snd (engine_get L k (fst (run (engine_do L) calls e0))) = Ok (fst (run lsm_spec calls Map.empty) k))"
proof -
  note new = lsm_state_new [OF assms(1-4)]
  note run = engine.run_refines [OF new(1) assms(5)]
  have "snd (engine_get L k e) = Ok (lsm_view L e k)" if "lsm_state L opt e" for e k
    using get_view [of L e 0 k] that by (simp add: lsm_state_def libs_ok_def)
  with run new(2) show ?thesis by simp
qed

text \<open>
  C7: After any sequence of puts, deletes, lookups, flushes, compactions and checkpoints on a new LSM
  engine, starting an engine on the log and the files it left behind succeeds, and lookups there return
  for every key exactly its last write. This does not depend on which flushes and compactions ran, whether
  the tables can be decompressed, or whether calls reported errors, only on no call having panicked. The
  compression does not fail, and sizes are limited as for the previous property.
\<close>

theorem lsm_recovery_exact:
  assumes "manager_new (ll_hash L) now (\<lambda>_. None) root c = Ok w" "LSMTreeEngine_new L (empty_fs blobs) opt w ts = (e0, r)"
    and "libs_ok L opt" "list_all (\<lambda>c. call_fits (snd c) \<and> snd c \<noteq> CClear) calls"
    and "run (engine_do L) calls e0 = (e, answers)" "Inl Panicked \<notin> set answers"
  shows "\<exists>w' e'. manager_new (ll_hash L) now' (\<lambda>_. Some (wf_file (wm_active (eng_wal e)))) root c = Ok w' \<and>
    LSMTreeEngine_new L (eng_fs e) opt w' ts' = (e', Ok ()) \<and>
    (\<forall>k. snd (engine_get L k e') = Ok (fold (\<lambda>c. call_effect (snd c)) calls Map.empty k))"
proof -
  have "list_all (\<lambda>c. call_fits (snd c)) calls" using assms(4) by (simp add: list_all_iff)
  from run_inv [OF assms(3) lsm_new_inv(1) [OF assms(1,2)] this assms(5,6)] obtain zs where
    zs: "lsm_inv L opt e zs" "\<And>m. fold lsm_op_effect zs m = fold (\<lambda>c. fold lsm_op_effect (call_ops (snd c))) calls m" by auto
  with restart_get [of L e zs now' root c opt ts'] calls_effect [OF assms(4)] assms(3) show ?thesis
    by (simp add: lsm_inv_def libs_ok_def)
qed

text \<open>
  Clearing an LSM engine is undone by a restart. The clear empties the engine but is not logged, so
  an engine started on the same log and files has all entries again that were written before.
\<close>

theorem lsm_clear_undone:
  assumes "manager_new (ll_hash L) now (\<lambda>_. None) root c = Ok w" "LSMTreeEngine_new L (empty_fs blobs) opt w ts = (e0, r)"
    and "libs_ok L opt" "list_all (\<lambda>c. call_fits (snd c) \<and> snd c \<noteq> CClear) calls"
    and "run (engine_do L) calls e0 = (e, answers)" "Inl Panicked \<notin> set answers"
    and "engine_clear L e = (e1, r1)"
  shows "r1 = Ok () \<and> (\<forall>k. snd (engine_get L k e1) = Ok None) \<and>
    (\<exists>w' e'. manager_new (ll_hash L) now' (\<lambda>_. Some (wf_file (wm_active (eng_wal e1)))) root c = Ok w' \<and>
      LSMTreeEngine_new L (eng_fs e1) opt w' ts' = (e', Ok ()) \<and>
      (\<forall>k. snd (engine_get L k e') = Ok (fold (\<lambda>c. call_effect (snd c)) calls Map.empty k)))"
proof -
  have "list_all (\<lambda>c. call_fits (snd c)) calls" using assms(4) by (simp add: list_all_iff)
  from run_inv [OF assms(3) lsm_new_inv(1) [OF assms(1,2)] this assms(5,6)] obtain zs where
    zs: "lsm_inv L opt e zs" "\<And>m. fold lsm_op_effect zs m = fold (\<lambda>c. fold lsm_op_effect (call_ops (snd c))) calls m" by auto
  note e1 = clear_run [OF zs(1) assms(3,7)]
  have "snd (engine_get L k e1) = Ok None" for k
  proof -
    have "search_level0 L e' k [] = Ok None" "\<forall>l \<in> set ls. lv_sstables l = [] \<Longrightarrow> search_levels L e' k ls = Ok None" for e' ls
      by (simp, induction ls) (simp_all add: find_sstable_def binary_search_by_def)
    with e1(2,3,4) show ?thesis
      by (auto simp: engine_get_def Let_def read_through_def tbl_get_def lsm_inv_def lsm_core_def search_tables_def split: list.split)
  qed
  with e1 restart_get [of L e1 zs now' root c opt ts'] zs calls_effect [OF assms(4)] assms(3) show ?thesis
    by (simp add: lsm_inv_def libs_ok_def)
qed

section \<open>A manifest encoding\<close>

definition put_num :: "nat \<Rightarrow> bytes" where
  "put_num n = replicate n 1 @ [0]"

definition take_num :: "bytes \<Rightarrow> nat \<times> bytes" where
  "take_num bs = (length (takeWhile ((=) 1) bs), tl (dropWhile ((=) 1) bs))"

definition put_bytes :: "bytes \<Rightarrow> bytes" where
  "put_bytes b = put_num (length b) @ b"

definition take_bytes :: "bytes \<Rightarrow> bytes \<times> bytes" where
  "take_bytes bs = (case take_num bs of (n, bs) \<Rightarrow> (take n bs, drop n bs))"

definition put_entry :: "ManifestEntry \<Rightarrow> bytes" where
  "put_entry x = put_num (unat (mn_file_number x)) @ put_num (mn_level x) @
     (let m = mn_metadata x in put_num (unat (sm_file_number m)) @ put_num (sm_level m) @ put_bytes (sm_min_key m) @
        put_bytes (sm_max_key m) @ put_num (unat (sm_min_sequence m)) @ put_num (unat (sm_max_sequence m)) @
        put_num (unat (sm_entry_count m)) @ put_num (unat (sm_file_size m)) @ put_num (unat (sm_created_at m)))"

definition take_entry :: "bytes \<Rightarrow> ManifestEntry \<times> bytes" where
  "take_entry bs =
     (let (n, bs) = take_num bs; (level, bs) = take_num bs; (fno, bs) = take_num bs; (lv, bs) = take_num bs;
          (min_key, bs) = take_bytes bs; (max_key, bs) = take_bytes bs; (min_seq, bs) = take_num bs; (max_seq, bs) = take_num bs;
          (count, bs) = take_num bs; (sz, bs) = take_num bs; (created, bs) = take_num bs
      in (\<lparr>mn_file_number = word_of_nat n, mn_level = level, mn_metadata =
            \<lparr>sm_file_number = word_of_nat fno, sm_level = lv, sm_min_key = min_key, sm_max_key = max_key,
             sm_min_sequence = word_of_nat min_seq, sm_max_sequence = word_of_nat max_seq, sm_entry_count = word_of_nat count,
             sm_file_size = word_of_nat sz, sm_created_at = word_of_nat created\<rparr>\<rparr>, bs))"

primrec take_entries :: "nat \<Rightarrow> bytes \<Rightarrow> ManifestEntry list" where
  "take_entries 0 bs = []"
| "take_entries (Suc n) bs = (case take_entry bs of (x, bs) \<Rightarrow> x # take_entries n bs)"

definition demo_json :: json_lib where
  "demo_json = \<lparr>json_write = (\<lambda>ms. Inr (put_num (length ms) @ concat (map put_entry ms))),
                json_read = (\<lambda>d. Inr (case take_num d of (n, bs) \<Rightarrow> take_entries n bs))\<rparr>"

lemma take_put [simp]: "take_num (put_num n @ bs) = (n, bs)" "take_bytes (put_bytes b @ bs) = (b, bs)"
proof -
  show num: "take_num (put_num n @ bs) = (n, bs)" for n bs
    by (simp add: take_num_def put_num_def takeWhile_append dropWhile_append)
  show "take_bytes (put_bytes b @ bs) = (b, bs)" by (simp add: take_bytes_def put_bytes_def num)
qed

lemma take_put_entry: "take_entry (put_entry x @ bs) = (x, bs)"
  by (simp add: take_entry_def put_entry_def Let_def)

lemma take_put_entries: "take_entries (length ms) (concat (map put_entry ms)) = ms"
  by (induction ms) (simp_all add: take_put_entry)

lemma demo_json_serializes: "serializes demo_json"
  by (simp add: serializes_def demo_json_def take_put_entries)

section \<open>A run\<close>

text \<open>A write that leaves the memtable below its limit only changes the log, the memtable and counters.\<close>

lemma write_quiet:
  assumes "lsm_inv L opt e xs" "libs_ok L opt" "lsm_op_fits op" "lsm_op_key op = {k}"
    and "lsm_op_record op = \<lparr>wr_kind = lsm_kind_to_u16 kind, wr_payload = payload\<rparr>"
    and "\<And>s. e_key (entry s) = k" "\<And>s. entry_small (entry s)" "\<And>s. entry_size (entry s) \<le> 2 ^ 32"
    and "\<And>w. rest (e\<lparr>eng_wal := w\<rparr>) () =
      after_write L now (fst (tbl_write (eng_memtable e) k entry)) (e\<lparr>eng_wal := w, eng_timestamp := ts\<rparr>)"
    and "tbl_size (fst (tbl_write (eng_memtable e) k entry)) < op_memtable_size opt"
  shows "\<exists>w. and_then (engine_append L msg kind payload dur e) rest =
    (e\<lparr>eng_wal := w, eng_timestamp := ts, eng_memtable := fst (tbl_write (eng_memtable e) k entry),
       eng_total_writes := eng_total_writes e + 1\<rparr>, Ok ())"
proof -
  obtain w where "and_then (engine_append L msg kind payload dur e) rest =
      after_write L now (fst (tbl_write (eng_memtable e) k entry)) (e\<lparr>eng_wal := w, eng_timestamp := ts\<rparr>)"
    using write_run [where entry = entry and rest = rest and now = now and ts = ts, OF assms(1-9)] .
  moreover have "eng_options e = opt" using assms(1) by (simp add: lsm_inv_def)
  ultimately show ?thesis using assms(10) by (auto simp: after_write_def Let_def not_le)
qed

lemma put_quiet:
  assumes "lsm_inv L opt e xs" "libs_ok L opt" "call_fits (CPut k v)"
    and "tbl_size (fst (tbl_put_committed (eng_memtable e) k v (eng_timestamp e))) < op_memtable_size opt"
  shows "\<exists>w. engine_put L now k v e = (e\<lparr>eng_wal := w, eng_timestamp := eng_timestamp e + 1,
    eng_memtable := fst (tbl_put_committed (eng_memtable e) k v (eng_timestamp e)), eng_total_writes := eng_total_writes e + 1\<rparr>, Ok ())"
  unfolding engine_put_def tbl_put_committed_def
  by (rule write_quiet [OF assms(1,2), where op = "RPut k v" and k = k])
     (use assms(3,4) entry_bounds [of k "Some v"] in \<open>auto simp: call_fits_def next_timestamp_def tbl_put_committed_def\<close>)

lemma delete_quiet:
  assumes "lsm_inv L opt e xs" "libs_ok L opt" "call_fits (CDelete k)"
    and "tbl_size (fst (tbl_delete_committed (eng_memtable e) k (eng_timestamp e))) < op_memtable_size opt"
  shows "\<exists>w. engine_delete L now k e = (e\<lparr>eng_wal := w, eng_timestamp := eng_timestamp e + 1,
    eng_memtable := fst (tbl_delete_committed (eng_memtable e) k (eng_timestamp e)), eng_total_writes := eng_total_writes e + 1\<rparr>, Ok ())"
  unfolding engine_delete_def tbl_delete_committed_def
  by (rule write_quiet [OF assms(1,2), where op = "RDelete k" and k = k])
     (use assms(3,4) entry_bounds [of k None] in \<open>auto simp: call_fits_def next_timestamp_def tbl_delete_committed_def\<close>)

text \<open>The first flush of an engine causes no compaction.\<close>

lemma first_flush_quiet:
  assumes inv: "lsm_inv L opt e xs" and libs: "libs_ok L opt" and levels: "eng_levels e = map Level_new [0..<7]"
    and ne: "tbl_data (eng_memtable e) \<noteq> []" and fits: "length (mem_buffer (fst (flush_table L now e (eng_memtable e)))) < 2 ^ 63"
  shows "\<exists>e'. maybe_flush_memtable L now e = (e', Ok ()) \<and> eng_total_compactions e' = eng_total_compactions e \<and>
    eng_next_file_number e' = eng_next_file_number e + 1"
proof -
  let ?e = "e\<lparr>eng_flush_in_progress := True, eng_memtable := MemTable_new, eng_immutable := Some (eng_memtable e)\<rparr>"
  have idle: "eng_options e = opt" "eng_immutable e = None" "\<not> eng_flush_in_progress e" "\<not> eng_compaction_in_progress e"
    "mem_ready (lsm_op_keys xs) (eng_memtable e)" using inv by (simp_all add: lsm_inv_def)
  have "lsm_core L ?e xs" "libs_ok L (eng_options ?e)" "eng_immutable ?e = Some (eng_memtable e)"
    "length (mem_buffer (fst (flush_table L now ?e (eng_memtable e)))) < 2 ^ 63"
    using inv libs fits by (simp_all add: lsm_inv_def lsm_core_def lsm_log_def)
  from flush_run [OF this(1,2,3) idle(5) this(4) ne] obtain f meta w d ys lsn e4 where
    e4: "flush_immutable_memtable L now ?e = maybe_compact L now e4" "flush_table L now ?e (eng_memtable e) = (f, Ok meta)"
    "length (mem_buffer f) < 2 ^ 63" "e4 = ?e\<lparr>eng_next_file_number := eng_next_file_number ?e + 1,
       eng_fs := (eng_fs ?e)\<lparr>fs_sst := (fs_sst (eng_fs ?e))(eng_next_file_number ?e \<mapsto> mem_buffer f), fs_manifest := Some d\<rparr>,
       eng_wal := w, eng_levels := (eng_levels ?e)[0 := add_sstable meta (eng_levels ?e ! 0)],
       eng_total_flushes := eng_total_flushes ?e + 1, eng_flushed_lsn := Some lsn\<rparr>" "markers ys" "lsm_core L e4 (xs @ ys)" .
  have "eng_levels e4 = add_sstable meta (Level_new 0) # map Level_new [1..<7]" by (simp add: e4(4) levels upt_rec)
  then have "\<not> needs_compaction (eng_levels e4 ! i) n" if "i < 7" for i n
    using that by (cases i) (simp_all add: needs_compaction_def add_sstable_def Level_new_def)
  moreover have "length (eng_levels e4) = 7" by (simp add: e4(4) levels)
  ultimately have "compact_if_needed L now (e4\<lparr>eng_compaction_in_progress := True\<rparr>) = (e4\<lparr>eng_compaction_in_progress := True\<rparr>, Ok ())"
    by (auto simp: compact_if_needed_def list_ex_iff)
  then have "maybe_compact L now e4 = (e4\<lparr>eng_compaction_in_progress := False\<rparr>, Ok ())"
    using idle(4) by (simp add: maybe_compact_def e4(4))
  then show ?thesis using idle e4(1) by (simp add: maybe_flush_memtable_def) (simp add: e4(4))
qed

lemma new_engine:
  assumes "manager_new (ll_hash L) now (\<lambda>_. None) root c = Ok w" "LSMTreeEngine_new L (empty_fs blobs) opt w ts = (e0, r)"
  shows "eng_memtable e0 = MemTable_new" "eng_timestamp e0 = ts" "eng_levels e0 = map Level_new [0..<7]" "eng_next_file_number e0 = 1"
proof -
  define e1 where "e1 = \<lparr>eng_options = opt, eng_fs = empty_fs blobs, eng_wal = w, eng_flushed_lsn = None, eng_memtable = MemTable_new,
     eng_immutable = None, eng_levels = map Level_new [0..<7], eng_next_file_number = 1, eng_flush_in_progress = False,
     eng_compaction_in_progress = False, eng_total_writes = 0, eng_total_reads = 0, eng_total_flushes = 0,
     eng_total_compactions = 0, eng_timestamp = ts\<rparr>"
  have "load_manifest L e1 = (e1, Ok ())" by (simp add: load_manifest_def e1_def)
  then have run: "engine_recover_from_wal L e1 = (e0, r)" using assms(2) by (simp add: LSMTreeEngine_new_def Let_def flip: e1_def)
  have w: "eng_wal e1 = w" by (simp add: e1_def)
  obtain h where h: "wal_holds (ll_hash L) h (wm_active w) []" "sh_segment_id h = 0"
    using lsm_new_log [OF assms(1) w] w by (auto simp: lsm_log_def)
  let ?rd = "walfile_reader_from_offset (wm_active w) HEADER_SIZE"
  have "manager_reader_from w LSN_ZERO = Ok (wf_file (wm_active w), ?rd)"
    using h by (simp add: manager_reader_from_def LSN_ZERO_def wal_holds_def)
  moreover have "lsm_replay_loop (length (wf_file (wm_active w)) + 1) (ll_hash L) (wf_file (wm_active w)) ?rd s = (s, Ok ())" for s
    using h by (simp add: wal_holds_def log_image_def reader_next_end)
  ultimately have "e0 = e1" using run by (simp add: engine_recover_from_wal_def w del: lsm_replay_loop.simps)
  then show "eng_memtable e0 = MemTable_new" "eng_timestamp e0 = ts" "eng_levels e0 = map Level_new [0..<7]" "eng_next_file_number e0 = 1"
    by (simp_all add: e1_def)
qed

definition demo_libs :: lsm_libs where
  "demo_libs = \<lparr>ll_hash = zero_hash, ll_codec = demo_codec, ll_json = demo_json, ll_remove = (\<lambda>_. None)\<rparr>"

definition demo_options :: LSMTreeOptions where
  "demo_options = \<lparr>op_shard_id = 1, op_integrity = Crc32c, op_compression = Zstd, op_memtable_size = 1000, op_block_size = 30,
     op_durability = Sync\<rparr>"

definition demo_session :: "(u64 \<times> lsm_call) list" where
  "demo_session = [(0, CPut [1] [7]), (0, CPut [2] [8]), (0, CDelete [1]), (0, CFlush), (0, CGet [2]), (0, CGet [1])]"

definition demo_mem1 :: MemTable where
  "demo_mem1 = fst (tbl_put_committed MemTable_new [1] [7] 5)"

definition demo_mem2 :: MemTable where
  "demo_mem2 = fst (tbl_put_committed demo_mem1 [2] [8] 6)"

definition demo_mem :: MemTable where
  "demo_mem = fst (tbl_delete_committed demo_mem2 [1] 7)"

lemma demo_libs_ok: "libs_ok demo_libs demo_options"
  using demo_codec_ok(1,2) demo_json_serializes by (simp add: libs_ok_def demo_libs_def demo_options_def)

lemma demo_compression: "op_compression demo_options \<noteq> Lz4"
  by (simp add: demo_options_def)

lemma demo_mem_facts:
  "tbl_size demo_mem1 < 1000" "tbl_size demo_mem2 < 1000" "tbl_size demo_mem < 1000" "tbl_data demo_mem \<noteq> []"
  by code_simp+

lemma demo_mem_fits: "length (mem_buffer (fst (SSTable_create zero_hash demo_codec 0 empty_file (tbl_entries demo_mem) 1 0 30 Zstd))) < 2 ^ 63"
proof -
  have es: "tbl_entries demo_mem = [Entry_with_commit_ts [1] None 2 7, Entry_with_commit_ts [2] (Some [8]) 1 6]" by code_simp
  obtain f meta where f: "SSTable_create zero_hash demo_codec 0 empty_file (tbl_entries demo_mem) 1 0 30 Zstd = (f, Ok meta)"
    by (rule SSTable_create_total [OF compresses_total [OF demo_codec_ok(2)], of "tbl_entries demo_mem"]) (simp_all add: es)
  have "short_parts zero_hash demo_codec Zstd 30 (tbl_entries demo_mem)" by code_simp
  from short_parts_length [OF this f] f show ?thesis by simp
qed

lemma demo_allowed:
  assumes "manager_new zero_hash 0 (\<lambda>_. None) root c = Ok w" "LSMTreeEngine_new demo_libs (empty_fs blobs) demo_options w 5 = (e0, r)"
  shows "allowed_run (lsm_guard demo_libs) (engine_do demo_libs) demo_session e0"
proof -
  have new: "manager_new (ll_hash demo_libs) 0 (\<lambda>_. None) root c = Ok w" using assms(1) by (simp add: demo_libs_def)
  note e0 = new_engine [OF new assms(2)] and st0 = lsm_state_new(1) [OF new assms(2) demo_libs_ok demo_compression]
  have inv: "\<exists>xs. lsm_inv demo_libs demo_options e xs" if "lsm_state demo_libs demo_options e" for e using that by (simp add: lsm_state_def)
  have sz: "op_memtable_size demo_options = 1000" by (simp add: demo_options_def)
  obtain w1 where s1: "engine_put demo_libs 0 [1] [7] e0 =
      (e0\<lparr>eng_wal := w1, eng_timestamp := 6, eng_memtable := demo_mem1, eng_total_writes := eng_total_writes e0 + 1\<rparr>, Ok ())" (is "_ = (?e1, _)")
    using inv [OF st0] put_quiet [OF _ demo_libs_ok, of e0 _ "[1]" "[7]" 0] demo_mem_facts(1) by (auto simp: e0 sz demo_mem1_def call_fits_def)
  have g1: "lsm_guard demo_libs (0, CPut [1] [7]) e0" by (simp add: lsm_guard_def s1 e0 call_fits_def)
  have st1: "lsm_state demo_libs demo_options ?e1" using engine.step_inv [OF st0 g1] by (simp add: s1)
  obtain w2 where s2: "engine_put demo_libs 0 [2] [8] ?e1 =
      (?e1\<lparr>eng_wal := w2, eng_timestamp := 7, eng_memtable := demo_mem2, eng_total_writes := eng_total_writes ?e1 + 1\<rparr>, Ok ())" (is "_ = (?e2, _)")
    using inv [OF st1] put_quiet [OF _ demo_libs_ok, of ?e1 _ "[2]" "[8]" 0] demo_mem_facts(2) by (auto simp: sz demo_mem2_def call_fits_def)
  have g2: "lsm_guard demo_libs (0, CPut [2] [8]) ?e1" unfolding lsm_guard_def engine_do.simps s2 by (simp add: e0 call_fits_def no_value_def)
  have st2: "lsm_state demo_libs demo_options ?e2" using engine.step_inv [OF st1 g2] unfolding engine_do.simps s2 by simp
  obtain w3 where s3: "engine_delete demo_libs 0 [1] ?e2 =
      (?e2\<lparr>eng_wal := w3, eng_timestamp := 8, eng_memtable := demo_mem, eng_total_writes := eng_total_writes ?e2 + 1\<rparr>, Ok ())" (is "_ = (?e3, _)")
    using inv [OF st2] delete_quiet [OF _ demo_libs_ok, of ?e2 _ "[1]" 0] demo_mem_facts(3) by (auto simp: sz demo_mem_def call_fits_def)
  have g3: "lsm_guard demo_libs (0, CDelete [1]) ?e2" unfolding lsm_guard_def engine_do.simps s3 by (simp add: e0 call_fits_def no_value_def)
  have st3: "lsm_state demo_libs demo_options ?e3" using engine.step_inv [OF st2 g3] unfolding engine_do.simps s3 by simp
  have "eng_options ?e3 = demo_options" using inv [OF st3] by (auto simp: lsm_inv_def)
  then obtain e4 where s4: "maybe_flush_memtable demo_libs 0 ?e3 = (e4, Ok ())" "eng_total_compactions e4 = eng_total_compactions ?e3" "eng_next_file_number e4 = 2"
    using inv [OF st3] first_flush_quiet [OF _ demo_libs_ok, of ?e3 _ 0] demo_mem_fits demo_mem_facts(4) by (auto simp: e0 demo_libs_def demo_options_def)
  have g4: "lsm_guard demo_libs (0, CFlush) ?e3" unfolding lsm_guard_def engine_do.simps engine_flush_def s4(1) using s4(2) by (simp add: e0 call_fits_def no_value_def)
  have st4: "lsm_state demo_libs demo_options e4" using engine.step_inv [OF st3 g4] unfolding engine_do.simps engine_flush_def s4(1) by simp
  have get: "lsm_guard demo_libs (0, CGet k) e \<and> eng_next_file_number (fst (engine_get demo_libs k e)) = eng_next_file_number e"
    if "lsm_state demo_libs demo_options e" "eng_next_file_number e = 2" for k e
    using get_view [of demo_libs e 0 k] that by (simp add: lsm_guard_def lsm_state_def libs_ok_def call_fits_def engine_get_def Let_def)
  have st5: "lsm_state demo_libs demo_options (fst (engine_get demo_libs [2] e4))"
    using engine.step_inv [OF st4 conjunct1 [OF get [OF st4 s4(3)]], of "[2]"] by simp
  have "eng_next_file_number (fst (engine_get demo_libs [2] e4)) = 2" using get [OF st4 s4(3)] s4(3) by simp
  with g1 g2 g3 g4 get [OF st4 s4(3)] get [OF st5] show ?thesis
    unfolding demo_session_def allowed_run.simps engine_do.simps no_value_simps(1) engine_flush_def s1 fst_conv s2 s3 s4(1) by blast
qed

lemma demo_start:
  obtains w e0 r where "manager_new (ll_hash demo_libs) 0 (\<lambda>_. None) ''/wal'' (WalConfig_new 1) = Ok w"
    "LSMTreeEngine_new demo_libs (empty_fs Map.empty) demo_options w 5 = (e0, r)"
    "allowed_run (lsm_guard demo_libs) (engine_do demo_libs) demo_session e0"
proof -
  let ?c = "WalConfig_new 1"
  obtain f where "walfile_create zero_hash 0 [] (wc_shard_id ?c) 0 0 (wc_checksum ?c) (wc_compression ?c) (wc_encryption ?c) 0 = Ok f"
    using create_holds by blast
  then obtain w where w: "manager_new zero_hash 0 (\<lambda>_. None) ''/wal'' ?c = Ok w" by (simp add: manager_new_def)
  obtain e0 r where e0: "LSMTreeEngine_new demo_libs (empty_fs Map.empty) demo_options w 5 = (e0, r)" by fastforce
  from that [OF _ e0 demo_allowed [OF w e0]] w show thesis by (simp add: demo_libs_def)
qed

lemma demo_spec: "run lsm_spec demo_session Map.empty = ([[2] \<mapsto> [8]], [Ok None, Ok None, Ok None, Ok None, Ok (Some [8]), Ok None])"
  by (simp add: demo_session_def fun_eq_iff)

theorem lsm_refines_map_witness:
  "\<exists>w e0 r. manager_new (ll_hash demo_libs) 0 (\<lambda>_. None) ''/wal'' (WalConfig_new 1) = Ok w \<and>
     LSMTreeEngine_new demo_libs (empty_fs Map.empty) demo_options w 5 = (e0, r) \<and>
     snd (run (engine_do demo_libs) demo_session e0) = [Ok None, Ok None, Ok None, Ok None, Ok (Some [8]), Ok None]"
proof -
  obtain w e0 r where e0: "manager_new (ll_hash demo_libs) 0 (\<lambda>_. None) ''/wal'' (WalConfig_new 1) = Ok w"
    "LSMTreeEngine_new demo_libs (empty_fs Map.empty) demo_options w 5 = (e0, r)"
    "allowed_run (lsm_guard demo_libs) (engine_do demo_libs) demo_session e0" by (rule demo_start)
  from lsm_refines_map [OF e0(1,2) demo_libs_ok demo_compression e0(3)] e0(1,2) show ?thesis by (simp add: demo_spec)
qed

theorem lsm_recovery_exact_witness:
  "\<exists>w e0 r w' e'. manager_new (ll_hash demo_libs) 0 (\<lambda>_. None) ''/wal'' (WalConfig_new 1) = Ok w \<and>
     LSMTreeEngine_new demo_libs (empty_fs Map.empty) demo_options w 5 = (e0, r) \<and>
     (let e = fst (run (engine_do demo_libs) demo_session e0) in
        manager_new (ll_hash demo_libs) 9 (\<lambda>_. Some (wf_file (wm_active (eng_wal e)))) ''/wal'' (WalConfig_new 1) = Ok w' \<and>
        LSMTreeEngine_new demo_libs (eng_fs e) demo_options w' 1 = (e', Ok ()) \<and>
        snd (engine_get demo_libs [2] e') = Ok (Some [8]) \<and> snd (engine_get demo_libs [1] e') = Ok None)"
proof -
  obtain w e0 r where e0: "manager_new (ll_hash demo_libs) 0 (\<lambda>_. None) ''/wal'' (WalConfig_new 1) = Ok w"
    "LSMTreeEngine_new demo_libs (empty_fs Map.empty) demo_options w 5 = (e0, r)"
    "allowed_run (lsm_guard demo_libs) (engine_do demo_libs) demo_session e0" by (rule demo_start)
  obtain e answers where run: "run (engine_do demo_libs) demo_session e0 = (e, answers)" by fastforce
  note new = lsm_state_new [OF e0(1,2) demo_libs_ok demo_compression]
  have "Inl Panicked \<notin> set answers" using engine.run_refines [OF new(1) e0(3)] run by (simp add: new(2) demo_spec)
  moreover have "list_all (\<lambda>c. call_fits (snd c) \<and> snd c \<noteq> CClear) demo_session" by (simp add: demo_session_def call_fits_def)
  moreover have "fold (\<lambda>c. call_effect (snd c)) demo_session Map.empty = [[2] \<mapsto> [8]]" by (simp add: demo_session_def fun_eq_iff)
  ultimately show ?thesis using lsm_recovery_exact [OF e0(1,2) demo_libs_ok _ run, of 9 1] e0(1,2) run by fastforce
qed

end
