(* ===== verification/Spec2Isabelle.thy ===== *)
theory Spec2Isabelle
  imports BTree_Store Mvcc_Txn Art_Props Lsm_Props
begin

text \<open>
  Verification of the storage engines of nanograph, an embedded key-value and graph database.

  \<^bold>\<open>The program.\<close> A \<^emph>\<open>shard store\<close> (\<open>nanograph-kvt/src/kvstore.rs\<close>) keeps ordered key-value maps, one per
  shard. Several crates implement it: \<open>nanograph-kvt/src/memory.rs\<close> in memory, \<open>nanograph-btree\<close> with a
  B+ tree and a write-ahead log. Two more engines are an adaptive radix tree (\<open>nanograph-art\<close>) and a
  log-structured merge tree (\<open>nanograph-lsm\<close>: memtables, sorted string tables, levels, compaction, a
  manifest and a log of its own). The log is the crate \<open>nanograph-wal\<close>, its files come from
  \<open>nanograph-vfs\<close>, its checksums from \<open>nanograph-util\<close>. Shards are named, and keys placed on them, by
  \<open>nanograph-core/src/object/shard.rs\<close>.

  \<^bold>\<open>How the code is modelled.\<close> A struct is a record, an enum a datatype, a method a function that takes
  the state and returns it with the result. A result is a value, an error of the crate, a panic or
  divergence (\<open>NG_Prelude.res\<close>), so every early return and every unchecked index is a branch. Byte
  strings are lists of 8-bit words in lexicographic order. Identifiers, counters and checksums keep
  their width where the code packs, hashes or wraps them; lengths and indices are natural numbers.
  A \<open>BTreeMap\<close> is its sorted list of entries, a \<open>HashMap\<close> a list whose order no theorem depends on.
  Clocks, random identifiers and the functions of third-party crates (\<open>hash_lib\<close> for checksums,
  \<open>codec_lib\<close> for the LZ4, Zstandard and Snappy crates, \<open>json_lib\<close> for the manifest) are arguments; what
  is relied on is named \<open>lossless\<close> (the crates undo their own compression), \<open>compresses\<close> (compression does
  not fail) and \<open>serializes\<close>. Every call is one step, so concurrency is the interleaving of whole calls.
  Where the code holds a lock for the length of a call nothing else can happen; the B+ tree (\<open>tree.rs\<close>)
  locks node by node, and its properties are about calls that do not overlap. The two phases of a commit
  of the versioned tree, between which other calls can run, are separate definitions.

  \<^bold>\<open>Theories.\<close>
  \<^item> \<open>NG_Prelude\<close>: results, vectors, \<open>binary_search_by\<close>, sorted lists as maps, integers as bytes.
  \<^item> \<open>BTree_Node\<close>, \<open>BTree_Tree\<close>: \<open>nanograph-btree/src/node.rs\<close> and \<open>tree.rs\<close>, a heap of nodes with child,
    parent and sibling pointers. \<open>BTree_Inv\<close> ties a heap to the tree it represents; \<open>BTree_Search\<close>,
    \<open>BTree_Insert\<close>, \<open>BTree_Delete\<close> and \<open>BTree_Underflow\<close> show that lookup, insertion with splits and
    deletion with borrowing and merging keep the invariant and act on the entries as on a sorted
    list. \<open>BTree_Iter\<close> is \<open>iterator.rs\<close>, \<open>BTree_Stats\<close> the statistics and the properties of whole trees.
  \<^item> \<open>BTree_Txn\<close>, \<open>BTree_Metrics\<close>, \<open>BTree_Store\<close>: \<open>transaction.rs\<close>, \<open>metrics.rs\<close> and \<open>kvstore.rs\<close>: the store
    answers like the in-memory store, and replaying its log restores its shards.
  \<^item> \<open>Mvcc\<close>, \<open>Mvcc_Txn\<close>: \<open>mvcc.rs\<close>, \<open>mvcc_node.rs\<close>, \<open>mvcc_tree.rs\<close> and \<open>mvcc_transaction.rs\<close>: snapshot
    isolation with first committer wins, over a history of commits, as long as no garbage collection runs
    and commits are not interleaved; and what goes wrong otherwise. Timestamps are natural numbers.
  \<^item> \<open>Util_Integrity\<close>, \<open>Util_Compression\<close>, \<open>Wal_Records\<close>, \<open>Wal\<close>: checksums, compression, record payloads and
    the log: what is appended is read back, and what a torn tail does.
  \<^item> \<open>Art_Node\<close>, \<open>Art_Tree\<close>, \<open>Art_Iter\<close>: \<open>nanograph-art/src/node.rs\<close>, \<open>tree.rs\<close> and \<open>iterator.rs\<close>. \<open>Art_Inv\<close>
    and \<open>Art_Remove\<close> have the invariant of a node, \<open>Art_Map\<close> the map a tree represents, \<open>Art_Scan\<close> which
    entries iteration returns, \<open>Art_Loss\<close> which insertions lose a key, \<open>Art_Props\<close> the properties: the
    tree is a map while insertions stay within what the code handles, and what happens outside.
  \<^item> \<open>Vfs_Memory\<close>, \<open>Lsm_Blob\<close>, \<open>Lsm_Memtable\<close>: \<open>nanograph-vfs/src/memoryfs.rs\<close> as a stream, and
    \<open>bloblog.rs\<close> and \<open>memtable.rs\<close> of \<open>nanograph-lsm\<close>.
  \<^item> \<open>Lsm_Sstable\<close>, \<open>Lsm_Format\<close>, \<open>Lsm_Table\<close>: \<open>sstable.rs\<close>, the round trips of its parts, and that looking up
    and iterating return exactly what was written if the blocks can be decompressed; with LZ4, blocks
    that shrink to less than a quarter cannot.
  \<^item> \<open>Lsm_Compaction\<close>, \<open>Lsm_Engine\<close>: \<open>compaction.rs\<close>, and \<open>engine.rs\<close> with \<open>options.rs\<close>. \<open>Lsm_Recovery\<close> ties the
    state of an engine to the records of its log, \<open>Lsm_Map\<close> to the map its lookups show; \<open>Lsm_Props\<close> has the
    properties: without LZ4 the engine is a map until a compaction runs, and a restart restores the last
    writes.
  \<^item> \<open>Core_Shard\<close>, \<open>Kvt_Error\<close>, \<open>Store_Spec\<close>, \<open>Kvt_Memory\<close>: shard identifiers, key ranges and
    partitioners; the error type; the contract of a shard store as the locale \<open>shard_store\<close>; the
    in-memory store.

  \<^bold>\<open>Interfaces.\<close> The locale \<open>shard_store\<close> (state invariant, view as a map of sorted lists, step
  function) is interpreted by the in-memory store (\<open>mem\<close>) and the B+tree store (\<open>bt\<close>); \<open>two_stores\<close>
  gives the equality of their answers. The locale \<open>payload_format\<close> is interpreted for each log record.
  \<open>Simulation.simulation\<close> is refinement of sequences of allowed calls; the radix tree (\<open>radix\<close>)
  and the LSM engine (\<open>engine\<close>) interpret it.

  \<^bold>\<open>Fuel.\<close> Loops along pointers take fuel: the number of nodes for paths and leaf chains, the size of
  the file for reading a log. Where no such bound is at hand (the iterator of the radix tree) the loop
  is a partial function. The properties show that it is enough: under the invariants the loops
  return, and \<open>Diverged\<close> is never the answer.

  \<^bold>\<open>Not modelled.\<close> Floating-point statistics, tracing and metrics export; persistence through serde; the
  asynchronous store, iterators and transactions around the LSM engine and its unused block cache; the
  engines built on C libraries (\<open>nanograph-lmdb\<close>) and the network layers built on openraft and tonic
  (\<open>nanograph-raft\<close>), whose behaviour is that of those libraries; lock poisoning.
\<close>

end
